(* ===== verification/Prelude.thy ===== *)
theory Prelude
  imports Main "HOL-Library.Word" "HOL-Library.Sublist"
begin

unbundle bit_operations_syntax

section \<open>Shared vocabulary of the BenchPod development\<close>

text \<open>
  What every component theory uses: the C types as words, C strings as lists of
  characters whose end is the terminating NUL, \<^verbatim>\<open>snprintf\<close> into a bounded buffer, decimal
  printing, and generic lemmas on lists and words. The collection \<open>bp_simps\<close> holds the
  unfolding equations the component proofs share.
\<close>

named_theorems bp_simps \<open>unfolding equations of small definitions of the model\<close>

type_synonym u8 = "8 word"
type_synonym u16 = "16 word"
type_synonym u32 = "32 word"
type_synonym u64 = "64 word"

subsection \<open>C strings\<close>

text \<open>
  A \<^verbatim>\<open>const char *p\<close> is the list of the characters from \<open>p\<close> up to the NUL: reading
  \<^verbatim>\<open>*p\<close> at the NUL is the empty list, \<^verbatim>\<open>p + n\<close> is \<^term>\<open>drop n\<close>.
  \<open>snprintf cap s\<close> is what a buffer of \<open>cap\<close> bytes holds after \<^verbatim>\<open>snprintf\<close> of a
  text whose full expansion is \<open>s\<close>.
\<close>

type_synonym cstr = string

definition snprintf :: "nat \<Rightarrow> cstr \<Rightarrow> cstr" where
  "snprintf cap s = take (cap - 1) s"

lemma snprintf_fits: "length s < cap \<Longrightarrow> snprintf cap s = s"
  by (simp add: snprintf_def)

lemma length_snprintf: "0 < cap \<Longrightarrow> length (snprintf cap s) < cap"
  by (auto simp: snprintf_def)

fun dec_digits :: "nat \<Rightarrow> string" where
  "dec_digits n =
     (if n < 10 then [char_of (48 + n)]
      else dec_digits (n div 10) @ [char_of (48 + n mod 10)])"

declare dec_digits.simps [simp del]

fun dec_value :: "string \<Rightarrow> nat" where
  "dec_value s = foldl (\<lambda>v c. 10 * v + (of_char c - 48)) 0 s"

lemma of_char_digit: "d < 10 \<Longrightarrow> of_char (char_of (48 + d) :: char) = (48 + d :: nat)"
  by simp

lemma dec_value_digits: "dec_value (dec_digits n) = n"
proof (induction n rule: dec_digits.induct)
  case (1 n)
  show ?case
  proof (cases "n < 10")
    case True
    then show ?thesis by (subst dec_digits.simps) simp
  next
    case False
    have "n mod 10 < 10" by simp
    with 1 False show ?thesis by (subst dec_digits.simps) simp
  qed
qed

lemma dec_digits_ne_Nil [simp]: "dec_digits n \<noteq> []"
  by (subst dec_digits.simps) simp

subsection \<open>Lists\<close>

lemma length_dropWhile_Cons:
  "dropWhile P xs = y # ys \<Longrightarrow> length ys < length xs"
  using length_dropWhile_le [of P xs] by simp

lemma nth_append_first: "i < length xs \<Longrightarrow> (xs @ ys) ! i = xs ! i"
  by (simp add: nth_append)

subsection \<open>Offsets in a ring\<close>

lemma mod_offset_inj:
  fixes a i j m :: nat
  assumes "(a + i) mod m = (a + j) mod m" and "i < m" and "j < m"
  shows "i = j"
proof -
  have le: "i' = j'" if "(a + i') mod m = (a + j') mod m" "i' \<le> j'" "j' < m" for i' j'
  proof -
    have "m dvd (a + j') - (a + i')"
      using that(1,2) by (metis add_le_cancel_left mod_eq_dvd_iff_nat)
    then show ?thesis using that(2,3) by (auto dest: dvd_imp_le)
  qed
  show ?thesis using le [of i j] le [of j i] assms by (cases "i \<le> j") auto
qed

lemma mod_offset_cong:
  fixes a b i m :: nat
  assumes "a mod m = b mod m"
  shows "(a + i) mod m = (b + i) mod m"
  using assms by (metis mod_add_left_eq)

subsection \<open>Words\<close>

text \<open>Reading a C comparison of unsigned values back as one of naturals.\<close>

lemma word_less_unat: "(a :: 'a::len word) < b \<longleftrightarrow> unat a < unat b"
  by (simp add: word_less_nat_alt)

lemma word_le_unat: "(a :: 'a::len word) \<le> b \<longleftrightarrow> unat a \<le> unat b"
  by (simp add: word_le_nat_alt)

lemmas word_unat_orders = word_less_unat word_le_unat

lemma unat_u8_bound: "unat (a :: u8) < 256"
  by (rule order_less_le_trans [OF unsigned_less]) simp

lemma unat_u16_bound: "unat (a :: u16) < 65536"
  by (rule order_less_le_trans [OF unsigned_less]) simp

lemma unat_u32_bound: "unat (a :: u32) < 4294967296"
  by (rule order_less_le_trans [OF unsigned_less]) simp

lemma unat_u16_sub: "unat ((a :: u16) - b) = (unat a + 65536 - unat b) mod 65536"
  using unat_u16_bound [of a] unat_u16_bound [of b]
  by (auto simp: unat_sub_if_size size_word_def word_le_nat_alt mod_if)

end
