(* ===== verification/Sinks.thy ===== *)
theory Sinks
  imports Prelude
begin

section \<open>All-or-nothing byte sinks\<close>

text \<open>
  Three components of the firmware take bytes into a bounded buffer and promise the same
  thing: a write that fits is appended whole, a write that does not fit leaves what is
  there alone. They are the JSON emitter (\<^verbatim>\<open>bp_json.c\<close>, \<open>emit_bytes\<close>), the cloud
  receive accumulator (\<^verbatim>\<open>cloud_rx.c\<close>, \<open>cloud_rx_append\<close>) and the per-connection transmit
  ring (\<^verbatim>\<open>conn_tx.c\<close>, \<open>conn_tx_write\<close>). The contract is stated once; each component's theory
  interprets it on its own definitions.
\<close>

locale byte_sink =
  fixes invar :: "'s \<Rightarrow> bool"
    and content :: "'s \<Rightarrow> 'a list"
    and room :: "'s \<Rightarrow> nat"
    and put :: "'s \<Rightarrow> 'a list \<Rightarrow> 's"
  assumes put_invar: "invar s \<Longrightarrow> invar (put s xs)"
    and put_fits: "invar s \<Longrightarrow> length xs \<le> room s \<Longrightarrow>
      content (put s xs) = content s @ xs \<and> room (put s xs) = room s - length xs"
    and put_refused: "invar s \<Longrightarrow> room s < length xs \<Longrightarrow>
      content (put s xs) = content s \<and> room (put s xs) \<le> room s"
begin

fun puts :: "'s \<Rightarrow> 'a list list \<Rightarrow> 's" where
  "puts s [] = s"
| "puts s (xs # xss) = puts (put s xs) xss"

lemma puts_append: "puts s (xss @ yss) = puts (puts s xss) yss"
  by (induction xss arbitrary: s) auto

lemma puts_invar: "invar s \<Longrightarrow> invar (puts s xss)"
  by (induction xss arbitrary: s) (auto intro: put_invar)

lemma puts_fits:
  "invar s \<Longrightarrow> length (concat xss) \<le> room s \<Longrightarrow>
   content (puts s xss) = content s @ concat xss \<and>
   room (puts s xss) = room s - length (concat xss)"
proof (induction xss arbitrary: s)
  case (Cons xs xss)
  then have "content (put s xs) = content s @ xs" and "room (put s xs) = room s - length xs"
    using put_fits [of s xs] by auto
  moreover have "invar (put s xs)" using Cons.prems(1) by (rule put_invar)
  ultimately show ?case using Cons.IH [of "put s xs"] Cons.prems(2) by simp
qed simp

lemma put_capacity:
  assumes "invar s"
  shows "length (content (put s xs)) + room (put s xs) \<le> length (content s) + room s"
  using put_fits [OF assms, of xs] put_refused [OF assms, of xs]
  by (cases "length xs \<le> room s") auto

lemma puts_capacity:
  "invar s \<Longrightarrow> length (content (puts s xss)) + room (puts s xss) \<le> length (content s) + room s"
proof (induction xss arbitrary: s)
  case (Cons xs xss)
  from Cons.prems have "invar (put s xs)" by (rule put_invar)
  then have "length (content (puts (put s xs) xss)) + room (puts (put s xs) xss)
      \<le> length (content (put s xs)) + room (put s xs)" by (rule Cons.IH)
  also have "\<dots> \<le> length (content s) + room s" using Cons.prems by (rule put_capacity)
  finally show ?case by simp
qed simp

text \<open>Whatever is written, the buffer holds whole writes only, in order.\<close>

lemma puts_whole_writes:
  "invar s \<Longrightarrow> \<exists>yss. subseq yss xss \<and> content (puts s xss) = content s @ concat yss"
proof (induction xss arbitrary: s)
  case (Cons xs xss)
  from Cons.prems have inv: "invar (put s xs)" by (rule put_invar)
  then obtain yss where yss: "subseq yss xss"
    "content (puts (put s xs) xss) = content (put s xs) @ concat yss"
    using Cons.IH by blast
  show ?case
  proof (cases "length xs \<le> room s")
    case True
    then have "content (puts s (xs # xss)) = content s @ concat (xs # yss)"
      using put_fits [OF Cons.prems True] yss(2) by simp
    moreover have "subseq (xs # yss) (xs # xss)" using yss(1) by simp
    ultimately show ?thesis by blast
  next
    case False
    then have "content (puts s (xs # xss)) = content s @ concat yss"
      using put_refused [OF Cons.prems, of xs] yss(2) by simp
    moreover have "subseq yss (xs # xss)" using yss(1) by (rule list_emb_Cons)
    ultimately show ?thesis by blast
  qed
qed auto

end

end
