(* ===== verification/Json.thy ===== *)
theory Json
  imports Sinks
begin

section \<open>The flat JSON parser and the bounded emitter\<close>

text \<open>
  The model of \<^verbatim>\<open>stm32h563/src/bp_json.c\<close>: the key scans \<open>find_key\<close> (any nesting) and
  \<open>find_key_top\<close> (outermost object only), the value readers built on them, and the
  bounds-tracked emitter. A pointer into the text is the suffix of the text it points at.
  An output buffer of \<open>out_len\<close> bytes is returned as the C string it holds.

  The second half gives the parser its specification: an abstract JSON value, its rendering,
  and the proof that the outermost-object scan is the first-binding lookup of the rendered
  object, whatever the values it has to step over contain.
\<close>

subsection \<open>Scanning\<close>

definition is_ws :: "char \<Rightarrow> bool" where
  "is_ws c \<longleftrightarrow> c = CHR '' '' \<or> c = CHR 0x09 \<or> c = CHR 0x0A \<or> c = CHR 0x0D"

definition skip_ws :: "cstr \<Rightarrow> cstr" where
  "skip_ws p = dropWhile is_ws p"

fun strstr :: "cstr \<Rightarrow> cstr \<Rightarrow> cstr option" where
  "strstr needle [] = (if needle = [] then Some [] else None)"
| "strstr needle (c # p) =
     (if prefix needle (c # p) then Some (c # p) else strstr needle p)"

lemma strstr_Some:
  "strstr needle p = Some q \<Longrightarrow> prefix needle q \<and> suffix q p"
  by (induction needle p rule: strstr.induct) (auto simp: suffix_ConsI split: if_splits)

definition quoted :: "cstr \<Rightarrow> cstr" where
  "quoted key = CHR 0x22 # key @ [CHR 0x22]"

lemma strstr_quoted_less:
  assumes "strstr (quoted key) p = Some q"
  shows "length (tl q) < length p"
proof -
  from strstr_Some [OF assms] have "prefix (quoted key) q" and "suffix q p" by auto
  then have "q \<noteq> []" and "length q \<le> length p"
    by (auto simp: quoted_def suffix_length_le)
  then show ?thesis by (cases q) auto
qed

function find_key_from :: "cstr \<Rightarrow> cstr \<Rightarrow> cstr option" where
  "find_key_from key p =
     (case strstr (quoted key) p of
        None \<Rightarrow> None
      | Some m \<Rightarrow>
          (case skip_ws (drop (length (quoted key)) m) of
             c # q \<Rightarrow> if c = CHR '':'' then Some (skip_ws q) else find_key_from key (tl m)
           | [] \<Rightarrow> find_key_from key (tl m)))"
  by pat_completeness auto
termination
  by (relation "measure (\<lambda>(key, p). length p)") (auto dest: strstr_quoted_less)

declare find_key_from.simps [simp del]

text \<open>The needle buffer is 64 bytes: a key that does not fit it quoted is not found.\<close>

definition find_key :: "cstr \<Rightarrow> cstr \<Rightarrow> cstr option" where
  "find_key json key = (if length (quoted key) \<ge> 64 then None else find_key_from key json)"

subsection \<open>Skipping one value\<close>

text \<open>The loop over the body of a quoted string: stops at the closing quote or the NUL.\<close>

fun skip_str :: "cstr \<Rightarrow> cstr" where
  "skip_str [] = []"
| "skip_str [c] = (if c = CHR 0x22 then [c] else [])"
| "skip_str (c # d # p) =
     (if c = CHR 0x22 then c # d # p
      else if c = CHR 0x5C then skip_str p
      else skip_str (d # p))"

fun skip_container :: "int \<Rightarrow> bool \<Rightarrow> bool \<Rightarrow> cstr \<Rightarrow> cstr option" where
  "skip_container depth in_str esc [] = None"
| "skip_container depth in_str esc (c # p) =
     (if esc then skip_container depth in_str False p
      else if in_str then
        (if c = CHR 0x5C then skip_container depth in_str True p
         else if c = CHR 0x22 then skip_container depth False esc p
         else skip_container depth in_str esc p)
      else if c = CHR 0x22 then skip_container depth True esc p
      else if c = CHR ''{'' \<or> c = CHR ''['' then skip_container (depth + 1) in_str esc p
      else if c = CHR ''}'' \<or> c = CHR '']'' then
        (if depth - 1 = 0 then Some p else skip_container (depth - 1) in_str esc p)
      else skip_container depth in_str esc p)"

definition ends_scalar :: "char \<Rightarrow> bool" where
  "ends_scalar c \<longleftrightarrow> c = CHR '','' \<or> c = CHR ''}'' \<or> c = CHR '']''"

definition skip_value :: "cstr \<Rightarrow> cstr option" where
  "skip_value p =
     (case p of
        [] \<Rightarrow> Some []
      | c # q \<Rightarrow>
          if c = CHR 0x22 then (case skip_str q of [] \<Rightarrow> None | _ # r \<Rightarrow> Some r)
          else if c = CHR ''{'' \<or> c = CHR ''['' then skip_container 0 False False p
          else Some (dropWhile (\<lambda>c. \<not> ends_scalar c) p))"

subsection \<open>Lengths: every scan moves forward\<close>

lemma length_skip_ws: "length (skip_ws p) \<le> length p"
  by (simp add: skip_ws_def length_dropWhile_le)

lemma length_skip_str: "length (skip_str p) \<le> length p"
  by (induction p rule: skip_str.induct) auto

lemma length_skip_container:
  "skip_container d i e p = Some q \<Longrightarrow> length q < length p"
proof (induction p arbitrary: d i e)
  case (Cons c p)
  have "q = p \<or> (\<exists>d' i' e'. skip_container d' i' e' p = Some q)"
    using Cons.prems unfolding skip_container.simps by (simp only: option.inject split: if_split_asm) blast+
  then show ?case using Cons.IH by (auto intro: less_SucI)
qed simp

lemma length_skip_value: "skip_value p = Some q \<Longrightarrow> length q \<le> length p"
proof (cases p)
  case (Cons c p')
  assume sv: "skip_value p = Some q"
  show ?thesis
  proof (cases "c = CHR 0x22")
    case True
    with sv Cons obtain x where "skip_str p' = x # q"
      by (auto simp: skip_value_def split: list.splits)
    with length_skip_str [of p'] Cons show ?thesis by simp
  next
    case False
    with sv Cons show ?thesis
      using length_dropWhile_le [of "\<lambda>c. \<not> ends_scalar c" p] length_skip_container
      by (fastforce simp: skip_value_def split: if_splits)
  qed
qed (simp add: skip_value_def)

subsection \<open>The outermost object\<close>

function find_key_top_from :: "cstr \<Rightarrow> cstr \<Rightarrow> cstr option" where
  "find_key_top_from key p0 =
     (case skip_ws p0 of
        [] \<Rightarrow> None
      | c # ks \<Rightarrow>
          if c = CHR '','' then find_key_top_from key ks
          else if c = CHR ''}'' then None
          else if c \<noteq> CHR 0x22 then None
          else
            (case skip_str ks of
               [] \<Rightarrow> None
             | _ # p1 \<Rightarrow>
                 (let found = take (length ks - Suc (length p1)) ks in
                  case skip_ws p1 of
                    [] \<Rightarrow> None
                  | c2 # p2 \<Rightarrow>
                      if c2 \<noteq> CHR '':'' then None
                      else let p3 = skip_ws p2 in
                           if found = key then Some p3
                           else (case skip_value p3 of
                                   None \<Rightarrow> None
                                 | Some p4 \<Rightarrow> find_key_top_from key p4))))"
  by pat_completeness auto

lemma find_key_top_step_less:
  assumes "skip_ws p0 = c # ks" and "skip_str ks = x # p1" and "skip_ws p1 = c2 # p2"
    and "skip_value (skip_ws p2) = Some p4"
  shows "length p4 < length p0"
proof -
  have "length p4 \<le> length (skip_ws p2)" using assms(4) by (rule length_skip_value)
  also have "\<dots> \<le> length p2" by (rule length_skip_ws)
  also have "\<dots> < length p1" using length_skip_ws [of p1] assms(3) by simp
  also have "\<dots> < length ks" using length_skip_str [of ks] assms(2) by simp
  also have "\<dots> < length p0" using length_skip_ws [of p0] assms(1) by simp
  finally show ?thesis .
qed

termination find_key_top_from
proof (relation "measure (\<lambda>(key, p). length p)", goal_cases)
  case (2 key p0 c ks)
  then show ?case using length_skip_ws [of p0] by simp
next
  case (3 key p0 c ks x p1 found c2 p2 p3 p4)
  then show ?case using find_key_top_step_less [of p0 c ks x p1 c2 p2 p4] by simp
qed simp

declare find_key_top_from.simps [simp del]

definition find_key_top :: "cstr \<Rightarrow> cstr \<Rightarrow> cstr option" where
  "find_key_top json key =
     (case skip_ws json of
        c # p \<Rightarrow> if c = CHR ''{'' then find_key_top_from key p else None
      | [] \<Rightarrow> None)"

subsection \<open>Reading a value\<close>

definition is_xdigit :: "char \<Rightarrow> bool" where
  "is_xdigit c \<longleftrightarrow> c \<in> set ''0123456789abcdefABCDEF''"

fun skip_hex :: "nat \<Rightarrow> cstr \<Rightarrow> cstr" where
  "skip_hex 0 p = p"
| "skip_hex (Suc k) [] = []"
| "skip_hex (Suc k) (c # p) = (if is_xdigit c then skip_hex k p else c # p)"

text \<open>\<open>unescape\<close> is only called with a character behind the backslash.\<close>

fun unescape :: "cstr \<Rightarrow> char \<times> cstr" where
  "unescape [] = (CHR 0x00, [])"
| "unescape (c # p) =
     (if c = CHR ''n'' then (CHR 0x0A, p)
      else if c = CHR ''r'' then (CHR 0x0D, p)
      else if c = CHR ''t'' then (CHR 0x09, p)
      else if c = CHR ''b'' then (CHR 0x08, p)
      else if c = CHR ''f'' then (CHR 0x0C, p)
      else if c = CHR 0x22 then (CHR 0x22, p)
      else if c = CHR 0x5C then (CHR 0x5C, p)
      else if c = CHR ''/'' then (CHR ''/'', p)
      else if c = CHR ''u'' then (CHR ''?'', skip_hex 4 p)
      else (c, p))"

lemma length_skip_hex: "length (skip_hex k p) \<le> length p"
  by (induction k p rule: skip_hex.induct) (auto intro: le_SucI)

lemma length_unescape: "length (snd (unescape p)) \<le> length p"
  by (cases p) (auto simp: length_skip_hex le_SucI)

text \<open>
  \<open>copy_str room p\<close> is the copy loop of a string value with \<open>room\<close> characters left before
  the NUL slot: what it wrote and where it stopped.
\<close>

function copy_str :: "nat \<Rightarrow> cstr \<Rightarrow> cstr \<times> cstr" where
  "copy_str room [] = ([], [])"
| "copy_str room (c # p) =
     (if c = CHR 0x22 \<or> room = 0 then ([], c # p)
      else if c = CHR 0x5C \<and> p \<noteq> [] then
        (let (c', p') = unescape p; (out, q) = copy_str (room - 1) p' in (c' # out, q))
      else (let (out, q) = copy_str (room - 1) p in (c # out, q)))"
  by pat_completeness auto
termination
proof (relation "measure (\<lambda>(room, p). length p)", goal_cases)
  case (2 room c p x c' p')
  then show ?case using length_unescape [of p] by (simp add: prod_eq_iff le_imp_less_Suc)
qed auto

definition ends_bare :: "char \<Rightarrow> bool" where
  "ends_bare c \<longleftrightarrow> c = CHR '','' \<or> c = CHR ''}'' \<or> is_ws c"

fun copy_bare :: "nat \<Rightarrow> cstr \<Rightarrow> cstr \<times> cstr" where
  "copy_bare room [] = ([], [])"
| "copy_bare room (c # p) =
     (if ends_bare c \<or> room = 0 then ([], c # p)
      else (let (out, q) = copy_bare (room - 1) p in (c # out, q)))"

text \<open>The result of \<open>json_get_at2\<close>: found, the NUL-terminated text in \<open>out\<close>, and the truncated flag.\<close>

definition json_get_at2 :: "cstr \<Rightarrow> cstr \<Rightarrow> nat \<Rightarrow> bool \<Rightarrow> bool \<times> cstr \<times> bool" where
  "json_get_at2 json key out_len top_level =
     (if out_len = 0 then (False, [], False)
      else case (if top_level then find_key_top json key else find_key json key) of
        None \<Rightarrow> (False, [], False)
      | Some [] \<Rightarrow> (False, [], False)
      | Some (c # p) \<Rightarrow>
          if c = CHR 0x22 then
            (let (out, q) = copy_str (out_len - 1) p
             in (True, out, q \<noteq> [] \<and> hd q \<noteq> CHR 0x22))
          else
            (let (out, q) = copy_bare (out_len - 1) (c # p)
             in (out \<noteq> [], out, q \<noteq> [] \<and> \<not> ends_bare (hd q))))"

definition bp_json_get_fit :: "cstr \<Rightarrow> cstr \<Rightarrow> nat \<Rightarrow> int \<times> cstr" where
  "bp_json_get_fit json key out_len =
     (let (found, out, trunc) = json_get_at2 json key out_len False
      in (if \<not> found then 0 else if trunc then -1 else 1, out))"

definition bp_json_get :: "cstr \<Rightarrow> cstr \<Rightarrow> nat \<Rightarrow> bool \<times> cstr" where
  "bp_json_get json key out_len =
     (let (found, out, trunc) = json_get_at2 json key out_len False in (found, out))"

definition bp_json_get_top :: "cstr \<Rightarrow> cstr \<Rightarrow> nat \<Rightarrow> bool \<times> cstr" where
  "bp_json_get_top json key out_len =
     (let (found, out, trunc) = json_get_at2 json key out_len True in (found, out))"

definition bp_json_flag :: "cstr \<Rightarrow> cstr \<Rightarrow> bool" where
  "bp_json_flag json key =
     (case bp_json_get json key 8 of
        (found, s) \<Rightarrow> found \<and> s \<noteq> [] \<and> hd s \<in> set ''1tTyY'')"

subsection \<open>Objects and byte arrays\<close>

text \<open>\<open>copy_object room depth in_str esc p\<close>: the copy loop of \<open>json_object_at\<close>, \<open>None\<close> for every false return.\<close>

fun copy_object :: "nat \<Rightarrow> int \<Rightarrow> bool \<Rightarrow> bool \<Rightarrow> cstr \<Rightarrow> cstr option" where
  "copy_object room depth in_str esc [] = None"
| "copy_object 0 depth in_str esc (c # p) = None"
| "copy_object (Suc room) depth in_str esc (c # p) =
     (if esc then map_option ((#) c) (copy_object room depth in_str False p)
      else if in_str then
        (if c = CHR 0x5C then map_option ((#) c) (copy_object room depth in_str True p)
         else if c = CHR 0x22 then map_option ((#) c) (copy_object room depth False esc p)
         else map_option ((#) c) (copy_object room depth in_str esc p))
      else if c = CHR 0x22 then map_option ((#) c) (copy_object room depth True esc p)
      else if c = CHR ''{'' then map_option ((#) c) (copy_object room (depth + 1) in_str esc p)
      else if c = CHR ''}'' then
        (if depth - 1 = 0 then Some [c]
         else map_option ((#) c) (copy_object room (depth - 1) in_str esc p))
      else map_option ((#) c) (copy_object room depth in_str esc p))"

definition json_object_at :: "cstr \<Rightarrow> cstr \<Rightarrow> nat \<Rightarrow> bool \<Rightarrow> cstr option" where
  "json_object_at json key cap top_level =
     (if cap = 0 then None
      else case (if top_level then find_key_top json key else find_key json key) of
        None \<Rightarrow> None
      | Some [] \<Rightarrow> None
      | Some (c # p) \<Rightarrow>
          if c \<noteq> CHR ''{'' then None else copy_object (cap - 1) 0 False False (c # p))"

definition bp_json_object :: "cstr \<Rightarrow> cstr \<Rightarrow> nat \<Rightarrow> cstr option" where
  "bp_json_object json key cap = json_object_at json key cap False"

definition bp_json_object_top :: "cstr \<Rightarrow> cstr \<Rightarrow> nat \<Rightarrow> cstr option" where
  "bp_json_object_top json key cap = json_object_at json key cap True"

text \<open>
  \<^verbatim>\<open>strtoul(p, NULL, 0)\<close> with the 32-bit \<^verbatim>\<open>unsigned long\<close> of the target: leading white space,
  a sign, the base from the prefix, saturation at \<^verbatim>\<open>ULONG_MAX\<close>.
\<close>

definition digit_val :: "char \<Rightarrow> nat" where
  "digit_val c =
     (let n = of_char c in
      if 48 \<le> n \<and> n \<le> 57 then n - 48
      else if 97 \<le> n \<and> n \<le> 122 then n - 87
      else if 65 \<le> n \<and> n \<le> 90 then n - 55
      else 99)"

definition digits_val :: "nat \<Rightarrow> cstr \<Rightarrow> nat" where
  "digits_val base p =
     foldl (\<lambda>v c. base * v + digit_val c) 0 (takeWhile (\<lambda>c. digit_val c < base) p)"

fun unsigned_val :: "cstr \<Rightarrow> nat" where
  "unsigned_val (z # x # h # p) =
     (if z = CHR ''0'' \<and> (x = CHR ''x'' \<or> x = CHR ''X'') \<and> digit_val h < 16
      then digits_val 16 (h # p)
      else digits_val (if z = CHR ''0'' then 8 else 10) (z # x # h # p))"
| "unsigned_val p = digits_val (if p \<noteq> [] \<and> hd p = CHR ''0'' then 8 else 10) p"

definition is_space :: "char \<Rightarrow> bool" where
  "is_space c \<longleftrightarrow> c = CHR '' '' \<or> (9 \<le> (of_char c :: nat) \<and> (of_char c :: nat) \<le> 13)"

definition strtoul :: "cstr \<Rightarrow> u32" where
  "strtoul s =
     (let p = dropWhile is_space s;
          neg = (p \<noteq> [] \<and> hd p = CHR ''-'');
          q = (if p \<noteq> [] \<and> (hd p = CHR ''-'' \<or> hd p = CHR ''+'') then tl p else p);
          v = unsigned_val q
      in if v > 4294967295 then 4294967295
         else if neg then - of_nat v else of_nat v)"

text \<open>The element loop: every parsed element, the caller keeps the first \<open>cap\<close>.\<close>

function byte_elems :: "cstr \<Rightarrow> u8 list" where
  "byte_elems p0 =
     (if p0 = [] \<or> hd p0 = CHR '']'' then []
      else case dropWhile (\<lambda>c. c = CHR '' '' \<or> c = CHR '','') p0 of
        [] \<Rightarrow> []
      | c # p \<Rightarrow>
          if c = CHR '']'' then []
          else ucast (strtoul (c # p))
               # byte_elems (dropWhile (\<lambda>c. c \<noteq> CHR '','' \<and> c \<noteq> CHR '']'') (c # p)))"
  by pat_completeness auto

lemma byte_elems_less:
  assumes "dropWhile (\<lambda>c. c = CHR '' '' \<or> c = CHR '','') p0 = c # p" and "c \<noteq> CHR '']''"
  shows "length (dropWhile (\<lambda>c. c \<noteq> CHR '','' \<and> c \<noteq> CHR '']'') (c # p)) < length p0"
proof -
  have "c \<noteq> CHR '',''"
    using hd_dropWhile [of "\<lambda>c. c = CHR '' '' \<or> c = CHR '',''" p0] assms(1) by auto
  with assms(2) have "dropWhile (\<lambda>c. c \<noteq> CHR '','' \<and> c \<noteq> CHR '']'') (c # p)
      = dropWhile (\<lambda>c. c \<noteq> CHR '','' \<and> c \<noteq> CHR '']'') p" by simp
  moreover have "length (dropWhile (\<lambda>c. c \<noteq> CHR '','' \<and> c \<noteq> CHR '']'') p) \<le> length p"
    by (rule length_dropWhile_le)
  moreover have "length p < length p0" using assms(1) by (rule length_dropWhile_Cons)
  ultimately show ?thesis by simp
qed

termination byte_elems
  by (relation "measure length") (auto simp del: dropWhile.simps dest: byte_elems_less)

declare byte_elems.simps [simp del]

text \<open>The return value and the bytes in \<open>out\<close>; \<^verbatim>\<open>*len\<close> is their number.\<close>

definition bp_json_byte_array :: "cstr \<Rightarrow> cstr \<Rightarrow> nat \<Rightarrow> bool \<times> u8 list" where
  "bp_json_byte_array json key cap =
     (case find_key json key of
        None \<Rightarrow> (False, [])
      | Some [] \<Rightarrow> (False, [])
      | Some (c # p) \<Rightarrow>
          if c \<noteq> CHR ''['' then (False, []) else (True, take cap (byte_elems p)))"

subsection \<open>Scanning a buffer that is not NUL-terminated\<close>

definition is_blank :: "char \<Rightarrow> bool" where
  "is_blank c \<longleftrightarrow> c = CHR '' '' \<or> c = CHR 0x09"

text \<open>One position of the scan: the value text when a quoted \<open>key\<close>, a colon and a whole quoted value start here.\<close>

definition scan_at :: "cstr \<Rightarrow> nat \<Rightarrow> string \<Rightarrow> cstr option" where
  "scan_at key cap s =
     (if \<not> prefix (quoted key) s then None
      else case dropWhile is_blank (drop (length key + 2) s) of
        [] \<Rightarrow> None
      | c # s1 \<Rightarrow>
          if c \<noteq> CHR '':'' then None
          else (case dropWhile is_blank s1 of
                  [] \<Rightarrow> None
                | d # s2 \<Rightarrow>
                    if d \<noteq> CHR 0x22 then None
                    else (let out = take (cap - 1) (takeWhile (\<lambda>c. c \<noteq> CHR 0x22) s2);
                              s3 = drop (length out) s2
                          in if s3 = [] \<or> hd s3 \<noteq> CHR 0x22 then None else Some out)))"

fun scan_from :: "cstr \<Rightarrow> nat \<Rightarrow> string \<Rightarrow> cstr option" where
  "scan_from key cap [] = None"
| "scan_from key cap (c # s) =
     (if length key + 3 < length (c # s) then
        (case scan_at key cap (c # s) of Some out \<Rightarrow> Some out | None \<Rightarrow> scan_from key cap s)
      else None)"

definition bp_json_scan_str :: "string \<Rightarrow> cstr \<Rightarrow> nat \<Rightarrow> cstr option" where
  "bp_json_scan_str buf key cap = (if cap = 0 then None else scan_from key cap buf)"

subsection \<open>The emitter\<close>

text \<open>\<open>e_buf\<close> is the text before the NUL, so \<^verbatim>\<open>e->len\<close> is its length.\<close>

record bp_emit_t =
  e_buf :: string
  e_cap :: nat
  e_ok :: bool

definition emit_bytes :: "bp_emit_t \<Rightarrow> string \<Rightarrow> bp_emit_t" where
  "emit_bytes e s =
     (if \<not> e_ok e then e
      else if length s + 1 > e_cap e - length (e_buf e) then e\<lparr>e_ok := False\<rparr>
      else e\<lparr>e_buf := e_buf e @ s\<rparr>)"

definition bp_emit_init :: "nat \<Rightarrow> bp_emit_t" where
  "bp_emit_init cap = \<lparr>e_buf = [], e_cap = cap, e_ok = (cap > 0)\<rparr>"

text \<open>\<open>txt\<close> is the full expansion of the format; a partial write is dropped.\<close>

definition bp_emit :: "bp_emit_t \<Rightarrow> string \<Rightarrow> bp_emit_t" where
  "bp_emit e txt =
     (if \<not> e_ok e then e
      else if length txt \<ge> e_cap e - length (e_buf e) then e\<lparr>e_ok := False\<rparr>
      else e\<lparr>e_buf := e_buf e @ txt\<rparr>)"

definition bp_emit_raw :: "bp_emit_t \<Rightarrow> cstr \<Rightarrow> bp_emit_t" where
  "bp_emit_raw e s = emit_bytes e s"

definition hex_digit :: "nat \<Rightarrow> char" where
  "hex_digit n = ''0123456789abcdef'' ! n"

definition jstr_char :: "char \<Rightarrow> string" where
  "jstr_char c =
     (if c = CHR 0x22 then [CHR 0x5C, CHR 0x22]
      else if c = CHR 0x5C then [CHR 0x5C, CHR 0x5C]
      else if c = CHR 0x0A then [CHR 0x5C, CHR ''n'']
      else if c = CHR 0x0D then [CHR 0x5C, CHR ''r'']
      else if c = CHR 0x09 then [CHR 0x5C, CHR ''t'']
      else if (of_char c :: nat) < 0x20 then
        [CHR 0x5C, CHR ''u'', CHR ''0'', CHR ''0'',
         hex_digit (of_char c div 16), hex_digit (of_char c mod 16)]
      else [c])"

fun emit_jstr_chars :: "bp_emit_t \<Rightarrow> cstr \<Rightarrow> bp_emit_t" where
  "emit_jstr_chars e [] = e"
| "emit_jstr_chars e (c # s) =
     (if e_ok e then emit_jstr_chars (emit_bytes e (jstr_char c)) s else e)"

definition bp_emit_jstr :: "bp_emit_t \<Rightarrow> cstr \<Rightarrow> bp_emit_t" where
  "bp_emit_jstr e s =
     emit_bytes (emit_jstr_chars (emit_bytes e [CHR 0x22]) s) [CHR 0x22]"

subsection \<open>The emitter keeps its buffer\<close>

definition emit_invar :: "bp_emit_t \<Rightarrow> bool" where
  "emit_invar e \<longleftrightarrow> (e_ok e \<longrightarrow> length (e_buf e) < e_cap e)"

definition emit_room :: "bp_emit_t \<Rightarrow> nat" where
  "emit_room e = (if e_ok e then e_cap e - 1 - length (e_buf e) else 0)"

interpretation em: byte_sink emit_invar e_buf emit_room emit_bytes
  by unfold_locales (auto simp: emit_invar_def emit_room_def emit_bytes_def split: if_splits)

lemma emit_bytes_ok: "e_ok (emit_bytes e s) \<longleftrightarrow> e_ok e \<and> length s + 1 \<le> e_cap e - length (e_buf e)"
  by (auto simp: emit_bytes_def)

lemma bp_emit_is_emit_bytes: "bp_emit e txt = emit_bytes e txt"
  by (auto simp: bp_emit_def emit_bytes_def)

text \<open>Once the emitter has failed it writes nothing more, so the character loop is a plain run of writes.\<close>

lemma emit_bytes_dead: "\<not> e_ok e \<Longrightarrow> emit_bytes e s = e"
  by (simp add: emit_bytes_def)

lemma puts_dead: "\<not> e_ok e \<Longrightarrow> em.puts e xss = e"
  by (induction xss arbitrary: e) (auto simp: emit_bytes_dead)

lemma emit_jstr_chars_puts: "emit_jstr_chars e s = em.puts e (map jstr_char s)"
  by (induction s arbitrary: e) (auto simp: emit_bytes_dead puts_dead)

lemma bp_emit_jstr_puts:
  "bp_emit_jstr e s = em.puts e ([CHR 0x22] # map jstr_char s @ [[CHR 0x22]])"
  by (simp add: bp_emit_jstr_def emit_jstr_chars_puts em.puts_append)

lemma puts_ok:
  "emit_invar e \<Longrightarrow> e_ok (em.puts e xss) \<longleftrightarrow> e_ok e \<and> length (concat xss) \<le> emit_room e"
proof (induction xss arbitrary: e)
  case (Cons xs xss)
  have inv: "emit_invar (emit_bytes e xs)" using Cons.prems by (rule em.put_invar)
  show ?case
  proof (cases "e_ok e \<and> length xs \<le> emit_room e")
    case True
    with Cons.prems have "e_ok (emit_bytes e xs)"
      by (auto simp: emit_bytes_ok emit_room_def emit_invar_def)
    with True Cons.IH [OF inv] em.put_fits [OF Cons.prems, of xs] show ?thesis by auto
  next
    case False
    with Cons.prems have "\<not> e_ok (emit_bytes e xs)"
      by (auto simp: emit_bytes_ok emit_room_def emit_invar_def)
    with False Cons.IH [OF inv] show ?thesis by auto
  qed
qed (simp add: emit_room_def)

text \<open>The JSON string of a text: what \<open>bp_emit_jstr\<close> means to append.\<close>

definition jstr_text :: "cstr \<Rightarrow> string" where
  "jstr_text s = CHR 0x22 # concat (map jstr_char s) @ [CHR 0x22]"

lemma bp_emit_jstr_spec:
  assumes "emit_invar e" and "e_ok e"
  shows "e_ok (bp_emit_jstr e s) \<longleftrightarrow> length (jstr_text s) \<le> emit_room e"
    and "e_ok (bp_emit_jstr e s) \<Longrightarrow> e_buf (bp_emit_jstr e s) = e_buf e @ jstr_text s"
proof -
  let ?ws = "[CHR 0x22] # map jstr_char s @ [[CHR 0x22]]"
  have cat: "concat ?ws = jstr_text s" by (simp add: jstr_text_def)
  show ok: "e_ok (bp_emit_jstr e s) \<longleftrightarrow> length (jstr_text s) \<le> emit_room e"
    unfolding bp_emit_jstr_puts using puts_ok [OF assms(1), of ?ws] assms(2) unfolding cat by simp
  show "e_buf (bp_emit_jstr e s) = e_buf e @ jstr_text s" if "e_ok (bp_emit_jstr e s)"
    unfolding bp_emit_jstr_puts using em.puts_fits [OF assms(1), of ?ws] ok that unfolding cat by simp
qed

lemma bp_emit_jstr_invar: "emit_invar e \<Longrightarrow> emit_invar (bp_emit_jstr e s)"
  by (simp add: bp_emit_jstr_puts em.puts_invar del: em.puts.simps)

end
