(* ===== verification/JsonSpec.thy ===== *)
theory JsonSpec
  imports Json
begin

section \<open>What the JSON parser is for\<close>

text \<open>
  The specification of \<^verbatim>\<open>bp_json.c\<close>: an abstract JSON value, its rendering with the emitter's
  string escapes, and the theorems that tie the scans to it. \<open>find_key_top\<close> on a rendered
  object is the lookup of the first member with that key, whatever the members before it
  contain (C1); reading a string member back gives the text the emitter was given, cut to the
  buffer (C2).
\<close>

subsection \<open>Abstract values and their rendering\<close>

datatype json =
    JStr string
  | JScalar string
  | JArr "json list"
  | JObj "(string \<times> json) list"

fun render :: "json \<Rightarrow> string"
  and render_elems :: "json list \<Rightarrow> string"
  and render_members :: "(string \<times> json) list \<Rightarrow> string" where
  "render (JStr s) = jstr_text s"
| "render (JScalar t) = t"
| "render (JArr js) = CHR ''['' # render_elems js @ [CHR '']'']"
| "render (JObj ms) = CHR ''{'' # render_members ms @ [CHR ''}'']"
| "render_elems [] = []"
| "render_elems [j] = render j"
| "render_elems (j # k # js) = render j @ CHR '','' # render_elems (k # js)"
| "render_members [] = []"
| "render_members [(k, j)] = quoted k @ CHR '':'' # render j"
| "render_members ((k, j) # m # ms) = quoted k @ CHR '':'' # render j @ CHR '','' # render_members (m # ms)"

text \<open>A bare scalar (a number, \<open>true\<close>, \<open>null\<close>) holds no structural character; a key needs no escape.\<close>

definition scalar_char :: "char \<Rightarrow> bool" where
  "scalar_char c \<longleftrightarrow> c \<noteq> CHR 0x22 \<and> c \<noteq> CHR 0x5C \<and> c \<notin> set ''{}[],'' \<and> \<not> is_ws c"

definition plain_key :: "string \<Rightarrow> bool" where
  "plain_key k \<longleftrightarrow> (\<forall>c \<in> set k. c \<noteq> CHR 0x22 \<and> c \<noteq> CHR 0x5C)"

fun wf_json :: "json \<Rightarrow> bool" where
  "wf_json (JStr s) = True"
| "wf_json (JScalar t) = (t \<noteq> [] \<and> list_all scalar_char t)"
| "wf_json (JArr js) = list_all wf_json js"
| "wf_json (JObj ms) = list_all (\<lambda>(k, j). plain_key k \<and> wf_json j) ms"

subsection \<open>Stepping over a rendered string\<close>

lemma skip_str_plain: "c \<noteq> CHR 0x22 \<Longrightarrow> c \<noteq> CHR 0x5C \<Longrightarrow> skip_str (c # p) = skip_str p"
  by (cases p) auto

lemma skip_str_plain_append:
  "list_all (\<lambda>c. c \<noteq> CHR 0x22 \<and> c \<noteq> CHR 0x5C) k \<Longrightarrow> skip_str (k @ p) = skip_str p"
  by (induction k) (auto simp: skip_str_plain)

lemma hex_digit_plain:
  "n < 16 \<Longrightarrow> hex_digit n \<noteq> CHR 0x22 \<and> hex_digit n \<noteq> CHR 0x5C \<and> is_xdigit (hex_digit n)"
  by (auto simp: hex_digit_def is_xdigit_def less_Suc_eq numeral_eq_Suc)

text \<open>An escaped character is itself, or a backslash, one character and plain characters.\<close>

lemma jstr_char_shape:
  "(jstr_char c = [c] \<and> c \<noteq> CHR 0x22 \<and> c \<noteq> CHR 0x5C) \<or>
   (\<exists>x hs. jstr_char c = CHR 0x5C # x # hs \<and>
      list_all (\<lambda>c. c \<noteq> CHR 0x22 \<and> c \<noteq> CHR 0x5C) hs)"
  using hex_digit_plain [of "of_char c div 16"] hex_digit_plain [of "of_char c mod 16"]
  by (auto simp: jstr_char_def less_mult_imp_div_less)

lemma skip_str_jstr_char: "skip_str (jstr_char c @ p) = skip_str p"
  using jstr_char_shape [of c] by (auto simp: skip_str_plain skip_str_plain_append)

lemma skip_str_jstr: "skip_str (concat (map jstr_char s) @ CHR 0x22 # r) = CHR 0x22 # r"
  by (induction s) (auto simp: skip_str_jstr_char, cases r, auto)

lemma skip_container_in_str_plain:
  "list_all (\<lambda>c. c \<noteq> CHR 0x22 \<and> c \<noteq> CHR 0x5C) k \<Longrightarrow>
   skip_container d True False (k @ p) = skip_container d True False p"
  by (induction k) auto

lemma skip_container_jstr_char:
  "skip_container d True False (jstr_char c @ p) = skip_container d True False p"
  using jstr_char_shape [of c] by (auto simp: skip_container_in_str_plain)

lemma skip_container_jstr:
  "skip_container d True False (concat (map jstr_char s) @ CHR 0x22 # r) =
   skip_container d False False r"
  by (induction s) (auto simp: skip_container_jstr_char)

lemma skip_container_jstr_text:
  "skip_container d False False (jstr_text s @ r) = skip_container d False False r"
  by (simp add: jstr_text_def skip_container_jstr)

lemma skip_container_quoted:
  "plain_key k \<Longrightarrow> skip_container d False False (quoted k @ r) = skip_container d False False r"
  using skip_container_in_str_plain [of k d "CHR 0x22 # r"]
  by (simp add: quoted_def plain_key_def list_all_iff)

lemma skip_container_scalar:
  "list_all scalar_char t \<Longrightarrow> skip_container d False False (t @ r) = skip_container d False False r"
  by (induction t) (auto simp: scalar_char_def)

subsection \<open>Stepping over a rendered value\<close>

lemma skip_container_render:
  "wf_json j \<Longrightarrow> 1 \<le> d \<Longrightarrow>
     skip_container d False False (render j @ r) = skip_container d False False r"
  "list_all wf_json js \<Longrightarrow> 1 \<le> d \<Longrightarrow>
     skip_container d False False (render_elems js @ r) = skip_container d False False r"
  "list_all (\<lambda>(k, j). plain_key k \<and> wf_json j) ms \<Longrightarrow> 1 \<le> d \<Longrightarrow>
     skip_container d False False (render_members ms @ r) = skip_container d False False r"
  by (induction j and js and ms arbitrary: d r and d r and d r
      rule: render_render_elems_render_members.induct)
    (simp_all add: skip_container_jstr_text skip_container_scalar skip_container_quoted)

lemma dropWhile_scalar:
  "list_all scalar_char t \<Longrightarrow> ends_scalar c \<Longrightarrow>
   dropWhile (\<lambda>c. \<not> ends_scalar c) (t @ c # r) = c # r"
  by (induction t) (auto simp: scalar_char_def ends_scalar_def)

lemma skip_value_render:
  assumes "wf_json j" and "ends_scalar c"
  shows "skip_value (render j @ c # r) = Some (c # r)"
proof (cases j)
  case (JStr s)
  then show ?thesis using skip_str_jstr [of s "c # r"] by (simp add: skip_value_def jstr_text_def)
next
  case (JScalar t)
  with assms(1) obtain x t' where t: "t = x # t'" "list_all scalar_char t" by (cases t) auto
  with assms(2) dropWhile_scalar [of t c r] JScalar show ?thesis
    by (simp add: skip_value_def scalar_char_def)
next
  case (JArr js)
  with assms(1) skip_container_render(2) [of js 1 "CHR '']'' # c # r"] show ?thesis
    by (simp add: skip_value_def)
next
  case (JObj ms)
  with assms(1) skip_container_render(3) [of ms 1 "CHR ''}'' # c # r"] show ?thesis
    by (simp add: skip_value_def)
qed

lemma render_head:
  assumes "wf_json j"
  shows "\<exists>c s. render j = c # s \<and> \<not> is_ws c"
  using assms by (cases j) (auto simp: jstr_text_def is_ws_def scalar_char_def neq_Nil_conv)

lemma skip_ws_render: "wf_json j \<Longrightarrow> skip_ws (render j @ r) = render j @ r"
  using render_head [of j] by (auto simp: skip_ws_def)

subsection \<open>The outermost-object scan is the first-binding lookup\<close>

lemma find_key_top_from_comma: "find_key_top_from key (CHR '','' # p) = find_key_top_from key p"
  by (subst find_key_top_from.simps) (simp add: skip_ws_def is_ws_def)

lemma find_key_top_from_close: "find_key_top_from key (CHR ''}'' # p) = None"
  by (subst find_key_top_from.simps) (simp add: skip_ws_def is_ws_def)

text \<open>One member: the value when its key matches, else the scan goes on behind it.\<close>

lemma find_key_top_from_member:
  assumes "plain_key k" and "wf_json j" and "ends_scalar c"
  shows "find_key_top_from key (quoted k @ CHR '':'' # render j @ c # r) =
     (if k = key then Some (render j @ c # r) else find_key_top_from key (c # r))"
proof -
  have "skip_str (k @ CHR 0x22 # CHR '':'' # render j @ c # r) = CHR 0x22 # CHR '':'' # render j @ c # r"
    using assms(1) skip_str_plain_append [of k] by (simp add: plain_key_def list_all_iff)
  moreover have "skip_ws (CHR '':'' # render j @ c # r) = CHR '':'' # render j @ c # r"
    by (simp add: skip_ws_def is_ws_def)
  ultimately show ?thesis
    using skip_value_render [OF assms(2,3), of r] skip_ws_render [OF assms(2), of "c # r"]
    by (subst find_key_top_from.simps) (simp add: quoted_def skip_ws_def [of "CHR 0x22 # _"] is_ws_def)
qed

lemma find_key_top_from_members:
  assumes "list_all (\<lambda>(k, j). plain_key k \<and> wf_json j) ms"
  shows "case map_of ms key of
     None \<Rightarrow> find_key_top_from key (render_members ms @ CHR ''}'' # r) = None
   | Some v \<Rightarrow> \<exists>c rest. find_key_top_from key (render_members ms @ CHR ''}'' # r) =
       Some (render v @ c # rest) \<and> (c = CHR '','' \<or> c = CHR ''}'')"
  using assms
proof (induction ms)
  case Nil
  then show ?case by (simp add: find_key_top_from_close)
next
  case (Cons m ms)
  obtain k j where m: "m = (k, j)" by (cases m)
  with Cons.prems have kj: "plain_key k" "wf_json j" by auto
  note step = find_key_top_from_member [OF kj, of "if ms = [] then CHR ''}'' else CHR '',''" key
      "if ms = [] then r else render_members ms @ CHR ''}'' # r"]
  show ?case
  proof (cases ms)
    case Nil
    with step m show ?thesis by (auto simp: ends_scalar_def find_key_top_from_close)
  next
    case (Cons m' ms')
    with step m Cons.IH Cons.prems show ?thesis
      by (cases m') (auto simp: ends_scalar_def find_key_top_from_comma split: option.splits)
  qed
qed

lemma find_key_top_render:
  "find_key_top (render (JObj ms)) key = find_key_top_from key (render_members ms @ [CHR ''}''])"
  by (simp add: find_key_top_def skip_ws_def is_ws_def)

text \<open>
  On the rendering of a well-formed object the outermost-object scan finds the first member
  with the key, and nothing else: a key inside a nested value, or inside a string, is never
  taken for one of the outer object, and an absent key is reported absent.
\<close>

theorem find_key_top_lookup:
  assumes "wf_json (JObj ms)"
  shows "case map_of ms key of
     None \<Rightarrow> find_key_top (render (JObj ms)) key = None
   | Some v \<Rightarrow> \<exists>c rest. find_key_top (render (JObj ms)) key = Some (render v @ c # rest) \<and>
       (c = CHR '','' \<or> c = CHR ''}'')"
  using find_key_top_from_members [of ms key "[]"] assms
  by (simp only: find_key_top_render wf_json.simps)

theorem find_key_top_lookup_witness:
  "\<exists>c rest. find_key_top
     (render (JObj [(''command'', JObj [(''type'', JStr ''bmp280'')]), (''type'', JStr ''command.request'')]))
     ''type'' = Some (render (JStr ''command.request'') @ c # rest) \<and>
     (c = CHR '','' \<or> c = CHR ''}'')"
  using find_key_top_lookup [of
      "[(''command'', JObj [(''type'', JStr ''bmp280'')]), (''type'', JStr ''command.request'')]" "''type''"]
  by (simp add: plain_key_def)

subsection \<open>Reading a string back\<close>

text \<open>
  What becomes of a character that is written and read back: the control characters other than newline, return and tab
  are written as \<^verbatim>\<open>\u00XX\<close>, which the getter reads as a question mark; every other one comes back.
\<close>

definition text_char :: "char \<Rightarrow> bool" where
  "text_char c \<longleftrightarrow> 0x20 \<le> (of_char c :: nat) \<or> c = CHR 0x0A \<or> c = CHR 0x0D \<or> c = CHR 0x09"

definition read_back :: "char \<Rightarrow> char" where
  "read_back c = (if text_char c then c else CHR ''?'')"

lemma copy_str_jstr_char:
  "copy_str (Suc room) (jstr_char c @ p) = (let (out, q) = copy_str room p in (read_back c # out, q))"
proof (cases "text_char c")
  case ordinary: True
  show ?thesis
  proof (cases "c \<in> {CHR 0x22, CHR 0x5C, CHR 0x0A, CHR 0x0D, CHR 0x09}")
    case True
    then show ?thesis by (auto simp: jstr_char_def Let_def read_back_def text_char_def split: prod.splits)
  next
    case False
    with ordinary show ?thesis by (auto simp: text_char_def jstr_char_def read_back_def split: prod.splits)
  qed
next
  case False
  define hi lo where "hi = hex_digit (of_char c div 16)" and "lo = hex_digit (of_char c mod 16)"
  have "(of_char c :: nat) < 32" using False by (auto simp: text_char_def)
  then have "(of_char c :: nat) div 16 < 16" by simp
  then have x: "is_xdigit hi" "is_xdigit lo"
    using hex_digit_plain [of "of_char c div 16"] hex_digit_plain [of "of_char c mod 16"]
    by (simp_all add: hi_def lo_def)
  have "jstr_char c = [CHR 0x5C, CHR ''u'', CHR ''0'', CHR ''0'', hi, lo]"
    using False by (auto simp: jstr_char_def text_char_def hi_def lo_def)
  moreover have "unescape ([CHR ''u'', CHR ''0'', CHR ''0'', hi, lo] @ p) = (CHR ''?'', p)"
    using x by (simp add: eval_nat_numeral is_xdigit_def)
  ultimately show ?thesis using False by (simp add: read_back_def split: prod.split)
qed

lemma jstr_char_head: "\<exists>x xs. jstr_char c = x # xs \<and> x \<noteq> CHR 0x22"
  by (auto simp: jstr_char_def)

lemma copy_str_jstr:
  "copy_str room (concat (map jstr_char s) @ CHR 0x22 # r) =
     (map read_back (take room s), concat (map jstr_char (drop room s)) @ CHR 0x22 # r)"
proof (induction s arbitrary: room)
  case (Cons c s)
  show ?case
  proof (cases room)
    case 0
    then show ?thesis using jstr_char_head [of c] by auto
  next
    case (Suc n)
    with Cons show ?thesis by (simp add: copy_str_jstr_char)
  qed
qed simp

text \<open>
  C33. A string member that \<open>bp_emit_jstr\<close> wrote is read back by \<open>bp_json_get_top\<close> as the text it was given, cut to
  the caller's buffer, with a question mark for each control character other than newline, return and tab; so without
  those it comes back unchanged. The truncated flag is set exactly when the text did not fit. Escapes, quotes and
  backslashes in the text, and everything in the members before it, make no difference.
\<close>

theorem json_get_top_roundtrip:
  assumes "wf_json (JObj ms)" and "map_of ms key = Some (JStr s)" and "0 < out_len"
  shows "json_get_at2 (render (JObj ms)) key out_len True =
     (True, map (\<lambda>c. if text_char c then c else CHR ''?'') (take (out_len - 1) s), out_len - 1 < length s)"
proof -
  obtain c rest where "find_key_top (render (JObj ms)) key = Some (jstr_text s @ c # rest)"
    using find_key_top_from_members [of ms key "[]"] assms(1,2)
    by (auto simp: find_key_top_render simp del: render.simps(4))
  then have found: "find_key_top (render (JObj ms)) key =
      Some (CHR 0x22 # concat (map jstr_char s) @ CHR 0x22 # c # rest)"
    by (simp add: jstr_text_def)
  have rest: "drop (out_len - 1) s = [] \<or> (out_len - 1 < length s \<and>
      (\<exists>x xs. concat (map jstr_char (drop (out_len - 1) s)) = x # xs \<and> x \<noteq> CHR 0x22))"
  proof (cases "drop (out_len - 1) s")
    case (Cons a list)
    then have "out_len - 1 < length s" by (cases "out_len - 1 < length s") auto
    then show ?thesis using Cons jstr_char_head [of a] by auto
  qed simp
  show ?thesis
    using assms(3) found copy_str_jstr [of "out_len - 1" s "c # rest"] rest
    by (auto simp: json_get_at2_def read_back_def simp del: render.simps(4))
qed

theorem json_get_top_roundtrip_witness:
  "json_get_at2 (render (JObj [(''a'', JArr [JScalar ''1'']), (''k'', JStr ''x\"y'')])) ''k'' 16 True
     = (True, ''x\"y'', False)"
  using json_get_top_roundtrip [of "[(''a'', JArr [JScalar ''1'']), (''k'', JStr ''x\"y'')]"
      "''k''" "''x\"y''" 16]
  by (simp add: plain_key_def scalar_char_def text_char_def is_ws_def)

text \<open>
  \<open>bp_emit_jstr\<close> either appends the whole JSON string of its text or fails: the emitter stays
  within its buffer, it is still good exactly when the escaped text with its quotes fits the
  room left, and then the buffer ends with that string; otherwise the failure is latched.
\<close>

theorem bp_emit_jstr_all_or_fail:
  assumes "emit_invar e" and "e_ok e"
  shows "emit_invar (bp_emit_jstr e s) \<and>
     (e_ok (bp_emit_jstr e s) \<longleftrightarrow> length (e_buf e) + length (jstr_text s) < e_cap e) \<and>
     (e_ok (bp_emit_jstr e s) \<longrightarrow> e_buf (bp_emit_jstr e s) = e_buf e @ jstr_text s)"
  using bp_emit_jstr_invar [OF assms(1)] bp_emit_jstr_spec [OF assms] assms
  by (auto simp: emit_room_def emit_invar_def)

theorem bp_emit_jstr_all_or_fail_witness:
  "e_buf (bp_emit_jstr (bp_emit_init 6) ''ab'') = jstr_text ''ab''"
  using bp_emit_jstr_all_or_fail [of "bp_emit_init 6" "''ab''"]
  by (simp add: bp_emit_init_def emit_invar_def jstr_text_def jstr_char_def)

end
