(* ===== verification/LeaseGate.thy ===== *)
theory LeaseGate
  imports Prelude
begin

section \<open>The cloud lease and its deadline\<close>

text \<open>
  The model of \<^verbatim>\<open>stm32h563/src/lease_gate.c\<close>. Times are the pod's 32-bit millisecond clock,
  which wraps; the comparisons are the signed differences of the code.
\<close>

definition LEASE_GATE_HOLDER_MAX :: nat where "LEASE_GATE_HOLDER_MAX = 41"
definition LEASE_GATE_MAX_S :: u32 where "LEASE_GATE_MAX_S = 600"

record lease =
  s_held :: bool
  s_deadline_ms :: u32
  s_holder :: cstr

definition lease_init :: lease where
  "lease_init = \<lparr>s_held = False, s_deadline_ms = 0, s_holder = []\<rparr>"

definition lease_gate_clear :: "lease \<Rightarrow> lease" where
  "lease_gate_clear s = s\<lparr>s_held := False, s_holder := []\<rparr>"

definition holder_char :: "char \<Rightarrow> char" where
  "holder_char c =
     (if 0x20 \<le> (of_char c :: nat) \<and> (of_char c :: nat) < 0x7f \<and> c \<noteq> CHR 0x22 \<and> c \<noteq> CHR 0x5C
      then c else CHR ''?'')"

definition lease_gate_update :: "lease \<Rightarrow> bool \<Rightarrow> cstr option \<Rightarrow> u32 \<Rightarrow> u32 \<Rightarrow> lease" where
  "lease_gate_update s held holder expires_in_s now_ms =
     (if \<not> held \<or> expires_in_s = 0 then lease_gate_clear s
      else
        let secs = (if expires_in_s > LEASE_GATE_MAX_S then LEASE_GATE_MAX_S else expires_in_s);
            label = (case holder of None \<Rightarrow> [] | Some h \<Rightarrow> h)
        in s\<lparr>s_holder := map holder_char (take (LEASE_GATE_HOLDER_MAX - 1) label),
             s_deadline_ms := now_ms + secs * 1000,
             s_held := True\<rparr>)"

definition lease_gate_expire :: "lease \<Rightarrow> u32 \<Rightarrow> lease" where
  "lease_gate_expire s now_ms =
     (if s_held s \<and> sint (s_deadline_ms s - now_ms) \<le> 0 then lease_gate_clear s else s)"

text \<open>The answer and the value written to \<^verbatim>\<open>*left_s\<close>.\<close>

definition lease_gate_active :: "lease \<Rightarrow> u32 \<Rightarrow> bool \<times> u32" where
  "lease_gate_active s now_ms =
     (if \<not> s_held s then (False, 0)
      else let left = sint (s_deadline_ms s - now_ms) in
           if left \<le> 0 then (False, 0)
           else (True, (word_of_int left + 999) div 1000))"

definition lease_gate_holder :: "lease \<Rightarrow> cstr" where
  "lease_gate_holder s = s_holder s"

subsection \<open>The deadline on a wrapping clock\<close>

text \<open>A signed difference of two clock readings is the elapsed time while it is below \<open>2^31\<close>.\<close>

lemma sint_small: "k < 2147483648 \<Longrightarrow> sint (of_nat k :: u32) = int k"
  by (simp add: signed_of_nat signed_take_bit_int_eq_self)

lemma sint_deadline_diff:
  assumes "d < 1073741824" and "e < 1073741824"
  shows "sint ((now + of_nat d) - (now + of_nat e) :: u32) = int d - int e"
proof -
  have "(now + of_nat d) - (now + of_nat e) = (word_of_int (int d - int e) :: u32)"
    by simp
  moreover have "sint (word_of_int (int d - int e) :: u32) = int d - int e"
    using assms by (simp only: sint_sbintrunc') (simp add: signed_take_bit_int_eq_self)
  ultimately show ?thesis by simp
qed

definition lease_ms :: "u32 \<Rightarrow> nat" where
  "lease_ms expires_in_s = 1000 * min (unat expires_in_s) 600"

lemma update_deadline:
  assumes "0 < e"
  shows "s_held (lease_gate_update s True h e now) \<and>
     s_deadline_ms (lease_gate_update s True h e now) = now + of_nat (lease_ms e)"
proof -
  have "(if e > LEASE_GATE_MAX_S then LEASE_GATE_MAX_S else e) * 1000 = (of_nat (lease_ms e) :: u32)"
    by (auto simp: lease_ms_def LEASE_GATE_MAX_S_def min_def word_less_nat_alt)
  moreover have "e \<noteq> 0" using assms by auto
  ultimately show ?thesis by (simp add: lease_gate_update_def)
qed

lemma lease_ms_bound: "lease_ms e \<le> 600000"
  by (simp add: lease_ms_def)

lemma left_diff:
  assumes "0 < e" and "d < 1073741824"
  shows "sint (s_deadline_ms (lease_gate_update s True h e now) - (now + of_nat d)) =
     int (lease_ms e) - int d"
  using update_deadline [OF assms(1), of s h now] sint_deadline_diff [of "lease_ms e" d now]
    lease_ms_bound [of e] assms(2)
  by simp

lemma left_secs:
  assumes "0 < m" and "m \<le> 600000"
  shows "unat ((word_of_int (int m) + 999 :: u32) div 1000) = (m + 999) div 1000"
proof -
  have "word_of_int (int m) + 999 = (of_nat (m + 999) :: u32)" by simp
  moreover have "unat (of_nat (m + 999) :: u32) = m + 999"
    by (rule of_nat_inverse) (use assms(2) in simp_all)
  ultimately show ?thesis by (simp add: unat_div)
qed

text \<open>
  A lease the server announced at clock reading \<open>now\<close> for \<open>e\<close> seconds is in force \<open>d\<close>
  milliseconds later exactly while \<open>d\<close> is below \<open>min(e, 600)\<close> seconds, and the seconds reported
  are those left, rounded up. The clock may wrap in between: \<open>now\<close> is any 32-bit value and the
  window covers every \<open>d\<close> below \<open>2^30\<close> ms.
\<close>

theorem lease_active_window:
  assumes "0 < e" and "d < 1073741824"
  shows "case lease_gate_active (lease_gate_update s True h e now) (now + of_nat d) of
     (active, left) \<Rightarrow>
       (active \<longleftrightarrow> d < 1000 * min (unat e) 600) \<and>
       unat left = (1000 * min (unat e) 600 - d + 999) div 1000"
proof (cases "d < lease_ms e")
  case True
  then have pos: "0 < lease_ms e - d" "lease_ms e - d \<le> 600000"
    using lease_ms_bound [of e] by auto
  from True have "int (lease_ms e) - int d = int (lease_ms e - d)" by simp
  with True left_secs [OF pos] update_deadline [OF assms(1), of s h now] left_diff [OF assms, of s h now]
  show ?thesis by (simp add: lease_gate_active_def lease_ms_def)
next
  case False
  with update_deadline [OF assms(1), of s h now] left_diff [OF assms, of s h now]
  show ?thesis by (simp add: lease_gate_active_def lease_ms_def)
qed

theorem lease_active_window_witness:
  "case lease_gate_active (lease_gate_update lease_init True None 2 4294967000) (4294967000 + of_nat 1500) of
     (active, left) \<Rightarrow> active \<and> unat left = 1"
  using lease_active_window [of 2 1500 lease_init None 4294967000] by (simp split: prod.splits)

text \<open>
  Once the poll has seen a lease past its deadline, no later clock reading revives it: after
  \<open>lease_gate_expire\<close> at a time when the lease was no longer active, the lease reads as not held
  at every later reading, also when the clock has moved on by \<open>2^31\<close> ms and the signed difference
  would be positive again.
\<close>

theorem lease_expire_final:
  "\<not> fst (lease_gate_active s now) \<Longrightarrow> \<not> fst (lease_gate_active (lease_gate_expire s now) later)"
  by (auto simp: lease_gate_active_def lease_gate_expire_def lease_gate_clear_def Let_def
      split: if_splits)

theorem lease_expire_final_witness:
  "\<not> fst (lease_gate_active
       (lease_gate_expire (lease_gate_update lease_init True None 2 0) 5000) (5000 + 2147483648))"
  by (rule lease_expire_final)
    (simp add: lease_gate_active_def lease_gate_update_def lease_init_def LEASE_GATE_MAX_S_def)

lemma holder_char_printable:
  "0x20 \<le> (of_char (holder_char c) :: nat) \<and> (of_char (holder_char c) :: nat) < 0x7f \<and>
   holder_char c \<noteq> CHR 0x22 \<and> holder_char c \<noteq> CHR 0x5C"
  by (simp add: holder_char_def)

text \<open>The label is safe in any reply: at most 40 printable characters, no quote or backslash.\<close>

definition label_safe :: "cstr \<Rightarrow> bool" where
  "label_safe l \<longleftrightarrow> length l \<le> 40 \<and>
     list_all (\<lambda>c. 0x20 \<le> (of_char c :: nat) \<and> (of_char c :: nat) < 0x7f \<and>
       c \<noteq> CHR 0x22 \<and> c \<noteq> CHR 0x5C) l"

lemma lease_update_label_safe:
  "label_safe (lease_gate_holder (lease_gate_update s held h e now))"
  using holder_char_printable
  by (auto simp: lease_gate_update_def lease_gate_clear_def lease_gate_holder_def label_safe_def
      LEASE_GATE_HOLDER_MAX_def Let_def list_all_iff)

end
