(* ===== verification/ConnTx.thy ===== *)
theory ConnTx
  imports Sinks
begin

section \<open>The per-connection transmit rings\<close>

text \<open>
  The model of \<^verbatim>\<open>stm32h563/src/conn_tx.c\<close>: one ring of 2048 bytes per connection, written by the
  hardware worker and drained by the network task, with free-running 16-bit indices. The
  operations on one ring come first, the \<^verbatim>\<open>conn_tx_*\<close> functions select the ring by connection
  id. A ring refines a bounded queue of at most 2047 bytes; the last part interleaves the two
  tasks step by step.
\<close>

definition CONN_TX_RING_SIZE :: nat where "CONN_TX_RING_SIZE = 2048"
definition CONN_TX_MASK :: nat where "CONN_TX_MASK = CONN_TX_RING_SIZE - 1"
definition CONN_TX_TCP_SLOTS :: int where "CONN_TX_TCP_SLOTS = 5"
definition CH_CLOUD_TUNNEL_CONN :: int where "CH_CLOUD_TUNNEL_CONN = 7"
definition CH_CLOUD_TUNNEL_CONN_COUNT :: int where "CH_CLOUD_TUNNEL_CONN_COUNT = 3"
definition CH_CLOUD_TUNNEL_CONN_LAST :: int where
  "CH_CLOUD_TUNNEL_CONN_LAST = CH_CLOUD_TUNNEL_CONN + CH_CLOUD_TUNNEL_CONN_COUNT - 1"
definition CONN_TX_SLOTS :: int where
  "CONN_TX_SLOTS = CONN_TX_TCP_SLOTS + CH_CLOUD_TUNNEL_CONN_COUNT"

lemmas conn_tx_consts = CONN_TX_RING_SIZE_def CONN_TX_MASK_def CONN_TX_TCP_SLOTS_def
  CH_CLOUD_TUNNEL_CONN_def CH_CLOUD_TUNNEL_CONN_COUNT_def CH_CLOUD_TUNNEL_CONN_LAST_def
  CONN_TX_SLOTS_def

record ring_t =
  head :: u16
  tail :: u16
  buf :: "u8 list"

subsection \<open>One ring\<close>

definition ring_used :: "ring_t \<Rightarrow> nat" where
  "ring_used r = unat (head r - tail r)"

definition ring_free :: "ring_t \<Rightarrow> nat" where
  "ring_free r = CONN_TX_MASK - unat (head r - tail r)"

fun ring_store :: "u8 list \<Rightarrow> nat \<Rightarrow> u8 list \<Rightarrow> u8 list" where
  "ring_store b pos [] = b"
| "ring_store b pos (x # xs) = ring_store (b[pos AND CONN_TX_MASK := x]) (pos + 1) xs"

definition ring_write :: "ring_t \<Rightarrow> u8 list \<Rightarrow> ring_t \<times> nat" where
  "ring_write r bytes =
     (if length bytes > ring_free r then (r, 0)
      else (r\<lparr>buf := ring_store (buf r) (unat (head r)) bytes,
              head := of_nat (unat (head r) + length bytes)\<rparr>, length bytes))"

text \<open>The contiguous run behind the tail, as the bytes it points at.\<close>

definition ring_peek :: "ring_t \<Rightarrow> u8 list" where
  "ring_peek r =
     (let used = ring_used r;
          tpos = unat (tail r) AND CONN_TX_MASK;
          to_end = CONN_TX_RING_SIZE - tpos;
          contig = (if used < to_end then used else to_end)
      in if used = 0 then [] else take contig (drop tpos (buf r)))"

definition ring_advance :: "ring_t \<Rightarrow> nat \<Rightarrow> ring_t" where
  "ring_advance r n = r\<lparr>tail := of_nat (unat (tail r) + n)\<rparr>"

definition ring_reset :: "ring_t \<Rightarrow> ring_t" where
  "ring_reset r = r\<lparr>tail := head r\<rparr>"

subsection \<open>The rings by connection\<close>

definition conn_tx_slot :: "int \<Rightarrow> int" where
  "conn_tx_slot conn_id =
     (if conn_id \<ge> 0 \<and> conn_id < CONN_TX_TCP_SLOTS then conn_id
      else if conn_id \<ge> CH_CLOUD_TUNNEL_CONN \<and> conn_id \<le> CH_CLOUD_TUNNEL_CONN_LAST
      then CONN_TX_TCP_SLOTS + (conn_id - CH_CLOUD_TUNNEL_CONN)
      else -1)"

type_synonym rings = "ring_t list"

definition rings_init :: rings where
  "rings_init = replicate (nat CONN_TX_SLOTS) \<lparr>head = 0, tail = 0, buf = replicate CONN_TX_RING_SIZE 0\<rparr>"

definition ring_of :: "rings \<Rightarrow> int \<Rightarrow> ring_t option" where
  "ring_of rs conn_id =
     (let s = conn_tx_slot conn_id in if s < 0 then None else Some (rs ! nat s))"

definition put_ring :: "rings \<Rightarrow> int \<Rightarrow> ring_t \<Rightarrow> rings" where
  "put_ring rs conn_id r = rs[nat (conn_tx_slot conn_id) := r]"

definition conn_tx_used :: "rings \<Rightarrow> int \<Rightarrow> nat" where
  "conn_tx_used rs conn_id = (case ring_of rs conn_id of None \<Rightarrow> 0 | Some r \<Rightarrow> ring_used r)"

definition conn_tx_free :: "rings \<Rightarrow> int \<Rightarrow> nat" where
  "conn_tx_free rs conn_id = (case ring_of rs conn_id of None \<Rightarrow> 0 | Some r \<Rightarrow> ring_free r)"

definition conn_tx_write :: "rings \<Rightarrow> int \<Rightarrow> u8 list \<Rightarrow> rings \<times> nat" where
  "conn_tx_write rs conn_id bytes =
     (case ring_of rs conn_id of
        None \<Rightarrow> (rs, 0)
      | Some r \<Rightarrow> (case ring_write r bytes of (r', n) \<Rightarrow> (put_ring rs conn_id r', n)))"

definition conn_tx_peek :: "rings \<Rightarrow> int \<Rightarrow> u8 list" where
  "conn_tx_peek rs conn_id = (case ring_of rs conn_id of None \<Rightarrow> [] | Some r \<Rightarrow> ring_peek r)"

definition conn_tx_advance :: "rings \<Rightarrow> int \<Rightarrow> nat \<Rightarrow> rings" where
  "conn_tx_advance rs conn_id n =
     (case ring_of rs conn_id of None \<Rightarrow> rs | Some r \<Rightarrow> put_ring rs conn_id (ring_advance r n))"

definition conn_tx_reset :: "rings \<Rightarrow> int \<Rightarrow> rings" where
  "conn_tx_reset rs conn_id =
     (case ring_of rs conn_id of None \<Rightarrow> rs | Some r \<Rightarrow> put_ring rs conn_id (ring_reset r))"

subsection \<open>A ring is a bounded queue\<close>

text \<open>The queue a ring stands for: the bytes from tail to head, round the buffer.\<close>

definition ring_content :: "ring_t \<Rightarrow> u8 list" where
  "ring_content r = map (\<lambda>i. buf r ! ((unat (tail r) + i) mod CONN_TX_RING_SIZE)) [0..<ring_used r]"

definition ring_invar :: "ring_t \<Rightarrow> bool" where
  "ring_invar r \<longleftrightarrow> length (buf r) = CONN_TX_RING_SIZE \<and> ring_used r \<le> CONN_TX_MASK"

lemma and_mask_mod: "n AND CONN_TX_MASK = n mod CONN_TX_RING_SIZE"
proof -
  have "n AND mask 11 = n mod 2 ^ 11"
    by (simp only: take_bit_eq_mask [symmetric] take_bit_eq_mod)
  moreover have "mask 11 = (2047 :: nat)" by (simp add: mask_eq_exp_minus_1)
  ultimately show ?thesis by (simp add: CONN_TX_MASK_def CONN_TX_RING_SIZE_def)
qed

lemma length_ring_content [simp]: "length (ring_content r) = ring_used r"
  by (simp add: ring_content_def)

lemma nth_ring_content:
  "i < ring_used r \<Longrightarrow> ring_content r ! i = buf r ! ((unat (tail r) + i) mod 2048)"
  by (simp add: ring_content_def conn_tx_consts)

lemma length_ring_store [simp]: "length (ring_store b pos xs) = length b"
  by (induction b pos xs rule: ring_store.induct) auto

text \<open>Storing from \<open>pos\<close> on: the stored cells hold the bytes, every other cell is unchanged.\<close>

lemma ring_store_other:
  assumes "\<And>i. i < length xs \<Longrightarrow> j \<noteq> (pos + i) mod 2048"
  shows "ring_store b pos xs ! j = b ! j"
  using assms
proof (induction b pos xs rule: ring_store.induct)
  case (2 b pos x xs)
  have "j \<noteq> pos AND CONN_TX_MASK" using "2.prems" [of 0] by (simp add: and_mask_mod CONN_TX_RING_SIZE_def)
  moreover have "j \<noteq> (pos + 1 + i) mod 2048" if "i < length xs" for i
    using "2.prems" [of "Suc i"] that by simp
  ultimately show ?case using "2.IH" by simp
qed simp

lemma ring_store_at:
  "length b = 2048 \<Longrightarrow> length xs \<le> 2048 \<Longrightarrow> i < length xs \<Longrightarrow>
   ring_store b pos xs ! ((pos + i) mod 2048) = xs ! i"
proof (induction b pos xs arbitrary: i rule: ring_store.induct)
  case (2 b pos x xs)
  show ?case
  proof (cases i)
    case 0
    have "(pos + 0) mod 2048 \<noteq> (pos + Suc k) mod 2048" if "k < length xs" for k
      using mod_offset_inj [of pos 0 2048 "Suc k"] that "2.prems"(2) by auto
    then have "ring_store (b[pos mod 2048 := x]) (pos + 1) xs ! (pos mod 2048) = x"
      using ring_store_other [of xs "pos mod 2048" "pos + 1" "b[pos mod 2048 := x]"] "2.prems"(1) by simp
    with 0 show ?thesis by (simp add: and_mask_mod CONN_TX_RING_SIZE_def)
  next
    case (Suc k)
    with 2 show ?thesis by (simp add: and_mask_mod CONN_TX_RING_SIZE_def)
  qed
qed simp

lemma used_after_write:
  assumes "ring_used r + n \<le> 65535"
  shows "unat ((of_nat (unat (head r) + n) :: u16) - tail r) = ring_used r + n"
proof -
  have "(of_nat (unat (head r) + n) :: u16) - tail r = (head r - tail r) + of_nat n" by simp
  also have "unat \<dots> = ring_used r + n"
    using assms by (simp add: ring_used_def unat_word_ariths unat_of_nat)
  finally show ?thesis .
qed

lemma used_after_advance:
  assumes "n \<le> ring_used r"
  shows "unat (head r - (of_nat (unat (tail r) + n) :: u16)) = ring_used r - n"
proof -
  have "head r - (of_nat (unat (tail r) + n) :: u16) = (head r - tail r) - of_nat n" by simp
  also have "unat \<dots> = ring_used r - n"
    using assms unat_u16_bound [of "head r - tail r"]
    by (simp add: ring_used_def unat_sub_if_size size_word_def unat_of_nat word_le_nat_alt)
  finally show ?thesis .
qed

text \<open>Head and tail are congruent to their distance modulo the buffer size, since it divides \<open>2^16\<close>.\<close>

lemma mod_65536_2048: "(n mod 65536) mod 2048 = (n :: nat) mod 2048"
  by (rule mod_mod_cancel) simp

lemma head_mod: "unat (head r) mod 2048 = (unat (tail r) + ring_used r) mod 2048"
proof -
  have "unat (head r) = unat (tail r + (head r - tail r))" by simp
  also have "\<dots> = (unat (tail r) + ring_used r) mod 65536"
    by (simp only: unat_word_ariths ring_used_def) simp
  finally show ?thesis by (simp add: mod_65536_2048)
qed

lemma tail_add_mod: "unat (of_nat (unat (tail r) + n) :: u16) mod 2048 = (unat (tail r) + n) mod 2048"
proof -
  have "unat (of_nat (unat (tail r) + n) :: u16) = (unat (tail r) + n) mod 65536"
    by (simp only: unat_of_nat) simp
  then show ?thesis by (simp only: mod_65536_2048)
qed

text \<open>The bytes a write of \<open>xs\<close> puts behind the head, seen from any head position \<open>h\<close> ahead of the tail.\<close>

lemma stored_content:
  assumes len: "length b = 2048" and fit: "u + length xs \<le> 2047"
    and hd: "h mod 2048 = (t + u) mod 2048"
  shows "map (\<lambda>i. ring_store b h xs ! ((t + i) mod 2048)) [0..<u + length xs] =
     map (\<lambda>i. b ! ((t + i) mod 2048)) [0..<u] @ xs"
proof (rule nth_equalityI)
  fix i assume "i < length (map (\<lambda>i. ring_store b h xs ! ((t + i) mod 2048)) [0..<u + length xs])"
  then have i: "i < u + length xs" by simp
  show "map (\<lambda>i. ring_store b h xs ! ((t + i) mod 2048)) [0..<u + length xs] ! i =
      (map (\<lambda>i. b ! ((t + i) mod 2048)) [0..<u] @ xs) ! i"
  proof (cases "i < u")
    case True
    have "(t + i) mod 2048 \<noteq> (h + k) mod 2048" if "k < length xs" for k
      using mod_offset_inj [of t i 2048 "u + k"] mod_offset_cong [OF hd, of k] that True fit
      by (auto simp: add.assoc)
    then have "ring_store b h xs ! ((t + i) mod 2048) = b ! ((t + i) mod 2048)"
      by (rule ring_store_other)
    with True show ?thesis by (simp add: nth_append)
  next
    case False
    have "(t + i) mod 2048 = (h + (i - u)) mod 2048"
      using mod_offset_cong [OF hd, of "i - u"] False by (simp add: add.assoc)
    with ring_store_at [OF len, of xs "i - u" h] i False fit show ?thesis by (simp add: nth_append)
  qed
qed simp

lemma ring_content_alt:
  "ring_content r = map (\<lambda>i. buf r ! ((unat (tail r) + i) mod 2048)) [0..<ring_used r]"
  by (simp add: ring_content_def CONN_TX_RING_SIZE_def)

lemma free_fits: "ring_invar r \<Longrightarrow> length xs \<le> ring_free r \<longleftrightarrow> ring_used r + length xs \<le> 2047"
  by (auto simp: ring_invar_def ring_free_def ring_used_def conn_tx_consts)

lemma ring_write_fits:
  assumes "ring_invar r" and "length xs \<le> ring_free r"
  shows "ring_content (fst (ring_write r xs)) = ring_content r @ xs \<and>
    ring_used (fst (ring_write r xs)) = ring_used r + length xs \<and> snd (ring_write r xs) = length xs"
proof -
  have fit: "ring_used r + length xs \<le> 2047" using assms free_fits by blast
  then have "ring_used (fst (ring_write r xs)) = ring_used r + length xs"
    using used_after_write [of r "length xs"] assms(2) by (simp add: ring_write_def ring_used_def)
  moreover have "length (buf r) = 2048"
    using assms(1) by (simp add: ring_invar_def CONN_TX_RING_SIZE_def)
  ultimately show ?thesis
    using stored_content [OF _ fit head_mod] assms(2)
    by (simp add: ring_content_alt ring_write_def ring_used_def)
qed

lemma ring_write_refused: "ring_free r < length xs \<Longrightarrow> ring_write r xs = (r, 0)"
  by (simp add: ring_write_def)

lemma ring_write_invar:
  assumes "ring_invar r" shows "ring_invar (fst (ring_write r xs))"
proof (cases "length xs \<le> ring_free r")
  case True
  moreover from True have "ring_used r + length xs \<le> 2047" using free_fits [OF assms] by blast
  ultimately show ?thesis
    using ring_write_fits [OF assms True] assms
    by (simp add: ring_invar_def ring_write_def conn_tx_consts)
next
  case False
  with assms show ?thesis by (simp add: ring_write_def)
qed

interpretation tx: byte_sink ring_invar ring_content ring_free "\<lambda>r xs. fst (ring_write r xs)"
proof
  fix r xs
  show "ring_invar (fst (ring_write r xs))" if "ring_invar r" using that by (rule ring_write_invar)
  show "ring_content (fst (ring_write r xs)) = ring_content r @ xs \<and>
      ring_free (fst (ring_write r xs)) = ring_free r - length xs"
    if "ring_invar r" "length xs \<le> ring_free r"
    using ring_write_fits [OF that] by (simp add: ring_free_def flip: ring_used_def)
  show "ring_content (fst (ring_write r xs)) = ring_content r \<and>
      ring_free (fst (ring_write r xs)) \<le> ring_free r"
    if "ring_invar r" "ring_free r < length xs"
    using ring_write_refused [OF that(2)] by simp
qed

lemma ring_peek_prefix:
  assumes "ring_invar r"
  shows "ring_peek r = take (length (ring_peek r)) (ring_content r) \<and>
    (ring_content r \<noteq> [] \<longrightarrow> ring_peek r \<noteq> [])"
proof -
  let ?t = "unat (tail r) mod 2048"
  let ?c = "min (ring_used r) (2048 - ?t)"
  have len: "length (buf r) = 2048" using assms by (simp add: ring_invar_def CONN_TX_RING_SIZE_def)
  have peek: "ring_peek r = take ?c (drop ?t (buf r))"
    by (auto simp: ring_peek_def and_mask_mod CONN_TX_RING_SIZE_def Let_def)
  have lt: "?t < 2048" by simp
  have lp: "length (ring_peek r) = ?c" unfolding peek using len by simp
  have "ring_peek r ! i = ring_content r ! i" if "i < ?c" for i
  proof -
    have "(unat (tail r) + i) mod 2048 = ?t + i"
      using mod_offset_cong [of "unat (tail r)" 2048 ?t i] that by simp
    with that len show ?thesis by (simp add: peek ring_content_alt)
  qed
  then have "ring_peek r = take ?c (ring_content r)"
    using lp by (intro nth_equalityI) auto
  moreover have "ring_content r \<noteq> [] \<Longrightarrow> 0 < ?c"
    using lt by (simp flip: length_greater_0_conv)
  ultimately show ?thesis using lp by (metis length_greater_0_conv)
qed

lemma ring_advance_content:
  assumes "n \<le> ring_used r"
  shows "ring_content (ring_advance r n) = drop n (ring_content r)"
proof -
  have u: "ring_used (ring_advance r n) = ring_used r - n"
    using used_after_advance [OF assms] by (simp add: ring_advance_def ring_used_def)
  have "(unat (tail (ring_advance r n)) + i) mod 2048 = (unat (tail r) + (n + i)) mod 2048" for i
    using mod_offset_cong [OF tail_add_mod, of r n i] by (simp add: ring_advance_def add.assoc)
  then show ?thesis
    by (auto simp: ring_content_alt u intro!: nth_equalityI) (simp add: ring_advance_def)
qed

lemma ring_advance_invar: "ring_invar r \<Longrightarrow> n \<le> ring_used r \<Longrightarrow> ring_invar (ring_advance r n)"
  using used_after_advance [of n r] by (auto simp: ring_invar_def ring_advance_def ring_used_def)

lemma ring_reset_empty: "ring_content (ring_reset r) = [] \<and> (ring_invar r \<longrightarrow> ring_invar (ring_reset r))"
  by (simp add: ring_content_alt ring_reset_def ring_used_def ring_invar_def)

subsection \<open>The connection operations on all rings\<close>

definition rings_invar :: "rings \<Rightarrow> bool" where
  "rings_invar rs \<longleftrightarrow> length rs = nat CONN_TX_SLOTS \<and> list_all ring_invar rs"

lemma conn_tx_slot_range: "conn_tx_slot c < CONN_TX_SLOTS"
  by (auto simp: conn_tx_slot_def conn_tx_consts)

lemma conn_tx_slot_inj:
  "conn_tx_slot c = conn_tx_slot d \<Longrightarrow> 0 \<le> conn_tx_slot c \<Longrightarrow> c = d"
  by (auto simp: conn_tx_slot_def conn_tx_consts split: if_splits)

lemma ring_of_Some:
  "ring_of rs c = Some r \<Longrightarrow> 0 \<le> conn_tx_slot c \<and> r = rs ! nat (conn_tx_slot c)"
  by (auto simp: ring_of_def Let_def split: if_splits)

lemma ring_of_invar: "rings_invar rs \<Longrightarrow> ring_of rs c = Some r \<Longrightarrow> ring_invar r"
  using conn_tx_slot_range [of c]
  by (auto simp: rings_invar_def list_all_length dest!: ring_of_Some)

lemma put_ring_invar: "rings_invar rs \<Longrightarrow> ring_invar r \<Longrightarrow> rings_invar (put_ring rs c r)"
  by (auto simp: rings_invar_def put_ring_def list_all_iff dest!: set_update_subset_insert [THEN subsetD])

lemma ring_of_put_ring:
  assumes "rings_invar rs" and "ring_of rs c = Some r"
  shows "ring_of (put_ring rs c r') d = (if d = c then Some r' else ring_of rs d)"
proof -
  from ring_of_Some [OF assms(2)] have c: "0 \<le> conn_tx_slot c" by simp
  have lt: "nat (conn_tx_slot c) < length rs"
    using conn_tx_slot_range [of c] c assms(1) by (simp add: rings_invar_def)
  show ?thesis
    using c lt conn_tx_slot_inj [of c d]
    by (auto simp: ring_of_def put_ring_def Let_def nth_list_update nat_eq_iff)
qed

text \<open>The queue of a connection; a connection without a ring has the empty one.\<close>

definition conn_content :: "rings \<Rightarrow> int \<Rightarrow> u8 list" where
  "conn_content rs c = (case ring_of rs c of None \<Rightarrow> [] | Some r \<Rightarrow> ring_content r)"

lemma conn_tx_write_spec:
  assumes "rings_invar rs"
  shows "case conn_tx_write rs c bytes of (rs', n) \<Rightarrow>
     rings_invar rs' \<and>
     conn_content rs' c = conn_content rs c @ take n bytes \<and>
     n = (if length bytes \<le> conn_tx_free rs c then length bytes else 0) \<and>
     (\<forall>d. d \<noteq> c \<longrightarrow> conn_content rs' d = conn_content rs d)"
proof (cases "ring_of rs c")
  case None
  then show ?thesis
    using assms by (auto simp: conn_tx_write_def conn_content_def conn_tx_free_def)
next
  case (Some r)
  have inv: "ring_invar r" using assms Some by (rule ring_of_invar)
  obtain r' n where w: "ring_write r bytes = (r', n)" by fastforce
  have inv': "ring_invar r'" using ring_write_invar [OF inv, of bytes] w by simp
  have "ring_content r' = ring_content r @ take n bytes \<and>
      n = (if length bytes \<le> ring_free r then length bytes else 0)"
    using ring_write_fits [OF inv, of bytes] ring_write_refused [of r bytes] w
    by (cases "length bytes \<le> ring_free r") auto
  with Some w show ?thesis
    using ring_of_put_ring [OF assms Some, of r'] put_ring_invar [OF assms inv', of c]
    by (simp add: conn_tx_write_def conn_content_def conn_tx_free_def)
qed

text \<open>
  The rings refine one bounded byte queue per connection. A write appends all its bytes and
  returns their number, or appends nothing and returns 0, the latter exactly when they do not fit
  the space \<open>conn_tx_free\<close> reports; and it never touches another connection's queue.
\<close>

theorem conn_tx_write_all_or_nothing:
  assumes "rings_invar rs"
  shows "case conn_tx_write rs c bytes of (rs', n) \<Rightarrow>
     rings_invar rs' \<and>
     conn_content rs' c = conn_content rs c @ take n bytes \<and>
     n = (if length bytes \<le> conn_tx_free rs c then length bytes else 0) \<and>
     (\<forall>d. d \<noteq> c \<longrightarrow> conn_content rs' d = conn_content rs d)"
  using assms by (rule conn_tx_write_spec)

lemma rings_init_invar: "rings_invar rings_init"
  by (simp add: rings_invar_def rings_init_def ring_invar_def ring_used_def list_all_length)

theorem conn_tx_write_all_or_nothing_witness:
  "case conn_tx_write rings_init 8 [1, 2, 3] of (rs', n) \<Rightarrow>
     n = 3 \<and> conn_content rs' 8 = conn_content rings_init 8 @ [1, 2, 3]"
proof -
  have "conn_tx_free rings_init 8 = 2047"
    by (simp add: conn_tx_free_def ring_of_def conn_tx_slot_def rings_init_def ring_free_def conn_tx_consts)
  then show ?thesis
    using conn_tx_write_all_or_nothing [OF rings_init_invar, of 8 "[1, 2, 3]"] by (simp split: prod.splits)
qed

text \<open>
  Draining is first in, first out: \<open>conn_tx_peek\<close> returns a prefix of the connection's
  queue, empty only when the queue is, and advancing past any part of it removes exactly those
  bytes from the front and leaves the other connections alone.
\<close>

theorem conn_tx_drain_fifo:
  assumes "rings_invar rs" and "n \<le> length (conn_tx_peek rs c)"
  shows "take n (conn_tx_peek rs c) = take n (conn_content rs c) \<and>
     (conn_tx_peek rs c = [] \<longleftrightarrow> conn_content rs c = []) \<and>
     conn_content (conn_tx_advance rs c n) c = drop n (conn_content rs c) \<and>
     rings_invar (conn_tx_advance rs c n) \<and>
     (\<forall>d. d \<noteq> c \<longrightarrow> conn_content (conn_tx_advance rs c n) d = conn_content rs d)"
proof (cases "ring_of rs c")
  case None
  then show ?thesis using assms by (simp add: conn_tx_peek_def conn_tx_advance_def conn_content_def)
next
  case (Some r)
  have inv: "ring_invar r" using assms(1) Some by (rule ring_of_invar)
  note peek = ring_peek_prefix [OF inv]
  have n: "n \<le> length (ring_peek r)" using assms(2) Some by (simp add: conn_tx_peek_def)
  have used: "n \<le> ring_used r"
    using peek n by (metis length_ring_content length_take min.cobounded1 order_trans)
  have "take n (ring_peek r) = take n (ring_content r)"
    using peek n by (metis min.absorb1 take_take)
  moreover have "ring_peek r = [] \<longleftrightarrow> ring_content r = []" using peek by (metis take_Nil)
  ultimately show ?thesis
    using Some ring_advance_content [OF used] ring_of_put_ring [OF assms(1) Some]
      put_ring_invar [OF assms(1) ring_advance_invar [OF inv used]]
    by (simp add: conn_tx_peek_def conn_tx_advance_def conn_content_def)
qed

theorem conn_tx_drain_fifo_witness:
  "conn_content (conn_tx_advance (fst (conn_tx_write rings_init 2 [1, 2, 3])) 2 1) 2 = [2, 3]"
proof -
  let ?rs = "fst (conn_tx_write rings_init 2 [1, 2, 3])"
  have free: "conn_tx_free rings_init 2 = 2047"
    by (simp add: conn_tx_free_def ring_of_def conn_tx_slot_def rings_init_def ring_free_def conn_tx_consts)
  have empty: "conn_content rings_init 2 = []"
    by (simp add: conn_content_def ring_of_def conn_tx_slot_def rings_init_def ring_content_def
        ring_used_def conn_tx_consts)
  have inv: "rings_invar ?rs" and content: "conn_content ?rs 2 = [1, 2, 3]"
    using conn_tx_write_spec [OF rings_init_invar, of 2 "[1, 2, 3]"] free empty
    by (auto split: prod.splits)
  have "1 \<le> length (conn_tx_peek ?rs 2)"
    using conn_tx_drain_fifo [OF inv, of 0 2] content by (simp add: Suc_le_eq)
  then show ?thesis using conn_tx_drain_fifo [OF inv, of 1 2] content by simp
qed

subsection \<open>The two tasks, step by step\<close>

text \<open>
  The worker writes and the network task drains without a lock. A write is two steps: it reads
  both indices, checks the room and stores the bytes; later it publishes the new head. A drain is
  two steps: it reads both indices and picks a run; later it copies bytes of that run out and
  moves the tail. Any interleaving of these steps is allowed. \<open>w_pending\<close> is what the worker
  stored and not yet published, \<open>c_run\<close> the length the network task still holds from its peek.
  \<open>sent\<close> and \<open>received\<close> record the bytes of the accepted writes and the bytes copied out.
\<close>

record spsc =
  ring :: ring_t
  w_pending :: "u8 list option"
  c_run :: nat
  sent :: "u8 list"
  received :: "u8 list"

definition ring_bytes :: "ring_t \<Rightarrow> nat \<Rightarrow> u8 list" where
  "ring_bytes r n = map (\<lambda>i. buf r ! ((unat (tail r) + i) mod 2048)) [0..<n]"

inductive spsc_step :: "spsc \<Rightarrow> spsc \<Rightarrow> bool" where
  w_store: "w_pending s = None \<Longrightarrow> length bytes \<le> ring_free (ring s) \<Longrightarrow>
    spsc_step s (s\<lparr>ring := (ring s)\<lparr>buf := ring_store (buf (ring s)) (unat (head (ring s))) bytes\<rparr>,
      w_pending := Some bytes\<rparr>)"
| w_publish: "w_pending s = Some bytes \<Longrightarrow>
    spsc_step s (s\<lparr>ring := (ring s)\<lparr>head := of_nat (unat (head (ring s)) + length bytes)\<rparr>,
      w_pending := None, sent := sent s @ bytes\<rparr>)"
| c_peek: "spsc_step s (s\<lparr>c_run := length (ring_peek (ring s))\<rparr>)"
| c_advance: "n \<le> c_run s \<Longrightarrow>
    spsc_step s (s\<lparr>received := received s @ ring_bytes (ring s) n,
      ring := ring_advance (ring s) n, c_run := 0\<rparr>)"

definition spsc_init :: spsc where
  "spsc_init = \<lparr>ring = \<lparr>head = 0, tail = 0, buf = replicate CONN_TX_RING_SIZE 0\<rparr>,
     w_pending = None, c_run = 0, sent = [], received = []\<rparr>"

inductive spsc_reachable :: "spsc \<Rightarrow> bool" where
  start: "spsc_reachable spsc_init"
| step: "spsc_reachable s \<Longrightarrow> spsc_step s t \<Longrightarrow> spsc_reachable t"

definition pending_bytes :: "spsc \<Rightarrow> u8 list" where
  "pending_bytes s = (case w_pending s of None \<Rightarrow> [] | Some xs \<Rightarrow> xs)"

text \<open>
  The invariant: the queue and the stored, unpublished bytes behind it lie in the buffer one after
  the other, the run the network task holds is still in the queue, and what was sent is what was
  received followed by what is queued.
\<close>

definition spsc_inv :: "spsc \<Rightarrow> bool" where
  "spsc_inv s \<longleftrightarrow>
     ring_invar (ring s) \<and>
     ring_used (ring s) + length (pending_bytes s) \<le> 2047 \<and>
     ring_bytes (ring s) (ring_used (ring s) + length (pending_bytes s)) =
       ring_content (ring s) @ pending_bytes s \<and>
     c_run s \<le> ring_used (ring s) \<and>
     sent s = received s @ ring_content (ring s)"

lemma ring_bytes_content: "ring_bytes r (ring_used r) = ring_content r"
  by (simp add: ring_bytes_def ring_content_alt)

lemma take_ring_bytes: "n \<le> m \<Longrightarrow> ring_bytes r n = take n (ring_bytes r m)"
  by (simp add: ring_bytes_def take_map)

lemma ring_peek_le: "ring_invar r \<Longrightarrow> length (ring_peek r) \<le> ring_used r"
  using ring_peek_prefix [of r] by (metis length_ring_content length_take min.cobounded1)

lemma ring_bytes_advance:
  assumes "n \<le> m"
  shows "ring_bytes (ring_advance r n) (m - n) = drop n (ring_bytes r m)"
proof -
  have "(unat (tail (ring_advance r n)) + i) mod 2048 = (unat (tail r) + (n + i)) mod 2048" for i
    using mod_offset_cong [OF tail_add_mod, of r n i] by (simp add: ring_advance_def add.assoc)
  then show ?thesis
    using assms by (auto simp: ring_bytes_def intro!: nth_equalityI) (simp add: ring_advance_def)
qed

lemma inv_w_store:
  assumes "spsc_inv s" and "w_pending s = None" and "length bytes \<le> ring_free (ring s)"
  shows "spsc_inv (s\<lparr>ring := (ring s)\<lparr>buf := ring_store (buf (ring s)) (unat (head (ring s))) bytes\<rparr>,
      w_pending := Some bytes\<rparr>)"
proof -
  let ?r = "ring s"
  let ?r' = "?r\<lparr>buf := ring_store (buf ?r) (unat (head ?r)) bytes\<rparr>"
  from assms(1) have inv: "ring_invar ?r" by (simp add: spsc_inv_def)
  then have len: "length (buf ?r) = 2048" by (simp add: ring_invar_def CONN_TX_RING_SIZE_def)
  have fit: "ring_used ?r + length bytes \<le> 2047" using free_fits [OF inv] assms(3) by blast
  have all: "ring_bytes ?r' (ring_used ?r + length bytes) = ring_content ?r @ bytes"
    using stored_content [OF len fit head_mod] by (simp add: ring_bytes_def ring_content_alt)
  have used: "ring_used ?r' = ring_used ?r" by (simp add: ring_used_def)
  have "ring_content ?r' = take (ring_used ?r) (ring_bytes ?r' (ring_used ?r + length bytes))"
    using take_ring_bytes [of "ring_used ?r" "ring_used ?r + length bytes" ?r']
    by (simp add: ring_bytes_content [symmetric] used)
  then have content: "ring_content ?r' = ring_content ?r" by (simp add: all)
  show ?thesis
    using assms(1) inv fit all used content
    by (simp add: spsc_inv_def pending_bytes_def ring_invar_def)
qed

lemma inv_w_publish:
  assumes "spsc_inv s" and "w_pending s = Some bytes"
  shows "spsc_inv (s\<lparr>ring := (ring s)\<lparr>head := of_nat (unat (head (ring s)) + length bytes)\<rparr>,
      w_pending := None, sent := sent s @ bytes\<rparr>)"
proof -
  let ?r = "ring s"
  let ?r' = "?r\<lparr>head := of_nat (unat (head ?r) + length bytes)\<rparr>"
  have fit: "ring_used ?r + length bytes \<le> 2047"
    and all: "ring_bytes ?r (ring_used ?r + length bytes) = ring_content ?r @ bytes"
    using assms by (auto simp: spsc_inv_def pending_bytes_def)
  have used: "ring_used ?r' = ring_used ?r + length bytes"
    using used_after_write [of ?r "length bytes"] fit by (simp add: ring_used_def)
  have "ring_content ?r' = ring_content ?r @ bytes"
    using all by (simp only: ring_bytes_content [symmetric] used) (simp add: ring_bytes_def)
  moreover have "ring_bytes ?r' (ring_used ?r + length bytes) = ring_content ?r @ bytes"
    using all by (simp add: ring_bytes_def)
  ultimately show ?thesis
    using assms used fit
    by (simp add: spsc_inv_def pending_bytes_def ring_invar_def conn_tx_consts ring_bytes_content
        del: of_nat_add)
qed

lemma inv_c_advance:
  assumes "spsc_inv s" and "n \<le> c_run s"
  shows "spsc_inv (s\<lparr>received := received s @ ring_bytes (ring s) n,
      ring := ring_advance (ring s) n, c_run := 0\<rparr>)"
proof -
  let ?r = "ring s"
  let ?p = "pending_bytes s"
  have n: "n \<le> ring_used ?r" using assms by (simp add: spsc_inv_def)
  have used: "ring_used (ring_advance ?r n) = ring_used ?r - n"
    using used_after_advance [OF n] by (simp add: ring_advance_def ring_used_def)
  have "ring_used ?r - n + length ?p = ring_used ?r + length ?p - n" using n by simp
  then have "ring_bytes (ring_advance ?r n) (ring_used ?r - n + length ?p) =
      drop n (ring_bytes ?r (ring_used ?r + length ?p))"
    using ring_bytes_advance [of n "ring_used ?r + length ?p" ?r] n by simp
  then have bytes: "ring_bytes (ring_advance ?r n) (ring_used ?r - n + length ?p) =
      drop n (ring_content ?r) @ ?p"
    using assms(1) n by (simp add: spsc_inv_def)
  have "ring_bytes ?r n = take n (ring_content ?r)"
    using take_ring_bytes [OF n, of ?r] by (simp add: ring_bytes_content)
  with assms(1) n used bytes ring_advance_content [OF n] ring_advance_invar [of ?r n] show ?thesis
    by (auto simp: spsc_inv_def pending_bytes_def split: option.splits)
qed

lemma spsc_step_inv: "spsc_step s t \<Longrightarrow> spsc_inv s \<Longrightarrow> spsc_inv t"
proof (induction rule: spsc_step.induct)
  case (c_peek s)
  then show ?case using ring_peek_le [of "ring s"] by (simp add: spsc_inv_def pending_bytes_def)
next
  case (w_publish s bytes)
  then show ?case by (intro inv_w_publish)
qed (auto intro: inv_w_store inv_c_advance)

lemma spsc_reachable_inv: "spsc_reachable s \<Longrightarrow> spsc_inv s"
proof (induction rule: spsc_reachable.induct)
  case start
  show ?case
    by (simp add: spsc_inv_def spsc_init_def ring_invar_def ring_used_def pending_bytes_def
        ring_bytes_def ring_content_def conn_tx_consts)
next
  case (step s t)
  then show ?case by (blast intro: spsc_step_inv)
qed

text \<open>
  C24. Under every interleaving of the worker's and the network task's steps, what the network
  task has copied out is, byte for byte and in order, the beginning of what the worker has
  published; the rest is exactly what is queued. No byte is lost, duplicated, reordered or
  overwritten, and no connection queues more than 2047 bytes.
\<close>

theorem spsc_no_loss:
  assumes "spsc_reachable s"
  shows "sent s = received s @ ring_content (ring s) \<and> ring_used (ring s) \<le> 2047"
  using spsc_reachable_inv [OF assms] by (simp add: spsc_inv_def ring_invar_def conn_tx_consts)

theorem spsc_no_loss_witness:
  "\<exists>s. spsc_reachable s \<and> sent s = [7, 9] \<and> sent s = received s @ ring_content (ring s)"
proof -
  let ?s1 = "spsc_init\<lparr>ring := (ring spsc_init)\<lparr>buf := ring_store (buf (ring spsc_init)) (unat (head (ring spsc_init))) [7, 9]\<rparr>,
      w_pending := Some [7, 9]\<rparr>"
  let ?s2 = "?s1\<lparr>ring := (ring ?s1)\<lparr>head := of_nat (unat (head (ring ?s1)) + length [7, 9 :: u8])\<rparr>,
      w_pending := None, sent := sent ?s1 @ [7, 9]\<rparr>"
  have "spsc_step spsc_init ?s1"
    by (rule w_store) (simp_all add: spsc_init_def ring_free_def conn_tx_consts)
  then have r1: "spsc_reachable ?s1" by (rule spsc_reachable.step [OF spsc_reachable.start])
  have "spsc_step ?s1 ?s2" by (rule w_publish) simp
  with r1 have r2: "spsc_reachable ?s2" by (rule spsc_reachable.step)
  moreover have "sent ?s2 = [7, 9]" by (simp add: spsc_init_def)
  ultimately show ?thesis using spsc_no_loss [OF r2] by blast
qed

end
