(* ===== verification/CmdTier.thy ===== *)
theory CmdTier
  imports Json
begin

section \<open>The command table and its tiers\<close>

text \<open>
  The model of \<^verbatim>\<open>stm32h563/src/cmd_tier.c\<close> and \<^verbatim>\<open>cmd_table.h\<close>: one row per JSON verb with its
  tier and flags, the lookup, the write forms of the mixed verbs and the tier of a command line.
  The rows carry no handler, as in the host build (\<^verbatim>\<open>CMD_TABLE_NO_HANDLERS\<close>); the row of the EMI
  test build (\<^verbatim>\<open>BENCHPOD_EMI_TEST\<close>) is left out. A \<^verbatim>\<open>NULL\<close> verb or JSON line is \<open>None\<close>.
\<close>

datatype cmd_tier_t = CMD_TIER_T0 | CMD_TIER_T1 | CMD_TIER_T2 | CMD_TIER_T3

text \<open>The C enum is ordered by its value; the gates compare tiers.\<close>

fun tier_int :: "cmd_tier_t \<Rightarrow> int" where
  "tier_int CMD_TIER_T0 = 0"
| "tier_int CMD_TIER_T1 = 1"
| "tier_int CMD_TIER_T2 = 2"
| "tier_int CMD_TIER_T3 = 3"

lemma tier_int_inj: "tier_int a = tier_int b \<Longrightarrow> a = b"
  by (cases a; cases b) auto

instantiation cmd_tier_t :: linorder
begin

definition less_eq_cmd_tier_t :: "cmd_tier_t \<Rightarrow> cmd_tier_t \<Rightarrow> bool" where
  "less_eq_cmd_tier_t a b \<longleftrightarrow> tier_int a \<le> tier_int b"

definition less_cmd_tier_t :: "cmd_tier_t \<Rightarrow> cmd_tier_t \<Rightarrow> bool" where
  "less_cmd_tier_t a b \<longleftrightarrow> tier_int a < tier_int b"

instance
  by standard (auto simp: less_eq_cmd_tier_t_def less_cmd_tier_t_def dest: tier_int_inj)

end

definition CMD_F_NO_HW :: u8 where "CMD_F_NO_HW = 1"
definition CMD_F_ANALOG :: u8 where "CMD_F_ANALOG = 2"
definition CMD_F_STREAM :: u8 where "CMD_F_STREAM = 4"
definition CMD_F_HEAVY :: u8 where "CMD_F_HEAVY = 8"
definition CMD_F_NOISY :: u8 where "CMD_F_NOISY = 16"
definition CMD_F_MIXED :: u8 where "CMD_F_MIXED = 32"

lemmas cmd_flag_defs = CMD_F_NO_HW_def CMD_F_ANALOG_def CMD_F_STREAM_def CMD_F_HEAVY_def
  CMD_F_NOISY_def CMD_F_MIXED_def

record cmd_desc_t =
  cmd_name :: cstr
  cmd_row_tier :: cmd_tier_t
  cmd_flags :: u8

definition row :: "cstr \<Rightarrow> cmd_tier_t \<Rightarrow> u8 \<Rightarrow> cmd_desc_t" where
  "row n t f = \<lparr>cmd_name = n, cmd_row_tier = t, cmd_flags = f\<rparr>"

definition k_tiers :: "cmd_desc_t list" where
  "k_tiers =
    [row ''ping'' CMD_TIER_T0 (CMD_F_NO_HW OR CMD_F_NOISY),
     row ''status'' CMD_TIER_T0 (CMD_F_NO_HW),
     row ''cloud_status'' CMD_TIER_T0 (CMD_F_NO_HW),
     row ''wifi_status'' CMD_TIER_T0 (CMD_F_NO_HW),
     row ''wifi_scan'' CMD_TIER_T0 (CMD_F_NO_HW),
     row ''la_pins'' CMD_TIER_T0 (0),
     row ''usb_cc'' CMD_TIER_T0 (CMD_F_NO_HW),
     row ''target_status'' CMD_TIER_T0 (CMD_F_NO_HW OR CMD_F_NOISY),
     row ''power_status'' CMD_TIER_T0 (CMD_F_NO_HW OR CMD_F_NOISY),
     row ''identity_public'' CMD_TIER_T0 (CMD_F_NO_HW),
     row ''identity_pop'' CMD_TIER_T0 (CMD_F_NO_HW),
     row ''identity_wipe'' CMD_TIER_T0 (CMD_F_NO_HW),
     row ''spi_status'' CMD_TIER_T0 (0),
     row ''sensor_status'' CMD_TIER_T0 (0),
     row ''sensor_types'' CMD_TIER_T0 (0),
     row ''gps_status'' CMD_TIER_T0 (0),
     row ''can_status'' CMD_TIER_T0 (CMD_F_NO_HW),
     row ''ota_status'' CMD_TIER_T0 (0),
     row ''blob_status'' CMD_TIER_T0 (0),
     row ''dac_loop_probe'' CMD_TIER_T0 (CMD_F_ANALOG),
     row ''capture'' CMD_TIER_T0 (CMD_F_ANALOG OR CMD_F_STREAM OR CMD_F_HEAVY),
     row ''capture_dual'' CMD_TIER_T0 (CMD_F_STREAM OR CMD_F_HEAVY),
     row ''capture_read'' CMD_TIER_T0 (CMD_F_STREAM OR CMD_F_HEAVY),
     row ''stream'' CMD_TIER_T0 (CMD_F_ANALOG OR CMD_F_STREAM OR CMD_F_HEAVY),
     row ''la_capture'' CMD_TIER_T0 (CMD_F_STREAM OR CMD_F_HEAVY),
     row ''sensor_regs'' CMD_TIER_T0 (CMD_F_STREAM OR CMD_F_HEAVY),
     row ''sensor_la'' CMD_TIER_T0 (CMD_F_STREAM OR CMD_F_HEAVY),
     row ''can_read'' CMD_TIER_T0 (CMD_F_NO_HW OR CMD_F_HEAVY),
     row ''psram_ping'' CMD_TIER_T0 (CMD_F_HEAVY),
     row ''test'' CMD_TIER_T0 (CMD_F_STREAM OR CMD_F_HEAVY),
     row ''dac_limits'' CMD_TIER_T0 (CMD_F_NO_HW OR CMD_F_ANALOG OR CMD_F_MIXED),
     row ''calibrate'' CMD_TIER_T0 (CMD_F_ANALOG OR CMD_F_MIXED),
     row ''eth'' CMD_TIER_T0 (CMD_F_NO_HW OR CMD_F_MIXED),
     row ''sig_policy'' CMD_TIER_T0 (CMD_F_MIXED),
     row ''lan_policy'' CMD_TIER_T0 (CMD_F_MIXED),
     row ''usb_network'' CMD_TIER_T0 (CMD_F_MIXED),
     row ''module'' CMD_TIER_T0 (CMD_F_NO_HW OR CMD_F_MIXED),
     row ''cloud_ca'' CMD_TIER_T0 (CMD_F_MIXED),
     row ''cloud_proxy'' CMD_TIER_T0 (CMD_F_MIXED),
     row ''lan_tls'' CMD_TIER_T0 (CMD_F_MIXED),
     row ''generate'' CMD_TIER_T1 (CMD_F_ANALOG),
     row ''measure'' CMD_TIER_T1 (CMD_F_ANALOG OR CMD_F_STREAM),
     row ''load'' CMD_TIER_T1 (CMD_F_ANALOG OR CMD_F_STREAM),
     row ''load_bin'' CMD_TIER_T1 (CMD_F_ANALOG OR CMD_F_STREAM),
     row ''replay'' CMD_TIER_T1 (CMD_F_ANALOG OR CMD_F_STREAM),
     row ''dac_stop'' CMD_TIER_T1 (0),
     row ''dac_set'' CMD_TIER_T1 (CMD_F_ANALOG),
     row ''dac_mux'' CMD_TIER_T1 (CMD_F_ANALOG),
     row ''cal_switch'' CMD_TIER_T1 (CMD_F_ANALOG),
     row ''analog_path'' CMD_TIER_T1 (CMD_F_ANALOG),
     row ''dac_out'' CMD_TIER_T1 (CMD_F_ANALOG),
     row ''current_out'' CMD_TIER_T1 (CMD_F_ANALOG),
     row ''adc_read'' CMD_TIER_T1 (CMD_F_ANALOG),
     row ''adc_range'' CMD_TIER_T1 (CMD_F_ANALOG),
     row ''dac_control_loop'' CMD_TIER_T1 (CMD_F_ANALOG),
     row ''dac_loop_input'' CMD_TIER_T1 (CMD_F_ANALOG),
     row ''la'' CMD_TIER_T1 (0),
     row ''gpio'' CMD_TIER_T1 (0),
     row ''la_voltage'' CMD_TIER_T1 (CMD_F_NO_HW),
     row ''nrst'' CMD_TIER_T1 (CMD_F_NO_HW),
     row ''target_power'' CMD_TIER_T1 (CMD_F_NO_HW),
     row ''module_power'' CMD_TIER_T1 (0),
     row ''power_profile'' CMD_TIER_T1 (CMD_F_NO_HW),
     row ''dap_start'' CMD_TIER_T1 (CMD_F_STREAM),
     row ''uart_proxy_start'' CMD_TIER_T1 (CMD_F_STREAM),
     row ''spi_start'' CMD_TIER_T1 (0),
     row ''spi_stop'' CMD_TIER_T1 (0),
     row ''spi_xfer'' CMD_TIER_T1 (0),
     row ''spi_stream'' CMD_TIER_T1 (0),
     row ''spi_flash'' CMD_TIER_T1 (0),
     row ''sensor_start'' CMD_TIER_T1 (0),
     row ''sensor_set'' CMD_TIER_T1 (0),
     row ''sensor_stop'' CMD_TIER_T1 (0),
     row ''gps_start'' CMD_TIER_T1 (0),
     row ''gps_set'' CMD_TIER_T1 (0),
     row ''gps_stop'' CMD_TIER_T1 (0),
     row ''can_config'' CMD_TIER_T1 (CMD_F_NO_HW),
     row ''can_write'' CMD_TIER_T1 (CMD_F_NO_HW),
     row ''can_term'' CMD_TIER_T1 (CMD_F_NO_HW),
     row ''can_respond'' CMD_TIER_T1 (CMD_F_NO_HW),
     row ''can_disable'' CMD_TIER_T1 (CMD_F_NO_HW),
     row ''speedtest'' CMD_TIER_T1 (CMD_F_NO_HW OR CMD_F_STREAM),
     row ''fpga_image'' CMD_TIER_T1 (0),
     row ''psram_recover'' CMD_TIER_T1 (0),
     row ''cloud_set'' CMD_TIER_T2 (CMD_F_NO_HW),
     row ''cloud_clear'' CMD_TIER_T2 (CMD_F_NO_HW),
     row ''wifi_set'' CMD_TIER_T2 (CMD_F_NO_HW),
     row ''wifi_clear'' CMD_TIER_T2 (CMD_F_NO_HW),
     row ''ota_begin'' CMD_TIER_T3 (0),
     row ''ota_data'' CMD_TIER_T3 (0),
     row ''ota_end'' CMD_TIER_T3 (0),
     row ''ota_commit'' CMD_TIER_T3 (0),
     row ''ota_abort'' CMD_TIER_T3 (0),
     row ''ota_selftest'' CMD_TIER_T3 (0)]"

definition cmd_has :: "cmd_desc_t option \<Rightarrow> u8 \<Rightarrow> bool" where
  "cmd_has d flag = (case d of None \<Rightarrow> False | Some r \<Rightarrow> cmd_flags r AND flag \<noteq> 0)"

definition cmd_find :: "cstr option \<Rightarrow> cmd_desc_t option" where
  "cmd_find cmd = (case cmd of None \<Rightarrow> None | Some c \<Rightarrow> find (\<lambda>r. c = cmd_name r) k_tiers)"

text \<open>
  The 16-byte scratch \<open>v\<close> of \<open>mixed_write\<close> is overwritten by each \<open>bp_json_get\<close>; a lookup that
  fails leaves it empty.
\<close>

definition has :: "cstr \<Rightarrow> cstr \<Rightarrow> bool" where
  "has json key = fst (bp_json_get json key 16)"

definition val :: "cstr \<Rightarrow> cstr \<Rightarrow> cstr" where
  "val json key = snd (bp_json_get json key 16)"

definition mixed_write :: "cstr \<Rightarrow> cstr option \<Rightarrow> bool" where
  "mixed_write cmd json =
     (case json of
        None \<Rightarrow> False
      | Some j \<Rightarrow>
          if cmd = ''dac_limits'' then
            has j ''path'' \<or> (has j ''enabled'' \<and> val j ''enabled'' = ''false'')
          else if cmd = ''calibrate'' then
            has j ''source'' \<or> has j ''dac'' \<or> has j ''adc'' \<or> has j ''comp_hf_dc_e4'' \<or>
            (has j ''clear'' \<and> val j ''clear'' \<noteq> ''false'')
          else if cmd = ''sig_policy'' \<or> cmd = ''lan_policy'' \<or> cmd = ''usb_network'' then
            has j ''set''
          else if cmd = ''cloud_ca'' \<or> cmd = ''cloud_proxy'' then
            has j ''set'' \<or> (has j ''clear'' \<and> val j ''clear'' = ''true'')
          else if cmd = ''lan_tls'' then
            has j ''https_only'' \<or> (has j ''regenerate'' \<and> val j ''regenerate'' = ''true'')
          else if cmd = ''module'' then
            has j ''eeprom'' \<and> val j ''eeprom'' \<noteq> ''read''
          else if cmd = ''eth'' then
            val j ''action'' \<noteq> ''stats'' \<and> val j ''action'' \<noteq> ''refclk''
          else False)"

definition cmd_tier_of :: "cmd_desc_t option \<Rightarrow> cstr option \<Rightarrow> cmd_tier_t" where
  "cmd_tier_of d json =
     (case d of
        None \<Rightarrow> CMD_TIER_T3
      | Some r \<Rightarrow>
          if cmd_flags r AND CMD_F_MIXED \<noteq> 0 \<and> mixed_write (cmd_name r) json
          then CMD_TIER_T2 else cmd_row_tier r)"

definition cmd_tier :: "cstr option \<Rightarrow> cstr option \<Rightarrow> cmd_tier_t" where
  "cmd_tier cmd json = cmd_tier_of (cmd_find cmd) json"

definition cmd_tier_known :: "cstr option \<Rightarrow> bool" where
  "cmd_tier_known cmd \<longleftrightarrow> cmd_find cmd \<noteq> None"

definition cmd_tier_light :: "cstr option \<Rightarrow> cstr option \<Rightarrow> bool" where
  "cmd_tier_light cmd json =
     (case cmd_find cmd of
        None \<Rightarrow> False
      | Some r \<Rightarrow> cmd_flags r AND CMD_F_HEAVY = 0 \<and> cmd_tier_of (Some r) json = CMD_TIER_T0)"

fun cmd_tier_name :: "cmd_tier_t \<Rightarrow> cstr" where
  "cmd_tier_name CMD_TIER_T0 = ''T0''"
| "cmd_tier_name CMD_TIER_T1 = ''T1''"
| "cmd_tier_name CMD_TIER_T2 = ''T2''"
| "cmd_tier_name CMD_TIER_T3 = ''T3''"

subsection \<open>What the table promises\<close>

text \<open>Facts of the 94 rows, checked once by evaluation.\<close>

lemma k_tiers_names_distinct: "distinct (map cmd_name k_tiers)"
  by code_simp

lemma k_tiers_mixed_read: "list_all (\<lambda>r. cmd_flags r AND CMD_F_MIXED \<noteq> 0 \<longrightarrow> cmd_row_tier r = CMD_TIER_T0) k_tiers"
  by code_simp

lemma k_tiers_firmware:
  "map cmd_name (filter (\<lambda>r. cmd_row_tier r = CMD_TIER_T3) k_tiers) =
   [''ota_begin'', ''ota_data'', ''ota_end'', ''ota_commit'', ''ota_abort'', ''ota_selftest'']"
  by code_simp

lemma cmd_find_Some: "cmd_find cmd = Some r \<Longrightarrow> r \<in> set k_tiers \<and> cmd = Some (cmd_name r)"
  by (auto simp: cmd_find_def find_Some_iff split: option.splits)

lemma find_unique:
  "distinct (map f xs) \<Longrightarrow> x \<in> set xs \<Longrightarrow> find (\<lambda>y. f x = f y) xs = Some x"
  by (induction xs) (auto, metis imageI)

lemma cmd_find_row: "r \<in> set k_tiers \<Longrightarrow> cmd_find (Some (cmd_name r)) = Some r"
  using find_unique [OF k_tiers_names_distinct] by (simp add: cmd_find_def)

lemma cmd_find_filter:
  assumes "cmd_find (Some c) = Some r"
  shows "c \<in> set (map cmd_name (filter P k_tiers)) \<longleftrightarrow> P r"
proof
  assume "c \<in> set (map cmd_name (filter P k_tiers))"
  then obtain r' where "r' \<in> set k_tiers" "P r'" "c = cmd_name r'" by auto
  with assms cmd_find_row [of r'] show "P r" by simp
next
  assume "P r"
  with cmd_find_Some [OF assms] show "c \<in> set (map cmd_name (filter P k_tiers))" by auto
qed

lemma cmd_find_None: "cmd_find (Some c) = None \<longleftrightarrow> c \<notin> cmd_name ` set k_tiers"
  by (auto simp: cmd_find_def find_None_iff)

lemma cmd_tier_of_ge: "r \<in> set k_tiers \<Longrightarrow> cmd_row_tier r \<le> cmd_tier_of (Some r) json"
  using k_tiers_mixed_read
  by (auto simp: cmd_tier_of_def list_all_iff less_eq_cmd_tier_t_def)

lemma tier_top: "t \<le> CMD_TIER_T3"
  by (cases t) (auto simp: less_eq_cmd_tier_t_def)

lemma tier_T2_iff: "CMD_TIER_T2 \<le> t \<longleftrightarrow> t = CMD_TIER_T2 \<or> t = CMD_TIER_T3"
  by (cases t) (auto simp: less_eq_cmd_tier_t_def)

end
