(* ===== verification/CmdGate.thy ===== *)
theory CmdGate
  imports CmdTier
begin

section \<open>The gates in front of every command\<close>

text \<open>
  The model of \<^verbatim>\<open>stm32h563/src/cmd_gate.c\<close>: the five checks a command passes before its
  handler runs, as a function of the command, its tier and a snapshot of the pod. A refusal is
  \<open>Some\<close> message, permission is \<open>None\<close>. The message buffer \<^verbatim>\<open>why\<close> of \<open>why_cap\<close> bytes is
  written by \<open>snprintf\<close>.
\<close>

datatype pod_lan_policy_t = POD_LAN_OPEN | POD_LAN_LOCKED | POD_LAN_OFF

datatype policy_src_t = POLICY_SRC_USB | POLICY_SRC_CLOUD | POLICY_SRC_LAN

record cmd_gate_ctx_t =
  ctx_src :: policy_src_t
  ctx_lan_policy :: pod_lan_policy_t
  ctx_usb_link :: bool
  ctx_lease_active :: bool
  ctx_lease_left_s :: u32
  ctx_lease_holder :: "cstr option"
  ctx_tunnel_max_tier :: int
  ctx_skip_hw :: bool
  ctx_has_analog :: bool

definition cmd_gate_ok_without_hw :: "cstr \<Rightarrow> bool" where
  "cmd_gate_ok_without_hw cmd = cmd_has (cmd_find (Some cmd)) CMD_F_NO_HW"

definition cmd_gate_needs_analog :: "cstr \<Rightarrow> bool" where
  "cmd_gate_needs_analog cmd = cmd_has (cmd_find (Some cmd)) CMD_F_ANALOG"

text \<open>Every part between semicolons must hold a question mark.\<close>

function cmd_gate_scpi_line_writes :: "cstr \<Rightarrow> bool" where
  "cmd_gate_scpi_line_writes p =
     (if CHR ''?'' \<notin> set (takeWhile (\<lambda>c. c \<noteq> CHR '';'') p) then True
      else case dropWhile (\<lambda>c. c \<noteq> CHR '';'') p of
        [] \<Rightarrow> False
      | _ # p' \<Rightarrow> cmd_gate_scpi_line_writes p')"
  by pat_completeness auto
termination
  by (relation "measure length") (auto dest: length_dropWhile_Cons)

declare cmd_gate_scpi_line_writes.simps [simp del]

text \<open>\<^verbatim>\<open>atoi\<close> with the 32-bit \<^verbatim>\<open>long\<close> of the target (saturating).\<close>

definition atoi :: "cstr \<Rightarrow> int" where
  "atoi s =
     (let p = dropWhile is_space s;
          neg = (p \<noteq> [] \<and> hd p = CHR ''-'');
          q = (if p \<noteq> [] \<and> (hd p = CHR ''-'' \<or> hd p = CHR ''+'') then tl p else p);
          v = int (digits_val 10 q)
      in if neg then max (- v) (- 2147483648) else min v 2147483647)"

definition msg_safe_mode :: cstr where
  "msg_safe_mode = ''safe mode: iCE40/PSRAM are off. Unplug and replug the pod''"

definition msg_no_analog :: cstr where
  "msg_no_analog = ''this BenchPod has no analog front end (digital board): no DAC, ADC or analog outputs. Restart the pod after fitting an analog add-on''"

definition cmd_gate_device :: "cstr \<Rightarrow> cstr option \<Rightarrow> bool \<Rightarrow> bool \<Rightarrow> cstr option" where
  "cmd_gate_device cmd json skip_hw has_analog =
     (if skip_hw \<and> \<not> cmd_gate_ok_without_hw cmd then Some msg_safe_mode
      else if \<not> has_analog then
        (let adc_capture =
               (cmd = ''capture_dual'' \<and>
                (case json of
                   None \<Rightarrow> False
                 | Some j \<Rightarrow> has j ''adc_samples'' \<and> atoi (val j ''adc_samples'') > 0))
         in if adc_capture \<or> cmd_gate_needs_analog cmd then Some msg_no_analog else None)
      else None)"

definition msg_locked :: "cstr \<Rightarrow> cstr" where
  "msg_locked cmd = ''locked: '' @ cmd @ '' needs the cloud or USB''"

definition msg_busy :: "cstr option \<Rightarrow> u32 \<Rightarrow> cstr" where
  "msg_busy holder left_s =
     ''busy: a cloud job holds this pod ('' @
     (case holder of None \<Rightarrow> ''cloud'' | Some h \<Rightarrow> if h = [] then ''cloud'' else h) @
     '', '' @ dec_digits (unat left_s) @ '' s left)''"

definition msg_forbidden :: "cstr \<Rightarrow> cstr" where
  "msg_forbidden cmd = ''forbidden: '' @ cmd @ '' needs an organization owner or admin''"

definition cmd_gate_check ::
  "cstr \<Rightarrow> cstr option \<Rightarrow> cmd_tier_t \<Rightarrow> cmd_gate_ctx_t \<Rightarrow> nat \<Rightarrow> cstr option" where
  "cmd_gate_check cmd json tier ctx why_cap =
     (if tier \<ge> CMD_TIER_T2 \<and> ctx_src ctx = POLICY_SRC_LAN \<and> \<not> ctx_usb_link ctx \<and>
         ctx_lan_policy ctx \<noteq> POD_LAN_OPEN
      then Some (snprintf why_cap (msg_locked cmd))
      else if ctx_src ctx = POLICY_SRC_LAN \<and> ctx_lease_active ctx \<and> \<not> cmd_tier_light (Some cmd) json
      then Some (snprintf why_cap (msg_busy (ctx_lease_holder ctx) (ctx_lease_left_s ctx)))
      else if ctx_tunnel_max_tier ctx \<ge> 0 \<and> tier_int tier > ctx_tunnel_max_tier ctx
      then Some (snprintf why_cap (msg_forbidden cmd))
      else cmd_gate_device cmd json (ctx_skip_hw ctx) (ctx_has_analog ctx))"

subsection \<open>Who gets through\<close>

lemma cmd_tier_light_T0:
  "cmd_tier_light cmd json \<Longrightarrow> cmd_tier_known cmd \<and> cmd_tier cmd json = CMD_TIER_T0"
  by (auto simp: cmd_tier_light_def cmd_tier_known_def cmd_tier_def split: option.splits)

lemma cmd_tier_unknown: "\<not> cmd_tier_known cmd \<Longrightarrow> cmd_tier cmd json = CMD_TIER_T3"
  by (simp add: cmd_tier_known_def cmd_tier_def cmd_tier_of_def)

text \<open>
  A command runs exactly when all five gates let it: no tier-2 or tier-3 command from a
  LAN connection unless it comes over the USB link or the LAN policy is open, nothing but light
  reads from the LAN while a cloud job holds the pod, nothing above the tier the server allowed
  a tunnel, only hardware-free commands in safe mode, and no analog work on a digital board.
\<close>

theorem cmd_gate_check_iff:
  "cmd_gate_check cmd json tier ctx why_cap = None \<longleftrightarrow>
     (CMD_TIER_T2 \<le> tier \<and> ctx_src ctx = POLICY_SRC_LAN \<longrightarrow> ctx_usb_link ctx \<or> ctx_lan_policy ctx = POD_LAN_OPEN) \<and>
     (ctx_src ctx = POLICY_SRC_LAN \<and> ctx_lease_active ctx \<longrightarrow> cmd_tier_light (Some cmd) json) \<and>
     (0 \<le> ctx_tunnel_max_tier ctx \<longrightarrow> tier_int tier \<le> ctx_tunnel_max_tier ctx) \<and>
     (ctx_skip_hw ctx \<longrightarrow> cmd_gate_ok_without_hw cmd) \<and>
     (\<not> ctx_has_analog ctx \<longrightarrow> \<not> cmd_gate_needs_analog cmd \<and>
        (cmd = ''capture_dual'' \<longrightarrow>
           (\<forall>j. json = Some j \<longrightarrow> has j ''adc_samples'' \<longrightarrow> atoi (val j ''adc_samples'') \<le> 0)))"
  unfolding cmd_gate_check_def cmd_gate_device_def Let_def
  by (cases json) auto

theorem cmd_gate_check_iff_witness:
  "cmd_gate_check ''ping'' None CMD_TIER_T0
     \<lparr>ctx_src = POLICY_SRC_LAN, ctx_lan_policy = POD_LAN_LOCKED, ctx_usb_link = False, ctx_lease_active = True,
      ctx_lease_left_s = 5, ctx_lease_holder = None, ctx_tunnel_max_tier = -1, ctx_skip_hw = True, ctx_has_analog = False\<rparr> 96
   = None"
proof -
  have "cmd_tier_light (Some ''ping'') None" by code_simp
  moreover have "cmd_gate_ok_without_hw ''ping''" by code_simp
  moreover have "\<not> cmd_gate_needs_analog ''ping''" by code_simp
  ultimately show ?thesis
    by (simp add: cmd_gate_check_iff less_eq_cmd_tier_t_def)
qed

text \<open>
  C26. On a locked pod nothing that reaches a handler from an external LAN connection can change
  persisted configuration or firmware: the verb is known, and its tier, arguments included, is T0
  or T1. An unknown verb is refused too, since it counts as T3.
\<close>

theorem locked_lan_no_config_write:
  assumes "cmd_gate_check cmd json (cmd_tier (Some cmd) json) ctx why_cap = None"
    and "ctx_src ctx = POLICY_SRC_LAN" and "\<not> ctx_usb_link ctx" and "ctx_lan_policy ctx \<noteq> POD_LAN_OPEN"
  shows "cmd_tier_known (Some cmd) \<and> cmd_tier (Some cmd) json \<le> CMD_TIER_T1 \<and>
    cmd \<notin> {''ota_begin'', ''ota_data'', ''ota_end'', ''ota_commit'', ''ota_abort'', ''ota_selftest''}"
proof -
  have low: "\<not> CMD_TIER_T2 \<le> cmd_tier (Some cmd) json"
    using assms unfolding cmd_gate_check_iff by blast
  have known: "cmd_tier_known (Some cmd)"
    using low cmd_tier_unknown [of "Some cmd" json] by (auto simp: tier_T2_iff)
  have le: "cmd_tier (Some cmd) json \<le> CMD_TIER_T1"
    using low by (cases "cmd_tier (Some cmd) json") (auto simp: less_eq_cmd_tier_t_def)
  from known obtain r where r: "cmd_find (Some cmd) = Some r" by (auto simp: cmd_tier_known_def)
  have "cmd_row_tier r \<noteq> CMD_TIER_T3"
    using cmd_tier_of_ge [of r json] cmd_find_Some [OF r] r low
    by (auto simp: cmd_tier_def less_eq_cmd_tier_t_def)
  then have "cmd \<notin> set (map cmd_name (filter (\<lambda>r. cmd_row_tier r = CMD_TIER_T3) k_tiers))"
    unfolding cmd_find_filter [OF r] .
  then show ?thesis using known le unfolding k_tiers_firmware by simp
qed

theorem locked_lan_no_config_write_witness:
  "cmd_tier_known (Some ''ping'') \<and> cmd_tier (Some ''ping'') None \<le> CMD_TIER_T1 \<and>
    ''ping'' \<notin> {''ota_begin'', ''ota_data'', ''ota_end'', ''ota_commit'', ''ota_abort'', ''ota_selftest''}"
proof (rule locked_lan_no_config_write)
  let ?ctx = "\<lparr>ctx_src = POLICY_SRC_LAN, ctx_lan_policy = POD_LAN_LOCKED, ctx_usb_link = False,
    ctx_lease_active = False, ctx_lease_left_s = 0, ctx_lease_holder = None, ctx_tunnel_max_tier = -1,
    ctx_skip_hw = False, ctx_has_analog = True\<rparr>"
  show "cmd_gate_check ''ping'' None (cmd_tier (Some ''ping'') None) ?ctx 96 = None" by code_simp
  show "ctx_src ?ctx = POLICY_SRC_LAN" "\<not> ctx_usb_link ?ctx" "ctx_lan_policy ?ctx \<noteq> POD_LAN_OPEN" by simp_all
qed

end
