(* ===== verification/Flash.thy ===== *)
theory Flash
  imports Prelude
begin

section \<open>The internal flash under the persistence records\<close>

text \<open>
  The model of \<^verbatim>\<open>stm32h563/src/flash_layout.h\<close> and \<^verbatim>\<open>flash_compat.c\<close>: 8 KB sectors, 16-byte
  quad-words with ECC, and the mapping of the 2 MB-reference offsets onto the part that is fitted.
  A cell is \<open>Some\<close> byte, or \<open>None\<close> when reading it raises an ECC double error. The HAL calls that
  erase and program are behaviour of the device, a field of its record: what the code relies on is
  stated by \<open>hal_confined\<close> and \<open>hal_ideal\<close>. \<open>power_cut\<close> says what a loss of power during a run
  of HAL operations can leave behind.
\<close>

type_synonym cells = "nat \<Rightarrow> u8 option"

datatype hal_op =
    HAL_Erase nat
  | HAL_Program nat "u8 list"

record flash =
  cells :: cells
  hal :: "hal_op \<Rightarrow> cells \<Rightarrow> cells"
  flash_layout_size :: nat
  s_refused :: nat

subsection \<open>Layout\<close>

definition FLASH_LAYOUT_REF_SIZE :: nat where "FLASH_LAYOUT_REF_SIZE = 0x200000"
definition FLASH_LAYOUT_STORE_BASE :: nat where "FLASH_LAYOUT_STORE_BASE = 0x1E0000"
definition FLASH_LAYOUT_SIZE_1MB :: nat where "FLASH_LAYOUT_SIZE_1MB = 0x100000"
definition FLASH_LAYOUT_SIZE_2MB :: nat where "FLASH_LAYOUT_SIZE_2MB = 0x200000"
definition FLASH_LAYOUT_STORE_SPAN :: nat where "FLASH_LAYOUT_STORE_SPAN = 0x20000"
definition H5_SECTOR_SIZE :: nat where "H5_SECTOR_SIZE = 0x2000"

lemmas flash_consts = FLASH_LAYOUT_REF_SIZE_def FLASH_LAYOUT_STORE_BASE_def
  FLASH_LAYOUT_SIZE_1MB_def FLASH_LAYOUT_SIZE_2MB_def FLASH_LAYOUT_STORE_SPAN_def H5_SECTOR_SIZE_def

text \<open>The value of the flash-size register in KB selects the layout.\<close>

definition layout_size_of_kb :: "u32 \<Rightarrow> nat" where
  "layout_size_of_kb reg =
     (if reg AND 0xFFFF = 1024 then FLASH_LAYOUT_SIZE_1MB else FLASH_LAYOUT_SIZE_2MB)"

text \<open>
  The C computes \<open>ref_off - REF_SIZE + flash_size\<close> in 32 bits, where the subtraction wraps and
  the addition wraps back; added first, nothing wraps for an offset below the reference size.
\<close>

definition flash_layout_map :: "nat \<Rightarrow> nat \<Rightarrow> nat" where
  "flash_layout_map ref_off flash_size =
     (if ref_off < FLASH_LAYOUT_STORE_BASE then ref_off
      else ref_off + flash_size - FLASH_LAYOUT_REF_SIZE)"

definition flash_layout_writable :: "nat \<Rightarrow> nat \<Rightarrow> nat \<Rightarrow> bool" where
  "flash_layout_writable off count flash_size \<longleftrightarrow>
     off \<ge> flash_size - FLASH_LAYOUT_STORE_SPAN \<and> off < flash_size \<and> count \<le> flash_size - off"

definition flash_layout_store_off :: "flash \<Rightarrow> nat \<Rightarrow> nat" where
  "flash_layout_store_off fl ref_off = flash_layout_map ref_off (flash_layout_size fl)"

subsection \<open>Erase, program, checked read\<close>

definition run_op :: "flash \<Rightarrow> hal_op \<Rightarrow> flash" where
  "run_op fl op = fl\<lparr>cells := hal fl op (cells fl)\<rparr>"

definition run_ops :: "flash \<Rightarrow> hal_op list \<Rightarrow> flash" where
  "run_ops fl ops = foldl run_op fl ops"

definition flash_layout_bank_size :: "flash \<Rightarrow> nat" where
  "flash_layout_bank_size fl = flash_layout_size fl div 2"

text \<open>Bank (1 or 2) and sector of an offset.\<close>

definition addr_to_bank_sector :: "flash \<Rightarrow> nat \<Rightarrow> nat \<times> nat" where
  "addr_to_bank_sector fl off =
     (let bank_size = flash_layout_bank_size fl in
      if off < bank_size then (1, off div H5_SECTOR_SIZE)
      else (2, (off - bank_size) div H5_SECTOR_SIZE))"

text \<open>
  The sectors one erase call hands to \<^verbatim>\<open>HAL_FLASHEx_Erase\<close> as bank, first sector and count, by
  their first offset.
\<close>

definition erase_ops :: "flash \<Rightarrow> nat \<Rightarrow> nat \<Rightarrow> hal_op list" where
  "erase_ops fl offset count =
     (let off = flash_layout_store_off fl offset; (bank, sector) = addr_to_bank_sector fl off in
      map (\<lambda>k. HAL_Erase ((bank - 1) * flash_layout_bank_size fl + (sector + k) * H5_SECTOR_SIZE))
        [0..<(count + H5_SECTOR_SIZE - 1) div H5_SECTOR_SIZE])"

definition flash_range_erase :: "flash \<Rightarrow> nat \<Rightarrow> nat \<Rightarrow> flash" where
  "flash_range_erase fl offset count =
     (if \<not> flash_layout_writable (flash_layout_store_off fl offset) count (flash_layout_size fl)
      then fl\<lparr>s_refused := s_refused fl + 1\<rparr>
      else run_ops fl (erase_ops fl offset count))"

text \<open>The quad-words of one program call, the last one padded with 0xFF.\<close>

definition pad16 :: "u8 list \<Rightarrow> u8 list" where
  "pad16 bs = take 16 bs @ replicate (16 - length bs) 0xFF"

function qw_ops :: "nat \<Rightarrow> u8 list \<Rightarrow> hal_op list" where
  "qw_ops a data = (if data = [] then [] else HAL_Program a (pad16 data) # qw_ops (a + 16) (drop 16 data))"
  by pat_completeness auto
termination
  by (relation "measure (\<lambda>(a, data). length data)") auto

declare qw_ops.simps [simp del]

definition program_ops :: "flash \<Rightarrow> nat \<Rightarrow> u8 list \<Rightarrow> hal_op list" where
  "program_ops fl offset data = qw_ops (flash_layout_store_off fl offset) data"

definition flash_range_program :: "flash \<Rightarrow> nat \<Rightarrow> u8 list \<Rightarrow> flash" where
  "flash_range_program fl offset data =
     (if \<not> flash_layout_writable (flash_layout_store_off fl offset) (length data) (flash_layout_size fl)
      then fl\<lparr>s_refused := s_refused fl + 1\<rparr>
      else run_ops fl (program_ops fl offset data))"

fun read_cells :: "cells \<Rightarrow> nat \<Rightarrow> nat \<Rightarrow> u8 list option" where
  "read_cells c a 0 = Some []"
| "read_cells c a (Suc n) =
     (case c a of
        None \<Rightarrow> None
      | Some b \<Rightarrow> (case read_cells c (a + 1) n of None \<Rightarrow> None | Some bs \<Rightarrow> Some (b # bs)))"

definition flash_read_checked :: "flash \<Rightarrow> nat \<Rightarrow> nat \<Rightarrow> u8 list option" where
  "flash_read_checked fl offset n = read_cells (cells fl) (flash_layout_store_off fl offset) n"

subsection \<open>Reading\<close>

lemma length_read_cells: "read_cells c a n = Some bs \<Longrightarrow> length bs = n"
  by (induction c a n arbitrary: bs rule: read_cells.induct) (auto split: option.splits)

lemma read_cells_append:
  "read_cells c a (m + n) =
     (case read_cells c a m of
        None \<Rightarrow> None
      | Some xs \<Rightarrow> (case read_cells c (a + m) n of None \<Rightarrow> None | Some ys \<Rightarrow> Some (xs @ ys)))"
  by (induction c a m rule: read_cells.induct) (auto split: option.splits)

lemma read_cells_cong:
  "(\<And>x. a \<le> x \<Longrightarrow> x < a + n \<Longrightarrow> c x = c' x) \<Longrightarrow> read_cells c a n = read_cells c' a n"
  by (induction c a n rule: read_cells.induct) (auto split: option.splits)

lemma read_cells_Some_iff:
  "read_cells c a n = Some bs \<longleftrightarrow> length bs = n \<and> (\<forall>i < n. c (a + i) = Some (bs ! i))"
proof (induction n arbitrary: a bs)
  case (Suc n)
  show ?case
  proof (cases bs)
    case (Cons b bs')
    have "read_cells c a (Suc n) = Some bs \<longleftrightarrow> c a = Some b \<and> read_cells c (a + 1) n = Some bs'"
      using Cons by (auto split: option.splits)
    then show ?thesis unfolding Suc.IH [of "a + 1" bs'] Cons by (auto simp: All_less_Suc2)
  qed (auto split: option.splits)
qed auto

lemma read_cells_None: "c (a + i) = None \<Longrightarrow> i < n \<Longrightarrow> read_cells c a n = None"
  by (metis option.distinct(1) option.exhaust read_cells_Some_iff)

subsection \<open>What the device does\<close>

definition in_range :: "nat \<Rightarrow> nat \<Rightarrow> nat \<Rightarrow> bool" where
  "in_range a n x \<longleftrightarrow> a \<le> x \<and> x < a + n"

fun op_start :: "hal_op \<Rightarrow> nat" where
  "op_start (HAL_Erase a) = a"
| "op_start (HAL_Program a bs) = a"

fun op_size :: "hal_op \<Rightarrow> nat" where
  "op_size (HAL_Erase a) = H5_SECTOR_SIZE"
| "op_size (HAL_Program a bs) = 16"

text \<open>No operation changes a cell outside its sector or quad-word.\<close>

definition hal_confined :: "flash \<Rightarrow> bool" where
  "hal_confined fl \<longleftrightarrow>
     (\<forall>op c x. \<not> in_range (op_start op) (op_size op) x \<longrightarrow> hal fl op c x = c x)"

text \<open>An erase sets its sector to 0xFF; programming an erased quad-word stores its 16 bytes.\<close>

definition erased_at :: "cells \<Rightarrow> nat \<Rightarrow> nat \<Rightarrow> bool" where
  "erased_at c a n \<longleftrightarrow> (\<forall>x. in_range a n x \<longrightarrow> c x = Some 0xFF)"

definition hal_ideal :: "flash \<Rightarrow> bool" where
  "hal_ideal fl \<longleftrightarrow> hal_confined fl \<and>
     (\<forall>a c x. in_range a H5_SECTOR_SIZE x \<longrightarrow> hal fl (HAL_Erase a) c x = Some 0xFF) \<and>
     (\<forall>a bs c i. length bs = 16 \<longrightarrow> erased_at c a 16 \<longrightarrow> i < 16 \<longrightarrow>
        hal fl (HAL_Program a bs) c (a + i) = Some (bs ! i))"

text \<open>
  A loss of power stops a run of operations before one of them or inside it. The quad-words of the
  operation that was cut are each untouched, finished, or unreadable.
\<close>

definition torn :: "flash \<Rightarrow> cells \<Rightarrow> hal_op \<Rightarrow> cells \<Rightarrow> bool" where
  "torn fl c op c' \<longleftrightarrow>
     (\<forall>x. \<not> in_range (op_start op) (op_size op) x \<longrightarrow> c' x = c x) \<and>
     (\<forall>q < op_size op div 16.
        let a = op_start op + 16 * q in
        (\<forall>x. in_range a 16 x \<longrightarrow> c' x = c x) \<or>
        (\<forall>x. in_range a 16 x \<longrightarrow> c' x = hal fl op c x) \<or>
        (\<forall>x. in_range a 16 x \<longrightarrow> c' x = None))"

inductive power_cut :: "flash \<Rightarrow> cells \<Rightarrow> hal_op list \<Rightarrow> cells \<Rightarrow> bool" where
  cut_before: "power_cut fl c ops c"
| cut_inside: "torn fl c op c' \<Longrightarrow> power_cut fl c (op # ops) c'"
| cut_after: "power_cut fl (hal fl op c) ops c' \<Longrightarrow> power_cut fl c (op # ops) c'"

inductive_simps power_cut_Nil: "power_cut fl c [] c'"
inductive_simps power_cut_Cons: "power_cut fl c (op # ops) c'"

text \<open>A concrete device that meets the assumptions, for the examples.\<close>

fun ideal_hal :: "hal_op \<Rightarrow> cells \<Rightarrow> cells" where
  "ideal_hal (HAL_Erase a) c = (\<lambda>x. if in_range a H5_SECTOR_SIZE x then Some 0xFF else c x)"
| "ideal_hal (HAL_Program a bs) c = (\<lambda>x. if in_range a 16 x then Some (bs ! (x - a)) else c x)"

definition blank_flash :: flash where
  "blank_flash = \<lparr>cells = (\<lambda>_. Some 0xFF), hal = ideal_hal, flash_layout_size = FLASH_LAYOUT_SIZE_2MB, s_refused = 0\<rparr>"

lemma blank_flash_ideal: "hal_ideal blank_flash"
proof -
  have "ideal_hal op c x = c x" if "\<not> in_range (op_start op) (op_size op) x" for op c x
    using that by (cases op) auto
  then show ?thesis
    by (auto simp: hal_ideal_def hal_confined_def blank_flash_def in_range_def)
qed

subsection \<open>Runs of operations\<close>

definition ops_within :: "hal_op list \<Rightarrow> nat \<Rightarrow> nat \<Rightarrow> bool" where
  "ops_within ops a n \<longleftrightarrow> list_all (\<lambda>op. a \<le> op_start op \<and> op_start op + op_size op \<le> a + n) ops"

lemma ops_within_append [simp]:
  "ops_within (xs @ ys) a n \<longleftrightarrow> ops_within xs a n \<and> ops_within ys a n"
  by (simp add: ops_within_def)

lemma run_ops_fields [simp]:
  "hal (run_ops fl ops) = hal fl" "flash_layout_size (run_ops fl ops) = flash_layout_size fl"
  "s_refused (run_ops fl ops) = s_refused fl"
  by (induction ops arbitrary: fl) (auto simp: run_ops_def run_op_def)

lemma run_ops_append: "run_ops fl (xs @ ys) = run_ops (run_ops fl xs) ys"
  by (simp add: run_ops_def)

lemma run_ops_Cons: "run_ops fl (op # ops) = run_ops (run_op fl op) ops"
  by (simp add: run_ops_def)

lemma run_ops_Nil [simp]: "run_ops fl [] = fl"
  by (simp add: run_ops_def)

lemma run_op_fields [simp]:
  "hal (run_op fl op) = hal fl" "flash_layout_size (run_op fl op) = flash_layout_size fl"
  "s_refused (run_op fl op) = s_refused fl" "cells (run_op fl op) = hal fl op (cells fl)"
  by (simp_all add: run_op_def)

lemma run_ops_confined:
  "hal_confined fl \<Longrightarrow> ops_within ops a n \<Longrightarrow> \<not> in_range a n x \<Longrightarrow> cells (run_ops fl ops) x = cells fl x"
proof (induction ops arbitrary: fl)
  case (Cons op ops)
  have "hal_confined (run_op fl op)" using Cons.prems(1) by (simp add: hal_confined_def)
  moreover have "cells (run_op fl op) x = cells fl x"
    using Cons.prems by (auto simp: hal_confined_def ops_within_def in_range_def)
  ultimately show ?case
    using Cons.IH [of "run_op fl op"] Cons.prems by (simp add: run_ops_Cons ops_within_def)
qed simp

lemma power_cut_confined:
  "power_cut fl c ops c' \<Longrightarrow> hal_confined fl \<Longrightarrow> ops_within ops a n \<Longrightarrow> \<not> in_range a n x \<Longrightarrow> c' x = c x"
proof (induction rule: power_cut.induct)
  case (cut_inside fl c op c' ops)
  then have "\<not> in_range (op_start op) (op_size op) x" by (auto simp: ops_within_def in_range_def)
  with cut_inside show ?case by (simp add: torn_def)
next
  case (cut_after fl op c ops c')
  then have "\<not> in_range (op_start op) (op_size op) x" by (auto simp: ops_within_def in_range_def)
  with cut_after show ?case by (simp add: hal_confined_def ops_within_def)
qed simp

lemma hal_ideal_confined: "hal_ideal fl \<Longrightarrow> hal_confined fl"
  by (simp add: hal_ideal_def)

end
