(* ===== verification/ConfigStore.thy ===== *)
theory ConfigStore
  imports Flash
begin

section \<open>The power-loss-safe record store\<close>

text \<open>
  The model of \<^verbatim>\<open>stm32h563/src/config_store.c\<close>: a record (a 16-byte header with magic,
  sequence number, version and length, CRC; then the payload) in one of two sectors, the newest
  valid one wins, a save goes to the other sector with the header written last, a clear writes an
  empty record first. \<open>write_ops\<close> is the exact sequence of erase and quad-word program operations
  of a save, so that a loss of power can be placed anywhere in it. Log output is left out.
\<close>

definition AB_HDR_SIZE :: nat where "AB_HDR_SIZE = 16"
definition AB_CHUNK :: nat where "AB_CHUNK = 32"
definition AB_QW :: nat where "AB_QW = 16"
definition AB_STORE_MAX_PAYLOAD :: nat where "AB_STORE_MAX_PAYLOAD = 240"
definition AB_STORE_MAX_VAR_PAYLOAD :: nat where "AB_STORE_MAX_VAR_PAYLOAD = 0x2000 - 16"
definition FLASH_PAGE_SIZE :: nat where "FLASH_PAGE_SIZE = 256"
definition FLASH_SHIM_SECTOR_SIZE :: nat where "FLASH_SHIM_SECTOR_SIZE = 8192"

lemmas ab_consts = AB_HDR_SIZE_def AB_CHUNK_def AB_QW_def AB_STORE_MAX_PAYLOAD_def
  AB_STORE_MAX_VAR_PAYLOAD_def FLASH_PAGE_SIZE_def FLASH_SHIM_SECTOR_SIZE_def

subsection \<open>Little-endian words\<close>

definition le32 :: "u32 \<Rightarrow> u8 list" where
  "le32 w = (let n = unat w in
     [of_nat n, of_nat (n div 256), of_nat (n div 65536), of_nat (n div 16777216)])"

fun of_le32 :: "u8 list \<Rightarrow> u32" where
  "of_le32 (a # b # c # d # _) =
     of_nat (unat a + 256 * unat b + 65536 * unat c + 16777216 * unat d)"
| "of_le32 _ = 0"

lemma length_le32 [simp]: "length (le32 w) = 4"
  by (simp add: le32_def Let_def)

lemma unat_of_nat_u8: "unat (of_nat n :: u8) = n mod 256"
  by (simp add: unat_of_nat)

lemma base256_sum:
  fixes n q1 q2 q3 r0 r1 r2 :: nat
  assumes "n = r0 + 256 * q1" and "q1 = r1 + 256 * q2" and "q2 = r2 + 256 * q3"
  shows "r0 + 256 * r1 + 65536 * r2 + 16777216 * q3 = n"
  using assms by simp

lemma base256_digits:
  fixes n :: nat
  assumes "n < 4294967296"
  shows "n mod 256 + 256 * (n div 256 mod 256) + 65536 * (n div 65536 mod 256) +
    16777216 * (n div 16777216 mod 256) = n"
proof -
  have q2: "n div 65536 = n div 256 div 256" and q3: "n div 16777216 = n div 256 div 256 div 256"
    by (simp_all add: div_mult2_eq [symmetric])
  have top: "n div 16777216 mod 256 = n div 16777216"
    using assms by (simp add: less_mult_imp_div_less)
  show ?thesis
    unfolding top unfolding q2 q3 by (rule base256_sum) simp_all
qed

lemma of_le32_le32 [simp]: "of_le32 (le32 w @ rest) = w"
proof -
  have "of_le32 (le32 w @ rest) = of_nat (unat w mod 256 + 256 * (unat w div 256 mod 256) +
      65536 * (unat w div 65536 mod 256) + 16777216 * (unat w div 16777216 mod 256))"
    by (simp only: le32_def Let_def append_Cons append_Nil of_le32.simps unat_of_nat_u8)
  also have "\<dots> = w" unfolding base256_digits [OF unat_u32_bound] by simp
  finally show ?thesis .
qed

subsection \<open>Records\<close>

record ab_hdr_t =
  h_magic :: u32
  h_seq :: u32
  h_ver_len :: u32
  h_crc :: u32

record ab_store_t =
  slot_off :: "nat \<Rightarrow> nat"
  magic :: u32
  version :: u16
  legacy_off :: nat
  legacy_magic :: u32
  max_len :: nat

definition crc_byte_step :: "u32 \<Rightarrow> u32" where
  "crc_byte_step crc = (drop_bit 1 crc) XOR (0xEDB88320 AND (0 - (crc AND 1)))"

fun crc_loop :: "u32 \<Rightarrow> u8 list \<Rightarrow> u32" where
  "crc_loop crc [] = crc"
| "crc_loop crc (b # bs) = crc_loop ((crc_byte_step ^^ 8) (crc XOR ucast b)) bs"

definition ab_crc32 :: "u32 \<Rightarrow> u8 list \<Rightarrow> u32" where
  "ab_crc32 crc data = NOT (crc_loop (NOT crc) data)"

definition hdr_len :: "ab_hdr_t \<Rightarrow> nat" where
  "hdr_len h = unat (h_ver_len h AND 0xFFFF)"

definition hdr_ver :: "ab_hdr_t \<Rightarrow> u32" where
  "hdr_ver h = drop_bit 16 (h_ver_len h)"

definition store_max :: "ab_store_t \<Rightarrow> nat" where
  "store_max s = (if max_len s \<noteq> 0 then max_len s else AB_STORE_MAX_PAYLOAD)"

definition hdr_of_bytes :: "u8 list \<Rightarrow> ab_hdr_t" where
  "hdr_of_bytes bs = \<lparr>h_magic = of_le32 bs, h_seq = of_le32 (drop 4 bs),
     h_ver_len = of_le32 (drop 8 bs), h_crc = of_le32 (drop 12 bs)\<rparr>"

definition hdr_bytes :: "ab_hdr_t \<Rightarrow> u8 list" where
  "hdr_bytes h = le32 (h_magic h) @ le32 (h_seq h) @ le32 (h_ver_len h) @ le32 (h_crc h)"

subsection \<open>Reading a slot\<close>

function read_payload :: "flash \<Rightarrow> nat \<Rightarrow> nat \<Rightarrow> nat \<Rightarrow> u32 \<Rightarrow> (u32 \<times> u8 list) option" where
  "read_payload fl base len pos crc =
     (if pos < len then
        (let n = (if len - pos < AB_CHUNK then len - pos else AB_CHUNK) in
         case flash_read_checked fl (base + pos) n of
           None \<Rightarrow> None
         | Some b \<Rightarrow>
             (case read_payload fl base len (pos + n) (ab_crc32 crc b) of
                None \<Rightarrow> None
              | Some (crc', rest) \<Rightarrow> Some (crc', b @ rest)))
      else Some (crc, []))"
  by pat_completeness auto
termination
  by (relation "measure (\<lambda>(fl, base, len, pos, crc). len - pos)") (auto simp: AB_CHUNK_def)

declare read_payload.simps [simp del]

text \<open>The header and payload of slot \<open>i\<close> when it is a complete record.\<close>

definition slot_read :: "ab_store_t \<Rightarrow> flash \<Rightarrow> nat \<Rightarrow> (ab_hdr_t \<times> u8 list) option" where
  "slot_read s fl i =
     (let off = slot_off s i in
      case flash_read_checked fl off AB_HDR_SIZE of
        None \<Rightarrow> None
      | Some hb \<Rightarrow>
          (let h = hdr_of_bytes hb; len = hdr_len h in
           if h_magic h \<noteq> magic s then None
           else if len > store_max s then None
           else
             let crc0 = ab_crc32 (ab_crc32 0 (le32 (h_seq h))) (le32 (h_ver_len h)) in
             case read_payload fl (off + AB_HDR_SIZE) len 0 crc0 of
               None \<Rightarrow> None
             | Some (crc, payload) \<Rightarrow> if crc \<noteq> h_crc h then None else Some (h, payload)))"

text \<open>The index of the valid slot with the highest sequence number, \<open>None\<close> for the code's -1.\<close>

definition newest_slot :: "(ab_hdr_t \<times> u8 list) option \<Rightarrow> (ab_hdr_t \<times> u8 list) option \<Rightarrow> nat option" where
  "newest_slot r0 r1 =
     (case (r0, r1) of
        (Some (h0, _), Some (h1, _)) \<Rightarrow> Some (if sint (h_seq h1 - h_seq h0) > 0 then 1 else 0)
      | (Some _, None) \<Rightarrow> Some 0
      | (None, Some _) \<Rightarrow> Some 1
      | (None, None) \<Rightarrow> None)"

definition scan :: "ab_store_t \<Rightarrow> flash \<Rightarrow> nat option" where
  "scan s fl = newest_slot (slot_read s fl 0) (slot_read s fl 1)"

text \<open>The header and payload of a slot the scan found valid.\<close>

definition slot_rec :: "ab_store_t \<Rightarrow> flash \<Rightarrow> nat \<Rightarrow> ab_hdr_t \<times> u8 list" where
  "slot_rec s fl i = the (slot_read s fl i)"

function payload_equals :: "flash \<Rightarrow> nat \<Rightarrow> u8 list \<Rightarrow> nat \<Rightarrow> bool" where
  "payload_equals fl base data pos =
     (if pos < length data then
        (let n = (if length data - pos < AB_CHUNK then length data - pos else AB_CHUNK) in
         case flash_read_checked fl (base + pos) n of
           None \<Rightarrow> False
         | Some b \<Rightarrow> b = take n (drop pos data) \<and> payload_equals fl base data (pos + n))
      else True)"
  by pat_completeness auto
termination
  by (relation "measure (\<lambda>(fl, base, data, pos). length data - pos)") (auto simp: AB_CHUNK_def)

declare payload_equals.simps [simp del]

definition slot_payload_equals :: "ab_store_t \<Rightarrow> flash \<Rightarrow> nat \<Rightarrow> u8 list \<Rightarrow> bool" where
  "slot_payload_equals s fl i data = payload_equals fl (slot_off s i + AB_HDR_SIZE) data 0"

subsection \<open>Writing a record\<close>

definition ver_len_word :: "u16 \<Rightarrow> nat \<Rightarrow> u32" where
  "ver_len_word ver len = push_bit 16 (ucast ver) OR of_nat len"

definition new_hdr :: "ab_store_t \<Rightarrow> u32 \<Rightarrow> u8 list \<Rightarrow> ab_hdr_t" where
  "new_hdr s seq data =
     (let vl = ver_len_word (version s) (length data) in
      \<lparr>h_magic = magic s, h_seq = seq, h_ver_len = vl,
       h_crc = ab_crc32 (ab_crc32 (ab_crc32 0 (le32 seq)) (le32 vl)) data\<rparr>)"

definition body_bytes :: "u8 list \<Rightarrow> u8 list" where
  "body_bytes data =
     (let body = (length data + AB_QW - 1) div AB_QW * AB_QW
      in data @ replicate (body - length data) 0xFF)"

function program_pages :: "flash \<Rightarrow> nat \<Rightarrow> u8 list \<Rightarrow> flash" where
  "program_pages fl off body =
     (if body = [] then fl
      else program_pages (flash_range_program fl off (take FLASH_PAGE_SIZE body))
             (off + FLASH_PAGE_SIZE) (drop FLASH_PAGE_SIZE body))"
  by pat_completeness auto
termination
  by (relation "measure (\<lambda>(fl, off, body). length body)") (auto simp: FLASH_PAGE_SIZE_def)

declare program_pages.simps [simp del]

text \<open>The flash after the erase, the payload pages and, last, the header.\<close>

definition write_flash :: "ab_store_t \<Rightarrow> flash \<Rightarrow> nat \<Rightarrow> u32 \<Rightarrow> u8 list \<Rightarrow> flash" where
  "write_flash s fl target seq data =
     (let off = slot_off s target;
          fl1 = flash_range_erase fl off FLASH_SHIM_SECTOR_SIZE;
          fl2 = program_pages fl1 (off + AB_HDR_SIZE) (body_bytes data)
      in flash_range_program fl2 off (hdr_bytes (new_hdr s seq data)))"

text \<open>The new flash, and whether the read-back verified (the code's 0 or -1).\<close>

definition write_record :: "ab_store_t \<Rightarrow> flash \<Rightarrow> nat \<Rightarrow> u32 \<Rightarrow> u8 list \<Rightarrow> flash \<times> bool" where
  "write_record s fl target seq data =
     (let fl' = write_flash s fl target seq data in
      (fl', case slot_read s fl' target of
              None \<Rightarrow> False
            | Some (rh, _) \<Rightarrow>
                h_seq rh = seq \<and> h_crc rh = h_crc (new_hdr s seq data) \<and>
                slot_payload_equals s fl' target data))"

subsection \<open>Load, save, clear\<close>

definition ab_store_load :: "ab_store_t \<Rightarrow> flash \<Rightarrow> nat \<Rightarrow> u8 list option" where
  "ab_store_load s fl len =
     (case scan s fl of
        Some n \<Rightarrow>
          (let h = fst (slot_rec s fl n) in
           if hdr_len h = 0 then None
           else if hdr_ver h \<noteq> ucast (version s) \<or> hdr_len h \<noteq> len then None
           else (case slot_read s fl n of None \<Rightarrow> None | Some (_, payload) \<Rightarrow> Some (take len payload)))
      | None \<Rightarrow>
          if legacy_off s = 0 then None
          else (case flash_read_checked fl (legacy_off s) 4 of
                  None \<Rightarrow> None
                | Some mb \<Rightarrow>
                    if of_le32 mb \<noteq> legacy_magic s then None
                    else flash_read_checked fl (legacy_off s) len))"

text \<open>A record of version \<open>ver\<close> in either slot and how many saves it is behind the newest.\<close>

definition ab_store_load_version :: "ab_store_t \<Rightarrow> flash \<Rightarrow> u16 \<Rightarrow> nat \<Rightarrow> (u8 list \<times> u32) option" where
  "ab_store_load_version s fl ver len =
     (case scan s fl of
        None \<Rightarrow> None
      | Some n \<Rightarrow>
          if hdr_len (fst (slot_rec s fl n)) = 0 then None
          else
            let fits = (\<lambda>i. case slot_read s fl i of
                              None \<Rightarrow> False
                            | Some (h, _) \<Rightarrow> hdr_ver h = ucast ver \<and> hdr_len h = len);
                best0 = (if fits 0 then Some 0 else None);
                best = (if fits 1 then (if best0 = None \<or> 1 = n then Some 1 else best0) else best0)
            in case best of
                 None \<Rightarrow> None
               | Some b \<Rightarrow>
                   (case slot_read s fl b of
                      None \<Rightarrow> None
                    | Some (h, payload) \<Rightarrow>
                        Some (take len payload, h_seq (fst (slot_rec s fl n)) - h_seq h)))"

definition ab_store_load_var :: "ab_store_t \<Rightarrow> flash \<Rightarrow> nat \<Rightarrow> u8 list option" where
  "ab_store_load_var s fl cap =
     (case scan s fl of
        None \<Rightarrow> None
      | Some n \<Rightarrow>
          (let h = fst (slot_rec s fl n) in
           if hdr_len h = 0 then None
           else if hdr_ver h \<noteq> ucast (version s) \<or> hdr_len h > cap then None
           else (case slot_read s fl n of None \<Rightarrow> None | Some (_, payload) \<Rightarrow> Some (take cap payload))))"

definition next_target :: "nat option \<Rightarrow> nat" where
  "next_target n = (case n of None \<Rightarrow> 0 | Some k \<Rightarrow> 1 - k)"

definition next_seq :: "ab_store_t \<Rightarrow> flash \<Rightarrow> nat option \<Rightarrow> u32" where
  "next_seq s fl n = (case n of None \<Rightarrow> 1 | Some k \<Rightarrow> h_seq (fst (slot_rec s fl k)) + 1)"

definition unchanged :: "ab_store_t \<Rightarrow> flash \<Rightarrow> u8 list \<Rightarrow> bool" where
  "unchanged s fl data =
     (case scan s fl of
        None \<Rightarrow> False
      | Some n \<Rightarrow>
          hdr_ver (fst (slot_rec s fl n)) = ucast (version s) \<and>
          hdr_len (fst (slot_rec s fl n)) = length data \<and>
          slot_payload_equals s fl n data)"

definition ab_store_save :: "ab_store_t \<Rightarrow> flash \<Rightarrow> u8 list \<Rightarrow> flash \<times> bool" where
  "ab_store_save s fl data =
     (if length data = 0 \<or> length data > store_max s then (fl, False)
      else if unchanged s fl data then (fl, True)
      else let n = scan s fl in
           write_record s fl (next_target n) (next_seq s fl n) data)"

definition erase_sector :: "flash \<Rightarrow> nat \<Rightarrow> flash" where
  "erase_sector fl off = flash_range_erase fl off FLASH_SHIM_SECTOR_SIZE"

definition ab_store_clear :: "ab_store_t \<Rightarrow> flash \<Rightarrow> flash \<times> bool" where
  "ab_store_clear s fl =
     (let n = scan s fl; target = next_target n;
          (fl1, ok) = write_record s fl target (next_seq s fl n) [];
          fl2 = (if \<not> ok then erase_sector fl1 (slot_off s target) else fl1);
          fl3 = erase_sector fl2 (slot_off s (1 - target));
          fl4 = (if legacy_off s \<noteq> 0 then erase_sector fl3 (legacy_off s) else fl3)
      in (fl4, ok))"

subsection \<open>Headers and checksums\<close>

lemma hdr_of_bytes_hdr_bytes [simp]: "hdr_of_bytes (hdr_bytes h) = h"
proof -
  have "le32 w = le32 w @ []" for w by simp
  then have "of_le32 (le32 w) = w" for w using of_le32_le32 [of w "[]"] by simp
  then show ?thesis by (simp add: hdr_of_bytes_def hdr_bytes_def)
qed

lemma length_hdr_bytes [simp]: "length (hdr_bytes h) = 16"
  by (simp add: hdr_bytes_def)

lemma crc_loop_append: "crc_loop c (xs @ ys) = crc_loop (crc_loop c xs) ys"
  by (induction c xs rule: crc_loop.induct) auto

lemma ab_crc32_chain: "ab_crc32 (ab_crc32 c xs) ys = ab_crc32 c (xs @ ys)"
  by (simp add: ab_crc32_def crc_loop_append)

lemma ab_crc32_Nil [simp]: "ab_crc32 c [] = c"
  by (simp add: ab_crc32_def)

lemma ver_len_word_len:
  assumes "len < 65536"
  shows "unat (ver_len_word ver len AND 0xFFFF) = len"
proof -
  have "ver_len_word ver len AND 0xFFFF = take_bit 16 (ver_len_word ver len)"
    by (simp add: take_bit_eq_mask mask_eq_exp_minus_1)
  also have "\<dots> = take_bit 16 (of_nat len)"
    by (simp add: ver_len_word_def take_bit_push_bit)
  also have "\<dots> = of_nat len"
    using assms by (simp add: take_bit_eq_mod unat_of_nat word_arith_nat_mod)
  finally show ?thesis using assms by (simp add: unat_of_nat)
qed

lemma ver_len_word_ver:
  assumes "len < 65536"
  shows "drop_bit 16 (ver_len_word ver len) = ucast ver"
proof -
  have "unat (of_nat len :: u32) = len" using assms by (simp add: unat_of_nat)
  then have "drop_bit 16 (of_nat len :: u32) = 0"
    using assms by (simp add: drop_bit_eq_div word_arith_nat_div)
  moreover have "drop_bit 16 (push_bit 16 (ucast ver) :: u32) = ucast ver"
    by (rule bit_eqI) (auto simp: bit_simps dest: bit_imp_le_length)
  ultimately show ?thesis using assms by (simp add: ver_len_word_def)
qed

lemma new_hdr_fields:
  "h_magic (new_hdr s seq data) = magic s" "h_seq (new_hdr s seq data) = seq"
  "length data < 65536 \<Longrightarrow> hdr_len (new_hdr s seq data) = length data"
  "length data < 65536 \<Longrightarrow> hdr_ver (new_hdr s seq data) = ucast (version s)"
  by (simp_all add: new_hdr_def Let_def hdr_len_def hdr_ver_def ver_len_word_len ver_len_word_ver)

subsection \<open>Where a store lives\<close>

text \<open>
  What every store of the firmware satisfies: two distinct sectors of the persistence area, a
  legacy sector (if any) apart from both, a magic that is not blank flash, records that fit.
\<close>

definition sector_ok :: "nat \<Rightarrow> bool" where
  "sector_ok off \<longleftrightarrow> 0x1E0000 \<le> off \<and> off + 8192 \<le> 0x200000 \<and> 8192 dvd off"

definition store_wf :: "ab_store_t \<Rightarrow> bool" where
  "store_wf s \<longleftrightarrow> sector_ok (slot_off s 0) \<and> sector_ok (slot_off s 1) \<and> slot_off s 0 \<noteq> slot_off s 1 \<and>
     (legacy_off s \<noteq> 0 \<longrightarrow> sector_ok (legacy_off s) \<and>
        legacy_off s \<noteq> slot_off s 0 \<and> legacy_off s \<noteq> slot_off s 1) \<and>
     magic s \<noteq> 0xFFFFFFFF \<and> store_max s \<le> AB_STORE_MAX_VAR_PAYLOAD"

definition flash_wf :: "flash \<Rightarrow> bool" where
  "flash_wf fl \<longleftrightarrow> flash_layout_size fl = FLASH_LAYOUT_SIZE_1MB \<or> flash_layout_size fl = FLASH_LAYOUT_SIZE_2MB"

abbreviation addr :: "flash \<Rightarrow> nat \<Rightarrow> nat" where
  "addr fl off \<equiv> flash_layout_store_off fl off"

lemma addr_add:
  assumes "sector_ok off" and "flash_wf fl"
  shows "addr fl (off + k) = addr fl off + k"
  using assms
  by (auto simp: sector_ok_def flash_wf_def flash_layout_store_off_def flash_layout_map_def flash_consts)

lemma addr_aligned:
  assumes "sector_ok off" and "flash_wf fl"
  shows "8192 dvd addr fl off"
proof -
  from assms(1) obtain k where k: "off = 8192 * k" by (auto simp: sector_ok_def)
  have "8192 * k + 0x100000 - 0x200000 = 8192 * (k - 128)" by (simp add: diff_mult_distrib2)
  with assms k show ?thesis
    by (auto simp: sector_ok_def flash_wf_def flash_layout_store_off_def flash_layout_map_def flash_consts)
qed

lemma sectors_apart:
  assumes "sector_ok a" and "sector_ok b" and "a \<noteq> b" and "flash_wf fl" and "in_range (addr fl a) 8192 x"
  shows "\<not> in_range (addr fl b) 8192 x"
proof -
  from assms(1) obtain j where "a = 8192 * j" by (auto simp: sector_ok_def)
  moreover from assms(2) obtain k where "b = 8192 * k" by (auto simp: sector_ok_def)
  ultimately have jk: "a = 8192 * j" "b = 8192 * k" by simp_all
  with assms(3) have "j + 1 \<le> k \<or> k + 1 \<le> j" by auto
  with jk have "a + 8192 \<le> b \<or> b + 8192 \<le> a" by auto
  with assms show ?thesis
    by (auto simp: sector_ok_def in_range_def flash_wf_def flash_layout_store_off_def
        flash_layout_map_def flash_consts)
qed

lemma sector_writable:
  assumes "sector_ok off" and "flash_wf fl" and "k + n \<le> 8192" and "0 < n"
  shows "flash_layout_writable (addr fl (off + k)) n (flash_layout_size fl)"
  using assms
  by (auto simp: sector_ok_def flash_wf_def flash_layout_store_off_def flash_layout_map_def
      flash_layout_writable_def flash_consts)

subsection \<open>A slot is a function of its sector\<close>

text \<open>The chunked read with its running checksum is the read of the whole payload.\<close>

lemma read_payload_eq:
  assumes "sector_ok off" and "flash_wf fl"
  shows "read_payload fl (off + 16) len pos crc =
     (case read_cells (cells fl) (addr fl off + 16 + pos) (len - pos) of
        None \<Rightarrow> None
      | Some bs \<Rightarrow> Some (ab_crc32 crc bs, bs))"
proof (induction "len - pos" arbitrary: pos crc rule: less_induct)
  case less
  show ?case
  proof (cases "pos < len")
    case False
    then show ?thesis by (subst read_payload.simps) simp
  next
    case True
    define n where "n = (if len - pos < AB_CHUNK then len - pos else AB_CHUNK)"
    let ?rd = "\<lambda>k m. read_cells (cells fl) (addr fl off + 16 + k) m"
    have n: "len - (pos + n) < len - pos" "len - pos = n + (len - (pos + n))"
      using True by (auto simp: AB_CHUNK_def n_def)
    have "flash_read_checked fl (off + 16 + pos) n = ?rd pos n"
      using addr_add [OF assms, of "16 + pos"] by (simp add: flash_read_checked_def add.assoc)
    then have step: "read_payload fl (off + 16) len pos crc =
        (case ?rd pos n of None \<Rightarrow> None
         | Some b \<Rightarrow> (case read_payload fl (off + 16) len (pos + n) (ab_crc32 crc b) of
             None \<Rightarrow> None | Some (crc', rest) \<Rightarrow> Some (crc', b @ rest)))"
      using True by (subst read_payload.simps) (simp only: n_def [symmetric] Let_def if_True)
    have split: "?rd pos (len - pos) =
        (case ?rd pos n of None \<Rightarrow> None
         | Some xs \<Rightarrow> (case ?rd (pos + n) (len - (pos + n)) of None \<Rightarrow> None | Some ys \<Rightarrow> Some (xs @ ys)))"
      by (subst n(2), subst read_cells_append) (simp only: add.assoc)
    show ?thesis
      unfolding step split less.hyps [OF n(1)] by (simp add: ab_crc32_chain split: option.split)
  qed
qed

lemma payload_equals_eq:
  assumes "sector_ok off" and "flash_wf fl" and "pos \<le> length data"
  shows "payload_equals fl (off + 16) data pos \<longleftrightarrow>
     read_cells (cells fl) (addr fl off + 16 + pos) (length data - pos) = Some (drop pos data)"
  using assms(3)
proof (induction "length data - pos" arbitrary: pos rule: less_induct)
  case less
  show ?case
  proof (cases "pos < length data")
    case False
    with less.prems show ?thesis by (subst payload_equals.simps) simp
  next
    case True
    define n where "n = (if length data - pos < AB_CHUNK then length data - pos else AB_CHUNK)"
    let ?rd = "\<lambda>k m. read_cells (cells fl) (addr fl off + 16 + k) m"
    have n: "length data - (pos + n) < length data - pos" "pos + n \<le> length data"
      "length data - pos = n + (length data - (pos + n))"
      using True by (auto simp: AB_CHUNK_def n_def)
    have "flash_read_checked fl (off + 16 + pos) n = ?rd pos n"
      using addr_add [OF assms(1,2), of "16 + pos"] by (simp add: flash_read_checked_def add.assoc)
    then have step: "payload_equals fl (off + 16) data pos =
        (case ?rd pos n of None \<Rightarrow> False
         | Some b \<Rightarrow> b = take n (drop pos data) \<and> payload_equals fl (off + 16) data (pos + n))"
      using True by (subst payload_equals.simps) (simp only: n_def [symmetric] Let_def if_True)
    have split: "?rd pos (length data - pos) =
        (case ?rd pos n of None \<Rightarrow> None
         | Some xs \<Rightarrow> (case ?rd (pos + n) (length data - (pos + n)) of None \<Rightarrow> None | Some ys \<Rightarrow> Some (xs @ ys)))"
      by (subst n(3), subst read_cells_append) (simp only: add.assoc)
    have app: "xs @ ys = drop pos data \<longleftrightarrow> xs = take n (drop pos data) \<and> ys = drop (pos + n) data"
      if "length xs = n" for xs ys
      using that append_eq_conv_conj [of xs ys "drop pos data"] by (auto simp: add.commute)
    show ?thesis
      unfolding step split less.hyps [OF n(1,2)]
      using app length_read_cells by (auto split: option.split)
  qed
qed


definition hdr_at :: "ab_store_t \<Rightarrow> flash \<Rightarrow> nat \<Rightarrow> ab_hdr_t option" where
  "hdr_at s fl i =
     (case read_cells (cells fl) (addr fl (slot_off s i)) 16 of
        None \<Rightarrow> None
      | Some hb \<Rightarrow> if h_magic (hdr_of_bytes hb) = magic s then Some (hdr_of_bytes hb) else None)"

definition rec_crc :: "ab_hdr_t \<Rightarrow> u8 list \<Rightarrow> u32" where
  "rec_crc h bs = ab_crc32 0 (le32 (h_seq h) @ le32 (h_ver_len h) @ bs)"

lemma slot_read_eq:
  assumes "sector_ok (slot_off s i)" and "flash_wf fl"
  shows "slot_read s fl i =
     (case hdr_at s fl i of None \<Rightarrow> None
      | Some h \<Rightarrow>
          if store_max s < hdr_len h then None
          else (case read_cells (cells fl) (addr fl (slot_off s i) + 16) (hdr_len h) of None \<Rightarrow> None
                | Some bs \<Rightarrow> if rec_crc h bs = h_crc h then Some (h, bs) else None))"
  unfolding slot_read_def hdr_at_def AB_HDR_SIZE_def Let_def flash_read_checked_def
    read_payload_eq [OF assms] rec_crc_def
  by (auto simp: ab_crc32_chain split: option.split)

lemma slot_read_SomeD:
  assumes "sector_ok (slot_off s i)" and "flash_wf fl" and "slot_read s fl i = Some (h, bs)"
  shows "hdr_at s fl i = Some h" and "read_cells (cells fl) (addr fl (slot_off s i) + 16) (hdr_len h) = Some bs"
    and "hdr_len h = length bs" and "length bs \<le> store_max s" and "rec_crc h bs = h_crc h"
  using assms(3) length_read_cells unfolding slot_read_eq [OF assms(1,2)]
  by (auto split: option.splits if_splits)

text \<open>Two flashes of the same part that agree on the sector of a slot agree on the slot.\<close>

definition same_sector :: "flash \<Rightarrow> flash \<Rightarrow> nat \<Rightarrow> bool" where
  "same_sector fl fl' off \<longleftrightarrow> flash_layout_size fl' = flash_layout_size fl \<and>
     (\<forall>x. in_range (addr fl off) 8192 x \<longrightarrow> cells fl' x = cells fl x)"

lemma same_sector_read:
  assumes "same_sector fl fl' off" and "k + n \<le> 8192"
  shows "read_cells (cells fl') (addr fl off + k) n = read_cells (cells fl) (addr fl off + k) n"
  using assms by (intro read_cells_cong) (auto simp: same_sector_def in_range_def)

lemma same_sector_addr: "same_sector fl fl' off \<Longrightarrow> addr fl' x = addr fl x"
  by (simp add: same_sector_def flash_layout_store_off_def)

lemma same_sector_hdr_at: "same_sector fl fl' (slot_off s i) \<Longrightarrow> hdr_at s fl' i = hdr_at s fl i"
  using same_sector_read [of fl fl' "slot_off s i" 0 16]
  by (simp add: hdr_at_def same_sector_addr)

lemma same_sector_slot_read:
  assumes "same_sector fl fl' (slot_off s i)" and "sector_ok (slot_off s i)" and "flash_wf fl"
    and "store_max s \<le> AB_STORE_MAX_VAR_PAYLOAD"
  shows "slot_read s fl' i = slot_read s fl i"
proof -
  have wf': "flash_wf fl'" using assms(1,3) by (simp add: same_sector_def flash_wf_def)
  have "read_cells (cells fl') (addr fl (slot_off s i) + 16) n =
      read_cells (cells fl) (addr fl (slot_off s i) + 16) n" if "n \<le> store_max s" for n
    using same_sector_read [OF assms(1), of 16 n] that assms(4) by (simp add: ab_consts)
  then show ?thesis
    unfolding slot_read_eq [OF assms(2,3)] slot_read_eq [OF assms(2) wf'] same_sector_hdr_at [OF assms(1)]
      same_sector_addr [OF assms(1)]
    by (auto split: option.split)
qed

subsection \<open>The operations of a write\<close>

definition write_ops :: "ab_store_t \<Rightarrow> flash \<Rightarrow> nat \<Rightarrow> u32 \<Rightarrow> u8 list \<Rightarrow> hal_op list" where
  "write_ops s fl target seq data =
     (let a = addr fl (slot_off s target) in
      HAL_Erase a # qw_ops (a + 16) (body_bytes data) @ [HAL_Program a (hdr_bytes (new_hdr s seq data))])"

lemma qw_ops_append:
  "16 dvd length xs \<Longrightarrow> qw_ops a (xs @ ys) = qw_ops a xs @ qw_ops (a + length xs) ys"
proof (induction a xs rule: qw_ops.induct)
  case (1 a xs)
  show ?case
  proof (cases "xs = []")
    case False
    with 1(2) have len: "16 \<le> length xs" by (auto dest: dvd_imp_le)
    with 1 False have IH: "qw_ops (a + 16) (drop 16 xs @ ys) =
        qw_ops (a + 16) (drop 16 xs) @ qw_ops (a + 16 + length (drop 16 xs)) ys"
      by (auto simp: dvd_diff_nat)
    have "qw_ops a (xs @ ys) = HAL_Program a (pad16 (xs @ ys)) # qw_ops (a + 16) (drop 16 (xs @ ys))"
      using False by (subst qw_ops.simps) simp
    also have "\<dots> = HAL_Program a (pad16 xs) # qw_ops (a + 16) (drop 16 xs @ ys)"
      using len by (simp add: pad16_def)
    also have "\<dots> = qw_ops a xs @ qw_ops (a + length xs) ys"
      using False len unfolding IH by (subst (2) qw_ops.simps) simp
    finally show ?thesis .
  qed (simp add: qw_ops.simps)
qed

lemma qw_ops_within:
  "16 dvd length xs \<Longrightarrow> b \<le> a \<Longrightarrow> a + length xs \<le> b + n \<Longrightarrow> ops_within (qw_ops a xs) b n"
proof (induction a xs rule: qw_ops.induct)
  case (1 a xs)
  show ?case
  proof (cases "xs = []")
    case False
    with 1(2) have len: "16 \<le> length xs" by (auto dest: dvd_imp_le)
    then have "ops_within (qw_ops (a + 16) (drop 16 xs)) b n"
      using 1 False by (intro "1.IH") (auto simp: dvd_diff_nat)
    then show ?thesis
      using 1 False len by (subst qw_ops.simps) (auto simp: ops_within_def)
  qed (simp add: qw_ops.simps ops_within_def)
qed

lemma program_pages_ops:
  assumes "sector_ok off"
  shows "16 dvd length body \<Longrightarrow> k + length body \<le> 8192 \<Longrightarrow> flash_wf fl \<Longrightarrow>
    program_pages fl (off + k) body = run_ops fl (qw_ops (addr fl off + k) body)"
proof (induction body arbitrary: fl k rule: length_induct)
  case (1 body)
  show ?case
  proof (cases "body = []")
    case False
    define p where "p = take FLASH_PAGE_SIZE body"
    define r where "r = drop FLASH_PAGE_SIZE body"
    have body: "body = p @ r" by (simp add: p_def r_def)
    have pdvd: "16 dvd length p" using 1(2) by (cases "length body \<le> 256") (simp_all add: p_def FLASH_PAGE_SIZE_def min_def)
    have rdvd: "16 dvd length r" using 1(2) by (simp add: r_def FLASH_PAGE_SIZE_def dvd_diff_nat)
    have len: "length p + length r = length body" "0 < length p" "length r < length body"
      using False by (auto simp: p_def r_def FLASH_PAGE_SIZE_def)
    have page: "r \<noteq> [] \<Longrightarrow> length p = FLASH_PAGE_SIZE" by (auto simp: p_def r_def)
    let ?fl1 = "run_ops fl (qw_ops (addr fl off + k) p)"
    have "flash_range_program fl (off + k) p = ?fl1"
      using sector_writable [OF assms 1(4), of k "length p"] len 1(3)
      by (simp add: flash_range_program_def program_ops_def addr_add [OF assms 1(4)])
    then have step: "program_pages fl (off + k) body = program_pages ?fl1 (off + k + FLASH_PAGE_SIZE) r"
      using False by (subst program_pages.simps) (simp add: p_def r_def)
    have "addr ?fl1 off = addr fl off" by (simp add: flash_layout_store_off_def)
    moreover have "flash_wf ?fl1" using 1(4) by (simp add: flash_wf_def)
    ultimately have IH: "k + length p + length r \<le> 8192 \<Longrightarrow> program_pages ?fl1 (off + (k + length p)) r =
        run_ops ?fl1 (qw_ops (addr fl off + (k + length p)) r)"
      using 1(1) [rule_format, OF len(3), of "k + length p" ?fl1] rdvd by simp
    show ?thesis
    proof (cases "r = []")
      case True
      with step body show ?thesis by (metis append_Nil2 program_pages.simps)
    next
      case False
      then show ?thesis
        using step IH page len 1(3)
        by (simp add: body qw_ops_append [OF pdvd] run_ops_append add.assoc)
    qed
  qed (simp add: program_pages.simps qw_ops.simps)
qed


lemma length_body: "16 dvd length (body_bytes data)" "length data \<le> length (body_bytes data)"
  "length data \<le> 8176 \<Longrightarrow> length (body_bytes data) \<le> 8176"
proof -
  define q where "q = (length data + 15) div 16"
  have q: "length data \<le> q * 16" "q * 16 \<le> length data + 15"
    using mod_less_divisor [of 16 "length data + 15"] div_mult_mod_eq [of "length data + 15" 16]
    by (auto simp: q_def)
  then have len: "length (body_bytes data) = q * 16"
    by (simp add: body_bytes_def Let_def AB_QW_def q_def)
  show "16 dvd length (body_bytes data)" "length data \<le> length (body_bytes data)"
    using q by (simp_all add: len)
  assume "length data \<le> 8176"
  with q(2) have "q * 16 < 512 * 16" by simp
  then have "q < 512" by (simp only: mult_less_cancel2)
  then show "length (body_bytes data) \<le> 8176" by (simp add: len)
qed

lemma take_body: "take (length data) (body_bytes data) = data"
  by (simp add: body_bytes_def Let_def)

lemma store_wf_slot: "store_wf s \<Longrightarrow> i < 2 \<Longrightarrow> sector_ok (slot_off s i)"
  by (auto simp: store_wf_def less_2_cases_iff)

lemma erase_ops_sector:
  assumes "sector_ok off" and "flash_wf fl"
  shows "erase_ops fl off 8192 = [HAL_Erase (addr fl off)]"
proof -
  let ?b = "flash_layout_bank_size fl"
  have b: "8192 dvd ?b" "?b \<le> addr fl off"
    using assms
    by (auto simp: sector_ok_def flash_wf_def flash_layout_bank_size_def flash_layout_store_off_def
        flash_layout_map_def flash_consts)
  have "8192 dvd addr fl off - ?b" using addr_aligned [OF assms] b(1) by (rule dvd_diff_nat)
  then have "?b + (addr fl off - ?b) div 8192 * 8192 = addr fl off" using b(2) by simp
  then show ?thesis
    using b(2) by (simp add: erase_ops_def addr_to_bank_sector_def Let_def H5_SECTOR_SIZE_def)
qed

lemma flash_range_erase_sector:
  assumes "sector_ok off" and "flash_wf fl"
  shows "flash_range_erase fl off 8192 = run_ops fl [HAL_Erase (addr fl off)]"
  using sector_writable [OF assms, of 0 8192]
  by (simp add: flash_range_erase_def erase_ops_sector [OF assms])

lemma qw_ops_one: "length bs = 16 \<Longrightarrow> qw_ops a bs = [HAL_Program a bs]"
  by (subst qw_ops.simps, subst qw_ops.simps) (auto simp: pad16_def)

lemma write_flash_ops:
  assumes "sector_ok (slot_off s target)" and "flash_wf fl" and "length data \<le> AB_STORE_MAX_VAR_PAYLOAD"
  shows "write_flash s fl target seq data = run_ops fl (write_ops s fl target seq data)"
proof -
  let ?off = "slot_off s target" and ?b = "body_bytes data" and ?h = "hdr_bytes (new_hdr s seq data)"
  let ?a = "addr fl ?off"
  let ?fl1 = "run_ops fl [HAL_Erase ?a]"
  let ?fl2 = "run_ops ?fl1 (qw_ops (?a + 16) ?b)"
  have wf: "flash_wf ?fl1" "flash_wf ?fl2" using assms(2) by (simp_all add: flash_wf_def)
  have adr: "addr ?fl1 = addr fl" "addr ?fl2 = addr fl" by (auto simp: flash_layout_store_off_def)
  have "program_pages ?fl1 (?off + 16) ?b = ?fl2"
    using program_pages_ops [OF assms(1) length_body(1) _ wf(1), of 16 data] length_body(3) assms(3)
    by (simp add: adr ab_consts)
  moreover have "flash_range_program ?fl2 ?off ?h = run_ops ?fl2 [HAL_Program ?a ?h]"
    using sector_writable [OF assms(1) wf(2), of 0 16]
    by (simp add: flash_range_program_def program_ops_def adr qw_ops_one)
  ultimately show ?thesis
    by (simp add: write_flash_def Let_def AB_HDR_SIZE_def FLASH_SHIM_SECTOR_SIZE_def
        flash_range_erase_sector [OF assms(1,2)] write_ops_def run_ops_Cons run_ops_append)
qed

lemma write_ops_within:
  assumes "length data \<le> AB_STORE_MAX_VAR_PAYLOAD"
  shows "ops_within (write_ops s fl target seq data) (addr fl (slot_off s target)) 8192"
proof -
  let ?a = "addr fl (slot_off s target)"
  have "ops_within (qw_ops (?a + 16) (body_bytes data)) ?a 8192"
    using length_body [of data] assms by (intro qw_ops_within) (auto simp: ab_consts)
  then show ?thesis by (auto simp: write_ops_def Let_def ops_within_def H5_SECTOR_SIZE_def)
qed

lemma run_ops_hal_ideal: "hal_ideal (run_ops fl ops) \<longleftrightarrow> hal_ideal fl"
  by (simp add: hal_ideal_def hal_confined_def)

lemma qw_ops_run:
  "hal_ideal fl \<Longrightarrow> 16 dvd length bs \<Longrightarrow> erased_at (cells fl) a (length bs) \<Longrightarrow>
   read_cells (cells (run_ops fl (qw_ops a bs))) a (length bs) = Some bs"
proof (induction a bs arbitrary: fl rule: qw_ops.induct)
  case (1 a bs)
  show ?case
  proof (cases "bs = []")
    case True
    then show ?thesis by simp
  next
    case False
    with 1(3) have len: "16 \<le> length bs" by (auto dest: dvd_imp_le)
    let ?fl1 = "run_op fl (HAL_Program a (pad16 bs))"
    have pad: "pad16 bs = take 16 bs" using len by (simp add: pad16_def)
    have er: "erased_at (cells fl) a 16" using 1(4) len by (auto simp: erased_at_def in_range_def)
    have prog: "cells ?fl1 (a + i) = Some (bs ! i)" if "i < 16" for i
      using 1(2) er that len by (simp add: hal_ideal_def pad)
    have out: "cells ?fl1 x = cells fl x" if "\<not> in_range a 16 x" for x
      using 1(2) that by (simp add: hal_ideal_def hal_confined_def)
    have ideal1: "hal_ideal ?fl1" using 1(2) by (simp add: hal_ideal_def hal_confined_def)
    have er1: "erased_at (cells ?fl1) (a + 16) (length (drop 16 bs))"
      unfolding erased_at_def using 1(4) out len by (auto simp: erased_at_def in_range_def)
    have dvd: "16 dvd length (drop 16 bs)" using 1(3) by (simp add: dvd_diff_nat)
    let ?fl2 = "run_ops ?fl1 (qw_ops (a + 16) (drop 16 bs))"
    have IH: "read_cells (cells ?fl2) (a + 16) (length (drop 16 bs)) = Some (drop 16 bs)"
      using 1(1) [OF False ideal1 dvd er1] .
    have "cells ?fl2 x = cells ?fl1 x" if "in_range a 16 x" for x
      using that run_ops_confined [OF hal_ideal_confined [OF ideal1]
          qw_ops_within [OF dvd, of "a + 16" "a + 16"], of "length (drop 16 bs)" x]
      by (auto simp: in_range_def)
    then have "read_cells (cells ?fl2) a 16 = Some (take 16 bs)"
      using prog len by (auto simp: read_cells_Some_iff in_range_def)
    then have "read_cells (cells ?fl2) a (16 + length (drop 16 bs)) = Some bs"
      unfolding read_cells_append using IH by simp
    then show ?thesis using False len by (subst qw_ops.simps) (simp add: run_ops_Cons)
  qed
qed


lemma run_ops_same_sector:
  assumes "sector_ok a" and "sector_ok b" and "a \<noteq> b" and "flash_wf fl" and "hal_confined fl"
    and "ops_within ops (addr fl a) 8192"
  shows "same_sector fl (run_ops fl ops) b"
  unfolding same_sector_def
  using run_ops_confined [OF assms(5,6)] sectors_apart [OF assms(2,1) assms(3) [symmetric] assms(4)] by auto

lemma power_cut_same_sector:
  assumes "sector_ok a" and "sector_ok b" and "a \<noteq> b" and "flash_wf fl" and "hal_confined fl"
    and "ops_within ops (addr fl a) 8192" and "power_cut fl (cells fl) ops c'"
  shows "same_sector fl (fl\<lparr>cells := c'\<rparr>) b"
  unfolding same_sector_def
  using power_cut_confined [OF assms(7,5,6)] sectors_apart [OF assms(2,1) assms(3) [symmetric] assms(4)] by auto

lemma erase_erased:
  assumes "hal_ideal fl"
  shows "erased_at (cells (run_op fl (HAL_Erase a))) a 8192"
  using assms by (simp add: erased_at_def hal_ideal_def H5_SECTOR_SIZE_def)

lemma write_cells:
  fixes s :: ab_store_t and target :: nat and seq :: u32
  assumes "hal_ideal fl" and "length data \<le> AB_STORE_MAX_VAR_PAYLOAD"
  defines "a \<equiv> addr fl (slot_off s target)"
  defines "c' \<equiv> cells (run_ops fl (write_ops s fl target seq data))"
  shows "read_cells c' a 16 = Some (hdr_bytes (new_hdr s seq data))"
    and "read_cells c' (a + 16) (length (body_bytes data)) = Some (body_bytes data)"
proof -
  let ?b = "body_bytes data" and ?h = "hdr_bytes (new_hdr s seq data)"
  let ?fl1 = "run_op fl (HAL_Erase a)"
  let ?fl2 = "run_ops ?fl1 (qw_ops (a + 16) ?b)"
  have c': "c' = hal fl (HAL_Program a ?h) (cells ?fl2)"
    by (simp add: c'_def write_ops_def Let_def a_def run_ops_Cons run_ops_append)
  have ideal: "hal_ideal ?fl1" "hal_ideal ?fl2"
    using assms(1) by (simp_all add: hal_ideal_def hal_confined_def)
  have len: "length ?b \<le> 8176" using length_body(3) assms(2) by (simp add: ab_consts)
  have er1: "erased_at (cells ?fl1) (a + 16) (length ?b)"
    using erase_erased [OF assms(1), of a] len by (auto simp: erased_at_def in_range_def)
  have "cells ?fl2 x = cells ?fl1 x" if "in_range a 16 x" for x
    using that run_ops_confined [OF hal_ideal_confined [OF ideal(1)]
        qw_ops_within [OF length_body(1), of "a + 16" "a + 16"], of data "length ?b" x]
    by (auto simp: in_range_def)
  then have er2: "erased_at (cells ?fl2) a 16"
    using erase_erased [OF assms(1), of a] by (auto simp: erased_at_def in_range_def)
  show "read_cells c' a 16 = Some ?h"
    using assms(1) er2 by (simp add: read_cells_Some_iff c' hal_ideal_def)
  have "read_cells c' (a + 16) (length ?b) = read_cells (cells ?fl2) (a + 16) (length ?b)"
    using assms(1) by (intro read_cells_cong) (auto simp: c' hal_ideal_def hal_confined_def in_range_def)
  then show "read_cells c' (a + 16) (length ?b) = Some ?b"
    using qw_ops_run [OF ideal(1) length_body(1) er1] by simp
qed

lemma rec_crc_new_hdr: "rec_crc (new_hdr s seq data) data = h_crc (new_hdr s seq data)"
  by (simp add: rec_crc_def new_hdr_def Let_def ab_crc32_chain)

lemma write_slot_read:
  fixes seq :: u32
  assumes "store_wf s" and "flash_wf fl" and "hal_ideal fl" and "target < 2" and "length data \<le> store_max s"
  defines "fl' \<equiv> run_ops fl (write_ops s fl target seq data)"
  shows "slot_read s fl' target = Some (new_hdr s seq data, data)" and "slot_payload_equals s fl' target data"
proof -
  let ?a = "addr fl (slot_off s target)"
  have ok: "sector_ok (slot_off s target)" using store_wf_slot [OF assms(1,4)] .
  have wf': "flash_wf fl'" using assms(2) by (simp add: fl'_def flash_wf_def)
  have adr: "addr fl' = addr fl" by (auto simp: fl'_def flash_layout_store_off_def)
  have len: "length data \<le> AB_STORE_MAX_VAR_PAYLOAD" using assms(1,5) by (simp add: store_wf_def)
  then have len16: "length data < 65536" by (simp add: ab_consts)
  note w = write_cells [OF assms(3) len, of s target seq, folded fl'_def]
  have pay: "read_cells (cells fl') (?a + 16) (length data) = Some data"
    using w(2) length_body(2) [of data] take_body [of data] unfolding read_cells_Some_iff
    by (metis nth_take order_less_le_trans)
  have hdr: "hdr_at s fl' target = Some (new_hdr s seq data)"
    using w(1) by (simp add: hdr_at_def adr new_hdr_fields)
  show "slot_read s fl' target = Some (new_hdr s seq data, data)"
    unfolding slot_read_eq [OF ok wf'] hdr
    using assms(5) pay by (simp add: new_hdr_fields len16 adr rec_crc_new_hdr)
  show "slot_payload_equals s fl' target data"
    using payload_equals_eq [OF ok wf', of 0 data] pay
    by (simp add: slot_payload_equals_def AB_HDR_SIZE_def adr)
qed

text \<open>
  The header is the commit point: whatever a power cut leaves of a write, the header of the slot
  is the old one, absent, or the write is complete.
\<close>

lemma hdr_at_erased:
  assumes "magic s \<noteq> 0xFFFFFFFF" and "erased_at (cells fl) (addr fl (slot_off s i)) 16"
  shows "hdr_at s fl i = None"
proof -
  have "read_cells (cells fl) (addr fl (slot_off s i)) 16 = Some (replicate 16 0xFF)"
    using assms(2) by (auto simp: read_cells_Some_iff erased_at_def in_range_def)
  moreover have "of_le32 (replicate (Suc (Suc (Suc (Suc n)))) 0xFF) = 0xFFFFFFFF" for n by simp
  from this [of 12] have "of_le32 (replicate 16 0xFF) = 0xFFFFFFFF" by (simp only: Suc_numeral Num.add_num_simps)
  ultimately show ?thesis using assms(1) by (simp add: hdr_at_def hdr_of_bytes_def)
qed


lemma power_cut_append:
  "power_cut fl c (xs @ ys) c' \<Longrightarrow>
     power_cut fl c xs c' \<or> power_cut fl (cells (run_ops (fl\<lparr>cells := c\<rparr>) xs)) ys c'"
proof (induction xs arbitrary: c)
  case (Cons op xs)
  have run: "run_ops (fl\<lparr>cells := c\<rparr>) (op # xs) = run_ops (fl\<lparr>cells := hal fl op c\<rparr>) xs"
    by (simp add: run_ops_Cons run_op_def)
  from Cons.prems consider "c' = c" | "torn fl c op c'" | "power_cut fl (hal fl op c) (xs @ ys) c'"
    unfolding append_Cons power_cut_Cons by blast
  then show ?case
  proof cases
    case 3
    then show ?thesis using Cons.IH [OF 3] run by (auto intro: cut_after)
  qed (auto intro: power_cut.intros)
qed simp

lemma torn_header:
  assumes "torn fl c op c'" and "op_start op = a" and "16 \<le> op_size op" and "i < 16"
  shows "c' (a + i) = c (a + i) \<and> (\<forall>j < 16. c' (a + j) = c (a + j)) \<or>
    (\<forall>j < 16. c' (a + j) = hal fl op c (a + j)) \<or> c' (a + i) = None"
proof -
  have "0 < op_size op div 16" using assms(3) by (simp add: div_greater_zero_iff)
  with assms(1) have "(\<forall>x. in_range a 16 x \<longrightarrow> c' x = c x) \<or> (\<forall>x. in_range a 16 x \<longrightarrow> c' x = hal fl op c x) \<or>
      (\<forall>x. in_range a 16 x \<longrightarrow> c' x = None)"
    using assms(2) by (auto simp: Let_def torn_def)
  then show ?thesis using assms(4) by (auto simp: in_range_def)
qed

lemma hdr_at_cells:
  assumes "\<And>j. j < 16 \<Longrightarrow> cells fl' (addr fl (slot_off s i) + j) = cells fl (addr fl (slot_off s i) + j)"
    and "flash_layout_size fl' = flash_layout_size fl"
  shows "hdr_at s fl' i = hdr_at s fl i"
proof -
  have "read_cells (cells fl') (addr fl (slot_off s i)) 16 = read_cells (cells fl) (addr fl (slot_off s i)) 16"
    using assms(1) by (intro read_cells_cong) (metis add_less_cancel_left le_iff_add)
  then show ?thesis using assms(2) by (simp add: hdr_at_def flash_layout_store_off_def)
qed

lemma hdr_at_unreadable:
  assumes "cells fl (addr fl (slot_off s i)) = None"
  shows "hdr_at s fl i = None"
  using read_cells_None [of "cells fl" "addr fl (slot_off s i)" 0 16] assms by (simp add: hdr_at_def)

text \<open>One operation at the start of a sector, cut: the header is as before, as after, or gone.\<close>

lemma torn_hdr_at:
  assumes "torn fl (cells fl) op c'" and "op_start op = addr fl (slot_off s i)" and "16 \<le> op_size op"
  shows "hdr_at s (fl\<lparr>cells := c'\<rparr>) i \<in> {hdr_at s fl i, hdr_at s (run_op fl op) i, None}"
proof -
  let ?a = "addr fl (slot_off s i)" and ?fl' = "fl\<lparr>cells := c'\<rparr>"
  have adr: "addr ?fl' (slot_off s i) = ?a" "addr (run_op fl op) (slot_off s i) = ?a"
    by (simp_all add: flash_layout_store_off_def)
  from torn_header [OF assms, of 0] consider
      "\<forall>j < 16. c' (?a + j) = cells fl (?a + j)"
    | "\<forall>j < 16. c' (?a + j) = hal fl op (cells fl) (?a + j)"
    | "c' ?a = None" by auto
  then show ?thesis
  proof cases
    case 1
    then have "hdr_at s ?fl' i = hdr_at s fl i" by (intro hdr_at_cells) simp_all
    then show ?thesis by simp
  next
    case 2
    then have "hdr_at s ?fl' i = hdr_at s (run_op fl op) i" by (intro hdr_at_cells) (simp_all add: adr)
    then show ?thesis by simp
  next
    case 3
    then have "hdr_at s ?fl' i = None" by (intro hdr_at_unreadable) (simp add: adr)
    then show ?thesis by simp
  qed
qed

lemma write_cut:
  assumes "store_wf s" and "hal_ideal fl" and "length data \<le> AB_STORE_MAX_VAR_PAYLOAD"
    and "power_cut fl (cells fl) (write_ops s fl target seq data) c'"
  shows "c' = cells (run_ops fl (write_ops s fl target seq data)) \<or>
    hdr_at s (fl\<lparr>cells := c'\<rparr>) target \<in> {hdr_at s fl target, None}"
proof -
  let ?a = "addr fl (slot_off s target)" and ?h = "hdr_bytes (new_hdr s seq data)"
  let ?E = "HAL_Erase ?a" and ?q = "qw_ops (?a + 16) (body_bytes data)" and ?P = "HAL_Program ?a ?h"
  let ?fl' = "fl\<lparr>cells := c'\<rparr>" and ?fl1 = "run_op fl ?E"
  let ?fl2 = "run_ops ?fl1 ?q"
  have er1: "erased_at (cells ?fl1) ?a 16"
    using erase_erased [OF assms(2), of ?a] by (auto simp: erased_at_def in_range_def)
  have m: "magic s \<noteq> 0xFFFFFFFF" using assms(1) by (simp add: store_wf_def)
  have conf: "hal_confined ?fl1" using assms(2) by (simp add: hal_ideal_def hal_confined_def)
  have adr: "addr ?fl1 = addr fl" "addr ?fl2 = addr fl" "addr ?fl' = addr fl"
    by (auto simp: flash_layout_store_off_def)
  have within: "ops_within ?q (?a + 16) (length (body_bytes data))"
    by (rule qw_ops_within [OF length_body(1)]) auto
  have none1: "hdr_at s ?fl1 target = None" using hdr_at_erased [OF m, of ?fl1 target] er1 by (simp add: adr)
  have er2: "erased_at (cells ?fl2) ?a 16"
    using er1 run_ops_confined [OF conf within] by (auto simp: erased_at_def in_range_def)
  have none2: "hdr_at s ?fl2 target = None" using hdr_at_erased [OF m, of ?fl2 target] er2 by (simp add: adr)
  have ops: "write_ops s fl target seq data = ?E # ?q @ [?P]" by (simp add: write_ops_def Let_def)
  have fin: "cells (run_ops fl (?E # ?q @ [?P])) = hal fl ?P (cells ?fl2)"
    by (simp add: run_ops_Cons run_ops_append)
  have last: "c' = hal fl ?P (cells ?fl2) \<or> hdr_at s ?fl' target = None" if "torn fl (cells ?fl2) ?P c'"
  proof -
    from torn_header [OF that, of ?a 0] consider
        "\<forall>j < 16. c' (?a + j) = cells ?fl2 (?a + j)"
      | "\<forall>j < 16. c' (?a + j) = hal fl ?P (cells ?fl2) (?a + j)"
      | "c' ?a = None" by auto
    then show ?thesis
    proof cases
      case 1
      then have "hdr_at s ?fl' target = hdr_at s ?fl2 target" by (intro hdr_at_cells) (simp_all add: adr)
      then show ?thesis using none2 by simp
    next
      case 2
      have "c' x = hal fl ?P (cells ?fl2) x" for x
        using 2 [rule_format, of "x - ?a"] that hal_ideal_confined [OF assms(2)]
        by (cases "in_range ?a 16 x") (auto simp: in_range_def hal_confined_def torn_def)
      then show ?thesis by auto
    next
      case 3
      then show ?thesis using hdr_at_unreadable [of ?fl' s target] by (simp add: adr)
    qed
  qed
  have early: "hdr_at s ?fl' target = None" if "power_cut fl (cells ?fl1) ?q c'"
    using power_cut_confined [OF that hal_ideal_confined [OF assms(2)] within] er1
      hdr_at_erased [OF m, of ?fl' target]
    by (simp add: adr erased_at_def in_range_def)
  from assms(4) consider "c' = cells fl" | "torn fl (cells fl) ?E c'"
    | "power_cut fl (cells ?fl1) ?q c'" | "power_cut fl (cells ?fl2) [?P] c'"
    using power_cut_append [of fl "cells ?fl1" ?q "[?P]" c']
    unfolding ops power_cut_Cons by (auto simp: run_op_def)
  then have "c' = hal fl ?P (cells ?fl2) \<or> hdr_at s ?fl' target \<in> {hdr_at s fl target, None}"
  proof cases
    case 2
    then show ?thesis using torn_hdr_at [OF 2, of s target] none1 by (auto simp: H5_SECTOR_SIZE_def)
  next
    case 4
    then show ?thesis
      using last hdr_at_erased [OF m, of ?fl' target] er2
      by (auto simp: power_cut_Cons power_cut_Nil adr)
  qed (use early in simp_all)
  then show ?thesis unfolding ops fin .
qed


subsection \<open>The newest record\<close>

definition contents :: "ab_store_t \<Rightarrow> flash \<Rightarrow> (ab_hdr_t \<times> u8 list) option" where
  "contents s fl = (case scan s fl of None \<Rightarrow> None | Some n \<Rightarrow> slot_read s fl n)"

text \<open>
  The invariant of the two slots: the header of the slot that is not the newest record, if it has
  one at all, is the directly preceding one; with no record there is no header.
\<close>

definition store_inv :: "ab_store_t \<Rightarrow> flash \<Rightarrow> bool" where
  "store_inv s fl \<longleftrightarrow>
     (case scan s fl of
        None \<Rightarrow> hdr_at s fl 0 = None \<and> hdr_at s fl 1 = None
      | Some n \<Rightarrow> (case hdr_at s fl (1 - n) of
                    None \<Rightarrow> True
                  | Some h \<Rightarrow> h_seq h + 1 = h_seq (fst (slot_rec s fl n))))"

lemma scan_SomeD: "scan s fl = Some n \<Longrightarrow> n < 2 \<and> (\<exists>h p. slot_read s fl n = Some (h, p))"
  by (auto simp: scan_def newest_slot_def split: option.splits if_splits)

lemma slot_read_hdr_at:
  "store_wf s \<Longrightarrow> flash_wf fl \<Longrightarrow> i < 2 \<Longrightarrow> slot_read s fl i = Some (h, p) \<Longrightarrow> hdr_at s fl i = Some h"
  using slot_read_SomeD(1) store_wf_slot by blast

lemma scan_pick:
  assumes "store_wf s" and "flash_wf fl" and "n < 2" and "slot_read s fl n = Some (h, p)"
    and "\<And>h'. hdr_at s fl (1 - n) = Some h' \<Longrightarrow> h_seq h' + 1 = h_seq h"
  shows "scan s fl = Some n" and "store_inv s fl" and "contents s fl = Some (h, p)"
proof -
  have older: "h_seq h' = h_seq h - 1" if "slot_read s fl (1 - n) = Some (h', p')" for h' p'
    using assms(5) slot_read_hdr_at [OF assms(1,2) _ that] by (metis add_diff_cancel_right' assms(3)
        diff_less_Suc less_2_cases_iff numeral_2_eq_2 One_nat_def diff_self_eq_0 diff_zero zero_less_Suc)
  have "n = 0 \<or> n = 1" using assms(3) by auto
  then show scan: "scan s fl = Some n"
    using assms(4) older by (auto simp: scan_def newest_slot_def split: option.split)
  then show "store_inv s fl" "contents s fl = Some (h, p)"
    using assms(4,5) by (auto simp: store_inv_def contents_def slot_rec_def split: option.split)
qed

lemma scan_none:
  assumes "store_wf s" and "flash_wf fl" and "hdr_at s fl 0 = None" and "hdr_at s fl 1 = None"
  shows "scan s fl = None" and "store_inv s fl" and "contents s fl = None"
proof -
  have "slot_read s fl i = None" if "i < 2" for i
    using slot_read_eq [OF store_wf_slot [OF assms(1) that] assms(2)] assms(3,4) that
    by (auto simp: less_2_cases_iff)
  then show "scan s fl = None" by (simp add: scan_def newest_slot_def)
  then show "store_inv s fl" "contents s fl = None" using assms by (simp_all add: store_inv_def contents_def)
qed

lemma next_target_less: "store_wf s \<Longrightarrow> next_target (scan s fl) < 2"
  by (auto simp: next_target_def split: option.split)

text \<open>A flash that differs only in the slot a save writes to, and has the new record there.\<close>

lemma commit_new:
  assumes "store_wf s" and "flash_wf fl" and "store_inv s fl"
  defines "t \<equiv> next_target (scan s fl)"
  defines "q \<equiv> next_seq s fl (scan s fl)"
  assumes "same_sector fl fl' (slot_off s (1 - t))" and "slot_read s fl' t = Some (h, p)" and "h_seq h = q"
  shows "scan s fl' = Some t" and "store_inv s fl'" and "contents s fl' = Some (h, p)"
proof -
  have wf': "flash_wf fl'" using assms(2,6) by (simp add: same_sector_def flash_wf_def)
  have t: "t < 2" unfolding t_def by (rule next_target_less [OF assms(1)])
  have "h_seq h' + 1 = h_seq h" if "hdr_at s fl' (1 - t) = Some h'" for h'
  proof (cases "scan s fl")
    case None
    then have "t = 0" by (simp add: t_def next_target_def)
    with None assms(3) that same_sector_hdr_at [OF assms(6)] show ?thesis by (simp add: store_inv_def)
  next
    case (Some n)
    then obtain h0 p0 where n: "n < 2" "slot_read s fl n = Some (h0, p0)" using scan_SomeD by blast
    then have "1 - t = n" using Some by (simp add: t_def next_target_def)
    then have "h' = h0" using that same_sector_hdr_at [OF assms(6)] slot_read_hdr_at [OF assms(1,2) n] by simp
    then show ?thesis using Some n assms(8) by (simp add: q_def next_seq_def slot_rec_def)
  qed
  from scan_pick [OF assms(1) wf' t assms(7) this]
  show "scan s fl' = Some t" and "store_inv s fl'" and "contents s fl' = Some (h, p)" by blast+
qed

text \<open>A flash that differs only in that slot, and has the old header or none there.\<close>

lemma commit_old:
  assumes "store_wf s" and "flash_wf fl" and "store_inv s fl"
  defines "t \<equiv> next_target (scan s fl)"
  assumes "same_sector fl fl' (slot_off s (1 - t))" and "hdr_at s fl' t \<in> {hdr_at s fl t, None}"
  shows "scan s fl' = scan s fl" and "store_inv s fl'" and "contents s fl' = contents s fl"
proof -
  have wf': "flash_wf fl'" using assms(2,5) by (simp add: same_sector_def flash_wf_def)
  have "scan s fl' = scan s fl \<and> store_inv s fl' \<and> contents s fl' = contents s fl"
  proof (cases "scan s fl")
    case None
    then have t: "t = 0" by (simp add: t_def next_target_def)
    have "hdr_at s fl' 0 = None \<and> hdr_at s fl' 1 = None"
      using None assms(3,6) same_sector_hdr_at [OF assms(5)] by (auto simp: t store_inv_def)
    with scan_none [OF assms(1) wf'] None show ?thesis by (simp add: contents_def)
  next
    case (Some n)
    then obtain h0 p0 where n: "n < 2" "slot_read s fl n = Some (h0, p0)" using scan_SomeD by blast
    have t: "t = 1 - n" "1 - t = n" using Some n by (auto simp: t_def next_target_def)
    have "slot_read s fl' n = Some (h0, p0)"
      using same_sector_slot_read [OF _ store_wf_slot [OF assms(1) n(1)] assms(2)] assms(1,5) n
      by (simp add: t store_wf_def)
    moreover have "h_seq h' + 1 = h_seq h0" if "hdr_at s fl' (1 - n) = Some h'" for h'
      using assms(3,6) that Some n by (auto simp: t store_inv_def slot_rec_def split: option.splits)
    ultimately show ?thesis using scan_pick [OF assms(1) wf' n(1)] Some n by (simp add: contents_def)
  qed
  then show "scan s fl' = scan s fl" and "store_inv s fl'" and "contents s fl' = contents s fl" by blast+
qed


subsection \<open>Saves and clears as operations of the device\<close>

definition save_ops :: "ab_store_t \<Rightarrow> flash \<Rightarrow> u8 list \<Rightarrow> hal_op list" where
  "save_ops s fl data =
     (if length data = 0 \<or> length data > store_max s \<or> unchanged s fl data then []
      else write_ops s fl (next_target (scan s fl)) (next_seq s fl (scan s fl)) data)"

definition clear_ops :: "ab_store_t \<Rightarrow> flash \<Rightarrow> hal_op list" where
  "clear_ops s fl =
     (let t = next_target (scan s fl) in
      write_ops s fl t (next_seq s fl (scan s fl)) [] @
      HAL_Erase (addr fl (slot_off s (1 - t))) #
      (if legacy_off s = 0 then [] else [HAL_Erase (addr fl (legacy_off s))]))"

lemma other_slot:
  assumes "store_wf s" and "t < 2"
  shows "sector_ok (slot_off s t)" and "sector_ok (slot_off s (1 - t))" and "slot_off s t \<noteq> slot_off s (1 - t)"
  using assms by (auto simp: store_wf_def less_2_cases_iff)

lemma write_record_ideal:
  assumes "store_wf s" and "flash_wf fl" and "hal_ideal fl" and "t < 2" and "length data \<le> store_max s"
  shows "write_record s fl t seq data = (run_ops fl (write_ops s fl t seq data), True)"
proof -
  have len: "length data \<le> AB_STORE_MAX_VAR_PAYLOAD" using assms(1,5) by (simp add: store_wf_def)
  show ?thesis
    unfolding write_record_def Let_def write_flash_ops [OF other_slot(1) [OF assms(1,4)] assms(2) len]
    using write_slot_read [OF assms] by (simp add: new_hdr_fields)
qed

lemma unchanged_contents:
  assumes "store_wf s" and "flash_wf fl" and "unchanged s fl data"
  obtains h where "contents s fl = Some (h, data)" and "hdr_ver h = ucast (version s)" and "hdr_len h = length data"
proof -
  obtain n where scan: "scan s fl = Some n" using assms(3) by (cases "scan s fl") (auto simp: unchanged_def)
  then obtain h p where hp: "n < 2" "slot_read s fl n = Some (h, p)" using scan_SomeD by blast
  have u: "slot_payload_equals s fl n data" "hdr_ver h = ucast (version s)" "hdr_len h = length data"
    using assms(3) scan hp(2) by (simp_all add: unchanged_def slot_rec_def)
  note ok = store_wf_slot [OF assms(1) hp(1)]
  have "read_cells (cells fl) (addr fl (slot_off s n) + 16) (length data) = Some data"
    using u(1) payload_equals_eq [OF ok assms(2), of 0 data] by (simp add: slot_payload_equals_def AB_HDR_SIZE_def)
  then have "p = data" using slot_read_SomeD(2) [OF ok assms(2) hp(2)] u(3) by simp
  then have "contents s fl = Some (h, data)" using scan hp(2) by (simp add: contents_def)
  then show ?thesis using that u by blast
qed

text \<open>What a load reads is determined by the newest record, and by the legacy sector if there is none.\<close>

lemma ab_store_load_contents:
  assumes "store_wf s" and "flash_wf fl"
  shows "ab_store_load s fl len =
     (case contents s fl of
        Some (h, p) \<Rightarrow> if p = [] \<or> hdr_ver h \<noteq> ucast (version s) \<or> length p \<noteq> len then None else Some p
      | None \<Rightarrow>
          if legacy_off s = 0 then None
          else (case flash_read_checked fl (legacy_off s) 4 of None \<Rightarrow> None
                | Some mb \<Rightarrow> if of_le32 mb \<noteq> legacy_magic s then None
                            else flash_read_checked fl (legacy_off s) len))"
proof (cases "scan s fl")
  case None
  then show ?thesis by (simp add: ab_store_load_def contents_def)
next
  case (Some n)
  then obtain h p where n: "n < 2" "slot_read s fl n = Some (h, p)" using scan_SomeD by blast
  from slot_read_SomeD(3) [OF store_wf_slot [OF assms(1) n(1)] assms(2) n(2)] Some n show ?thesis
    by (auto simp: ab_store_load_def contents_def slot_rec_def Let_def)
qed


lemma ab_store_load_var_contents:
  assumes "store_wf s" and "flash_wf fl"
  shows "ab_store_load_var s fl cap =
     (case contents s fl of
        Some (h, p) \<Rightarrow> if p = [] \<or> hdr_ver h \<noteq> ucast (version s) \<or> cap < length p then None else Some p
      | None \<Rightarrow> None)"
proof (cases "scan s fl")
  case None
  then show ?thesis by (simp add: ab_store_load_var_def contents_def)
next
  case (Some n)
  then obtain h p where n: "n < 2" "slot_read s fl n = Some (h, p)" using scan_SomeD by blast
  from slot_read_SomeD(3) [OF store_wf_slot [OF assms(1) n(1)] assms(2) n(2)] Some n show ?thesis
    by (auto simp: ab_store_load_var_def contents_def slot_rec_def Let_def)
qed

text \<open>A device that works and a store that has only seen saves and clears, cut or not.\<close>

definition store_ok :: "ab_store_t \<Rightarrow> flash \<Rightarrow> bool" where
  "store_ok s fl \<longleftrightarrow> store_wf s \<and> flash_wf fl \<and> hal_ideal fl \<and> store_inv s fl"

definition saveable :: "ab_store_t \<Rightarrow> u8 list \<Rightarrow> bool" where
  "saveable s data \<longleftrightarrow> 0 < length data \<and> length data \<le> store_max s"

definition fresh_rec :: "ab_store_t \<Rightarrow> u8 list \<Rightarrow> (ab_hdr_t \<times> u8 list) option \<Rightarrow> bool" where
  "fresh_rec s data r \<longleftrightarrow> (case r of None \<Rightarrow> False
     | Some (h, p) \<Rightarrow> p = data \<and> hdr_ver h = ucast (version s) \<and> hdr_len h = length data)"

lemma write_done:
  assumes "store_ok s fl" and "length data \<le> store_max s"
  defines "fl' \<equiv> run_ops fl (write_ops s fl (next_target (scan s fl)) (next_seq s fl (scan s fl)) data)"
  shows "scan s fl' = Some (next_target (scan s fl))" and "store_ok s fl'" and "fresh_rec s data (contents s fl')"
proof -
  let ?t = "next_target (scan s fl)" and ?q = "next_seq s fl (scan s fl)"
  have wf: "store_wf s" "flash_wf fl" "hal_ideal fl" "store_inv s fl"
    using assms(1) by (simp_all add: store_ok_def)
  have t: "?t < 2" by (rule next_target_less [OF wf(1)])
  have len: "length data \<le> AB_STORE_MAX_VAR_PAYLOAD" "length data < 65536"
    using wf(1) assms(2) by (auto simp: store_wf_def ab_consts)
  note o = other_slot [OF wf(1) t]
  have same: "same_sector fl fl' (slot_off s (1 - ?t))" unfolding fl'_def
    by (rule run_ops_same_sector [OF o wf(2) hal_ideal_confined [OF wf(3)] write_ops_within [OF len(1)]])
  note w = write_slot_read(1) [OF wf(1-3) t assms(2), of ?q, folded fl'_def]
  note c = commit_new [OF wf(1,2,4) same w] new_hdr_fields [where s = s and seq = ?q and data = data]
  show "scan s fl' = Some ?t" using c by simp
  show "store_ok s fl'" using c wf by (simp add: store_ok_def fl'_def flash_wf_def run_ops_hal_ideal)
  show "fresh_rec s data (contents s fl')" using c len(2) by (simp add: fresh_rec_def)
qed

lemma save_done:
  assumes "store_ok s fl" and "saveable s data"
  shows "ab_store_save s fl data = (run_ops fl (save_ops s fl data), True)"
    and "store_ok s (run_ops fl (save_ops s fl data))"
    and "fresh_rec s data (contents s (run_ops fl (save_ops s fl data)))"
proof -
  have wf: "store_wf s" "flash_wf fl" "hal_ideal fl" using assms(1) by (simp_all add: store_ok_def)
  have len: "length data \<noteq> 0" "length data \<le> store_max s" using assms(2) by (auto simp: saveable_def)
  have "ab_store_save s fl data = (run_ops fl (save_ops s fl data), True) \<and>
    store_ok s (run_ops fl (save_ops s fl data)) \<and> fresh_rec s data (contents s (run_ops fl (save_ops s fl data)))"
  proof (cases "unchanged s fl data")
    case True
    then obtain h where "contents s fl = Some (h, data)" "hdr_ver h = ucast (version s)" "hdr_len h = length data"
      using unchanged_contents [OF wf(1,2)] by blast
    with True assms(1) len show ?thesis by (simp add: ab_store_save_def save_ops_def fresh_rec_def)
  next
    case False
    then show ?thesis
      using write_done [OF assms(1) len(2)] write_record_ideal [OF wf next_target_less [OF wf(1)] len(2)] len
      by (simp add: ab_store_save_def save_ops_def Let_def)
  qed
  then show "ab_store_save s fl data = (run_ops fl (save_ops s fl data), True)"
    and "store_ok s (run_ops fl (save_ops s fl data))"
    and "fresh_rec s data (contents s (run_ops fl (save_ops s fl data)))" by blast+
qed

lemma store_ok_cells:
  assumes "store_ok s fl" and "store_inv s (fl\<lparr>cells := c'\<rparr>)"
  shows "store_ok s (fl\<lparr>cells := c'\<rparr>)"
  using assms by (simp add: store_ok_def flash_wf_def hal_ideal_def hal_confined_def)

lemma run_ops_cells: "run_ops fl ops = fl\<lparr>cells := cells (run_ops fl ops)\<rparr>"
  by (rule flash.equality) simp_all

lemma write_interrupted:
  assumes "store_ok s fl" and "length data \<le> store_max s"
  defines "ops \<equiv> write_ops s fl (next_target (scan s fl)) (next_seq s fl (scan s fl)) data"
  assumes "power_cut fl (cells fl) ops c'"
  shows "store_ok s (fl\<lparr>cells := c'\<rparr>)"
    and "contents s (fl\<lparr>cells := c'\<rparr>) = contents s fl \<or> fl\<lparr>cells := c'\<rparr> = run_ops fl ops"
proof -
  let ?t = "next_target (scan s fl)"
  have wf: "store_wf s" "flash_wf fl" "hal_ideal fl" "store_inv s fl"
    using assms(1) by (simp_all add: store_ok_def)
  have t: "?t < 2" by (rule next_target_less [OF wf(1)])
  have len: "length data \<le> AB_STORE_MAX_VAR_PAYLOAD" using wf(1) assms(2) by (simp add: store_wf_def)
  have same: "same_sector fl (fl\<lparr>cells := c'\<rparr>) (slot_off s (1 - ?t))"
    using power_cut_same_sector [OF other_slot [OF wf(1) t] wf(2) hal_ideal_confined [OF wf(3)]
        write_ops_within [OF len] assms(4) [unfolded ops_def]] .
  consider "c' = cells (run_ops fl ops)" | "hdr_at s (fl\<lparr>cells := c'\<rparr>) ?t \<in> {hdr_at s fl ?t, None}"
    using write_cut [OF wf(1,3) len assms(4) [unfolded ops_def]] unfolding ops_def by blast
  then have "store_ok s (fl\<lparr>cells := c'\<rparr>) \<and>
      (contents s (fl\<lparr>cells := c'\<rparr>) = contents s fl \<or> fl\<lparr>cells := c'\<rparr> = run_ops fl ops)"
  proof cases
    case 1
    then have "fl\<lparr>cells := c'\<rparr> = run_ops fl ops" using run_ops_cells [of fl ops] by simp
    then show ?thesis using write_done(2) [OF assms(1,2)] by (simp add: ops_def)
  next
    case 2
    then show ?thesis using commit_old [OF wf(1,2,4) same 2] store_ok_cells [OF assms(1)] by blast
  qed
  then show "store_ok s (fl\<lparr>cells := c'\<rparr>)"
    and "contents s (fl\<lparr>cells := c'\<rparr>) = contents s fl \<or> fl\<lparr>cells := c'\<rparr> = run_ops fl ops" by blast+
qed


text \<open>A run that nothing interrupts is one of the runs \<open>power_cut\<close> allows.\<close>

lemma power_cut_full: "power_cut fl c ops (cells (run_ops (fl\<lparr>cells := c\<rparr>) ops))"
proof (induction ops arbitrary: c)
  case (Cons op ops)
  from Cons [of "hal fl op c"] show ?case
    by (intro cut_after) (simp add: run_ops_Cons run_op_def)
qed (auto intro: cut_before)

lemma power_cut_hal: "hal fl = hal fl' \<Longrightarrow> power_cut fl c ops c' = power_cut fl' c ops c'"
  by (induction ops arbitrary: c) (simp_all add: power_cut_Cons power_cut_Nil torn_def)

definition wipe_ops :: "ab_store_t \<Rightarrow> flash \<Rightarrow> hal_op list" where
  "wipe_ops s fl = HAL_Erase (addr fl (slot_off s (next_target (scan s fl)))) #
     (if legacy_off s = 0 then [] else [HAL_Erase (addr fl (legacy_off s))])"

text \<open>Erasing the stale slot and the legacy sector, cut anywhere, keeps the newest record.\<close>

lemma legacy_same_sector:
  assumes "store_ok s fl" and "legacy_off s \<noteq> 0" and "i < 2"
    and "power_cut fl (cells fl) [HAL_Erase (addr fl (legacy_off s))] c'"
  shows "same_sector fl (fl\<lparr>cells := c'\<rparr>) (slot_off s i)"
proof -
  have wf: "store_wf s" "flash_wf fl" "hal_confined fl"
    using assms(1) by (simp_all add: store_ok_def hal_ideal_def)
  have leg: "sector_ok (legacy_off s)" "legacy_off s \<noteq> slot_off s i"
    using wf(1) assms(2,3) by (auto simp: store_wf_def less_2_cases_iff)
  show ?thesis
    by (rule power_cut_same_sector [OF leg(1) store_wf_slot [OF wf(1) assms(3)] leg(2) wf(2,3) _ assms(4)])
      (simp add: ops_within_def H5_SECTOR_SIZE_def)
qed

lemma erase_stale:
  assumes "store_ok s fl" and "power_cut fl (cells fl) [HAL_Erase (addr fl (slot_off s (next_target (scan s fl))))] c'"
  shows "store_ok s (fl\<lparr>cells := c'\<rparr>)" and "contents s (fl\<lparr>cells := c'\<rparr>) = contents s fl"
    and "scan s (fl\<lparr>cells := c'\<rparr>) = scan s fl"
proof -
  let ?t = "next_target (scan s fl)" and ?fl' = "fl\<lparr>cells := c'\<rparr>"
  let ?E = "HAL_Erase (addr fl (slot_off s ?t))"
  have wf: "store_wf s" "flash_wf fl" "hal_ideal fl" "store_inv s fl"
    using assms(1) by (simp_all add: store_ok_def)
  have t: "?t < 2" by (rule next_target_less [OF wf(1)])
  have same: "same_sector fl ?fl' (slot_off s (1 - ?t))"
    by (rule power_cut_same_sector [OF other_slot [OF wf(1) t] wf(2) hal_ideal_confined [OF wf(3)] _ assms(2)])
      (simp add: ops_within_def H5_SECTOR_SIZE_def)
  have adr: "addr (run_op fl ?E) = addr fl" by (auto simp: flash_layout_store_off_def)
  have "erased_at (cells (run_op fl ?E)) (addr fl (slot_off s ?t)) 16"
    using erase_erased [OF wf(3)] by (auto simp: erased_at_def in_range_def)
  then have none: "hdr_at s (run_op fl ?E) ?t = None"
    using wf(1) by (intro hdr_at_erased) (auto simp: store_wf_def adr)
  from assms(2) consider "c' = cells fl" | "torn fl (cells fl) ?E c'" | "?fl' = run_op fl ?E"
    by (auto simp: power_cut_Cons power_cut_Nil run_op_def)
  then have hdr: "hdr_at s ?fl' ?t \<in> {hdr_at s fl ?t, None}"
  proof cases
    case 2
    then show ?thesis using torn_hdr_at [OF 2, of s ?t] none by (auto simp: H5_SECTOR_SIZE_def)
  qed (use none in simp_all)
  note c = commit_old [OF wf(1,2,4) same hdr]
  show "store_ok s ?fl'" "contents s ?fl' = contents s fl" "scan s ?fl' = scan s fl"
    using c store_ok_cells [OF assms(1)] by blast+
qed

lemma wipe_interrupted:
  assumes "store_ok s fl" and "power_cut fl (cells fl) (wipe_ops s fl) c'"
  shows "store_ok s (fl\<lparr>cells := c'\<rparr>) \<and> contents s (fl\<lparr>cells := c'\<rparr>) = contents s fl"
proof -
  let ?t = "next_target (scan s fl)" and ?E = "HAL_Erase (addr fl (slot_off s (next_target (scan s fl))))"
  let ?L = "HAL_Erase (addr fl (legacy_off s))" and ?fl1 = "run_op fl (HAL_Erase (addr fl (slot_off s (next_target (scan s fl)))))"
  have fl1: "?fl1 = fl\<lparr>cells := hal fl ?E (cells fl)\<rparr>" by (simp add: run_op_def)
  have full: "power_cut fl (cells fl) [?E] (hal fl ?E (cells fl))" by (simp add: power_cut_Cons power_cut_Nil)
  have ok1: "store_ok s ?fl1" "contents s ?fl1 = contents s fl"
    using erase_stale [OF assms(1) full] by (simp_all add: fl1)
  from power_cut_append [of fl "cells fl" "[?E]" _ c'] assms(2) consider "power_cut fl (cells fl) [?E] c'"
    | "legacy_off s \<noteq> 0" "power_cut fl (cells ?fl1) [?L] c'"
    by (auto simp: wipe_ops_def run_ops_Cons run_op_def power_cut_Cons power_cut_Nil split: if_splits)
  then show ?thesis
  proof cases
    case 1
    then show ?thesis using erase_stale [OF assms(1)] by blast
  next
    case 2
    have L: "power_cut ?fl1 (cells ?fl1) [HAL_Erase (addr ?fl1 (legacy_off s))] c'"
      using 2(2) by (simp add: power_cut_Cons power_cut_Nil torn_def flash_layout_store_off_def)
    have same: "same_sector ?fl1 (fl\<lparr>cells := c'\<rparr>) (slot_off s i)" if "i < 2" for i
      using legacy_same_sector [OF ok1(1) 2(1) that L] by (simp add: same_sector_def run_op_def)
    have wf1: "store_wf s" "flash_wf ?fl1" "store_inv s ?fl1" using ok1(1) by (simp_all add: store_ok_def)
    let ?t1 = "next_target (scan s ?fl1)"
    have t1: "?t1 < 2" "1 - ?t1 < 2" using next_target_less [OF wf1(1)] by auto
    have "hdr_at s (fl\<lparr>cells := c'\<rparr>) ?t1 \<in> {hdr_at s ?fl1 ?t1, None}"
      using same_sector_hdr_at [OF same [OF t1(1)]] by simp
    from commit_old [OF wf1 same [OF t1(2)] this] ok1 assms(1) store_ok_cells show ?thesis by auto
  qed
qed


lemma clear_ops_eq:
  assumes "store_ok s fl"
  defines "ops \<equiv> write_ops s fl (next_target (scan s fl)) (next_seq s fl (scan s fl)) []"
  shows "clear_ops s fl = ops @ wipe_ops s (run_ops fl ops)"
proof -
  have "scan s (run_ops fl ops) = Some (next_target (scan s fl))"
    using write_done(1) [OF assms(1), of "[]"] by (simp add: ops_def)
  then show ?thesis
    by (simp add: clear_ops_def wipe_ops_def Let_def ops_def next_target_def flash_layout_store_off_def)
qed

lemma clear_interrupted:
  assumes "store_ok s fl" and "power_cut fl (cells fl) (clear_ops s fl) c'"
  shows "store_ok s (fl\<lparr>cells := c'\<rparr>)"
    and "contents s (fl\<lparr>cells := c'\<rparr>) = contents s fl \<or> fresh_rec s [] (contents s (fl\<lparr>cells := c'\<rparr>))"
proof -
  let ?ops = "write_ops s fl (next_target (scan s fl)) (next_seq s fl (scan s fl)) []"
  let ?fl1 = "run_ops fl ?ops"
  have w: "store_ok s ?fl1" "fresh_rec s [] (contents s ?fl1)" using write_done [OF assms(1), of "[]"] by simp_all
  from power_cut_append [OF assms(2) [unfolded clear_ops_eq [OF assms(1)]]]
  consider "power_cut fl (cells fl) ?ops c'" | "power_cut fl (cells ?fl1) (wipe_ops s ?fl1) c'" by auto
  then have "store_ok s (fl\<lparr>cells := c'\<rparr>) \<and>
      (contents s (fl\<lparr>cells := c'\<rparr>) = contents s fl \<or> fresh_rec s [] (contents s (fl\<lparr>cells := c'\<rparr>)))"
  proof cases
    case 1
    then show ?thesis using write_interrupted [OF assms(1) _ 1] w by auto
  next
    case 2
    have eq: "?fl1\<lparr>cells := c'\<rparr> = fl\<lparr>cells := c'\<rparr>" by (subst run_ops_cells) simp
    have "power_cut ?fl1 (cells ?fl1) (wipe_ops s ?fl1) c'"
      using 2 by (simp add: power_cut_hal [of ?fl1 fl])
    from wipe_interrupted [OF w(1) this, unfolded eq] w(2) show ?thesis by simp
  qed
  then show "store_ok s (fl\<lparr>cells := c'\<rparr>)"
    and "contents s (fl\<lparr>cells := c'\<rparr>) = contents s fl \<or> fresh_rec s [] (contents s (fl\<lparr>cells := c'\<rparr>))"
    by blast+
qed

lemma clear_done:
  assumes "store_ok s fl"
  shows "ab_store_clear s fl = (run_ops fl (clear_ops s fl), True)"
    and "store_ok s (run_ops fl (clear_ops s fl))"
    and "fresh_rec s [] (contents s (run_ops fl (clear_ops s fl)))"
proof -
  let ?t = "next_target (scan s fl)" and ?q = "next_seq s fl (scan s fl)"
  let ?ops = "write_ops s fl ?t ?q []"
  let ?fl1 = "run_ops fl ?ops"
  have wf: "store_wf s" "flash_wf fl" "hal_ideal fl" using assms by (simp_all add: store_ok_def)
  have t: "?t < 2" by (rule next_target_less [OF wf(1)])
  note w = write_done [OF assms, of "[]", simplified]
  have wf1: "flash_wf (run_ops fl xs)" for xs using wf(2) by (simp add: flash_wf_def)
  have adr: "addr (run_ops fl xs) = addr fl" for xs by (auto simp: flash_layout_store_off_def)
  have erase: "erase_sector (run_ops fl xs) off = run_ops fl (xs @ [HAL_Erase (addr fl off)])"
    if "sector_ok off" for off xs
    using flash_range_erase_sector [OF that wf1] by (simp add: erase_sector_def FLASH_SHIM_SECTOR_SIZE_def adr run_ops_append)
  have leg: "legacy_off s \<noteq> 0 \<Longrightarrow> sector_ok (legacy_off s)" using wf(1) by (simp add: store_wf_def)
  have oth: "sector_ok (slot_off s (Suc 0 - ?t))" using other_slot(2) [OF wf(1) t] by simp
  show "ab_store_clear s fl = (run_ops fl (clear_ops s fl), True)"
    using write_record_ideal [OF wf t, of "[]" ?q] leg
    by (simp add: ab_store_clear_def Let_def clear_ops_def erase oth)
  have fl': "run_ops fl (clear_ops s fl) = ?fl1\<lparr>cells := cells (run_ops ?fl1 (wipe_ops s ?fl1))\<rparr>"
    unfolding clear_ops_eq [OF assms] run_ops_append by (rule run_ops_cells)
  have "power_cut ?fl1 (cells ?fl1) (wipe_ops s ?fl1) (cells (run_ops ?fl1 (wipe_ops s ?fl1)))"
    using power_cut_full [of ?fl1 "cells ?fl1"] by simp
  from wipe_interrupted [OF w(2) this] w(3)
  show "store_ok s (run_ops fl (clear_ops s fl))" "fresh_rec s [] (contents s (run_ops fl (clear_ops s fl)))"
    unfolding fl' by simp_all
qed

end
