(* ===== verification/FwSign.thy ===== *)
theory FwSign
  imports ConfigStore
begin

section \<open>The signed manifest of a firmware image\<close>

text \<open>
  The model of \<^verbatim>\<open>stm32h563/src/fw_sign.c\<close>: the check of the 128-byte manifest that comes with an
  image against the target, size and SHA-256 the client announced, and what each policy accepts.
  SHA-512 and Ed25519 are Monocypher's and stay parameters (\<open>sha512\<close>, \<open>ed25519_check\<close>, the latter
  true where the C returns 0). Enumerations are their C values, so that a comparison or a
  \<^verbatim>\<open>switch\<close> without a matching case is what it is in the code.
\<close>

type_synonym fw_sig_policy_t = u32

definition FW_SIG_POLICY_AUDIT :: fw_sig_policy_t where "FW_SIG_POLICY_AUDIT = 0"
definition FW_SIG_POLICY_PERMISSIVE :: fw_sig_policy_t where "FW_SIG_POLICY_PERMISSIVE = 1"
definition FW_SIG_POLICY_REQUIRED :: fw_sig_policy_t where "FW_SIG_POLICY_REQUIRED = 2"

lemmas sig_policy_consts = FW_SIG_POLICY_AUDIT_def FW_SIG_POLICY_PERMISSIVE_def FW_SIG_POLICY_REQUIRED_def

datatype fw_sig_result_t =
    FW_SIG_NONE | FW_SIG_OK | FW_SIG_FORMAT | FW_SIG_UNKNOWN_KEY | FW_SIG_SIGNATURE | FW_SIG_TARGET
  | FW_SIG_IMAGE

record fw_sig_manifest_t =
  m_target :: u8
  m_flags :: u8
  m_size :: u32
  m_sha256 :: "u8 list"
  m_version :: u32
  m_release :: u32
  m_layout :: u16
  m_min_flash_kb :: u16
  m_key_id :: "u8 list"

definition FW_SIGN_MANIFEST_LEN :: nat where "FW_SIGN_MANIFEST_LEN = 128"
definition FW_SIGN_KEY_ID_LEN :: nat where "FW_SIGN_KEY_ID_LEN = 8"
definition SIGNED_LEN :: nat where "SIGNED_LEN = 64"

text \<open>The context string with its terminating NUL, which separates it from the manifest.\<close>

definition FW_SIGN_CONTEXT :: "u8 list" where
  "FW_SIGN_CONTEXT = map of_char (''benchpod-fw-sign:v1'' @ [CHR 0x00])"

fun rd16 :: "u8 list \<Rightarrow> u16" where
  "rd16 (a # b # _) = of_nat (unat a + 256 * unat b)"
| "rd16 _ = 0"

definition rd32 :: "u8 list \<Rightarrow> u32" where "rd32 p = of_le32 p"

definition key_id_of :: "(u8 list \<Rightarrow> u8 list) \<Rightarrow> u8 list \<Rightarrow> u8 list" where
  "key_id_of sha512 pub = take FW_SIGN_KEY_ID_LEN (sha512 pub)"

definition parse_manifest :: "u8 list \<Rightarrow> fw_sig_manifest_t" where
  "parse_manifest sig =
     \<lparr>m_target = sig ! 6, m_flags = sig ! 7, m_size = rd32 (drop 8 sig), m_sha256 = take 32 (drop 12 sig),
      m_version = rd32 (drop 44 sig), m_release = rd32 (drop 48 sig), m_layout = rd16 (drop 52 sig),
      m_min_flash_kb = rd16 (drop 54 sig), m_key_id = take FW_SIGN_KEY_ID_LEN (drop 56 sig)\<rparr>"

definition bad_format :: "u8 list \<Rightarrow> bool" where
  "bad_format sig \<longleftrightarrow>
     length sig \<noteq> FW_SIGN_MANIFEST_LEN \<or> take 4 sig \<noteq> map of_char ''BPSG'' \<or> rd16 (drop 4 sig) \<noteq> 1 \<or>
     (sig ! 6 > 3 \<and> sig ! 6 \<noteq> 6)"

text \<open>The first key of the table whose id is the manifest's.\<close>

fun find_pub :: "(u8 list \<Rightarrow> u8 list) \<Rightarrow> u8 list list \<Rightarrow> u8 list \<Rightarrow> u8 list option" where
  "find_pub sha512 [] key_id = None"
| "find_pub sha512 (k # ks) key_id =
     (if key_id_of sha512 k = key_id then Some k else find_pub sha512 ks key_id)"

text \<open>The result, and the parsed manifest once the format is valid (\<^verbatim>\<open>*out\<close>).\<close>

definition fw_sign_check_keys ::
  "(u8 list \<Rightarrow> u8 list) \<Rightarrow> (u8 list \<Rightarrow> u8 list \<Rightarrow> u8 list \<Rightarrow> bool) \<Rightarrow> u8 list option \<Rightarrow> u8 \<Rightarrow> u32 \<Rightarrow>
   u8 list \<Rightarrow> u8 list list \<Rightarrow> fw_sig_result_t \<times> fw_sig_manifest_t option" where
  "fw_sign_check_keys sha512 ed25519_check sig target sz sha256 keys =
     (case sig of
        None \<Rightarrow> (FW_SIG_NONE, None)
      | Some sg \<Rightarrow>
          if sg = [] then (FW_SIG_NONE, None)
          else if bad_format sg then (FW_SIG_FORMAT, None)
          else
            let m = parse_manifest sg in
            (case find_pub sha512 keys (m_key_id m) of
               None \<Rightarrow> FW_SIG_UNKNOWN_KEY
             | Some pub \<Rightarrow>
                 let msg = FW_SIGN_CONTEXT @ take SIGNED_LEN sg in
                 if \<not> ed25519_check (take 64 (drop SIGNED_LEN sg)) pub msg then FW_SIG_SIGNATURE
                 else if m_target m \<noteq> target then FW_SIG_TARGET
                 else if m_size m \<noteq> sz \<or> m_sha256 m \<noteq> sha256 then FW_SIG_IMAGE
                 else FW_SIG_OK, Some m))"

definition fw_sign_accept :: "fw_sig_result_t \<Rightarrow> fw_sig_policy_t \<Rightarrow> bool" where
  "fw_sign_accept r policy =
     (if policy = FW_SIG_POLICY_AUDIT then True
      else if policy = FW_SIG_POLICY_PERMISSIVE then r = FW_SIG_OK \<or> r = FW_SIG_NONE
      else if policy = FW_SIG_POLICY_REQUIRED then r = FW_SIG_OK
      else False)"

definition fw_sign_policy_name :: "fw_sig_policy_t \<Rightarrow> cstr" where
  "fw_sign_policy_name p =
     (if p = FW_SIG_POLICY_AUDIT then ''audit''
      else if p = FW_SIG_POLICY_PERMISSIVE then ''permissive''
      else if p = FW_SIG_POLICY_REQUIRED then ''required''
      else ''?'')"

fun fw_sign_result_name :: "fw_sig_result_t \<Rightarrow> cstr" where
  "fw_sign_result_name FW_SIG_NONE = ''none''"
| "fw_sign_result_name FW_SIG_OK = ''ok''"
| "fw_sign_result_name FW_SIG_FORMAT = ''format''"
| "fw_sign_result_name FW_SIG_UNKNOWN_KEY = ''unknown-key''"
| "fw_sign_result_name FW_SIG_SIGNATURE = ''signature''"
| "fw_sign_result_name FW_SIG_TARGET = ''target''"
| "fw_sign_result_name FW_SIG_IMAGE = ''image''"

subsection \<open>A stricter policy accepts less\<close>

lemma sig_policy_le_cases:
  assumes "(p :: u32) \<le> FW_SIG_POLICY_REQUIRED"
  shows "p = FW_SIG_POLICY_AUDIT \<or> p = FW_SIG_POLICY_PERMISSIVE \<or> p = FW_SIG_POLICY_REQUIRED"
proof -
  from assms have "unat p \<le> 2" by (simp add: sig_policy_consts word_le_nat_alt)
  then have "unat p = 0 \<or> unat p = 1 \<or> unat p = 2" by auto
  then show ?thesis by (auto simp: sig_policy_consts word_unat_eq_iff)
qed

lemma fw_sign_accept_mono:
  assumes "fw_sign_accept r q" and "p \<le> q"
  shows "fw_sign_accept r p"
proof -
  have "q \<le> FW_SIG_POLICY_REQUIRED"
    using assms(1) by (auto simp: fw_sign_accept_def sig_policy_consts split: if_splits)
  with assms(2) have p: "p \<le> FW_SIG_POLICY_REQUIRED" by simp
  from sig_policy_le_cases [OF this] sig_policy_le_cases [OF \<open>q \<le> _\<close>] assms show ?thesis
    by (auto simp: fw_sign_accept_def sig_policy_consts word_le_nat_alt split: if_splits)
qed

subsection \<open>What a good signature ties together\<close>

lemma find_pub_SomeD:
  "find_pub sha512 keys key_id = Some pub \<Longrightarrow> pub \<in> set keys \<and> key_id_of sha512 pub = key_id"
  by (induction keys) (auto split: if_splits)

lemma rd16_take: "2 \<le> n \<Longrightarrow> rd16 (take n p) = rd16 p"
  by (cases p rule: rd16.cases) (auto simp: take_Cons split: nat.split)

lemma rd32_take: "4 \<le> n \<Longrightarrow> rd32 (take n p) = rd32 p"
  by (cases p rule: of_le32.cases) (auto simp: rd32_def take_Cons split: nat.split)

text \<open>Every field of a manifest lies in the part that is signed.\<close>

lemma parse_manifest_signed: "parse_manifest (take SIGNED_LEN sg) = parse_manifest sg"
  by (simp add: parse_manifest_def SIGNED_LEN_def FW_SIGN_KEY_ID_LEN_def drop_take rd16_take rd32_take)

lemma fw_sign_check_OK_D:
  assumes "fst (fw_sign_check_keys sha512 chk sig target sz sha256 keys) = FW_SIG_OK"
  obtains sg pub where "sig = Some sg" and "\<not> bad_format sg" and "pub \<in> set keys"
    and "key_id_of sha512 pub = m_key_id (parse_manifest sg)"
    and "chk (take 64 (drop SIGNED_LEN sg)) pub (FW_SIGN_CONTEXT @ take SIGNED_LEN sg)"
    and "m_target (parse_manifest sg) = target" and "m_size (parse_manifest sg) = sz"
    and "m_sha256 (parse_manifest sg) = sha256"
  using assms that find_pub_SomeD
  unfolding fw_sign_check_keys_def Let_def by (fastforce split: option.splits if_splits)

lemma fw_sign_accept_required: "fw_sign_accept r FW_SIG_POLICY_REQUIRED \<longleftrightarrow> r = FW_SIG_OK"
  by (simp add: fw_sign_accept_def sig_policy_consts)

text \<open>
  Under the policy that requires signatures, an image is let in only for a manifest that the
  holder of one of the trusted keys signed, in this protocol's context, with exactly the target, the
  size and the SHA-256 that were announced. The assumption on Ed25519 is that the check accepts a
  message for a key only when that key's holder signed it.
\<close>

theorem required_only_signed:
  assumes unforgeable: "\<And>sg pub msg. ed25519_check sg pub msg \<Longrightarrow> msg \<in> signed_by pub"
    and accepted: "fw_sign_accept (fst (fw_sign_check_keys sha512 ed25519_check sig target sz sha256 keys))
      FW_SIG_POLICY_REQUIRED"
  shows "\<exists>pub \<in> set keys. \<exists>m. FW_SIGN_CONTEXT @ m \<in> signed_by pub \<and> length m = SIGNED_LEN \<and>
      take 4 m = map of_char ''BPSG'' \<and> m_key_id (parse_manifest m) = key_id_of sha512 pub \<and>
      m_target (parse_manifest m) = target \<and> m_size (parse_manifest m) = sz \<and>
      m_sha256 (parse_manifest m) = sha256"
proof -
  from accepted have "fst (fw_sign_check_keys sha512 ed25519_check sig target sz sha256 keys) = FW_SIG_OK"
    by (simp add: fw_sign_accept_required)
  then obtain sg pub where k: "\<not> bad_format sg" "pub \<in> set keys"
      "key_id_of sha512 pub = m_key_id (parse_manifest sg)"
      "ed25519_check (take 64 (drop SIGNED_LEN sg)) pub (FW_SIGN_CONTEXT @ take SIGNED_LEN sg)"
      "m_target (parse_manifest sg) = target" "m_size (parse_manifest sg) = sz"
      "m_sha256 (parse_manifest sg) = sha256"
    by (rule fw_sign_check_OK_D) blast
  show ?thesis
    using k unforgeable [OF k(4)]
    by (intro bexI [of _ pub] exI [of _ "take SIGNED_LEN sg"])
      (auto simp: parse_manifest_signed [unfolded SIGNED_LEN_def] bad_format_def FW_SIGN_MANIFEST_LEN_def SIGNED_LEN_def)
qed

definition sample_pub :: "u8 list" where "sample_pub = replicate 32 7"
definition sample_sha512 :: "u8 list \<Rightarrow> u8 list" where "sample_sha512 bs = replicate 64 (hd (bs @ [0]))"
definition sample_manifest :: "u8 list" where
  "sample_manifest = map of_char ''BPSG'' @ [1, 0, 0, 0] @ le32 5 @ replicate 32 9 @ replicate 12 0 @
     replicate 8 7 @ replicate 64 1"
definition sample_signed :: "u8 list \<Rightarrow> u8 list set" where
  "sample_signed pub = (if pub = sample_pub then {FW_SIGN_CONTEXT @ take 64 sample_manifest} else {})"
definition sample_check :: "u8 list \<Rightarrow> u8 list \<Rightarrow> u8 list \<Rightarrow> bool" where
  "sample_check sg pub msg \<longleftrightarrow> pub = sample_pub \<and> msg = FW_SIGN_CONTEXT @ take 64 sample_manifest"

lemma sample_accepted:
  "fw_sign_accept (fst (fw_sign_check_keys sample_sha512 sample_check (Some sample_manifest) 0 5
     (replicate 32 9) [sample_pub])) FW_SIG_POLICY_REQUIRED"
proof -
  have ok: "\<not> bad_format sample_manifest"
    by (simp add: bad_format_def sample_manifest_def FW_SIGN_MANIFEST_LEN_def)
  have m: "m_target (parse_manifest sample_manifest) = 0" "m_size (parse_manifest sample_manifest) = 5"
    "m_sha256 (parse_manifest sample_manifest) = replicate 32 9" "m_key_id (parse_manifest sample_manifest) = replicate 8 7"
    by (simp_all add: parse_manifest_def sample_manifest_def rd32_def FW_SIGN_KEY_ID_LEN_def)
  have "key_id_of sample_sha512 sample_pub = replicate 8 7"
    by (simp add: key_id_of_def sample_sha512_def sample_pub_def FW_SIGN_KEY_ID_LEN_def min_def hd_append)
  moreover have "sample_manifest \<noteq> []" by (simp add: sample_manifest_def)
  ultimately show ?thesis
    by (simp add: fw_sign_accept_required fw_sign_check_keys_def Let_def ok m sample_check_def SIGNED_LEN_def)
qed

theorem required_only_signed_witness:
  "\<exists>m. FW_SIGN_CONTEXT @ m = FW_SIGN_CONTEXT @ take 64 sample_manifest \<and> m_size (parse_manifest m) = 5"
proof -
  have "msg \<in> sample_signed pub" if "sample_check sg pub msg" for sg pub msg
    using that by (simp add: sample_check_def sample_signed_def)
  from required_only_signed [where signed_by = sample_signed, OF this sample_accepted] show ?thesis
    by (auto simp: sample_signed_def split: if_splits)
qed

end
