(* ===== verification/StoreSpec.thy ===== *)
theory StoreSpec
  imports ConfigStore
begin

section \<open>What the record store promises\<close>

text \<open>
  The abstract view of \<open>ConfigStore\<close>: a register holding the last record. A completed save or
  clear is a write of the register; one that a loss of power interrupts happens entirely or not at
  all. The locale \<open>record_store\<close> is the contract the clients (the Wi-Fi config below, the pod
  policy) use, interpreted on the code's own load and save.
\<close>

subsection \<open>Histories of a store\<close>

datatype store_ev =
    Saved "u8 list"
  | Save_cut "u8 list"
  | Cleared
  | Clear_cut

inductive store_run :: "ab_store_t \<Rightarrow> flash \<Rightarrow> store_ev list \<Rightarrow> flash \<Rightarrow> bool" for s where
  run_nil: "store_run s fl [] fl"
| run_save: "saveable s d \<Longrightarrow> ab_store_save s fl d = (fl', r) \<Longrightarrow> store_run s fl' evs fl'' \<Longrightarrow>
    store_run s fl (Saved d # evs) fl''"
| run_save_cut: "saveable s d \<Longrightarrow> power_cut fl (cells fl) (save_ops s fl d) c' \<Longrightarrow>
    store_run s (fl\<lparr>cells := c'\<rparr>) evs fl'' \<Longrightarrow> store_run s fl (Save_cut d # evs) fl''"
| run_clear: "ab_store_clear s fl = (fl', r) \<Longrightarrow> store_run s fl' evs fl'' \<Longrightarrow>
    store_run s fl (Cleared # evs) fl''"
| run_clear_cut: "power_cut fl (cells fl) (clear_ops s fl) c' \<Longrightarrow>
    store_run s (fl\<lparr>cells := c'\<rparr>) evs fl'' \<Longrightarrow> store_run s fl (Clear_cut # evs) fl''"

fun reg_after :: "u8 list option \<Rightarrow> store_ev \<Rightarrow> u8 list option list" where
  "reg_after v (Saved d) = [Some d]"
| "reg_after v (Save_cut d) = [v, Some d]"
| "reg_after v Cleared = [None]"
| "reg_after v Clear_cut = [v, None]"

fun reg_runs :: "u8 list option \<Rightarrow> store_ev list \<Rightarrow> u8 list option list" where
  "reg_runs v [] = [v]"
| "reg_runs v (e # es) = concat (map (\<lambda>v'. reg_runs v' es) (reg_after v e))"

text \<open>The register: the newest record of this store's version, of any length.\<close>

definition reg :: "ab_store_t \<Rightarrow> flash \<Rightarrow> u8 list option" where
  "reg s fl = ab_store_load_var s fl (store_max s)"

lemma reg_contents:
  assumes "store_ok s fl"
  shows "fresh_rec s [] (contents s fl) \<Longrightarrow> reg s fl = None"
    and "saveable s d \<Longrightarrow> fresh_rec s d (contents s fl) \<Longrightarrow> reg s fl = Some d"
    and "store_ok s fl' \<Longrightarrow> contents s fl' = contents s fl \<Longrightarrow> reg s fl' = reg s fl"
  using assms ab_store_load_var_contents [of s fl "store_max s"] ab_store_load_var_contents [of s fl' "store_max s"]
  by (auto simp: reg_def store_ok_def fresh_rec_def saveable_def split: option.splits)

lemma save_reg:
  assumes "store_ok s fl" and "saveable s d" and "ab_store_save s fl d = (fl', r)"
  shows "store_ok s fl'" and "reg s fl' = Some d" and "r"
  using save_done [OF assms(1,2)] assms(2,3) reg_contents(2) [of s fl' d] by auto

lemma save_interrupted:
  assumes "store_ok s fl" and "saveable s d" and "power_cut fl (cells fl) (save_ops s fl d) c'"
  shows "store_ok s (fl\<lparr>cells := c'\<rparr>)"
    and "contents s (fl\<lparr>cells := c'\<rparr>) = contents s fl \<or> fresh_rec s d (contents s (fl\<lparr>cells := c'\<rparr>))"
proof -
  have len: "length d \<noteq> 0" "length d \<le> store_max s" using assms(2) by (auto simp: saveable_def)
  have "store_ok s (fl\<lparr>cells := c'\<rparr>) \<and>
    (contents s (fl\<lparr>cells := c'\<rparr>) = contents s fl \<or> fresh_rec s d (contents s (fl\<lparr>cells := c'\<rparr>)))"
  proof (cases "unchanged s fl d")
    case True
    with assms(1,3) show ?thesis by (simp add: save_ops_def power_cut_Nil)
  next
    case False
    let ?ops = "write_ops s fl (next_target (scan s fl)) (next_seq s fl (scan s fl)) d"
    have "power_cut fl (cells fl) ?ops c'" using assms(3) False len by (simp add: save_ops_def)
    from write_interrupted [OF assms(1) len(2) this] write_done(3) [OF assms(1) len(2)]
    show ?thesis by auto
  qed
  then show "store_ok s (fl\<lparr>cells := c'\<rparr>)"
    and "contents s (fl\<lparr>cells := c'\<rparr>) = contents s fl \<or> fresh_rec s d (contents s (fl\<lparr>cells := c'\<rparr>))" by blast+
qed

lemma store_run_reg:
  assumes "store_run s fl evs fl'" and "store_ok s fl"
  shows "store_ok s fl' \<and> reg s fl' \<in> set (reg_runs (reg s fl) evs)"
  using assms
proof (induction rule: store_run.induct)
  case (run_save d fl fl' r evs fl'')
  from save_reg [OF run_save.prems run_save.hyps(1,2)] run_save.IH show ?case by simp
next
  case (run_save_cut d fl c' evs fl'')
  note c = save_interrupted [OF run_save_cut.prems run_save_cut.hyps(1,2)]
  have "reg s (fl\<lparr>cells := c'\<rparr>) = reg s fl \<or> reg s (fl\<lparr>cells := c'\<rparr>) = Some d"
    using c(2) reg_contents(2) [OF c(1) run_save_cut.hyps(1)] reg_contents(3) [OF run_save_cut.prems c(1)] by blast
  with run_save_cut.IH [OF c(1)] show ?case by auto
next
  case (run_clear fl fl' r evs fl'')
  note c = clear_done [OF run_clear.prems]
  have "fl' = run_ops fl (clear_ops s fl)" using c(1) run_clear.hyps(1) by simp
  then have "store_ok s fl'" "reg s fl' = None" using c(2) reg_contents(1) [OF c(2,3)] by blast+
  with run_clear.IH show ?case by simp
next
  case (run_clear_cut fl c' evs fl'')
  note c = clear_interrupted [OF run_clear_cut.prems run_clear_cut.hyps(1)]
  have "reg s (fl\<lparr>cells := c'\<rparr>) = reg s fl \<or> reg s (fl\<lparr>cells := c'\<rparr>) = None"
    using c(2) reg_contents(1) [OF c(1)] reg_contents(3) [OF run_clear_cut.prems c(1)]
    by (elim disjE) simp_all
  with run_clear_cut.IH [OF c(1)] show ?case by auto
qed simp

subsection \<open>Fixed-length records\<close>

lemma load_contents:
  assumes "store_ok s fl" and "fresh_rec s d (contents s fl)"
  shows "ab_store_load s fl n = (if d \<noteq> [] \<and> n = length d then Some d else None)"
  using assms ab_store_load_contents [of s fl n]
  by (auto simp: store_ok_def fresh_rec_def split: option.splits)

lemma save_keeps_legacy:
  assumes "store_ok s fl" and "saveable s d" and "power_cut fl (cells fl) (save_ops s fl d) c'"
    and "legacy_off s \<noteq> 0"
  shows "same_sector fl (fl\<lparr>cells := c'\<rparr>) (legacy_off s)"
proof -
  let ?t = "next_target (scan s fl)"
  have wf: "store_wf s" "flash_wf fl" "hal_ideal fl" using assms(1) by (simp_all add: store_ok_def)
  have t: "?t < 2" by (rule next_target_less [OF wf(1)])
  have leg: "sector_ok (legacy_off s)" "slot_off s ?t \<noteq> legacy_off s"
    using wf(1) assms(4) t by (auto simp: store_wf_def less_2_cases_iff)
  have "length d \<le> AB_STORE_MAX_VAR_PAYLOAD" using wf(1) assms(2) by (simp add: store_wf_def saveable_def)
  then have "ops_within (save_ops s fl d) (addr fl (slot_off s ?t)) 8192"
    using write_ops_within [of d s fl ?t] by (simp add: save_ops_def ops_within_def)
  from power_cut_same_sector [OF other_slot(1) [OF wf(1) t] leg wf(2) hal_ideal_confined [OF wf(3)] this assms(3)]
  show ?thesis .
qed

text \<open>What the slots read as does not depend on where in the read a length is cut off.\<close>

lemma flash_read_same_sector:
  assumes "same_sector fl fl' off" and "n \<le> 8192"
  shows "flash_read_checked fl' off n = flash_read_checked fl off n"
  using same_sector_read [OF assms(1), of 0 n] assms(2)
  by (simp add: flash_read_checked_def same_sector_addr [OF assms(1)])

lemma save_cut_load:
  assumes "store_ok s fl" and "saveable s d" and "power_cut fl (cells fl) (save_ops s fl d) c'" and "n \<le> 8192"
  shows "ab_store_load s (fl\<lparr>cells := c'\<rparr>) n \<in>
    {ab_store_load s fl n, if n = length d then Some d else None}"
proof -
  let ?fl' = "fl\<lparr>cells := c'\<rparr>"
  note c = save_interrupted [OF assms(1-3)]
  have legacy: "legacy_off s \<noteq> 0 \<Longrightarrow> k \<le> 8192 \<Longrightarrow>
      flash_read_checked ?fl' (legacy_off s) k = flash_read_checked fl (legacy_off s) k" for k
    using flash_read_same_sector [OF save_keeps_legacy [OF assms(1-3)]] by blast
  from c(2) show ?thesis
  proof
    assume "contents s ?fl' = contents s fl"
    then have "ab_store_load s ?fl' n = ab_store_load s fl n"
      using assms(1,4) c(1) legacy [of 4] legacy [of n]
      by (cases "legacy_off s = 0") (simp_all add: store_ok_def ab_store_load_contents split: option.split)
    then show ?thesis by simp
  next
    assume "fresh_rec s d (contents s ?fl')"
    from load_contents [OF c(1) this] assms(2) show ?thesis by (auto simp: saveable_def)
  qed
qed


subsection \<open>The contract of a record store\<close>

text \<open>
  A client that always saves records of one length \<open>n\<close>: \<open>get\<close> reads the record, \<open>put\<close> replaces
  it, \<open>cut f d f'\<close> is a \<open>put\<close> of \<open>d\<close> interrupted by a loss of power.
\<close>

locale record_store =
  fixes ok :: "'f \<Rightarrow> bool" and n :: nat
    and get :: "'f \<Rightarrow> u8 list option" and put :: "'f \<Rightarrow> u8 list \<Rightarrow> 'f \<times> bool"
    and cut :: "'f \<Rightarrow> u8 list \<Rightarrow> 'f \<Rightarrow> bool"
  assumes put_law: "ok f \<Longrightarrow> length d = n \<Longrightarrow> put f d = (f', r) \<Longrightarrow> r \<and> ok f' \<and> get f' = Some d"
    and cut_law: "ok f \<Longrightarrow> length d = n \<Longrightarrow> cut f d f' \<Longrightarrow> ok f' \<and> (get f' = get f \<or> get f' = Some d)"
begin

inductive cuts :: "'f \<Rightarrow> u8 list set \<Rightarrow> 'f \<Rightarrow> bool" where
  cuts_refl: "cuts f {} f"
| cuts_step: "cut f d f' \<Longrightarrow> length d = n \<Longrightarrow> cuts f' D f'' \<Longrightarrow> cuts f (insert d D) f''"

text \<open>Any number of interrupted saves leave the old record or one of those being saved.\<close>

lemma cuts_get: "cuts f D f' \<Longrightarrow> ok f \<Longrightarrow> ok f' \<and> (get f' = get f \<or> get f' \<in> Some ` D)"
proof (induction rule: cuts.induct)
  case (cuts_step f d f' D f'')
  from cut_law [OF cuts_step.prems cuts_step.hyps(2,1)] cuts_step.IH show ?case by auto
qed simp

lemma put_after_cuts:
  assumes "ok f" and "cuts f D f'" and "length d = n" and "put f' d = (f'', r)"
  shows "r" and "ok f''" and "get f'' = Some d"
  using put_law [OF _ assms(3,4)] cuts_get [OF assms(2,1)] by auto

end

definition store_cut :: "ab_store_t \<Rightarrow> flash \<Rightarrow> u8 list \<Rightarrow> flash \<Rightarrow> bool" where
  "store_cut s fl d fl' \<longleftrightarrow> (\<exists>c'. power_cut fl (cells fl) (save_ops s fl d) c' \<and> fl' = fl\<lparr>cells := c'\<rparr>)"

lemma ab_store_laws:
  assumes "saveable s (replicate n 0)" and "n \<le> 8192"
  shows "record_store (store_ok s) n (\<lambda>fl. ab_store_load s fl n) (ab_store_save s) (store_cut s)"
proof
  fix fl fl' :: flash and d :: "u8 list" and r :: bool
  assume ok: "store_ok s fl" and len: "length d = n"
  have fits: "saveable s d" using assms(1) len by (simp add: saveable_def)
  show "ab_store_save s fl d = (fl', r) \<Longrightarrow> r \<and> store_ok s fl' \<and> ab_store_load s fl' n = Some d"
    using save_done [OF ok fits] load_contents [of s "run_ops fl (save_ops s fl d)" d n] fits len
    by (auto simp: saveable_def)
  show "store_cut s fl d fl' \<Longrightarrow> store_ok s fl' \<and> (ab_store_load s fl' n = ab_store_load s fl n \<or> ab_store_load s fl' n = Some d)"
    using save_cut_load [OF ok fits _ assms(2)] save_interrupted(1) [OF ok fits] len
    by (auto simp: store_cut_def)
qed

subsection \<open>A blank part\<close>

lemma store_ok_erased:
  assumes "store_wf s" and "flash_wf fl" and "hal_ideal fl" and "erased_at (cells fl) 0 0x200000"
  shows "store_ok s fl" and "contents s fl = None"
proof -
  have "hdr_at s fl i = None" if "i < 2" for i
    using store_wf_slot [OF assms(1) that] assms
    by (intro hdr_at_erased)
      (auto simp: store_wf_def erased_at_def in_range_def sector_ok_def flash_layout_store_off_def
        flash_layout_map_def flash_consts flash_wf_def)
  with scan_none [OF assms(1,2)] show "store_ok s fl" "contents s fl = None"
    using assms by (simp_all add: store_ok_def)
qed

lemma flash_wf_blank: "flash_wf blank_flash"
  by (simp add: flash_wf_def blank_flash_def)

lemma erased_blank: "erased_at (cells blank_flash) a n"
  by (simp add: erased_at_def blank_flash_def)

lemmas store_ok_blank = store_ok_erased [OF _ flash_wf_blank blank_flash_ideal erased_blank]

subsection \<open>The Wi-Fi configuration\<close>

definition CONFIG_MAGIC :: u32 where "CONFIG_MAGIC = 0xC0FFEE01"
definition CONFIG_RECORD_MAGIC :: u32 where "CONFIG_RECORD_MAGIC = 0xAB5C0F01"
definition CONFIG_VERSION :: nat where "CONFIG_VERSION = 1"
definition CONFIG_SSID_MAX :: nat where "CONFIG_SSID_MAX = 64"
definition CONFIG_PASSWORD_MAX :: nat where "CONFIG_PASSWORD_MAX = 64"

lemmas config_consts = CONFIG_MAGIC_def CONFIG_RECORD_MAGIC_def CONFIG_VERSION_def CONFIG_SSID_MAX_def
  CONFIG_PASSWORD_MAX_def

record config_t =
  cfg_magic :: u32
  cfg_version :: u32
  ssid :: "u8 list"
  password :: "u8 list"
  reserved :: "u8 list"

text \<open>The image of the struct in memory: 168 bytes, little-endian, no padding.\<close>

definition config_bytes :: "config_t \<Rightarrow> u8 list" where
  "config_bytes c = le32 (cfg_magic c) @ le32 (cfg_version c) @ ssid c @ password c @ reserved c"

definition config_of_bytes :: "u8 list \<Rightarrow> config_t" where
  "config_of_bytes bs = \<lparr>cfg_magic = of_le32 bs, cfg_version = of_le32 (drop 4 bs),
     ssid = take 64 (drop 8 bs), password = take 64 (drop 72 bs), reserved = take 32 (drop 136 bs)\<rparr>"

definition config_shape :: "config_t \<Rightarrow> bool" where
  "config_shape c \<longleftrightarrow> length (ssid c) = CONFIG_SSID_MAX \<and> length (password c) = CONFIG_PASSWORD_MAX \<and>
     length (reserved c) = 32"

definition s_wifi_store :: ab_store_t where
  "s_wifi_store = \<lparr>slot_off = (\<lambda>i. if i = 0 then 0x1F8000 else 0x1F6000), magic = CONFIG_RECORD_MAGIC,
     version = of_nat CONFIG_VERSION, legacy_off = 0x1FE000, legacy_magic = CONFIG_MAGIC, max_len = 0\<rparr>"

definition config_load :: "flash \<Rightarrow> config_t option" where
  "config_load fl =
     (case ab_store_load s_wifi_store fl 168 of
        None \<Rightarrow> None
      | Some bs \<Rightarrow>
          (let tmp = config_of_bytes bs in
           if cfg_magic tmp \<noteq> CONFIG_MAGIC \<or> cfg_version tmp \<noteq> of_nat CONFIG_VERSION then None else Some tmp))"

definition config_stamp :: "config_t \<Rightarrow> config_t" where
  "config_stamp c = c\<lparr>cfg_magic := CONFIG_MAGIC, cfg_version := of_nat CONFIG_VERSION\<rparr>"

definition config_save :: "flash \<Rightarrow> config_t \<Rightarrow> flash \<times> bool" where
  "config_save fl cfg = ab_store_save s_wifi_store fl (config_bytes (config_stamp cfg))"

definition config_clear :: "flash \<Rightarrow> flash" where
  "config_clear fl = fst (ab_store_clear s_wifi_store fl)"

lemma config_of_bytes_bytes: "config_shape c \<Longrightarrow> config_of_bytes (config_bytes c) = c"
  by (simp add: config_of_bytes_def config_bytes_def config_shape_def config_consts)

lemma length_config_bytes: "config_shape c \<Longrightarrow> length (config_bytes c) = 168"
  by (simp add: config_bytes_def config_shape_def config_consts)

lemma config_shape_stamp [simp]: "config_shape (config_stamp c) = config_shape c"
  by (simp add: config_stamp_def config_shape_def)

lemma s_wifi_store_wf: "store_wf s_wifi_store"
  by (simp add: s_wifi_store_def store_wf_def sector_ok_def store_max_def ab_consts config_consts)

interpretation wifi: record_store "store_ok s_wifi_store" 168 "\<lambda>fl. ab_store_load s_wifi_store fl 168"
  "ab_store_save s_wifi_store" "store_cut s_wifi_store"
  by (rule ab_store_laws) (simp_all add: saveable_def s_wifi_store_def store_max_def ab_consts)

lemma config_load_stored:
  assumes "ab_store_load s_wifi_store fl 168 = Some (config_bytes (config_stamp c))" and "config_shape c"
  shows "config_load fl = Some (config_stamp c)"
  using assms config_of_bytes_bytes [of "config_stamp c"]
  by (simp add: config_load_def Let_def) (simp add: config_stamp_def)


lemma config_save_laws:
  assumes "store_ok s_wifi_store fl" and "config_shape c"
  shows "snd (config_save fl c)" and "store_ok s_wifi_store (fst (config_save fl c))"
    and "config_load (fst (config_save fl c)) = Some (config_stamp c)"
  using wifi.put_law [OF assms(1), of "config_bytes (config_stamp c)"] config_load_stored [OF _ assms(2)]
    length_config_bytes [of "config_stamp c"] assms(2)
  by (cases "config_save fl c", simp add: config_save_def)+

lemma config_cut_laws:
  assumes "store_ok s_wifi_store fl" and "config_shape c"
    and "store_cut s_wifi_store fl (config_bytes (config_stamp c)) fl'"
  shows "config_load fl' \<in> {config_load fl, Some (config_stamp c)}"
  using wifi.cut_law [OF assms(1) _ assms(3)] config_load_stored [OF _ assms(2), of fl']
    length_config_bytes [of "config_stamp c"] assms(2)
  by (auto simp: config_load_def)

lemma config_clear_laws:
  assumes "store_ok s_wifi_store fl"
  shows "store_ok s_wifi_store (config_clear fl)" and "config_load (config_clear fl) = None"
  using clear_done [OF assms] load_contents [of s_wifi_store "config_clear fl" "[]" 168]
  by (simp_all add: config_clear_def config_load_def)

subsection \<open>Properties\<close>

text \<open>
  C3. Atomicity under power loss. Take any history of completed and interrupted saves and clears of
  a record store, each interruption at any erase or quad-word program and leaving the quad-words of
  the interrupted operation untouched, finished or unreadable. What the store reads afterwards is
  what a register reads in which every completed operation took effect and every interrupted one
  happened entirely or not at all; and the store is again in a state from which this holds.
\<close>

theorem store_refines_register:
  assumes "store_ok s fl" and "store_run s fl evs fl'"
  shows "store_ok s fl' \<and> reg s fl' \<in> set (reg_runs (reg s fl) evs)"
  using store_run_reg [OF assms(2,1)] .

theorem store_refines_register_witness:
  "\<exists>fl'. store_run s_wifi_store blank_flash [Saved [7, 9], Clear_cut] fl' \<and>
     reg s_wifi_store fl' \<in> {Some [7, 9], None}"
proof -
  let ?fl = "fst (ab_store_save s_wifi_store blank_flash [7, 9])"
  let ?c = "cells (run_ops ?fl (clear_ops s_wifi_store ?fl))"
  have fits: "saveable s_wifi_store [7, 9]" by (simp add: saveable_def s_wifi_store_def store_max_def ab_consts)
  have cut: "power_cut ?fl (cells ?fl) (clear_ops s_wifi_store ?fl) ?c"
    using power_cut_full [of ?fl "cells ?fl"] by simp
  have run: "store_run s_wifi_store blank_flash [Saved [7, 9], Clear_cut] (?fl\<lparr>cells := ?c\<rparr>)"
    by (rule run_save [OF fits prod.collapse [symmetric] run_clear_cut [OF cut run_nil]])
  from store_refines_register [OF store_ok_blank(1) [OF s_wifi_store_wf] run] run show ?thesis by auto
qed

text \<open>
  C14. The save commits in one step. On a working device a save of a record that fits succeeds and
  the next load returns it; its erase and program operations, stopped anywhere, leave a store whose
  load of any length returns what it did before or the new record, and never anything else.
\<close>

theorem ab_store_save_atomic:
  assumes "store_ok s fl" and "saveable s data"
  shows "\<exists>fl'. ab_store_save s fl data = (fl', True) \<and> fl' = run_ops fl (save_ops s fl data) \<and>
      ab_store_load s fl' (length data) = Some data \<and>
      (\<forall>c' n. power_cut fl (cells fl) (save_ops s fl data) c' \<longrightarrow> n \<le> 8192 \<longrightarrow>
         ab_store_load s (fl\<lparr>cells := c'\<rparr>) n \<in>
           {ab_store_load s fl n, if n = length data then Some data else None})"
  using save_done [OF assms] load_contents [of s "run_ops fl (save_ops s fl data)" data]
    save_cut_load [OF assms] assms(2)
  by (auto simp: saveable_def)

theorem ab_store_save_atomic_witness:
  "ab_store_load s_wifi_store (fst (ab_store_save s_wifi_store blank_flash [1, 2, 3])) (length [1 :: u8, 2, 3]) = Some [1, 2, 3]"
proof -
  have "saveable s_wifi_store [1, 2, 3]" by (simp add: saveable_def s_wifi_store_def store_max_def ab_consts)
  from ab_store_save_atomic [OF store_ok_blank(1) [OF s_wifi_store_wf] this] show ?thesis by auto
qed

text \<open>
  C28. The Wi-Fi configuration survives. A configuration that was saved is loaded back with its
  magic and version filled in; a save that a power loss interrupts leaves the previous
  configuration or the new one; after a clear there is none.
\<close>

theorem config_survives_power_loss:
  assumes "store_ok s_wifi_store fl" and "config_shape c"
  shows "snd (config_save fl c) \<and> config_load (fst (config_save fl c)) = Some (config_stamp c) \<and>
    config_load (config_clear (fst (config_save fl c))) = None \<and>
    (\<forall>fl'. store_cut s_wifi_store fl (config_bytes (config_stamp c)) fl' \<longrightarrow>
       config_load fl' \<in> {config_load fl, Some (config_stamp c)})"
  using config_save_laws [OF assms] config_cut_laws [OF assms]
    config_clear_laws(2) [OF config_save_laws(2) [OF assms]] by blast

definition sample_config :: config_t where
  "sample_config = \<lparr>cfg_magic = 0, cfg_version = 0, ssid = 0x61 # replicate 63 0, password = replicate 64 0,
     reserved = replicate 32 0\<rparr>"

theorem config_survives_power_loss_witness:
  "config_load (fst (config_save blank_flash sample_config)) = Some (config_stamp sample_config) \<and>
   hd (ssid (config_stamp sample_config)) = 0x61"
  using config_survives_power_loss [OF store_ok_blank(1) [OF s_wifi_store_wf], of sample_config]
  by (simp add: config_shape_def sample_config_def config_consts config_stamp_def)

end
