(* ===== verification/PodPolicy.thy ===== *)
theory PodPolicy
  imports CmdGate FwSign StoreSpec
begin

section \<open>The persisted security policies\<close>

text \<open>
  The model of \<^verbatim>\<open>stm32h563/src/pod_policy.c\<close> over the record store: the signature policy, the LAN
  policy, the USB network switch and HTTPS-only, who may change each, and what a reboot reads back.
  A setter returns \<open>None\<close> for the C's NULL (done) or the reason it refused. The weak hooks that tell
  the network stack are recorded in \<open>hooks\<close>.
\<close>

definition POD_POLICY_RECORD_MAGIC :: u32 where "POD_POLICY_RECORD_MAGIC = 0x4C4F5050"

record pod_policy_rec_t =
  pr_magic :: u32
  pr_sig :: u8
  pr_lan :: u8
  pr_usb_net_off :: u8
  pr_https_only :: u8
  pr_reserved :: "u8 list"

definition policy_store :: ab_store_t where
  "policy_store = \<lparr>slot_off = (\<lambda>i. if i = 0 then 0x1E6000 else 0x1E4000), magic = POD_POLICY_RECORD_MAGIC,
     version = 1, legacy_off = 0, legacy_magic = 0, max_len = 0\<rparr>"

definition rec_bytes :: "pod_policy_rec_t \<Rightarrow> u8 list" where
  "rec_bytes r = le32 (pr_magic r) @ [pr_sig r, pr_lan r, pr_usb_net_off r, pr_https_only r] @ pr_reserved r"

definition rec_of_bytes :: "u8 list \<Rightarrow> pod_policy_rec_t" where
  "rec_of_bytes bs = \<lparr>pr_magic = of_le32 bs, pr_sig = bs ! 4, pr_lan = bs ! 5, pr_usb_net_off = bs ! 6,
     pr_https_only = bs ! 7, pr_reserved = take 8 (drop 8 bs)\<rparr>"

definition default_rec :: pod_policy_rec_t where
  "default_rec = \<lparr>pr_magic = POD_POLICY_RECORD_MAGIC, pr_sig = ucast FW_SIG_POLICY_AUDIT, pr_lan = 0,
     pr_usb_net_off = 0, pr_https_only = 0, pr_reserved = replicate 8 0\<rparr>"

datatype policy_hook = On_lan_change u32 | On_usb_net_change bool | On_https_only_change bool

record pod =
  s_rec :: pod_policy_rec_t
  s_policy :: fw_sig_policy_t
  pod_flash :: flash
  hooks :: "policy_hook list"

text \<open>A record of newer firmware: the strictest value this one knows.\<close>

definition clamp_rec :: "pod_policy_rec_t \<Rightarrow> pod_policy_rec_t" where
  "clamp_rec r = \<lparr>pr_magic = pr_magic r, pr_sig = (if pr_sig r > 2 then 2 else pr_sig r),
     pr_lan = (if pr_lan r > 2 then 1 else pr_lan r),
     pr_usb_net_off = (if pr_usb_net_off r > 1 then 1 else pr_usb_net_off r),
     pr_https_only = (if pr_https_only r > 1 then 1 else pr_https_only r), pr_reserved = pr_reserved r\<rparr>"

definition fw_sign_set_policy :: "pod \<Rightarrow> fw_sig_policy_t \<Rightarrow> pod" where
  "fw_sign_set_policy p x = p\<lparr>s_policy := x\<rparr>"

definition pod_policy_load :: "pod \<Rightarrow> pod" where
  "pod_policy_load p =
     (let p' = (case ab_store_load policy_store (pod_flash p) 16 of
                  None \<Rightarrow> p
                | Some bs \<Rightarrow>
                    (let r = rec_of_bytes bs in
                     if pr_magic r = POD_POLICY_RECORD_MAGIC then p\<lparr>s_rec := clamp_rec r\<rparr> else p))
      in fw_sign_set_policy p' (ucast (pr_sig (s_rec p'))))"

text \<open>The statics after a reset, and the boot.\<close>

definition pod_reset :: "flash \<Rightarrow> pod" where
  "pod_reset fl = \<lparr>s_rec = default_rec, s_policy = FW_SIG_POLICY_AUDIT, pod_flash = fl, hooks = []\<rparr>"

definition pod_boot :: "flash \<Rightarrow> pod" where
  "pod_boot fl = pod_policy_load (pod_reset fl)"

definition pod_policy_sig :: "pod \<Rightarrow> fw_sig_policy_t" where
  "pod_policy_sig p = ucast (pr_sig (s_rec p))"

definition lan_of_val :: "u8 \<Rightarrow> pod_lan_policy_t" where
  "lan_of_val v = (if v = 0 then POD_LAN_OPEN else if v = 1 then POD_LAN_LOCKED else POD_LAN_OFF)"

definition pod_policy_lan :: "pod \<Rightarrow> pod_lan_policy_t" where
  "pod_policy_lan p = lan_of_val (pr_lan (s_rec p))"

definition save :: "pod \<Rightarrow> pod_policy_rec_t \<Rightarrow> pod \<times> cstr option" where
  "save p r =
     (let (fl, ok) = ab_store_save policy_store (pod_flash p) (rec_bytes r); p' = p\<lparr>pod_flash := fl\<rparr> in
      if \<not> ok then (p', Some ''could not save the policy'') else (p'\<lparr>s_rec := r\<rparr>, None))"

definition pod_policy_set_sig :: "pod \<Rightarrow> fw_sig_policy_t \<Rightarrow> policy_src_t \<Rightarrow> pod \<times> cstr option" where
  "pod_policy_set_sig pd p src =
     (if p > FW_SIG_POLICY_REQUIRED then (pd, Some ''sig_policy: unknown policy'')
      else if src = POLICY_SRC_LAN then
        (pd, Some ''sig_policy: change it from the cloud or the USB console'')
      else if src = POLICY_SRC_CLOUD \<and> p < pod_policy_sig pd then
        (pd, Some (snprintf 96 (''sig_policy: only the USB console can loosen the policy (now '' @
           fw_sign_policy_name (pod_policy_sig pd) @ '')'')))
      else if p = pod_policy_sig pd then (pd, None)
      else case save pd ((s_rec pd)\<lparr>pr_sig := ucast p\<rparr>) of
             (pd', Some why) \<Rightarrow> (pd', Some why)
           | (pd', None) \<Rightarrow> (fw_sign_set_policy pd' p, None))"

definition pod_policy_set_lan :: "pod \<Rightarrow> u32 \<Rightarrow> policy_src_t \<Rightarrow> pod \<times> cstr option" where
  "pod_policy_set_lan pd p src =
     (if p > 2 then (pd, Some ''lan_policy: unknown policy'')
      else if src = POLICY_SRC_LAN then
        (pd, Some ''lan_policy: change it from the cloud or the USB console'')
      else if p = ucast (pr_lan (s_rec pd)) then (pd, None)
      else case save pd ((s_rec pd)\<lparr>pr_lan := ucast p\<rparr>) of
             (pd', Some why) \<Rightarrow> (pd', Some why)
           | (pd', None) \<Rightarrow> (pd'\<lparr>hooks := hooks pd' @ [On_lan_change p]\<rparr>, None))"

definition pod_policy_usb_net :: "pod \<Rightarrow> bool" where
  "pod_policy_usb_net pd \<longleftrightarrow> pr_usb_net_off (s_rec pd) = 0"

definition pod_policy_set_usb_net :: "pod \<Rightarrow> bool \<Rightarrow> policy_src_t \<Rightarrow> bool \<Rightarrow> pod \<times> cstr option" where
  "pod_policy_set_usb_net pd on src usb_link =
     (if src = POLICY_SRC_CLOUD \<or> (src = POLICY_SRC_LAN \<and> \<not> usb_link) then
        (pd, Some ''usb_network: change it on the device (the USB console, or over the USB link)'')
      else if on = pod_policy_usb_net pd then (pd, None)
      else case save pd ((s_rec pd)\<lparr>pr_usb_net_off := (if on then 0 else 1)\<rparr>) of
             (pd', Some why) \<Rightarrow> (pd', Some why)
           | (pd', None) \<Rightarrow> (pd'\<lparr>hooks := hooks pd' @ [On_usb_net_change on]\<rparr>, None))"

definition pod_policy_https_only :: "pod \<Rightarrow> bool" where
  "pod_policy_https_only pd \<longleftrightarrow> pr_https_only (s_rec pd) \<noteq> 0"

definition pod_policy_lan_tls_gate :: "policy_src_t \<Rightarrow> bool \<Rightarrow> bool \<Rightarrow> cstr option" where
  "pod_policy_lan_tls_gate src usb_link tls_link =
     (if src \<noteq> POLICY_SRC_LAN \<or> usb_link \<or> tls_link then None
      else Some ''lan_tls: change it over TLS (port 8443), over USB or from the cloud'')"

definition pod_policy_set_https_only ::
  "pod \<Rightarrow> bool \<Rightarrow> policy_src_t \<Rightarrow> bool \<Rightarrow> bool \<Rightarrow> pod \<times> cstr option" where
  "pod_policy_set_https_only pd on src usb_link tls_link =
     (case (if \<not> on then pod_policy_lan_tls_gate src usb_link tls_link else None) of
        Some why \<Rightarrow> (pd, Some why)
      | None \<Rightarrow>
          if on = pod_policy_https_only pd then (pd, None)
          else case save pd ((s_rec pd)\<lparr>pr_https_only := (if on then 1 else 0)\<rparr>) of
                 (pd', Some why) \<Rightarrow> (pd', Some why)
               | (pd', None) \<Rightarrow> (pd'\<lparr>hooks := hooks pd' @ [On_https_only_change on]\<rparr>, None))"

definition pod_policy_cloud_link_gate :: "cstr \<Rightarrow> policy_src_t \<Rightarrow> bool \<Rightarrow> cstr option" where
  "pod_policy_cloud_link_gate verb src usb_link =
     (if src \<noteq> POLICY_SRC_LAN \<or> usb_link then None
      else Some (snprintf 80 (verb @ '': change it from the cloud or over USB'')))"

definition pod_policy_sig_from_name :: "cstr option \<Rightarrow> fw_sig_policy_t option" where
  "pod_policy_sig_from_name name =
     (case name of
        None \<Rightarrow> None
      | Some n \<Rightarrow>
          if n = ''audit'' then Some FW_SIG_POLICY_AUDIT
          else if n = ''permissive'' then Some FW_SIG_POLICY_PERMISSIVE
          else if n = ''required'' then Some FW_SIG_POLICY_REQUIRED
          else None)"

definition pod_policy_lan_from_name :: "cstr option \<Rightarrow> pod_lan_policy_t option" where
  "pod_policy_lan_from_name name =
     (case name of
        None \<Rightarrow> None
      | Some n \<Rightarrow>
          if n = ''open'' then Some POD_LAN_OPEN
          else if n = ''locked'' then Some POD_LAN_LOCKED
          else if n = ''off'' then Some POD_LAN_OFF
          else None)"

fun pod_policy_lan_name :: "pod_lan_policy_t \<Rightarrow> cstr" where
  "pod_policy_lan_name POD_LAN_OPEN = ''open''"
| "pod_policy_lan_name POD_LAN_LOCKED = ''locked''"
| "pod_policy_lan_name POD_LAN_OFF = ''off''"


subsection \<open>Requests, and who may make them\<close>

datatype policy_req =
    Set_sig u32 policy_src_t
  | Set_lan u32 policy_src_t
  | Set_usb_net bool policy_src_t bool
  | Set_https_only bool policy_src_t bool bool

fun policy_do :: "pod \<Rightarrow> policy_req \<Rightarrow> pod \<times> cstr option" where
  "policy_do pd (Set_sig p src) = pod_policy_set_sig pd p src"
| "policy_do pd (Set_lan p src) = pod_policy_set_lan pd p src"
| "policy_do pd (Set_usb_net on src usb) = pod_policy_set_usb_net pd on src usb"
| "policy_do pd (Set_https_only on src usb tls) = pod_policy_set_https_only pd on src usb tls"

fun req_src :: "policy_req \<Rightarrow> policy_src_t" where
  "req_src (Set_sig p src) = src"
| "req_src (Set_lan p src) = src"
| "req_src (Set_usb_net on src usb) = src"
| "req_src (Set_https_only on src usb tls) = src"

text \<open>The matrix of the design document: which request a source may make.\<close>

fun req_allowed :: "pod_policy_rec_t \<Rightarrow> policy_req \<Rightarrow> bool" where
  "req_allowed r (Set_sig p src) \<longleftrightarrow> p \<le> 2 \<and>
     (src = POLICY_SRC_USB \<or> src = POLICY_SRC_CLOUD \<and> ucast (pr_sig r) \<le> p)"
| "req_allowed r (Set_lan p src) \<longleftrightarrow> p \<le> 2 \<and> src \<noteq> POLICY_SRC_LAN"
| "req_allowed r (Set_usb_net on src usb) \<longleftrightarrow> src = POLICY_SRC_USB \<or> src = POLICY_SRC_LAN \<and> usb"
| "req_allowed r (Set_https_only on src usb tls) \<longleftrightarrow> on \<or> src \<noteq> POLICY_SRC_LAN \<or> usb \<or> tls"

fun req_rec :: "pod_policy_rec_t \<Rightarrow> policy_req \<Rightarrow> pod_policy_rec_t" where
  "req_rec r (Set_sig p src) = r\<lparr>pr_sig := ucast p\<rparr>"
| "req_rec r (Set_lan p src) = r\<lparr>pr_lan := ucast p\<rparr>"
| "req_rec r (Set_usb_net on src usb) = r\<lparr>pr_usb_net_off := (if on then 0 else 1)\<rparr>"
| "req_rec r (Set_https_only on src usb tls) = r\<lparr>pr_https_only := (if on then 1 else 0)\<rparr>"

subsection \<open>The record and the flash\<close>

definition rec_ok :: "pod_policy_rec_t \<Rightarrow> bool" where
  "rec_ok r \<longleftrightarrow> pr_magic r = POD_POLICY_RECORD_MAGIC \<and> pr_sig r \<le> 2 \<and> pr_lan r \<le> 2 \<and>
     pr_usb_net_off r \<le> 1 \<and> pr_https_only r \<le> 1 \<and> length (pr_reserved r) = 8"

definition stored :: "flash \<Rightarrow> pod_policy_rec_t \<Rightarrow> bool" where
  "stored fl r \<longleftrightarrow> store_ok policy_store fl \<and> rec_ok r \<and>
     (ab_store_load policy_store fl 16 = Some (rec_bytes r) \<or>
      ab_store_load policy_store fl 16 = None \<and> r = default_rec)"

definition pod_ok :: "pod \<Rightarrow> bool" where
  "pod_ok pd \<longleftrightarrow> stored (pod_flash pd) (s_rec pd) \<and> s_policy pd = pod_policy_sig pd"

lemma rec_of_bytes_bytes: "length (pr_reserved r) = 8 \<Longrightarrow> rec_of_bytes (rec_bytes r) = r"
  by (simp add: rec_of_bytes_def rec_bytes_def nth_append)

lemma clamp_rec_ok: "rec_ok r \<Longrightarrow> clamp_rec r = r"
  by (rule pod_policy_rec_t.equality) (auto simp: rec_ok_def clamp_rec_def not_less)

lemma default_rec_ok: "rec_ok default_rec"
  by (simp add: rec_ok_def default_rec_def FW_SIG_POLICY_AUDIT_def)

lemma policy_store_wf: "store_wf policy_store"
  by (simp add: policy_store_def store_wf_def sector_ok_def store_max_def ab_consts POD_POLICY_RECORD_MAGIC_def)

interpretation pol: record_store "store_ok policy_store" 16 "\<lambda>fl. ab_store_load policy_store fl 16"
  "ab_store_save policy_store" "store_cut policy_store"
  by (rule ab_store_laws) (simp_all add: saveable_def policy_store_def store_max_def ab_consts)

lemma stored_blank: "stored blank_flash default_rec"
  using store_ok_blank [OF policy_store_wf] ab_store_load_contents [OF policy_store_wf flash_wf_blank, of 16]
  by (simp add: stored_def default_rec_ok policy_store_def)

lemma pod_boot_stored:
  assumes "stored fl r"
  shows "s_rec (pod_boot fl) = r" and "pod_ok (pod_boot fl)" and "pod_flash (pod_boot fl) = fl"
proof -
  have r: "rec_ok r" "length (pr_reserved r) = 8" "pr_magic r = POD_POLICY_RECORD_MAGIC"
    using assms by (auto simp: stored_def rec_ok_def)
  show rec: "s_rec (pod_boot fl) = r" and fl: "pod_flash (pod_boot fl) = fl"
    using assms r unfolding stored_def
    by (auto simp: pod_boot_def pod_policy_load_def pod_reset_def fw_sign_set_policy_def Let_def
        rec_of_bytes_bytes clamp_rec_ok)
  have "s_policy (pod_boot fl) = ucast (pr_sig (s_rec (pod_boot fl)))"
    by (simp add: pod_boot_def pod_policy_load_def fw_sign_set_policy_def Let_def)
  with rec fl assms show "pod_ok (pod_boot fl)" by (simp add: pod_ok_def pod_policy_sig_def)
qed

lemma save_stored:
  assumes "store_ok policy_store (pod_flash pd)" and "rec_ok r"
  obtains fl where "save pd r = (pd\<lparr>pod_flash := fl, s_rec := r\<rparr>, None)" and "stored fl r"
proof -
  obtain fl ok where sv: "ab_store_save policy_store (pod_flash pd) (rec_bytes r) = (fl, ok)" by fastforce
  have "length (rec_bytes r) = 16" using assms(2) by (simp add: rec_bytes_def rec_ok_def)
  from pol.put_law [OF assms(1) this sv] assms(2) sv show ?thesis
    by (intro that [of fl]) (simp_all add: save_def stored_def)
qed

lemma stored_cut:
  assumes "stored fl r" and "rec_ok r'" and "store_cut policy_store fl (rec_bytes r') fl'"
  shows "stored fl' r \<or> stored fl' r'"
proof -
  have "length (rec_bytes r') = 16" using assms(2) by (simp add: rec_bytes_def rec_ok_def)
  from pol.cut_law [OF _ this assms(3)] assms(1,2) show ?thesis by (auto simp: stored_def)
qed


subsection \<open>The setters implement the matrix\<close>

lemma policy_val_cases: "(p :: u32) \<le> 2 \<Longrightarrow> p = 0 \<or> p = 1 \<or> p = 2"
  using sig_policy_le_cases [of p] by (simp add: sig_policy_consts)

lemma ucast_policy_val: "(p :: u32) \<le> 2 \<Longrightarrow> ucast (ucast p :: u8) = p"
  by (drule policy_val_cases) auto

lemma ucast_policy_le: "(p :: u32) \<le> 2 \<Longrightarrow> (ucast p :: u8) \<le> 2"
  by (drule policy_val_cases) auto

lemma flag_val_cases: "(v :: u8) \<le> 1 \<Longrightarrow> v = 0 \<or> v = 1"
proof -
  assume "v \<le> 1"
  then have "unat v = 0 \<or> unat v = 1" by (auto simp: word_le_nat_alt)
  then show ?thesis by (auto simp: word_unat_eq_iff)
qed

lemma req_rec_ok: "rec_ok r \<Longrightarrow> req_allowed r q \<Longrightarrow> rec_ok (req_rec r q)"
  by (cases q) (auto simp: rec_ok_def ucast_policy_le)

lemma ucast_u8_u32 [simp]: "ucast (ucast (a :: u8) :: u32) = a"
  by (rule bit_eqI) (auto simp: bit_simps dest: bit_imp_le_length)

text \<open>Asking for the value that is already set changes nothing.\<close>

lemma req_rec_same:
  "p = ucast (pr_sig r) \<Longrightarrow> req_rec r (Set_sig p src) = r"
  "p = ucast (pr_lan r) \<Longrightarrow> req_rec r (Set_lan p src) = r"
  "rec_ok r \<Longrightarrow> on = (pr_usb_net_off r = 0) \<Longrightarrow> req_rec r (Set_usb_net on src usb) = r"
  "rec_ok r \<Longrightarrow> on = (pr_https_only r \<noteq> 0) \<Longrightarrow> req_rec r (Set_https_only on src usb tls) = r"
  by (auto intro!: pod_policy_rec_t.equality simp: rec_ok_def dest: flag_val_cases)

definition meets :: "pod \<Rightarrow> policy_req \<Rightarrow> pod \<times> cstr option \<Rightarrow> bool" where
  "meets pd q out \<longleftrightarrow>
     (snd out = None \<longleftrightarrow> req_allowed (s_rec pd) q) \<and> pod_ok (fst out) \<and>
     s_rec (fst out) = (if req_allowed (s_rec pd) q then req_rec (s_rec pd) q else s_rec pd) \<and>
     (\<not> req_allowed (s_rec pd) q \<longrightarrow> fst out = pd)"

lemma meets_refuse: "pod_ok pd \<Longrightarrow> \<not> req_allowed (s_rec pd) q \<Longrightarrow> meets pd q (pd, Some why)"
  by (simp add: meets_def)

lemma meets_same:
  "pod_ok pd \<Longrightarrow> req_allowed (s_rec pd) q \<Longrightarrow> req_rec (s_rec pd) q = s_rec pd \<Longrightarrow> meets pd q (pd, None)"
  by (simp add: meets_def)

lemma meets_save:
  assumes "pod_ok pd" and "req_allowed (s_rec pd) q"
    and "\<And>pd'. s_rec (f pd') = s_rec pd' \<and> pod_flash (f pd') = pod_flash pd' \<and>
           (s_policy pd' = s_policy pd \<longrightarrow> s_policy (f pd') = ucast (pr_sig (req_rec (s_rec pd) q)))"
  shows "meets pd q (case save pd (req_rec (s_rec pd) q) of
           (pd', Some why) \<Rightarrow> (pd', Some why) | (pd', None) \<Rightarrow> (f pd', None))"
proof -
  have ok: "store_ok policy_store (pod_flash pd)" "rec_ok (req_rec (s_rec pd) q)"
    using assms(1,2) req_rec_ok by (auto simp: pod_ok_def stored_def)
  then obtain fl where "save pd (req_rec (s_rec pd) q) = (pd\<lparr>pod_flash := fl, s_rec := req_rec (s_rec pd) q\<rparr>, None)"
      "stored fl (req_rec (s_rec pd) q)"
    by (rule save_stored)
  with assms(2,3) show ?thesis by (simp add: meets_def pod_ok_def pod_policy_sig_def)
qed

lemma policy_do_meets:
  assumes "pod_ok pd"
  shows "meets pd q (policy_do pd q)"
proof -
  have ok: "rec_ok (s_rec pd)" and pol: "s_policy pd = ucast (pr_sig (s_rec pd))"
    using assms by (auto simp: pod_ok_def stored_def pod_policy_sig_def)
  show ?thesis
  proof (cases q)
    case (Set_sig p src)
    have hook: "s_rec (fw_sign_set_policy pd' p) = s_rec pd' \<and> pod_flash (fw_sign_set_policy pd' p) = pod_flash pd' \<and>
        s_policy (fw_sign_set_policy pd' p) = p" for pd'
      by (simp add: fw_sign_set_policy_def)
    show ?thesis
      using assms Set_sig meets_save [OF assms, of q "\<lambda>pd'. fw_sign_set_policy pd' p"] hook
        meets_same [OF assms, of q] req_rec_same(1) [of p "s_rec pd" src] ucast_policy_val [of p]
      by (cases src) (auto simp: pod_policy_set_sig_def sig_policy_consts pod_policy_sig_def not_le not_less
          intro!: meets_refuse)
  next
    case (Set_lan p src)
    show ?thesis
      using assms Set_lan meets_save [OF assms, of q "\<lambda>pd'. pd'\<lparr>hooks := hooks pd' @ [On_lan_change p]\<rparr>"]
        meets_same [OF assms, of q] req_rec_same(2) [of p "s_rec pd" src] pol
      by (auto simp: pod_policy_set_lan_def not_le not_less intro!: meets_refuse)
  next
    case (Set_usb_net on src usb)
    show ?thesis
      using assms Set_usb_net meets_save [OF assms, of q "\<lambda>pd'. pd'\<lparr>hooks := hooks pd' @ [On_usb_net_change on]\<rparr>"]
        meets_same [OF assms, of q] req_rec_same(3) [OF ok, of on src usb] pol
      by (cases src) (auto simp: pod_policy_set_usb_net_def pod_policy_usb_net_def intro!: meets_refuse)
  next
    case (Set_https_only on src usb tls)
    show ?thesis
      using assms Set_https_only meets_save [OF assms, of q "\<lambda>pd'. pd'\<lparr>hooks := hooks pd' @ [On_https_only_change on]\<rparr>"]
        meets_same [OF assms, of q] req_rec_same(4) [OF ok, of on src usb tls] pol
      by (cases on) (auto simp: pod_policy_set_https_only_def pod_policy_https_only_def pod_policy_lan_tls_gate_def
          intro!: meets_refuse)
  qed
qed


subsection \<open>Histories with reboots and power cuts\<close>

text \<open>
  A request; a request whose save a power loss interrupts, and the boot after it; a reboot.
\<close>

datatype policy_ev = Req policy_req | Req_cut policy_req | Reboot

fun ev_req :: "policy_ev \<Rightarrow> policy_req option" where
  "ev_req (Req q) = Some q"
| "ev_req (Req_cut q) = Some q"
| "ev_req Reboot = None"

definition requests :: "(policy_req \<Rightarrow> bool) \<Rightarrow> policy_ev list \<Rightarrow> bool" where
  "requests P evs \<longleftrightarrow> list_all (\<lambda>e. case ev_req e of None \<Rightarrow> True | Some q \<Rightarrow> P q) evs"

lemma requestsD: "requests P evs \<Longrightarrow> e \<in> set evs \<Longrightarrow> ev_req e = Some q \<Longrightarrow> P q"
  by (fastforce simp: requests_def list_all_iff)

inductive policy_run :: "pod \<Rightarrow> policy_ev list \<Rightarrow> pod \<Rightarrow> bool" where
  pol_nil: "policy_run pd [] pd"
| pol_req: "policy_run (fst (policy_do pd q)) evs pd' \<Longrightarrow> policy_run pd (Req q # evs) pd'"
| pol_cut: "store_cut policy_store (pod_flash pd) (rec_bytes (s_rec (fst (policy_do pd q)))) fl \<Longrightarrow>
    policy_run (pod_boot fl) evs pd' \<Longrightarrow> policy_run pd (Req_cut q # evs) pd'"
| pol_reboot: "policy_run (pod_boot (pod_flash pd)) evs pd' \<Longrightarrow> policy_run pd (Reboot # evs) pd'"

text \<open>One event: the record is the old one, or what an allowed request makes of it.\<close>

lemma policy_req_rec:
  assumes "pod_ok pd"
  shows "pod_ok (fst (policy_do pd q))"
    and "s_rec (fst (policy_do pd q)) = s_rec pd \<or>
      req_allowed (s_rec pd) q \<and> s_rec (fst (policy_do pd q)) = req_rec (s_rec pd) q"
  using policy_do_meets [OF assms, of q] by (auto simp: meets_def)

lemma policy_cut_rec:
  assumes "pod_ok pd" and "store_cut policy_store (pod_flash pd) (rec_bytes (s_rec (fst (policy_do pd q)))) fl"
  shows "pod_ok (pod_boot fl)"
    and "s_rec (pod_boot fl) = s_rec pd \<or>
      req_allowed (s_rec pd) q \<and> s_rec (pod_boot fl) = req_rec (s_rec pd) q"
proof -
  note r = policy_req_rec [OF assms(1), of q]
  have "stored fl (s_rec pd) \<or> stored fl (s_rec (fst (policy_do pd q)))"
    using stored_cut [OF _ _ assms(2)] assms(1) r(1) by (auto simp: pod_ok_def stored_def)
  with pod_boot_stored r(2)
  show "pod_ok (pod_boot fl)" and "s_rec (pod_boot fl) = s_rec pd \<or>
      req_allowed (s_rec pd) q \<and> s_rec (pod_boot fl) = req_rec (s_rec pd) q" by metis+
qed

lemma policy_reboot_rec:
  assumes "pod_ok pd"
  shows "pod_ok (pod_boot (pod_flash pd))" and "s_rec (pod_boot (pod_flash pd)) = s_rec pd"
  using pod_boot_stored [of "pod_flash pd" "s_rec pd"] assms by (auto simp: pod_ok_def)

text \<open>A reflexive and transitive relation that every allowed request respects holds over a run.\<close>

lemma policy_run_rel:
  assumes "policy_run pd evs pd'" and "pod_ok pd"
    and "\<And>r. R r r" and "\<And>a b c. R a b \<Longrightarrow> R b c \<Longrightarrow> R a c"
    and "\<And>r e q. e \<in> set evs \<Longrightarrow> ev_req e = Some q \<Longrightarrow> rec_ok r \<Longrightarrow> req_allowed r q \<Longrightarrow> R r (req_rec r q)"
  shows "pod_ok pd' \<and> R (s_rec pd) (s_rec pd')"
  using assms(1,2,5)
proof (induction rule: policy_run.induct)
  case (pol_nil pd)
  then show ?case using assms(3) by simp
next
  case (pol_req pd q evs pd')
  have ok: "rec_ok (s_rec pd)" using pol_req.prems by (simp add: pod_ok_def stored_def)
  have "R (s_rec pd) (s_rec (fst (policy_do pd q)))"
    using policy_req_rec(2) [OF pol_req.prems(1), of q] pol_req.prems(2) [of "Req q" q, OF _ _ ok] assms(3) by auto
  with pol_req.IH [OF policy_req_rec(1) [OF pol_req.prems(1)]] pol_req.prems(2) assms(4) show ?case by force
next
  case (pol_cut pd q fl evs pd')
  have ok: "rec_ok (s_rec pd)" using pol_cut.prems by (simp add: pod_ok_def stored_def)
  have "R (s_rec pd) (s_rec (pod_boot fl))"
    using policy_cut_rec(2) [OF pol_cut.prems(1) pol_cut.hyps(1)] pol_cut.prems(2) [of "Req_cut q" q, OF _ _ ok]
      assms(3) by auto
  with pol_cut.IH [OF policy_cut_rec(1) [OF pol_cut.prems(1) pol_cut.hyps(1)]] pol_cut.prems(2) assms(4)
  show ?case by force
next
  case (pol_reboot pd evs pd')
  note b = policy_reboot_rec [OF pol_reboot.prems(1)]
  with pol_reboot.IH [OF b(1)] pol_reboot.prems(2) show ?case by force
qed


subsection \<open>Properties\<close>

text \<open>
  C31. Every setter implements the matrix of who may change what: it succeeds exactly when the source
  may make the request, then exactly the requested field has the requested value and a reboot reads
  the same record and signature policy back; a refused request changes nothing at all.
\<close>

theorem policy_do_refines_matrix:
  assumes "pod_ok pd" and "policy_do pd q = (pd', res)"
  shows "(res = None \<longleftrightarrow> req_allowed (s_rec pd) q) \<and>
    s_rec pd' = (if req_allowed (s_rec pd) q then req_rec (s_rec pd) q else s_rec pd) \<and>
    (res \<noteq> None \<longrightarrow> pd' = pd) \<and>
    s_rec (pod_boot (pod_flash pd')) = s_rec pd' \<and> s_policy (pod_boot (pod_flash pd')) = s_policy pd'"
proof -
  have m: "meets pd q (pd', res)" using policy_do_meets [OF assms(1), of q] assms(2) by simp
  then have "pod_ok pd'" by (simp add: meets_def)
  from policy_reboot_rec [OF this] this m show ?thesis
    by (auto simp: meets_def pod_ok_def pod_policy_sig_def)
qed

theorem policy_do_refines_matrix_witness:
  "snd (policy_do (pod_boot blank_flash) (Set_sig 1 POLICY_SRC_CLOUD)) = None \<and>
   pr_sig (s_rec (fst (policy_do (pod_boot blank_flash) (Set_sig 1 POLICY_SRC_CLOUD)))) = 1"
proof -
  note b = pod_boot_stored [OF stored_blank]
  let ?q = "Set_sig 1 POLICY_SRC_CLOUD"
  have al: "req_allowed (s_rec (pod_boot blank_flash)) ?q"
    by (simp add: b(1) default_rec_def FW_SIG_POLICY_AUDIT_def)
  note t = policy_do_refines_matrix [OF b(2) prod.collapse [symmetric], of ?q]
  have "snd (policy_do (pod_boot blank_flash) ?q) = None" using t al by blast
  moreover have "s_rec (fst (policy_do (pod_boot blank_flash) ?q)) = req_rec (s_rec (pod_boot blank_flash)) ?q"
    using t al by (simp only: if_True)
  ultimately show ?thesis by simp
qed

text \<open>
  C5. Without the USB console the signature policy is never loosened: over any sequence of requests
  from the cloud and the LAN, reboots, and power losses in the middle of a save, the policy in force
  at the end is at least as strict, and refuses every image the one in force before refused.
\<close>

theorem sig_policy_never_loosened_remotely:
  assumes "pod_ok pd" and "policy_run pd evs pd'"
    and "requests (\<lambda>q. req_src q \<noteq> POLICY_SRC_USB) evs"
  shows "pod_policy_sig pd \<le> pod_policy_sig pd' \<and> pod_ok pd' \<and>
    (\<forall>r. fw_sign_accept r (s_policy pd') \<longrightarrow> fw_sign_accept r (s_policy pd))"
proof -
  define R :: "pod_policy_rec_t \<Rightarrow> pod_policy_rec_t \<Rightarrow> bool"
    where "R a b \<longleftrightarrow> (ucast (pr_sig a) :: u32) \<le> ucast (pr_sig b)" for a b
  have "R r (req_rec r q)" if "e \<in> set evs" "ev_req e = Some q" "req_allowed r q" for r e q
    using that(3) requestsD [OF assms(3) that(1,2)] by (cases q) (auto simp: R_def ucast_policy_val)
  then have "pod_ok pd' \<and> R (s_rec pd) (s_rec pd')"
    using policy_run_rel [OF assms(2,1), of R] by (auto simp: R_def)
  then show ?thesis
    using assms(1) fw_sign_accept_mono by (auto simp: R_def pod_policy_sig_def pod_ok_def)
qed

theorem sig_policy_never_loosened_remotely_witness:
  "\<exists>pd'. policy_run (pod_boot blank_flash) [Req (Set_sig 2 POLICY_SRC_CLOUD), Req (Set_sig 0 POLICY_SRC_CLOUD), Reboot] pd' \<and>
     pod_policy_sig (pod_boot blank_flash) \<le> pod_policy_sig pd'"
proof -
  have "\<exists>pd'. policy_run (pod_boot blank_flash) [Req (Set_sig 2 POLICY_SRC_CLOUD), Req (Set_sig 0 POLICY_SRC_CLOUD), Reboot] pd'"
    by (intro exI) (rule pol_req pol_reboot pol_nil)+
  then obtain pd' where run:
    "policy_run (pod_boot blank_flash) [Req (Set_sig 2 POLICY_SRC_CLOUD), Req (Set_sig 0 POLICY_SRC_CLOUD), Reboot] pd'"
    by blast
  from sig_policy_never_loosened_remotely [OF pod_boot_stored(2) [OF stored_blank] run]
  have "pod_policy_sig (pod_boot blank_flash) \<le> pod_policy_sig pd'" by (simp add: requests_def)
  with run show ?thesis by blast
qed

text \<open>
  A plaintext connection from the external LAN changes no policy: over any sequence of its
  requests, reboots and power losses the signature policy, the LAN policy and the USB network switch
  stay as they were, and HTTPS-only, once on, stays on.
\<close>

fun plain_lan :: "policy_req \<Rightarrow> bool" where
  "plain_lan (Set_sig p src) \<longleftrightarrow> src = POLICY_SRC_LAN"
| "plain_lan (Set_lan p src) \<longleftrightarrow> src = POLICY_SRC_LAN"
| "plain_lan (Set_usb_net on src usb) \<longleftrightarrow> src = POLICY_SRC_LAN \<and> \<not> usb"
| "plain_lan (Set_https_only on src usb tls) \<longleftrightarrow> src = POLICY_SRC_LAN \<and> \<not> usb \<and> \<not> tls"

theorem plain_lan_changes_nothing:
  assumes "pod_ok pd" and "policy_run pd evs pd'"
    and "requests plain_lan evs"
  shows "pod_policy_sig pd' = pod_policy_sig pd \<and> pod_policy_lan pd' = pod_policy_lan pd \<and>
    pod_policy_usb_net pd' = pod_policy_usb_net pd \<and> (pod_policy_https_only pd \<longrightarrow> pod_policy_https_only pd')"
proof -
  define R :: "pod_policy_rec_t \<Rightarrow> pod_policy_rec_t \<Rightarrow> bool"
    where "R a b \<longleftrightarrow> pr_sig b = pr_sig a \<and> pr_lan b = pr_lan a \<and> pr_usb_net_off b = pr_usb_net_off a \<and>
      (pr_https_only a \<noteq> 0 \<longrightarrow> pr_https_only b \<noteq> 0)" for a b
  have "R r (req_rec r q)" if "e \<in> set evs" "ev_req e = Some q" "req_allowed r q" for r e q
    using that(3) requestsD [OF assms(3) that(1,2)] by (cases q) (auto simp: R_def)
  then have "R (s_rec pd) (s_rec pd')"
    using policy_run_rel [OF assms(2,1), of R] by (auto simp: R_def)
  then show ?thesis
    by (auto simp: R_def pod_policy_sig_def pod_policy_lan_def pod_policy_usb_net_def pod_policy_https_only_def)
qed

theorem plain_lan_changes_nothing_witness:
  "pod_policy_lan (fst (policy_do (pod_boot blank_flash) (Set_lan 2 POLICY_SRC_LAN))) = POD_LAN_OPEN"
proof -
  note b = pod_boot_stored [OF stored_blank]
  have "policy_run (pod_boot blank_flash) [Req (Set_lan 2 POLICY_SRC_LAN)]
      (fst (policy_do (pod_boot blank_flash) (Set_lan 2 POLICY_SRC_LAN)))"
    by (rule pol_req [OF pol_nil])
  from plain_lan_changes_nothing [OF b(2) this]
  have "pod_policy_lan (fst (policy_do (pod_boot blank_flash) (Set_lan 2 POLICY_SRC_LAN))) =
      pod_policy_lan (pod_boot blank_flash)"
    by (simp add: requests_def)
  also have "\<dots> = POD_LAN_OPEN" by (simp add: pod_policy_lan_def b(1) default_rec_def lan_of_val_def)
  finally show ?thesis .
qed

end
