(* ===== verification/B64url.thy ===== *)
theory B64url
  imports Prelude
begin

section \<open>Unpadded base64url\<close>

text \<open>
  The model of \<^verbatim>\<open>stm32h563/src/b64url.c\<close>: groups of three bytes as four symbols through a 32-bit
  word, with a remainder of one or two bytes, and the decoder with its reverse table. The encoder
  returns the number of characters and what the output buffer holds (\<open>None\<close> when nothing was
  written), the decoder \<open>None\<close> for the C's -1.
\<close>

definition ENC :: string where
  "ENC = ''ABCDEFGHIJKLMNOPQRSTUVWXYZabcdefghijklmnopqrstuvwxyz0123456789-_''"

text \<open>The table \<^verbatim>\<open>DEC\<close> after \<^verbatim>\<open>dec_init\<close>, indexed by the character.\<close>

definition dec_init :: "char \<Rightarrow> u8" where
  "dec_init = fold (\<lambda>i d. d(ENC ! i := of_nat i)) [0..<64] (\<lambda>_. 0xFF)"

abbreviation DEC :: "char \<Rightarrow> u8" where
  "DEC \<equiv> dec_init"

definition B64URL_ENCODED_LEN :: "nat \<Rightarrow> nat" where
  "B64URL_ENCODED_LEN n = (n * 4 + 2) div 3"

definition sym :: "nat \<Rightarrow> u32 \<Rightarrow> char" where
  "sym k v = ENC ! unat (drop_bit k v AND 0x3F)"

definition word24 :: "u8 \<Rightarrow> u8 \<Rightarrow> u8 \<Rightarrow> u32" where
  "word24 a b c = push_bit 16 (ucast a) OR push_bit 8 (ucast b) OR ucast c"

fun encode_groups :: "u8 list \<Rightarrow> string" where
  "encode_groups (a # b # c # rest) =
     (let v = word24 a b c in sym 18 v # sym 12 v # sym 6 v # sym 0 v # encode_groups rest)"
| "encode_groups [a, b] = (let v = word24 a b 0 in [sym 18 v, sym 12 v, sym 6 v])"
| "encode_groups [a] = (let v = word24 a 0 0 in [sym 18 v, sym 12 v])"
| "encode_groups [] = []"

definition b64url_encode :: "u8 list \<Rightarrow> nat \<Rightarrow> nat \<times> cstr option" where
  "b64url_encode bs out_cap =
     (let need = B64URL_ENCODED_LEN (length bs) in
      if out_cap < need + 1 then (0, None)
      else let s = encode_groups bs in (length s, Some s))"

definition strip_pad :: "cstr \<Rightarrow> cstr" where
  "strip_pad s = rev (dropWhile (\<lambda>c. c = CHR ''='') (rev s))"

definition out1 :: "u8 \<Rightarrow> u8 \<Rightarrow> u8" where "out1 a b = push_bit 2 a OR drop_bit 4 b"
definition out2 :: "u8 \<Rightarrow> u8 \<Rightarrow> u8" where "out2 b c = push_bit 4 b OR drop_bit 2 c"
definition out3 :: "u8 \<Rightarrow> u8 \<Rightarrow> u8" where "out3 c d = push_bit 6 c OR d"

fun decode_groups :: "cstr \<Rightarrow> u8 list option" where
  "decode_groups (p # q # r # s # rest) =
     (let a = DEC p; b = DEC q; c = DEC r; d = DEC s in
      if a OR b OR c OR d = 0xFF then None
      else (case decode_groups rest of
              None \<Rightarrow> None
            | Some bs \<Rightarrow> Some (out1 a b # out2 b c # out3 c d # bs)))"
| "decode_groups [p, q, r] =
     (let a = DEC p; b = DEC q; c = DEC r in
      if a OR b OR c = 0xFF then None else Some [out1 a b, out2 b c])"
| "decode_groups [p, q] =
     (let a = DEC p; b = DEC q in if a OR b = 0xFF then None else Some [out1 a b])"
| "decode_groups _ = Some []"

definition b64url_decode :: "cstr \<Rightarrow> nat \<Rightarrow> u8 list option" where
  "b64url_decode s out_cap =
     (let t = strip_pad s; len = length t in
      if len mod 4 = 1 then None
      else
        let decoded = len div 4 * 3 + (if len mod 4 \<noteq> 0 then len mod 4 - 1 else 0) in
        if decoded > out_cap then None else decode_groups t)"

subsection \<open>The tables are inverse\<close>

lemma length_ENC: "length ENC = 64"
  by (simp add: ENC_def)

lemma distinct_ENC: "distinct ENC"
  by (simp add: ENC_def)

lemma fold_table:
  assumes "distinct xs" and "n \<le> length xs" and "i < n"
  shows "fold (\<lambda>i d. d(xs ! i := f i)) [0..<n] g (xs ! i) = f i"
  using assms(2,3)
proof (induction n)
  case (Suc n)
  then show ?case using assms(1) by (auto simp: nth_eq_iff_index_eq less_Suc_eq)
qed simp

lemma DEC_ENC: "i < 64 \<Longrightarrow> DEC (ENC ! i) = of_nat i"
  unfolding dec_init_def by (rule fold_table [OF distinct_ENC]) (simp_all add: length_ENC)

lemma ENC_not_pad_all: "list_all (\<lambda>c. c \<noteq> CHR ''='') ENC"
  by (simp add: ENC_def)

lemma ENC_ne_pad: "i < 64 \<Longrightarrow> ENC ! i \<noteq> CHR ''=''"
  using ENC_not_pad_all by (simp add: list_all_length length_ENC)

lemma and_63_bound: "unat (x AND 0x3F :: u32) < 64"
proof -
  have "x AND 0x3F = take_bit 6 x" by (simp add: take_bit_eq_mask mask_eq_exp_minus_1)
  then show ?thesis using take_bit_nat_less_exp [of 6 "unat x"] by (simp add: unsigned_take_bit_eq)
qed

lemma sym_ne_pad: "sym k v \<noteq> CHR ''=''"
  by (simp add: sym_def ENC_ne_pad and_63_bound)


subsection \<open>Groups\<close>

lemma and_63: "(x :: u32) AND 0x3F = take_bit 6 x"
  by (simp add: take_bit_eq_mask mask_eq_exp_minus_1)

text \<open>What the decoder looks up for the symbol at bit \<open>k\<close>.\<close>

definition sextet :: "nat \<Rightarrow> u32 \<Rightarrow> u8" where
  "sextet k v = ucast (take_bit 6 (drop_bit k v))"

lemma DEC_sym: "DEC (sym k v) = sextet k v"
  unfolding sym_def sextet_def by (subst DEC_ENC [OF and_63_bound]) (simp only: and_63 of_nat_unat)

lemma bit_sextet: "bit (sextet k v) n \<longleftrightarrow> n < 6 \<and> bit v (k + n)"
  by (auto simp: sextet_def bit_unsigned_iff bit_take_bit_iff bit_drop_bit_eq)

lemma bit_word24:
  "bit (word24 a b c) n \<longleftrightarrow> bit c n \<or> (8 \<le> n \<and> bit b (n - 8)) \<or> (16 \<le> n \<and> bit a (n - 16))"
  by (auto simp: word24_def bit_or_iff bit_push_bit_iff bit_unsigned_iff dest: bit_imp_le_length)

lemma u8_bits: "bit (a :: u8) n \<Longrightarrow> n < 8"
  using bit_imp_le_length [of a n] by simp

lemma u8_no_high_bit: "8 \<le> n \<Longrightarrow> \<not> bit (a :: u8) n"
  using u8_bits [of a n] by auto

lemma below_8: "(n :: nat) < 8 \<longleftrightarrow> n = 0 \<or> n = 1 \<or> n = 2 \<or> n = 3 \<or> n = 4 \<or> n = 5 \<or> n = 6 \<or> n = 7"
  by auto

lemmas group_bits = bit_sextet bit_word24 bit_or_iff bit_push_bit_iff bit_drop_bit_eq u8_no_high_bit

lemma out_word24:
  shows "out1 (sextet 18 (word24 a b c)) (sextet 12 (word24 a b c)) = a"
    and "out2 (sextet 12 (word24 a b c)) (sextet 6 (word24 a b c)) = b"
    and "out3 (sextet 6 (word24 a b c)) (sextet 0 (word24 a b c)) = c"
    subgoal unfolding out1_def
      by (rule bit_eqI) (auto simp: group_bits below_8; simp add: numeral_2_eq_2 numeral_3_eq_3)
    subgoal unfolding out2_def
      by (rule bit_eqI) (auto simp: group_bits below_8; simp add: numeral_2_eq_2 numeral_3_eq_3)
    subgoal unfolding out3_def
      by (rule bit_eqI) (auto simp: group_bits below_8; simp add: numeral_2_eq_2 numeral_3_eq_3)
  done


lemma sextet_not_ff: "sextet i v OR sextet j w \<noteq> 0xFF" "sextet i v OR sextet j w OR sextet k x \<noteq> 0xFF"
  "sextet i v OR sextet j w OR sextet k x OR sextet l y \<noteq> 0xFF"
proof -
  have no7: "\<not> bit (sextet i v) 7" for i v by (simp add: bit_sextet)
  have ff: "bit (0xFF :: u8) 7" by simp
  show "sextet i v OR sextet j w \<noteq> 0xFF" "sextet i v OR sextet j w OR sextet k x \<noteq> 0xFF"
    "sextet i v OR sextet j w OR sextet k x OR sextet l y \<noteq> 0xFF"
    using no7 ff by (metis bit_or_iff)+
qed

lemma decode_encode_groups: "decode_groups (encode_groups bs) = Some bs"
  by (induction bs rule: encode_groups.induct) (simp_all add: Let_def DEC_sym sextet_not_ff out_word24)

lemma length_encode_groups: "length (encode_groups bs) = B64URL_ENCODED_LEN (length bs)"
  by (induction bs rule: encode_groups.induct) (simp_all add: Let_def B64URL_ENCODED_LEN_def)

lemma encode_groups_no_pad: "c \<in> set (encode_groups bs) \<Longrightarrow> c \<noteq> CHR ''=''"
  by (induction bs rule: encode_groups.induct) (auto simp: Let_def sym_ne_pad sym_ne_pad [symmetric])

lemma strip_pad_encode: "strip_pad (encode_groups bs @ replicate k (CHR ''='')) = encode_groups bs"
proof -
  have drop: "dropWhile (\<lambda>c. c = CHR ''='') (replicate k (CHR ''='') @ xs) = dropWhile (\<lambda>c. c = CHR ''='') xs" for xs
    by (induction k) auto
  have "dropWhile (\<lambda>c. c = CHR ''='') (rev (encode_groups bs)) = rev (encode_groups bs)"
    using encode_groups_no_pad [of "last (encode_groups bs)" bs]
    by (cases "encode_groups bs" rule: rev_cases) auto
  then show ?thesis by (simp add: strip_pad_def drop)
qed

lemma decoded_size:
  "B64URL_ENCODED_LEN n mod 4 \<noteq> 1"
  "(B64URL_ENCODED_LEN n div 4 * 3 +
     (if B64URL_ENCODED_LEN n mod 4 \<noteq> 0 then B64URL_ENCODED_LEN n mod 4 - 1 else 0)) = n"
proof -
  obtain q r where n: "n = 3 * q + r" "r < 3" by (metis div_mult_mod_eq mod_less_divisor mult.commute zero_less_numeral)
  then have "B64URL_ENCODED_LEN n = 4 * q + (if r = 0 then 0 else r + 1)"
    by (auto simp: B64URL_ENCODED_LEN_def)
  with n show "B64URL_ENCODED_LEN n mod 4 \<noteq> 1"
    "(B64URL_ENCODED_LEN n div 4 * 3 +
       (if B64URL_ENCODED_LEN n mod 4 \<noteq> 0 then B64URL_ENCODED_LEN n mod 4 - 1 else 0)) = n"
    by auto
qed

lemma ff_or [simp]: "(0xFF :: u8) OR x = 0xFF" "x OR (0xFF :: u8) = 0xFF"
proof -
  have ff: "(0xFF :: u8) = - 1" by simp
  have o: "(- 1 :: u8) OR x = - 1" "x OR (- 1 :: u8) = - 1" by (auto intro: bit_eqI simp: bit_or_iff)
  show "(0xFF :: u8) OR x = 0xFF" unfolding ff by (rule o)
  show "x OR (0xFF :: u8) = 0xFF" unfolding ff by (rule o)
qed

lemma decode_groups_alphabet:
  assumes "decode_groups s = Some bs" and "length s mod 4 \<noteq> 1"
  shows "\<forall>c \<in> set s. DEC c \<noteq> 0xFF"
  using assms
proof (induction s arbitrary: bs rule: decode_groups.induct)
  case (1 p q r s rest)
  then obtain bs' where "decode_groups rest = Some bs'" "DEC p OR DEC q OR DEC r OR DEC s \<noteq> 0xFF"
    by (auto simp: Let_def split: if_splits option.splits)
  with 1 show ?case by (auto simp: Let_def)
qed (auto simp: Let_def split: if_splits)

lemma length_decode_groups:
  assumes "decode_groups s = Some bs" and "length s mod 4 \<noteq> 1"
  shows "length bs = length s div 4 * 3 + (if length s mod 4 \<noteq> 0 then length s mod 4 - 1 else 0)"
  using assms
proof (induction s arbitrary: bs rule: decode_groups.induct)
  case (1 p q r s rest)
  then obtain bs' where bs': "decode_groups rest = Some bs'" "DEC p OR DEC q OR DEC r OR DEC s \<noteq> 0xFF"
      "length bs = 3 + length bs'"
    by (auto simp: Let_def split: if_splits option.splits)
  have "length (p # q # r # s # rest) = 4 + length rest" by simp
  with 1(1) [OF refl refl refl refl bs'(2,1)] 1(3) bs'(3) show ?case
    by (simp add: div_add_self1 mod_add_self1 del: length_Cons)
qed (auto simp: Let_def split: if_splits)

lemma fold_table_out:
  assumes "c \<notin> set xs" and "n \<le> length xs"
  shows "fold (\<lambda>i d. d(xs ! i := f i)) [0..<n] g c = g c"
  using assms(2)
proof (induction n)
  case (Suc n)
  moreover from Suc.prems have "xs ! n \<in> set xs" by simp
  ultimately show ?case using assms(1) by auto
qed simp

lemma DEC_in_alphabet: "DEC c \<noteq> 0xFF \<Longrightarrow> c \<in> set ENC"
  using fold_table_out [of c ENC 64 of_nat "\<lambda>_. 0xFF"] by (auto simp: dec_init_def length_ENC)

subsection \<open>Properties\<close>

text \<open>
  What is encoded is decoded back. The encoding of any bytes has exactly the announced length
  and is refused only when the buffer cannot hold it with its NUL; decoding it, with or without
  padding, gives the bytes back exactly when they fit.
\<close>

theorem b64url_roundtrip:
  "b64url_encode bs out_cap =
     (if out_cap < B64URL_ENCODED_LEN (length bs) + 1 then (0, None)
      else (B64URL_ENCODED_LEN (length bs), Some (encode_groups bs))) \<and>
   b64url_decode (encode_groups bs @ replicate k (CHR ''='')) cap = (if length bs \<le> cap then Some bs else None)"
  unfolding b64url_decode_def Let_def strip_pad_encode length_encode_groups decoded_size(2)
  using decoded_size(1) [of "length bs"]
  by (auto simp: b64url_encode_def Let_def length_encode_groups decode_encode_groups)

text \<open>
  The decoder never accepts what is not base64url: whatever it returns fits the output buffer,
  and every character before the padding is one of the 64 symbols.
\<close>

theorem b64url_decode_strict:
  assumes "b64url_decode s cap = Some bs"
  shows "length bs \<le> cap \<and> set (strip_pad s) \<subseteq> set ENC \<and> length (strip_pad s) mod 4 \<noteq> 1"
  using assms decode_groups_alphabet [of "strip_pad s" bs] length_decode_groups [of "strip_pad s" bs]
    DEC_in_alphabet
  by (auto simp: b64url_decode_def Let_def split: if_splits)

theorem b64url_decode_strict_witness:
  "set (strip_pad (encode_groups [1, 2, 3, 4])) \<subseteq> set ENC"
proof -
  have "b64url_decode (encode_groups [1, 2, 3, 4]) 4 = Some [1, 2, 3, 4]"
    using strip_pad_encode [of "[1, 2, 3, 4]" 0]
    by (simp add: b64url_decode_def decode_encode_groups length_encode_groups B64URL_ENCODED_LEN_def
        del: encode_groups.simps)
  from b64url_decode_strict [OF this] show ?thesis by simp
qed

end
