(* ===== verification/WsFrame.thy ===== *)
theory WsFrame
  imports B64url
begin

section \<open>WebSocket framing\<close>

text \<open>
  The model of \<^verbatim>\<open>stm32h563/src/ws_frame.c\<close>: the masked client frame the cloud client sends, the
  parser of the server's frames out of a receive buffer, and the handshake key. The random generator
  is a parameter. \<open>rfc_decode\<close> and \<open>server_frame\<close> state RFC 6455 independently of the code: what a
  conforming server reads, and what it sends.
\<close>

definition WS_OP_CONT :: u8 where "WS_OP_CONT = 0"
definition WS_PARSE_FRAGMENTED :: int where "WS_PARSE_FRAGMENTED = - 2"

record ws_frame_t =
  ws_opcode :: u8
  ws_fin :: bool
  ws_payload :: "u8 list"
  ws_payload_len :: nat

definition mask_bytes :: "u8 list \<Rightarrow> u8 list \<Rightarrow> u8 list" where
  "mask_bytes key payload = map (\<lambda>i. payload ! i XOR key ! (i mod 4)) [0..<length payload]"

text \<open>The frame written to \<^verbatim>\<open>out\<close>; the C's 0 is the empty list.\<close>

definition ws_build_frame :: "u8 \<Rightarrow> u8 list \<Rightarrow> u8 list \<Rightarrow> nat \<Rightarrow> u8 list" where
  "ws_build_frame opcode payload mask_key out_cap =
     (let len = length payload in
      if len > 0xFFFF then []
      else
        let hdr = 2 + (if len \<ge> 126 then 2 else 0) + 4 in
        if out_cap < hdr + len then []
        else
          let b0 = 0x80 OR (opcode AND 0x0F);
              b1 = (if len < 126 then [0x80 OR of_nat len]
                    else [0x80 OR 126, of_nat (len div 256), of_nat len AND 0xFF])
          in b0 # b1 @ take 4 mask_key @ mask_bytes mask_key payload)"

definition be :: "u8 list \<Rightarrow> nat" where
  "be bs = foldl (\<lambda>n b. n * 256 + unat b) 0 bs"

text \<open>
  The return value (bytes consumed, 0 for more needed, negative for refused) and the frame. The
  64-bit length is read whole: eight bytes do not overflow it.
\<close>

definition ws_fill :: "u8 list \<Rightarrow> nat \<Rightarrow> nat \<Rightarrow> int \<times> ws_frame_t option" where
  "ws_fill buf offset n =
     (if length buf < offset + n then (0, None)
      else (int (offset + n),
            Some \<lparr>ws_opcode = buf ! 0 AND 0x0F, ws_fin = (buf ! 0 AND 0x80 \<noteq> 0),
                  ws_payload = take n (drop offset buf), ws_payload_len = n\<rparr>))"

definition ws_parse_frame :: "u8 list \<Rightarrow> int \<times> ws_frame_t option" where
  "ws_parse_frame buf =
     (if length buf < 2 then (0, None)
      else
        let b0 = buf ! 0; b1 = buf ! 1 in
        if b1 AND 0x80 \<noteq> 0 then (- 1, None)
        else if b0 AND 0x70 \<noteq> 0 then (- 1, None)
        else if b0 AND 0x80 = 0 \<or> b0 AND 0x0F = WS_OP_CONT then (WS_PARSE_FRAGMENTED, None)
        else
          let l7 = unat (b1 AND 0x7F) in
          if l7 = 126 then
            (if length buf < 4 then (0, None) else ws_fill buf 4 (be (take 2 (drop 2 buf))))
          else if l7 = 127 then
            (if length buf < 10 then (0, None)
             else let n = be (take 8 (drop 2 buf)) in if n > 0xFFFF then (- 1, None) else ws_fill buf 10 n)
          else ws_fill buf 2 l7)"

definition B64 :: string where
  "B64 = ''ABCDEFGHIJKLMNOPQRSTUVWXYZabcdefghijklmnopqrstuvwxyz0123456789+/''"

definition sym64 :: "nat \<Rightarrow> u32 \<Rightarrow> char" where
  "sym64 k v = B64 ! unat (drop_bit k v AND 0x3F)"

fun sec_groups :: "u8 list \<Rightarrow> string" where
  "sec_groups (a # b # c # rest) =
     (let v = word24 a b c in sym64 18 v # sym64 12 v # sym64 6 v # sym64 0 v # sec_groups rest)"
| "sec_groups (a # _) = (let v = word24 a 0 0 in [sym64 18 v, sym64 12 v, CHR ''='', CHR ''=''])"
| "sec_groups [] = []"

definition le64 :: "u64 \<Rightarrow> u8 list" where
  "le64 r = map (\<lambda>i. ucast (drop_bit (8 * i) r)) [0..<8]"

text \<open>Two draws of the random generator are the 16 key bytes.\<close>

definition ws_make_sec_key :: "u64 \<Rightarrow> u64 \<Rightarrow> cstr" where
  "ws_make_sec_key r0 r1 = sec_groups (le64 r0 @ le64 r1)"

subsection \<open>RFC 6455\<close>

text \<open>A frame as a server reads it: FIN, opcode, the unmasked payload, and what follows it.\<close>

definition rfc_decode :: "u8 list \<Rightarrow> (bool \<times> u8 \<times> u8 list \<times> u8 list) option" where
  "rfc_decode bs =
     (case bs of
        b0 # b1 # rest \<Rightarrow>
          (let fin = bit b0 7; opcode = take_bit 4 b0; l7 = unat (take_bit 7 b1);
               ext = (if l7 < 126 then 0 else if l7 = 126 then 2 else 8);
               n = (if l7 < 126 then l7 else be (take ext rest));
               key = take 4 (drop ext rest);
               data = drop (ext + 4) rest
           in if \<not> bit b1 7 \<or> length data < n then None
              else Some (fin, opcode, map (\<lambda>i. data ! i XOR key ! (i mod 4)) [0..<n], drop n data))
      | _ \<Rightarrow> None)"

text \<open>The forms of an unfragmented server frame: 7-bit, 16-bit and 64-bit length.\<close>

datatype len_form = L7 | L16 | L64

fun be_bytes :: "nat \<Rightarrow> nat \<Rightarrow> u8 list" where
  "be_bytes 0 n = []"
| "be_bytes (Suc k) n = be_bytes k (n div 256) @ [of_nat n]"

fun form_ok :: "len_form \<Rightarrow> nat \<Rightarrow> bool" where
  "form_ok L7 n \<longleftrightarrow> n < 126"
| "form_ok L16 n \<longleftrightarrow> n < 65536"
| "form_ok L64 n \<longleftrightarrow> n < 65536"

fun len_bytes :: "len_form \<Rightarrow> nat \<Rightarrow> u8 list" where
  "len_bytes L7 n = [of_nat n]"
| "len_bytes L16 n = 126 # be_bytes 2 n"
| "len_bytes L64 n = 127 # be_bytes 8 n"

definition server_frame :: "len_form \<Rightarrow> u8 \<Rightarrow> u8 list \<Rightarrow> u8 list" where
  "server_frame form opcode payload = (0x80 OR opcode) # len_bytes form (length payload) @ payload"

subsection \<open>Lengths\<close>

lemma be_append: "be (xs @ [b]) = be xs * 256 + unat b"
  by (simp add: be_def)

lemma length_be_bytes [simp]: "length (be_bytes k n) = k"
  by (induction k arbitrary: n) auto

lemma be_be_bytes: "n < 256 ^ k \<Longrightarrow> be (be_bytes k n) = n"
proof (induction k arbitrary: n)
  case (Suc k)
  then have "n div 256 < 256 ^ k" by (simp add: less_mult_imp_div_less mult.commute)
  with Suc.IH show ?case by (simp add: be_append unat_of_nat)
qed (simp add: be_def)

lemma length_mask_bytes [simp]: "length (mask_bytes key p) = length p"
  by (simp add: mask_bytes_def)

text \<open>Masking twice with the same key is the identity.\<close>

lemma unmask_mask:
  "map (\<lambda>i. (mask_bytes key p @ rest) ! i XOR key ! (i mod 4)) [0..<length p] = p"
  by (rule nth_equalityI) (simp_all add: mask_bytes_def nth_append xor.assoc)


subsection \<open>Header bytes\<close>

lemma and_80: "(b :: u8) AND 0x80 = 0 \<longleftrightarrow> \<not> bit b 7"
  using and_exp_eq_0_iff_not_bit [of b 7] by simp

lemma and_7f: "(b :: u8) AND 0x7F = take_bit 7 b"
  by (simp add: take_bit_eq_mask mask_eq_exp_minus_1)

lemma and_0f: "(b :: u8) AND 0x0F = take_bit 4 b"
  by (simp add: take_bit_eq_mask mask_eq_exp_minus_1)

lemma bit_80: "bit (0x80 :: u8) n \<longleftrightarrow> n = 7"
proof -
  have "(0x80 :: u8) = 2 ^ 7" by simp
  then show ?thesis by (auto simp only: bit_exp_iff possible_bit_word) simp_all
qed

lemma op_byte:
  fixes op :: u8
  shows "bit (0x80 OR take_bit 4 op) 7" and "take_bit 4 (0x80 OR take_bit 4 op) = take_bit 4 op"
    and "(0x80 OR take_bit 4 op) AND 0x70 = 0"
proof -
  show "bit (0x80 OR take_bit 4 op) 7" by (simp add: bit_or_iff)
  show "take_bit 4 (0x80 OR take_bit 4 op) = take_bit 4 op"
    by (rule bit_eqI) (auto simp: bit_take_bit_iff bit_or_iff bit_80)
  show "(0x80 OR take_bit 4 op) AND 0x70 = 0"
    by (rule bit_eqI) (auto simp: bit_and_iff bit_or_iff bit_take_bit_iff bit_80 below_8)
qed

lemma len_byte:
  assumes "n < 128"
  shows "\<not> bit (of_nat n :: u8) 7" and "unat (take_bit 7 (of_nat n :: u8)) = n"
    and "take_bit 7 (0x80 OR of_nat n :: u8) = of_nat n" and "bit (0x80 OR of_nat n :: u8) 7"
proof -
  have t: "take_bit 7 (of_nat n :: u8) = of_nat n"
    using assms by (simp add: take_bit_eq_mod word_arith_nat_mod unat_of_nat)
  then have bits: "bit (of_nat n :: u8) k \<Longrightarrow> k < 7" for k by (metis bit_take_bit_iff)
  then show "\<not> bit (of_nat n :: u8) 7" by blast
  show "unat (take_bit 7 (of_nat n :: u8)) = n" using assms by (simp add: t unat_of_nat)
  show "take_bit 7 (0x80 OR of_nat n :: u8) = of_nat n"
    by (rule bit_eqI) (auto simp: bit_take_bit_iff bit_or_iff bit_80 dest: bits)
  show "bit (0x80 OR of_nat n :: u8) 7" by (simp add: bit_or_iff bit_80)
qed


lemma be_16:
  assumes "n < 65536"
  shows "be [of_nat (n div 256), of_nat n AND 0xFF] = n"
proof -
  have ff: "(x :: u8) AND 0xFF = x" for x
  proof -
    have "(0xFF :: u8) = - 1" by simp
    then show ?thesis by (simp only: and.right_neutral)
  qed
  have "n div 256 < 256" using assms by (simp add: less_mult_imp_div_less)
  then show ?thesis unfolding ff by (simp add: be_def unat_of_nat)
qed

lemma rfc_decode_short:
  assumes "n = length p" and "n < 126" and "length key = 4" and "bit b0 7"
  shows "rfc_decode (b0 # (0x80 OR of_nat n) # key @ mask_bytes key p @ rest) =
     Some (True, take_bit 4 b0, p, rest)"
proof -
  have l: "take_bit 7 (0x80 OR of_nat n :: u8) = of_nat n" "bit (0x80 OR of_nat n :: u8) 7"
    "unat (of_nat n :: u8) = n"
    using len_byte [of n] assms(2) by (simp_all add: unat_of_nat)
  show ?thesis
    unfolding rfc_decode_def using assms unmask_mask [of key p rest] l
    by (simp add: Let_def)
qed

lemma rfc_decode_long:
  assumes "n = length p" and "n < 65536" and "length key = 4" and "bit b0 7"
  shows "rfc_decode (b0 # (0x80 OR 126) # of_nat (n div 256) # (of_nat n AND 0xFF) # key @ mask_bytes key p @ rest) =
     Some (True, take_bit 4 b0, p, rest)"
  unfolding rfc_decode_def using assms unmask_mask [of key p rest] be_16 [of n]
  by (simp add: Let_def)

lemma ws_build_frame_eq:
  assumes "length key = 4"
  shows "ws_build_frame op p key cap =
     (if length p > 0xFFFF \<or> cap < 6 + (if length p \<ge> 126 then 2 else 0) + length p then []
      else (0x80 OR take_bit 4 op) #
        (if length p < 126 then [0x80 OR of_nat (length p)]
         else [0x80 OR 126, of_nat (length p div 256), of_nat (length p) AND 0xFF]) @
        key @ mask_bytes key p)"
  using assms unfolding ws_build_frame_def and_0f Let_def by auto

subsection \<open>Parsing a stream\<close>

lemma taken_header:
  assumes "2 + length ext \<le> k" and "k \<le> 2 + length ext + length data"
  shows "take (length ext) (drop 2 (take k (b0 # b1 # ext @ data))) = ext"
    and "drop (2 + length ext) (take k (b0 # b1 # ext @ data)) = take (k - (2 + length ext)) data"
  using assms by (simp_all add: drop_take)

lemma parse_taken:
  assumes "2 \<le> k" and "k \<le> 2 + length ext + length data" and "\<not> bit b1 7" and "b0 AND 0x70 = 0" and "bit b0 7"
    and "take_bit 4 b0 \<noteq> 0"
    and form: "(unat (take_bit 7 b1) = n \<and> n < 126 \<and> ext = []) \<or>
      (unat (take_bit 7 b1) = 126 \<and> length ext = 2 \<and> be ext = n) \<or>
      (unat (take_bit 7 b1) = 127 \<and> length ext = 8 \<and> be ext = n \<and> n < 65536)"
  shows "ws_parse_frame (take k (b0 # b1 # ext @ data)) =
    (if k < 2 + length ext + n then (0, None)
     else (int (2 + length ext + n),
           Some \<lparr>ws_opcode = take_bit 4 b0, ws_fin = True, ws_payload = take n (take (k - (2 + length ext)) data),
                 ws_payload_len = n\<rparr>))"
proof -
  have len: "length (take k (b0 # b1 # ext @ data)) = k" using assms(2) by simp
  have b: "take k (b0 # b1 # ext @ data) ! 0 = b0" "take k (b0 # b1 # ext @ data) ! 1 = b1"
    using assms(1) by simp_all
  note h = taken_header [OF _ assms(2), of b0 b1]
  let ?buf = "take k (b0 # b1 # ext @ data)"
  have hd: "ws_parse_frame ?buf =
     (let l7 = unat (take_bit 7 b1);
          fill = (\<lambda>offset n.
             if k < offset + n then (0, None)
             else (int (offset + n),
                   Some \<lparr>ws_opcode = take_bit 4 b0, ws_fin = True,
                         ws_payload = take n (drop offset ?buf), ws_payload_len = n\<rparr>))
      in if l7 = 126 then (if k < 4 then (0, None) else fill 4 (be (take 2 (drop 2 ?buf))))
         else if l7 = 127 then
           (if k < 10 then (0, None)
            else let n = be (take 8 (drop 2 ?buf)) in if n > 0xFFFF then (- 1, None) else fill 10 n)
         else fill 2 l7)"
    unfolding ws_parse_frame_def ws_fill_def len b Let_def and_80 and_7f and_0f WS_OP_CONT_def
    using assms(1,3-6) by simp
  from form consider (a) "unat (take_bit 7 b1) = n" "n < 126" "ext = []"
    | (b) "unat (take_bit 7 b1) = 126" "length ext = 2" "be ext = n"
    | (c) "unat (take_bit 7 b1) = 127" "length ext = 8" "be ext = n" "n < 65536" by blast
  then show ?thesis
  proof cases
    case a
    then have "drop 2 ?buf = take (k - 2) data" using h(2) assms(1) by simp
    with a show ?thesis unfolding hd Let_def by simp
  next
    case b
    show ?thesis
    proof (cases "k < 4")
      case False
      then have "take 2 (drop 2 ?buf) = ext" "drop 4 ?buf = take (k - 4) data" using h b(2) by simp_all
      with b False show ?thesis unfolding hd Let_def by simp
    qed (use b hd in simp)
  next
    case c
    show ?thesis
    proof (cases "k < 10")
      case False
      then have "take 8 (drop 2 ?buf) = ext" "drop 10 ?buf = take (k - 10) data" using h c(2) by simp_all
      with c False show ?thesis unfolding hd Let_def by simp
    qed (use c hd in simp)
  qed
qed

subsection \<open>Properties\<close>

text \<open>
  Every frame the pod sends is one a conforming server reads back. A frame is built exactly when
  the payload has at most 65535 bytes and the buffer has room for it, is never longer than the
  buffer, and RFC 6455 decodes it, whatever follows in the stream, to the final frame with this
  opcode and payload.
\<close>

theorem ws_build_frame_rfc:
  assumes "length mask_key = 4"
  shows "let f = ws_build_frame op p mask_key cap in (f = [] \<longleftrightarrow> length p > 0xFFFF \<or> cap < 6 + (if length p \<ge> 126 then 2 else 0) + length p) \<and>
    length f \<le> cap \<and> (f \<noteq> [] \<longrightarrow> rfc_decode (f @ rest) = Some (True, take_bit 4 op, p, rest))"
proof -
  note b = op_byte(1,2) [of op]
  show ?thesis
    using rfc_decode_short [OF refl _ assms(1) b(1), of p rest]
      rfc_decode_long [OF refl _ assms(1) b(1), of p rest] b(2) assms(1)
    unfolding Let_def ws_build_frame_eq [OF assms(1)] by auto
qed

theorem ws_build_frame_rfc_witness:
  "rfc_decode (ws_build_frame 1 [0x68, 0x69] [1, 2, 3, 4] 100 @ [7]) = Some (True, 1, [0x68, 0x69], [7])"
proof -
  have k: "length [1 :: u8, 2, 3, 4] = 4" by simp
  have "take_bit 4 (1 :: u8) = 1" by simp
  then show ?thesis using ws_build_frame_rfc [OF k, of 1 "[0x68, 0x69]" 100 "[7]"] by (auto simp: Let_def)
qed


lemma nibble: "(op :: u8) < 16 \<Longrightarrow> take_bit 4 op = op"
  by (simp add: take_bit_eq_mod word_arith_nat_mod word_less_nat_alt)

lemma server_frame_parse:
  assumes "form_ok form (length p)" and "op \<noteq> 0" and "op < 16" and "k \<le> length (server_frame form op p @ rest)"
  shows "ws_parse_frame (take k (server_frame form op p @ rest)) =
    (if k < length (server_frame form op p) then (0, None)
     else (int (length (server_frame form op p)),
           Some \<lparr>ws_opcode = op, ws_fin = True, ws_payload = p, ws_payload_len = length p\<rparr>))"
proof (cases "k < 2")
  case True
  moreover have "2 \<le> length (server_frame form op p)" by (cases form) (simp_all add: server_frame_def)
  ultimately show ?thesis by (simp add: ws_parse_frame_def)
next
  case False
  have b: "bit (0x80 OR op) 7" "take_bit 4 (0x80 OR op) = op" "(0x80 OR op) AND 0x70 = 0"
    using op_byte [of op] nibble [OF assms(3)] by simp_all
  obtain b1 ext where e: "len_bytes form (length p) = b1 # ext" by (cases form) auto
  have n: "\<not> bit b1 7" "(unat (take_bit 7 b1) = length p \<and> length p < 126 \<and> ext = []) \<or>
      (unat (take_bit 7 b1) = 126 \<and> length ext = 2 \<and> be ext = length p) \<or>
      (unat (take_bit 7 b1) = 127 \<and> length ext = 8 \<and> be ext = length p \<and> length p < 65536)"
    using e assms(1) len_byte [of "length p"] be_be_bytes [of "length p" 2] be_be_bytes [of "length p" 8]
    by (cases form; auto)+
  have f: "server_frame form op p @ rest = (0x80 OR op) # b1 # ext @ (p @ rest)"
    "length (server_frame form op p) = 2 + length ext + length p"
    by (simp_all add: server_frame_def e)
  have k: "2 \<le> k" "k \<le> 2 + length ext + length (p @ rest)" using False assms(4) f by simp_all
  have "take_bit 4 (0x80 OR op) \<noteq> 0" using b(2) assms(2) by simp
  from parse_taken [OF k n(1) b(3,1) this n(2)]
  show ?thesis unfolding f b(2) by simp
qed

text \<open>
  C23. The parser finds the server's frames in the stream whatever way it is cut into reads. For a
  whole frame in any of the three length forms RFC 6455 has, followed by anything: every shorter
  prefix asks for more, and every longer one yields the payload and consumes exactly the frame.
\<close>

theorem ws_parse_stream:
  assumes "form_ok form (length p)" and "op \<noteq> 0" and "op < 16" and "k \<le> length (server_frame form op p @ rest)"
  shows "ws_parse_frame (take k (server_frame form op p @ rest)) =
    (if k < length (server_frame form op p) then (0, None)
     else (int (length (server_frame form op p)),
           Some \<lparr>ws_opcode = op, ws_fin = True, ws_payload = p, ws_payload_len = length p\<rparr>))"
  by (rule server_frame_parse [OF assms])

theorem ws_parse_stream_witness:
  "ws_parse_frame (take 3 (server_frame L7 1 [0x68, 0x69] @ [])) = (0, None)"
  using ws_parse_stream [of L7 "[0x68, 0x69]" 1 3 "[]"] by (simp add: server_frame_def)

lemma be_two: "length xs = 2 \<Longrightarrow> be xs \<le> 65535"
proof -
  assume "length xs = 2"
  then obtain x y where "xs = [x, y]" by (auto simp: length_Suc_conv numeral_2_eq_2)
  then show ?thesis using unat_u8_bound [of x] unat_u8_bound [of y]
    by (simp add: be_def)
qed

lemma take_bit_7_bound: "unat (take_bit 7 (b :: u8)) < 128"
  using take_bit_nat_less_exp [of 7 "unat b"] by (simp add: unsigned_take_bit_eq)

lemma ws_parse_frame_SomeD:
  assumes "ws_parse_frame buf = (c, Some f)"
  obtains a n where "ws_fill buf a n = (c, Some f)" and "2 \<le> a" and "n \<le> 65535"
    and "\<not> bit (buf ! 1) 7" and "bit (buf ! 0) 7" and "buf ! 0 AND 0x0F \<noteq> WS_OP_CONT"
proof -
  let ?l = "unat (take_bit 7 (buf ! 1))"
  have hdr: "\<not> bit (buf ! 1) 7" "bit (buf ! 0) 7" "buf ! 0 AND 0x0F \<noteq> WS_OP_CONT"
    using assms unfolding ws_parse_frame_def Let_def and_80 by (simp_all split: if_splits)
  from assms consider "ws_fill buf 2 ?l = (c, Some f)"
    | "4 \<le> length buf" "ws_fill buf 4 (be (take 2 (drop 2 buf))) = (c, Some f)"
    | n where "ws_fill buf 10 n = (c, Some f)" "n \<le> 65535"
    unfolding ws_parse_frame_def Let_def and_7f by (simp split: if_splits)
  then show ?thesis
  proof cases
    case 1
    then show ?thesis using that [OF 1 _ _ hdr] take_bit_7_bound [of "buf ! 1"] by simp
  next
    case 2
    then show ?thesis using that [OF 2(2) _ _ hdr] be_two [of "take 2 (drop 2 buf)"] by simp
  next
    case 3
    then show ?thesis using that [OF 3(1) _ 3(2) hdr] by simp
  qed
qed

text \<open>
  The parser never reads outside its buffer, and what it hands on is one whole, final frame:
  a positive count is within the buffer, the payload is the last part of the consumed bytes and at
  most 65535 long, and the frame is neither masked nor a continuation nor part of a fragmented message.
\<close>

theorem ws_parse_frame_safe:
  assumes "ws_parse_frame buf = (c, Some f)"
  shows "0 < c \<and> nat c \<le> length buf \<and> ws_payload_len f \<le> 65535 \<and> ws_payload_len f = length (ws_payload f) \<and>
    take (nat c) buf = take (nat c - ws_payload_len f) buf @ ws_payload f \<and>
    ws_fin f \<and> ws_opcode f \<noteq> WS_OP_CONT \<and> \<not> bit (buf ! 1) 7"
proof -
  obtain a n where an: "ws_fill buf a n = (c, Some f)" "2 \<le> a" "n \<le> 65535"
      "\<not> bit (buf ! 1) 7" "bit (buf ! 0) 7" "buf ! 0 AND 0x0F \<noteq> WS_OP_CONT"
    using assms by (rule ws_parse_frame_SomeD)
  have "take (a + n) buf = take a buf @ take n (drop a buf)" by (simp add: take_add)
  with an show ?thesis by (auto simp: ws_fill_def and_80 nat_add_distrib split: if_splits)
qed

theorem ws_parse_frame_safe_witness:
  "nat 4 \<le> length (server_frame L7 1 [0x68, 0x69])"
proof -
  have "ws_parse_frame (take 4 (server_frame L7 1 [0x68, 0x69] @ [])) =
      (4, Some \<lparr>ws_opcode = 1, ws_fin = True, ws_payload = [0x68, 0x69], ws_payload_len = 2\<rparr>)"
    by (subst server_frame_parse) (simp_all add: server_frame_def)
  from ws_parse_frame_safe [OF this] show ?thesis by (simp add: server_frame_def)
qed


subsection \<open>The handshake key\<close>

definition to_b64 :: "char \<Rightarrow> char" where
  "to_b64 c = (if c = CHR ''-'' then CHR ''+'' else if c = CHR ''_'' then CHR ''/'' else c)"

lemma B64_ENC: "map to_b64 ENC = B64"
  by (simp add: ENC_def B64_def to_b64_def)

lemma sym64_sym: "sym64 k v = to_b64 (sym k v)"
  using and_63_bound [of "drop_bit k v"] by (simp add: sym64_def sym_def B64_ENC [symmetric] length_ENC)

lemma sec_groups_encode:
  "length bs mod 3 = 1 \<Longrightarrow> sec_groups bs = map to_b64 (encode_groups bs) @ ''==''"
proof (induction bs rule: encode_groups.induct)
  case (1 a b c rest)
  have "length (a # b # c # rest) = 3 + length rest" by simp
  with 1 show ?case by (simp add: Let_def sym64_sym del: length_Cons)
qed (simp_all add: Let_def sym64_sym)

lemma length_le64 [simp]: "length (le64 r) = 8"
  by (simp add: le64_def)

text \<open>
  The handshake key is a valid one: for every outcome of the random generator it has the 24
  characters the header needs, is the padded base64 of the sixteen random bytes in order, and a
  decoder recovers exactly those sixteen bytes.
\<close>

theorem ws_make_sec_key_valid:
  "length (ws_make_sec_key r0 r1) = 24 \<and>
   ws_make_sec_key r0 r1 = map to_b64 (encode_groups (le64 r0 @ le64 r1)) @ ''=='' \<and>
   b64url_decode (encode_groups (le64 r0 @ le64 r1)) 16 = Some (le64 r0 @ le64 r1)"
  using strip_pad_encode [of "le64 r0 @ le64 r1" 0]
  by (simp add: ws_make_sec_key_def sec_groups_encode length_encode_groups B64URL_ENCODED_LEN_def
      b64url_decode_def decode_encode_groups del: encode_groups.simps)

end
