(* ===== verification/CloudRx.thy ===== *)
theory CloudRx
  imports WsFrame Sinks
begin

section \<open>The cloud client's receive path\<close>

text \<open>
  The model of \<^verbatim>\<open>stm32h563/src/cloud_rx.c\<close> and of the code of \<^verbatim>\<open>cloud_client.c\<close> around it: the
  segments the TLS layer hands up (\<open>cl_recv_cb\<close>), the accumulator, the loop that takes whole
  WebSocket frames out of it (\<open>cl_process_ws_frames\<close>), the connected state's poll, and the drop of the
  link. What a text frame does is a parameter \<open>on_text\<close> of the loop: it maps the rest of the client's state
  and the payload to the new state, whether the frame was taken (false: the worker queue is full), and the
  reason when the handler dropped the link. The dispatched frames are recorded in \<open>handled\<close>, the reason of
  the last drop in \<open>last_drop\<close>. Times are microseconds since boot. Of sending only the results are here, for
  a failed send drops the link too. A drop also ends the lease and the tunnels, which are not part of this state, and
  the error callback is that of a link that is up.
\<close>

definition BP_CLOUD_RX_ACCUM :: nat where "BP_CLOUD_RX_ACCUM = 16384"

definition WS_OP_TEXT :: u8 where "WS_OP_TEXT = 1"
definition WS_OP_CLOSE :: u8 where "WS_OP_CLOSE = 8"
definition WS_OP_PING :: u8 where "WS_OP_PING = 9"

lemmas ws_ops = WS_OP_CONT_def WS_OP_TEXT_def WS_OP_CLOSE_def WS_OP_PING_def

subsection \<open>The accumulator\<close>

definition cloud_rx_append :: "u8 list \<Rightarrow> nat \<Rightarrow> u8 list \<Rightarrow> u8 list \<times> bool" where
  "cloud_rx_append buf cap data = (if length data > cap - length buf then (buf, False) else (buf @ data, True))"

definition cloud_rx_consume :: "u8 list \<Rightarrow> nat \<Rightarrow> u8 list" where
  "cloud_rx_consume buf n = (if n \<ge> length buf then [] else drop n buf)"

definition cloud_rx_refuse :: "nat \<Rightarrow> nat \<Rightarrow> nat \<Rightarrow> bool" where
  "cloud_rx_refuse cap len incoming \<longleftrightarrow> incoming > cap - len \<and> len > 0"

lemma cloud_rx_consume_drop [simp]: "cloud_rx_consume buf n = drop n buf"
  by (simp add: cloud_rx_consume_def)

interpretation rx: byte_sink "\<lambda>buf :: u8 list. length buf \<le> BP_CLOUD_RX_ACCUM" "\<lambda>buf. buf"
  "\<lambda>buf. BP_CLOUD_RX_ACCUM - length buf" "\<lambda>buf data. fst (cloud_rx_append buf BP_CLOUD_RX_ACCUM data)"
  by unfold_locales (auto simp: cloud_rx_append_def)

subsection \<open>The client's link\<close>

definition PING_INTERVAL_MS :: nat where "PING_INTERVAL_MS = 6000"
definition IDLE_TIMEOUT_MS :: nat where "IDLE_TIMEOUT_MS = 20000"
definition OTA_IDLE_TIMEOUT_MS :: nat where "OTA_IDLE_TIMEOUT_MS = 2 * PING_INTERVAL_MS"
definition BACKOFF_START_MS :: nat where "BACKOFF_START_MS = 2000"
definition BACKOFF_MAX_MS :: nat where "BACKOFF_MAX_MS = 30000"
definition CONN_STABLE_MS :: nat where "CONN_STABLE_MS = 10000"

record link =
  s_rx :: "u8 list"
  s_rx_overflow :: bool
  s_rx_refused :: bool
  s_dropped :: bool
  s_last_rx :: int
  s_pend :: bool
  s_next_ping :: int
  s_backoff_reset_pending :: bool
  s_stable_at :: int
  s_backoff_ms :: nat
  s_deadline :: int
  connected :: bool
  last_error :: "cstr option"
  last_drop :: "cstr option"
  handled :: "(u8 \<times> u8 list) list"

definition make_timeout_time_ms :: "int \<Rightarrow> nat \<Rightarrow> int" where
  "make_timeout_time_ms now ms = now + 1000 * int ms"

text \<open>The link as the state \<^verbatim>\<open>CL_CONNECTED\<close> is entered, at \<open>now\<close>, after drops that left \<open>backoff\<close>.\<close>

definition link_up :: "int \<Rightarrow> nat \<Rightarrow> link" where
  "link_up now backoff = \<lparr>s_rx = [], s_rx_overflow = False, s_rx_refused = False, s_dropped = False, s_last_rx = now,
     s_pend = False, s_next_ping = make_timeout_time_ms now PING_INTERVAL_MS, s_backoff_reset_pending = True,
     s_stable_at = make_timeout_time_ms now CONN_STABLE_MS, s_backoff_ms = backoff, s_deadline = now,
     connected = True, last_error = None, last_drop = None, handled = []\<rparr>"

definition cl_rx_append :: "link \<Rightarrow> u8 list \<Rightarrow> link" where
  "cl_rx_append l data =
     (case cloud_rx_append (s_rx l) BP_CLOUD_RX_ACCUM data of
        (_, False) \<Rightarrow> l\<lparr>s_rx_overflow := True\<rparr>
      | (buf, True) \<Rightarrow> l\<lparr>s_rx := buf\<rparr>)"

text \<open>
  The segment is a chain of buffers, \<open>None\<close> the server's FIN; false is \<^verbatim>\<open>ERR_MEM\<close>, the TLS layer keeps the data.
\<close>

definition cl_recv_cb :: "int \<Rightarrow> link \<Rightarrow> u8 list list option \<Rightarrow> link \<times> bool" where
  "cl_recv_cb now l seg =
     (case seg of
        None \<Rightarrow> (l\<lparr>s_dropped := True\<rparr>, True)
      | Some p \<Rightarrow>
          let l = l\<lparr>s_last_rx := now\<rparr> in
          if cloud_rx_refuse BP_CLOUD_RX_ACCUM (length (s_rx l)) (length (concat p))
          then (l\<lparr>s_rx_refused := True\<rparr>, False)
          else (foldl cl_rx_append l p, True))"

definition cl_err_cb :: "link \<Rightarrow> link" where
  "cl_err_cb l = l\<lparr>s_dropped := True\<rparr>"

definition cl_set_error :: "cstr \<Rightarrow> link \<Rightarrow> link" where
  "cl_set_error e l = l\<lparr>last_error := Some (take 79 e)\<rparr>"

definition cl_drop_link :: "link \<Rightarrow> link" where
  "cl_drop_link l = l\<lparr>s_dropped := False, s_rx_overflow := False, s_rx := []\<rparr>"

definition cl_backoff :: "int \<Rightarrow> cstr \<Rightarrow> link \<Rightarrow> link" where
  "cl_backoff now reason l =
     (cl_drop_link (l\<lparr>s_pend := False\<rparr>))\<lparr>connected := False, s_deadline := make_timeout_time_ms now (s_backoff_ms l),
        s_backoff_ms := min (s_backoff_ms l * 2) BACKOFF_MAX_MS, last_drop := Some reason\<rparr>"

lemma cl_backoff_simps [simp]:
  "s_rx (cl_backoff now why l) = []" "\<not> s_rx_overflow (cl_backoff now why l)" "\<not> connected (cl_backoff now why l)"
  "handled (cl_backoff now why l) = handled l" "last_drop (cl_backoff now why l) = Some why"
  by (simp_all add: cl_backoff_def cl_drop_link_def)

lemma cl_set_error_simps [simp]:
  "s_rx (cl_set_error e l) = s_rx l" "connected (cl_set_error e l) = connected l"
  "handled (cl_set_error e l) = handled l" "s_rx_overflow (cl_set_error e l) = s_rx_overflow l"
  by (simp_all add: cl_set_error_def)

lemma parse_consumes:
  assumes "ws_parse_frame buf = (c, Some fr)"
  shows "length (drop (nat c) buf) < length buf"
proof -
  obtain a n where "ws_fill buf a n = (c, Some fr)" "2 \<le> a" using assms by (rule ws_parse_frame_SomeD)
  then show ?thesis by (auto simp: ws_fill_def split: if_splits)
qed

function cl_process_ws_frames ::
  "int \<Rightarrow> ('w \<Rightarrow> u8 list \<Rightarrow> 'w \<times> bool \<times> cstr option) \<Rightarrow> 'w \<Rightarrow> link \<Rightarrow> 'w \<times> link" where
  "cl_process_ws_frames now on_text w l =
     (case ws_parse_frame (s_rx l) of
        (c, None) \<Rightarrow>
          if c = 0 then (w, l)
          else if c = WS_PARSE_FRAGMENTED
          then (w, cl_backoff now ''fragmented ws frame'' (cl_set_error ''fragmented websocket message (not supported)'' l))
          else (w, cl_backoff now ''bad ws frame'' (cl_set_error ''bad websocket frame'' l))
      | (c, Some fr) \<Rightarrow>
          let l1 = l\<lparr>handled := handled l @ [(ws_opcode fr, ws_payload fr)]\<rparr>;
              next = (\<lambda>l. l\<lparr>s_rx := cloud_rx_consume (s_rx l) (nat c)\<rparr>)
          in if ws_opcode fr = WS_OP_TEXT then
               (case on_text w (ws_payload fr) of
                  (w', False, None) \<Rightarrow> (w', l)
                | (w', False, Some why) \<Rightarrow> (w', cl_backoff now why l)
                | (w', True, Some why) \<Rightarrow> (w', cl_backoff now why l1)
                | (w', True, None) \<Rightarrow> cl_process_ws_frames now on_text w' (next l1))
             else if ws_opcode fr = WS_OP_CLOSE then (w, cl_backoff now ''server closed ws'' l1)
             else cl_process_ws_frames now on_text w (next l1))"
  by pat_completeness auto

termination
  by (relation "measure (\<lambda>(now, on_text, w, l). length (s_rx l))") (auto dest!: parse_consumes [OF sym])

declare cl_process_ws_frames.simps [simp del]

text \<open>What a poll reads besides the link: the time, whether an update is being received, and what sending would do.\<close>

datatype ws_send_t = Sent | Send_full | Send_failed

record poll_env =
  pe_now :: int
  pe_ota :: bool
  pe_pend :: ws_send_t
  pe_ping :: ws_send_t

text \<open>The parked reply and the ping.\<close>

definition cl_poll_send :: "poll_env \<Rightarrow> link \<Rightarrow> link" where
  "cl_poll_send e l =
     (if s_pend l \<and> pe_pend e = Send_failed then cl_backoff (pe_now e) ''command.response send failed'' l
      else
        let l = (if s_pend l \<and> pe_pend e = Sent then l\<lparr>s_pend := False\<rparr> else l) in
        if pe_now e < s_next_ping l then l
        else
          let l = l\<lparr>s_next_ping := make_timeout_time_ms (pe_now e) PING_INTERVAL_MS\<rparr> in
          case pe_ping e of
            Sent \<Rightarrow> l
          | Send_full \<Rightarrow> l\<lparr>s_next_ping := make_timeout_time_ms (pe_now e) 250\<rparr>
          | Send_failed \<Rightarrow> cl_backoff (pe_now e) ''ping send failed'' l)"

text \<open>
  The connected state's poll up to there: a drop, an overflow, the frames, room for what was refused, the backoff's
  reset once the link is stable, the idle timeout. After it come events pushed to the server, which never drop the link.
\<close>

definition cl_poll_connected ::
  "poll_env \<Rightarrow> ('w \<Rightarrow> u8 list \<Rightarrow> 'w \<times> bool \<times> cstr option) \<Rightarrow> 'w \<Rightarrow> link \<Rightarrow> 'w \<times> link" where
  "cl_poll_connected e on_text w l =
     (let now = pe_now e in
      if s_dropped l then (w, cl_backoff now ''link dropped'' (cl_set_error ''connection lost'' l))
      else if s_rx_overflow l then (w, cl_backoff now ''rx overflow'' (cl_set_error ''connection lost (rx overflow)'' l))
      else
        let (w, l) = (if s_rx l \<noteq> [] then cl_process_ws_frames now on_text w l else (w, l)) in
        if \<not> connected l then (w, l)
        else
          let l = (if s_rx_refused l \<and> length (s_rx l) < BP_CLOUD_RX_ACCUM div 2 then l\<lparr>s_rx_refused := False\<rparr> else l);
              l = (if s_backoff_reset_pending l \<and> now \<ge> s_stable_at l
                   then l\<lparr>s_backoff_ms := BACKOFF_START_MS, s_backoff_reset_pending := False\<rparr> else l);
              budget = (if pe_ota e then OTA_IDLE_TIMEOUT_MS else IDLE_TIMEOUT_MS)
          in if now - s_last_rx l > int budget * 1000
             then (w, cl_backoff now ''idle timeout (no pong)'' (cl_set_error ''connection lost (no reply from server)'' l))
             else (w, cl_poll_send e l))"

subsection \<open>The server's stream\<close>

type_synonym sframe = "len_form \<times> u8 \<times> u8 list"

fun sframe_bytes :: "sframe \<Rightarrow> u8 list" where
  "sframe_bytes (form, op, p) = server_frame form op p"

fun sframe_ok :: "sframe \<Rightarrow> bool" where
  "sframe_ok (form, op, p) \<longleftrightarrow> form_ok form (length p) \<and> op \<noteq> 0 \<and> op < 16 \<and> op \<noteq> WS_OP_CLOSE"

definition stream :: "sframe list \<Rightarrow> u8 list" where
  "stream fs = concat (map sframe_bytes fs)"

lemma stream_simps [simp]: "stream [] = []" "stream (f # fs) = sframe_bytes f @ stream fs"
  by (simp_all add: stream_def)

lemma sframe_nonempty: "2 \<le> length (sframe_bytes f)"
proof -
  obtain form op p where "f = (form, op, p)" by (cases f)
  then show ?thesis by (cases form) (simp_all add: server_frame_def)
qed

text \<open>What the parser finds at the front of a partly received stream.\<close>

lemma parse_stream_front:
  assumes "list_all sframe_ok fs" and "buf @ net = stream fs"
  shows "ws_parse_frame buf =
    (case fs of
       f # fs' \<Rightarrow>
         if length buf < length (sframe_bytes f) then (0, None)
         else (int (length (sframe_bytes f)),
               Some \<lparr>ws_opcode = fst (snd f), ws_fin = True, ws_payload = snd (snd f),
                     ws_payload_len = length (snd (snd f))\<rparr>)
     | [] \<Rightarrow> (0, None))"
proof (cases fs)
  case Nil
  with assms(2) show ?thesis by (simp add: ws_parse_frame_def)
next
  case (Cons f fs')
  obtain form op p where f: "f = (form, op, p)" by (cases f)
  have st: "server_frame form op p @ stream fs' = buf @ net" using assms(2) Cons f by simp
  then have "buf = take (length buf) (server_frame form op p @ stream fs')"
    and "length buf \<le> length (server_frame form op p @ stream fs')" by simp_all
  moreover have "form_ok form (length p)" "op \<noteq> 0" "op < 16" using assms(1) Cons f by simp_all
  ultimately show ?thesis using server_frame_parse [of form p op "length buf" "stream fs'"] Cons f by simp
qed


definition stays :: "('w \<Rightarrow> u8 list \<Rightarrow> 'w \<times> bool \<times> cstr option) \<Rightarrow> bool" where
  "stays on_text \<longleftrightarrow> (\<forall>w p. snd (snd (on_text w p)) = None)"

definition takes_all :: "('w \<Rightarrow> u8 list \<Rightarrow> 'w \<times> bool \<times> cstr option) \<Rightarrow> bool" where
  "takes_all on_text \<longleftrightarrow> (\<forall>w p. snd (on_text w p) = (True, None))"

definition partial_front :: "u8 list \<Rightarrow> sframe list \<Rightarrow> bool" where
  "partial_front buf fs \<longleftrightarrow> (case fs of [] \<Rightarrow> buf = [] | f # _ \<Rightarrow> length buf < length (sframe_bytes f))"

definition drained :: "('w \<Rightarrow> u8 list \<Rightarrow> 'w \<times> bool \<times> cstr option) \<Rightarrow> link \<Rightarrow> u8 list \<Rightarrow> sframe list \<Rightarrow> link \<Rightarrow> bool" where
  "drained on_text l net fs l' \<longleftrightarrow> (\<exists>d r. fs = d @ r \<and> handled l' = handled l @ map snd d \<and>
     (connected l' \<longrightarrow> s_rx l' @ net = stream r) \<and> length (s_rx l') \<le> length (s_rx l) \<and>
     (s_rx_overflow l' \<longrightarrow> s_rx_overflow l) \<and> (stays on_text \<longrightarrow> connected l') \<and>
     (takes_all on_text \<longrightarrow> partial_front (s_rx l') r))"

lemma drainedI:
  assumes "fs = d @ r" and "handled l' = handled l @ map snd d" and "connected l' \<Longrightarrow> s_rx l' @ net = stream r"
    and "length (s_rx l') \<le> length (s_rx l)" and "s_rx_overflow l' \<Longrightarrow> s_rx_overflow l"
    and "stays on_text \<Longrightarrow> connected l'" and "takes_all on_text \<Longrightarrow> partial_front (s_rx l') r"
  shows "drained on_text l net fs l'"
  using assms unfolding drained_def by blast

lemma drained_step:
  assumes "drained on_text l1 net fs l'" and "handled l1 = handled l @ [snd f]" and "length (s_rx l1) \<le> length (s_rx l)"
    and "s_rx_overflow l1 = s_rx_overflow l"
  shows "drained on_text l net (f # fs) l'"
proof -
  from assms(1) obtain d r where dr: "fs = d @ r" "handled l' = handled l1 @ map snd d"
     "connected l' \<longrightarrow> s_rx l' @ net = stream r" "length (s_rx l') \<le> length (s_rx l1)"
     "s_rx_overflow l' \<longrightarrow> s_rx_overflow l1" "stays on_text \<longrightarrow> connected l'"
     "takes_all on_text \<longrightarrow> partial_front (s_rx l') r"
    unfolding drained_def by blast
  show ?thesis by (rule drainedI [of _ "f # d" r]) (use dr assms in auto)
qed

lemma process_stream:
  assumes "list_all sframe_ok fs" and "s_rx l @ net = stream fs" and "connected l"
  shows "drained on_text l net fs (snd (cl_process_ws_frames now on_text w l))"
  using assms
proof (induction now on_text w l arbitrary: fs rule: cl_process_ws_frames.induct)
  case (1 now on_text w l)
  note front = parse_stream_front [OF "1.prems"(1,2)]
  show ?case
  proof (cases fs)
    case Nil
    then have "s_rx l = []" using "1.prems"(2) by simp
    moreover have eq: "cl_process_ws_frames now on_text w l = (w, l)"
      using front Nil by (subst cl_process_ws_frames.simps) simp
    ultimately show ?thesis unfolding eq using "1.prems"(2,3) Nil
      by (intro drainedI [of _ "[]" "[]"]) (simp_all add: partial_front_def)
  next
    case (Cons f fs')
    let ?F = "sframe_bytes f"
    show ?thesis
    proof (cases "length (s_rx l) < length ?F")
      case True
      then have eq: "cl_process_ws_frames now on_text w l = (w, l)"
        using front Cons by (subst cl_process_ws_frames.simps) simp
      then show ?thesis unfolding eq using "1.prems"(2,3) Cons True
        by (intro drainedI [of _ "[]" fs]) (simp_all add: partial_front_def)
    next
      case False
      let ?fr = "\<lparr>ws_opcode = fst (snd f), ws_fin = True, ws_payload = snd (snd f), ws_payload_len = length (snd (snd f))\<rparr>"
      let ?l1 = "l\<lparr>handled := handled l @ [snd f]\<rparr>"
      let ?l2 = "?l1\<lparr>s_rx := drop (length ?F) (s_rx l)\<rparr>"
      have pf: "ws_parse_frame (s_rx l) = (int (length ?F), Some ?fr)" using front Cons False by simp
      have op: "fst (snd f) \<noteq> WS_OP_CLOSE" using "1.prems"(1) Cons by (cases f) simp
      have rest: "s_rx ?l2 @ net = stream fs'"
      proof -
        have "drop (length ?F) (s_rx l @ net) = stream fs'" using "1.prems"(2) Cons by simp
        then show ?thesis using False by simp
      qed
      have ok': "list_all sframe_ok fs'" using "1.prems"(1) Cons by simp
      have step: "drained on_text ?l2 net fs' l' \<Longrightarrow> drained on_text l net fs l'" for l'
        unfolding Cons by (erule drained_step) simp_all
      show ?thesis
      proof (cases "fst (snd f) = WS_OP_TEXT")
        case False
        then have eq: "cl_process_ws_frames now on_text w l = cl_process_ws_frames now on_text w ?l2"
          using pf op by (subst cl_process_ws_frames.simps) (simp add: Let_def)
        have "drained on_text ?l2 net fs' (snd (cl_process_ws_frames now on_text w ?l2))"
          using "1.IH"(2) [OF pf [symmetric] refl refl refl] False op rest ok' "1.prems"(3) by simp
        then show ?thesis unfolding eq by (rule step)
      next
        case True
        have sf: "(WS_OP_TEXT, snd (snd f)) = snd f" using True by (metis prod.collapse)
        obtain w' took why where t: "on_text w (snd (snd f)) = (w', took, why)" by (metis prod_cases3)
        consider "\<not> took" "why = None" | y where "why = Some y" | "took" "why = None" by (cases why) blast+
        then show ?thesis
        proof cases
          case 1
          then have eq: "cl_process_ws_frames now on_text w l = (w', l)"
            using pf True t sf by (subst cl_process_ws_frames.simps) (simp add: Let_def)
          have "\<not> takes_all on_text" using 1 t unfolding takes_all_def by (metis Pair_inject snd_conv)
          then show ?thesis unfolding eq using "1.prems" by (intro drainedI [of _ "[]" fs]) simp_all
        next
          case 2
          then have eq: "cl_process_ws_frames now on_text w l = (w', cl_backoff now y (if took then ?l1 else l))"
            using pf True t sf by (subst cl_process_ws_frames.simps) (simp add: Let_def)
          have "\<not> stays on_text" "\<not> takes_all on_text"
            using 2 t unfolding stays_def takes_all_def by (metis Pair_inject snd_conv option.distinct(1))+
          then show ?thesis unfolding eq Cons
            by (cases took; intro drainedI [of _ "if took then [f] else []" "if took then fs' else f # fs'"]) simp_all
        next
          case 3
          then have eq: "cl_process_ws_frames now on_text w l = cl_process_ws_frames now on_text w' ?l2"
            using pf True t sf by (subst cl_process_ws_frames.simps) (simp add: Let_def)
          have "drained on_text ?l2 net fs' (snd (cl_process_ws_frames now on_text w' ?l2))"
            using "1.IH"(1) [OF pf [symmetric] refl refl refl, of w' "(True, None)" True None fs'] True t 3 sf rest ok' "1.prems"(3) by simp
          then show ?thesis unfolding eq by (rule step)
        qed
      qed
    qed
  qed
qed


subsection \<open>Segments\<close>

lemma foldl_append_fits:
  "length (s_rx l) + length (concat p) \<le> BP_CLOUD_RX_ACCUM \<Longrightarrow>
     foldl cl_rx_append l p = l\<lparr>s_rx := rx.puts (s_rx l) p\<rparr>"
proof (induction p arbitrary: l)
  case (Cons xs p)
  then have "cl_rx_append l xs = l\<lparr>s_rx := s_rx l @ xs\<rparr>"
    by (simp add: cl_rx_append_def cloud_rx_append_def)
  moreover have "fst (cloud_rx_append (s_rx l) BP_CLOUD_RX_ACCUM xs) = s_rx l @ xs"
    using Cons.prems by (simp add: cloud_rx_append_def)
  ultimately show ?case using Cons.IH [of "l\<lparr>s_rx := s_rx l @ xs\<rparr>"] Cons.prems by simp
qed simp

lemma cl_recv_cb_accepted:
  assumes "cl_recv_cb now l (Some p) = (l', True)" and "length (concat p) \<le> BP_CLOUD_RX_ACCUM"
    and "length (s_rx l) \<le> BP_CLOUD_RX_ACCUM"
  shows "l' = l\<lparr>s_last_rx := now, s_rx := s_rx l @ concat p\<rparr>" and "length (s_rx l') \<le> BP_CLOUD_RX_ACCUM"
proof -
  have fits: "length (s_rx (l\<lparr>s_last_rx := now\<rparr>)) + length (concat p) \<le> BP_CLOUD_RX_ACCUM"
    using assms by (auto simp: cl_recv_cb_def cloud_rx_refuse_def Let_def split: if_splits)
  then have "rx.puts (s_rx l) p = s_rx l @ concat p"
    using rx.puts_fits [OF assms(3), of p] by simp
  with assms(1) foldl_append_fits [OF fits] show l': "l' = l\<lparr>s_last_rx := now, s_rx := s_rx l @ concat p\<rparr>"
    by (auto simp: cl_recv_cb_def Let_def split: if_splits)
  show "length (s_rx l') \<le> BP_CLOUD_RX_ACCUM" using fits unfolding l' by simp
qed

subsection \<open>Runs of the link\<close>

text \<open>
  The states the link reaches while a server sends the frames \<open>fs\<close>: the network hands up any next
  piece of the stream in any split (and again, if it was refused), closes or breaks the connection at any time, a
  reply may be parked, and the client polls at any time. A run ends when the link is dropped: the callbacks are
  taken off it.
\<close>

inductive rx_run :: "('w \<Rightarrow> u8 list \<Rightarrow> 'w \<times> bool \<times> cstr option) \<Rightarrow> sframe list \<Rightarrow> u8 list \<Rightarrow> 'w \<Rightarrow> link \<Rightarrow> bool"
  for on_text fs where
  rx_start: "rx_run on_text fs (stream fs) w (link_up now backoff)"
| rx_recv: "rx_run on_text fs (concat p @ net) w l \<Longrightarrow> connected l \<Longrightarrow> length (concat p) \<le> BP_CLOUD_RX_ACCUM \<Longrightarrow>
    cl_recv_cb now l (Some p) = (l', True) \<Longrightarrow> rx_run on_text fs net w l'"
| rx_refused: "rx_run on_text fs net w l \<Longrightarrow> connected l \<Longrightarrow> cl_recv_cb now l (Some p) = (l', False) \<Longrightarrow> rx_run on_text fs net w l'"
| rx_fin: "rx_run on_text fs net w l \<Longrightarrow> connected l \<Longrightarrow> cl_recv_cb now l None = (l', ok) \<Longrightarrow> rx_run on_text fs net w l'"
| rx_err: "rx_run on_text fs net w l \<Longrightarrow> connected l \<Longrightarrow> rx_run on_text fs net w (cl_err_cb l)"
| rx_pend: "rx_run on_text fs net w l \<Longrightarrow> connected l \<Longrightarrow> rx_run on_text fs net w (l\<lparr>s_pend := True\<rparr>)"
| rx_poll: "rx_run on_text fs net w l \<Longrightarrow> connected l \<Longrightarrow> cl_poll_connected e on_text w l = (w', l') \<Longrightarrow> rx_run on_text fs net w' l'"

text \<open>The reasons that are not the receive path's own.\<close>

definition outside_reasons :: "cstr list" where
  "outside_reasons = [''link dropped'', ''idle timeout (no pong)'', ''command.response send failed'', ''ping send failed'']"

definition in_order :: "sframe list \<Rightarrow> u8 list \<Rightarrow> link \<Rightarrow> bool" where
  "in_order fs net l \<longleftrightarrow> \<not> s_rx_overflow l \<and> length (s_rx l) \<le> BP_CLOUD_RX_ACCUM \<and>
     (\<exists>d r. fs = d @ r \<and> handled l = map snd d \<and> (connected l \<longrightarrow> s_rx l @ net = stream r)) \<and>
     (connected l \<or> (\<exists>why \<in> set outside_reasons. last_drop l = Some why))"

lemma in_order_upd [simp]:
  "in_order fs net (l\<lparr>s_last_rx := t\<rparr>) = in_order fs net l" "in_order fs net (l\<lparr>s_rx_refused := b\<rparr>) = in_order fs net l"
  "in_order fs net (l\<lparr>s_dropped := b\<rparr>) = in_order fs net l" "in_order fs net (l\<lparr>s_pend := b\<rparr>) = in_order fs net l"
  "in_order fs net (l\<lparr>s_next_ping := t\<rparr>) = in_order fs net l" "in_order fs net (cl_set_error w l) = in_order fs net l"
  "in_order fs net (l\<lparr>s_backoff_ms := k, s_backoff_reset_pending := b\<rparr>) = in_order fs net l"
  by (simp_all add: in_order_def cl_set_error_def)

lemma in_order_backoff: "in_order fs net l \<Longrightarrow> why \<in> set outside_reasons \<Longrightarrow> in_order fs net (cl_backoff now why l)"
  by (auto simp: in_order_def)

lemma send_in_order: "in_order fs net l \<Longrightarrow> in_order fs net (cl_poll_send e l)"
  by (auto simp: cl_poll_send_def Let_def in_order_backoff outside_reasons_def split: ws_send_t.split)

lemma send_rx: "connected (cl_poll_send e l) \<Longrightarrow> s_rx (cl_poll_send e l) = s_rx l \<and> handled (cl_poll_send e l) = handled l"
  by (auto simp: cl_poll_send_def Let_def split: ws_send_t.splits if_splits)

lemma poll_in_order:
  assumes "list_all sframe_ok fs" and "stays on_text" and "in_order fs net l" and "connected l"
  shows "in_order fs net (snd (cl_poll_connected e on_text w l))"
    and "takes_all on_text \<Longrightarrow> connected (snd (cl_poll_connected e on_text w l)) \<Longrightarrow>
      \<exists>d r. fs = d @ r \<and> partial_front (s_rx (snd (cl_poll_connected e on_text w l))) r"
proof -
  obtain d r where dr: "fs = d @ r" "handled l = map snd d" "s_rx l @ net = stream r"
    and l: "\<not> s_rx_overflow l" "length (s_rx l) \<le> BP_CLOUD_RX_ACCUM"
    using assms(3,4) by (auto simp: in_order_def)
  define wl where "wl = (if s_rx l \<noteq> [] then cl_process_ws_frames (pe_now e) on_text w l else (w, l))"
  have "drained on_text l net r (snd wl)"
  proof (cases "s_rx l = []")
    case True
    then have "partial_front (s_rx l) r"
      using sframe_nonempty [of "hd r"] by (auto simp: partial_front_def split: list.split)
    with True l assms(4) dr(3) show ?thesis by (intro drainedI [of _ "[]" r]) (simp_all add: wl_def)
  next
    case False
    have "list_all sframe_ok r" using assms(1) dr(1) by simp
    from process_stream [OF this dr(3) assms(4)] False show ?thesis by (simp add: wl_def)
  qed
  then obtain d' r' where dr': "r = d' @ r'" "handled (snd wl) = handled l @ map snd d'"
      "connected (snd wl) \<longrightarrow> s_rx (snd wl) @ net = stream r'" "length (s_rx (snd wl)) \<le> length (s_rx l)"
      "s_rx_overflow (snd wl) \<longrightarrow> s_rx_overflow l" "connected (snd wl)"
      "takes_all on_text \<longrightarrow> partial_front (s_rx (snd wl)) r'"
    unfolding drained_def using assms(2) by blast
  have fs: "fs = (d @ d') @ r'" "handled (snd wl) = map snd (d @ d')" using dr dr' by simp_all
  have io: "in_order fs net (snd wl)"
    unfolding in_order_def using dr' fs l by (intro conjI exI [of _ "d @ d'"] exI [of _ r']) auto
  obtain w' l1 where wl: "wl = (w', l1)" by force
  define l2 where "l2 = (let l = (if s_rx_refused l1 \<and> length (s_rx l1) < BP_CLOUD_RX_ACCUM div 2 then l1\<lparr>s_rx_refused := False\<rparr> else l1)
     in if s_backoff_reset_pending l \<and> pe_now e \<ge> s_stable_at l
        then l\<lparr>s_backoff_ms := BACKOFF_START_MS, s_backoff_reset_pending := False\<rparr> else l)"
  have l2: "in_order fs net l2" "s_rx l2 = s_rx l1" using io by (simp_all add: l2_def wl Let_def)
  have poll: "snd (cl_poll_connected e on_text w l) =
    (if s_dropped l then cl_backoff (pe_now e) ''link dropped'' (cl_set_error ''connection lost'' l)
     else if pe_now e - s_last_rx l2 > int (if pe_ota e then OTA_IDLE_TIMEOUT_MS else IDLE_TIMEOUT_MS) * 1000
     then cl_backoff (pe_now e) ''idle timeout (no pong)'' (cl_set_error ''connection lost (no reply from server)'' l2)
     else cl_poll_send e l2)"
    unfolding cl_poll_connected_def wl_def [symmetric] Let_def
    using l(1) dr'(6) by (simp only: wl prod.case snd_conv l2_def Let_def if_False if_True not_True_eq_False
        if_distrib [where f = snd] simp_thms)
  have r: "''link dropped'' \<in> set outside_reasons" "''idle timeout (no pong)'' \<in> set outside_reasons"
    by (simp_all add: outside_reasons_def)
  show "in_order fs net (snd (cl_poll_connected e on_text w l))"
    unfolding poll using in_order_backoff [OF _ r(1)] in_order_backoff [OF _ r(2)] send_in_order [OF l2(1)] assms(3) l2(1) by simp
  assume t: "takes_all on_text" and c: "connected (snd (cl_poll_connected e on_text w l))"
  have "s_rx (snd (cl_poll_connected e on_text w l)) = s_rx l1"
    using c send_rx [of e l2] l2(2) unfolding poll by (simp split: if_splits)
  then show "\<exists>d r. fs = d @ r \<and> partial_front (s_rx (snd (cl_poll_connected e on_text w l))) r"
    using t dr'(7) fs(1) wl by (intro exI [of _ "d @ d'"] exI [of _ r']) simp
qed

lemma rx_run_in_order:
  "rx_run on_text fs net w l \<Longrightarrow> list_all sframe_ok fs \<Longrightarrow> stays on_text \<Longrightarrow> in_order fs net l"
proof (induction rule: rx_run.induct)
  case (rx_start w now backoff)
  then show ?case by (auto simp: in_order_def link_up_def)
next
  case (rx_recv p net w l now l')
  then have io: "in_order fs (concat p @ net) l" by simp
  then have len: "length (s_rx l) \<le> BP_CLOUD_RX_ACCUM" by (simp add: in_order_def)
  note a = cl_recv_cb_accepted [OF rx_recv.hyps(4,3) len]
  from io a(2) rx_recv.hyps(2) show ?case unfolding a(1) by (auto simp: in_order_def)
next
  case (rx_refused net w l now p l')
  then have "l' = l\<lparr>s_last_rx := now, s_rx_refused := True\<rparr>" by (auto simp: cl_recv_cb_def Let_def split: if_splits)
  with rx_refused show ?case by simp
next
  case (rx_fin net w l now l' ok)
  then show ?case by (auto simp: cl_recv_cb_def)
next
  case (rx_poll net w l e w' l')
  from poll_in_order(1) [OF rx_poll.prems rx_poll.IH [OF rx_poll.prems] rx_poll.hyps(2), of e w] rx_poll.hyps(3) show ?case by simp
qed (simp_all add: cl_err_cb_def)


subsection \<open>Properties\<close>

text \<open>
  C15. The client handles the server's frames once each and in order. While a server sends whole
  frames (no close) and no text handler drops the link, then however the stream is cut into
  segments (none longer than the accumulator), whichever segments are refused for lack of room and sent again, whenever the client polls
  and however often a full worker queue makes it leave a text frame for later: the frames handled are the first
  ones sent, in order, none twice, and while the link is up, what is neither handled nor still on the way is in the
  accumulator, which never overflows. The receive path itself never drops the link: when it is dropped, the
  connection was closed or broken, nothing came in for the idle budget, or a send failed.
\<close>

theorem cloud_frames_in_order:
  assumes "rx_run on_text fs net w l" and "list_all sframe_ok fs" and "stays on_text"
  shows "\<not> s_rx_overflow l \<and> length (s_rx l) \<le> BP_CLOUD_RX_ACCUM \<and>
    (\<exists>d r. fs = d @ r \<and> handled l = map snd d \<and> (connected l \<longrightarrow> s_rx l @ net = stream r)) \<and>
    (connected l \<or> (\<exists>why \<in> {''link dropped'', ''idle timeout (no pong)'', ''command.response send failed'',
       ''ping send failed''}. last_drop l = Some why))"
  using rx_run_in_order [OF assms] unfolding in_order_def outside_reasons_def list.set by blast

theorem cloud_frames_in_order_witness:
  "\<exists>l. rx_run (\<lambda>(w :: nat) p. (w, True, None)) [(L7, 1, [5])] [] 0 l \<and> \<not> s_rx_overflow l \<and>
    (\<exists>d r. [(L7, 1, [5])] = d @ r \<and> handled l = map snd d)"
proof -
  let ?t = "\<lambda>(w :: nat) (p :: u8 list). (w, True, None :: cstr option)"
  let ?fs = "[(L7, 1, [5])] :: sframe list"
  have s: "stream ?fs = concat [stream ?fs] @ []" by simp
  have len: "length (concat [stream ?fs]) \<le> BP_CLOUD_RX_ACCUM"
    by (simp add: server_frame_def BP_CLOUD_RX_ACCUM_def)
  have up: "connected (link_up 0 2000)" by (simp add: link_up_def)
  have "cl_recv_cb 7 (link_up 0 2000) (Some [stream ?fs]) = (fst (cl_recv_cb 7 (link_up 0 2000) (Some [stream ?fs])), True)"
    by (simp add: cl_recv_cb_def link_up_def cloud_rx_refuse_def Let_def)
  from rx_recv [OF _ up len this, of ?t ?fs "[]" 0] rx_start [of ?t ?fs 0 0 2000]
  have run: "rx_run ?t ?fs [] 0 (fst (cl_recv_cb 7 (link_up 0 2000) (Some [stream ?fs])))" by simp
  have "list_all sframe_ok ?fs" by (simp add: ws_ops)
  moreover have "stays ?t" by (simp add: stays_def)
  ultimately have "\<not> s_rx_overflow (fst (cl_recv_cb 7 (link_up 0 2000) (Some [stream ?fs])))"
    "\<exists>d r. ?fs = d @ r \<and> handled (fst (cl_recv_cb 7 (link_up 0 2000) (Some [stream ?fs]))) = map snd d"
    using cloud_frames_in_order [OF run] by blast+
  with run show ?thesis by blast
qed

text \<open>
  Backpressure never wedges the link. Once the client has polled with room in the worker queue,
  what is left in the accumulator is less than one frame, so with frames of at most \<open>F\<close> bytes every
  next segment of up to the accumulator's size less \<open>F - 1\<close> bytes is taken, never refused.
\<close>

theorem cloud_rx_no_stall:
  assumes "rx_run on_text fs net w l" and "connected l" and "list_all sframe_ok fs" and "stays on_text" and "takes_all on_text"
    and "connected (snd (cl_poll_connected e on_text w l))"
    and "list_all (\<lambda>f. length (sframe_bytes f) \<le> F) fs" and "length (concat p) + F \<le> BP_CLOUD_RX_ACCUM + 1" and "0 < F"
  shows "snd (cl_recv_cb now (snd (cl_poll_connected e on_text w l)) (Some p))"
proof -
  obtain d r where dr: "fs = d @ r" "partial_front (s_rx (snd (cl_poll_connected e on_text w l))) r"
    using poll_in_order(2) [OF assms(3,4) rx_run_in_order [OF assms(1,3,4)] assms(2,5,6)] by blast
  then have "length (s_rx (snd (cl_poll_connected e on_text w l))) < F"
    using assms(7,9) by (cases r) (auto simp: partial_front_def)
  with assms(8) show ?thesis by (auto simp: cl_recv_cb_def cloud_rx_refuse_def Let_def)
qed

end
