(* ===== verification/CloudReply.thy ===== *)
theory CloudReply
  imports Prelude
begin

section \<open>Capturing the reply of a cloud command\<close>

text \<open>
  The model of \<^verbatim>\<open>stm32h563/src/cloud_reply_cap.c\<close>: the statics as a record, the bytes the handler
  writes kept up to the capacity, the size of all of them and of their trailing line ending counted.
  \<open>cloud_reply_cap_end\<close> returns the state and what is written to \<open>out\<close> (the length returned by the
  C is its length; \<open>None\<close> when nothing is written). The log line is left out; sizes are naturals, the
  C's \<^verbatim>\<open>size_t\<close> not being reached by the bytes of one reply.
\<close>

definition CLOUD_REPLY_CAP_MAX :: nat where "CLOUD_REPLY_CAP_MAX = 1792"

record reply_cap =
  s_buf :: "u8 list"
  s_want :: nat
  s_nl :: nat
  s_active :: bool

definition cloud_reply_cap_begin :: "reply_cap \<Rightarrow> reply_cap" where
  "cloud_reply_cap_begin c = \<lparr>s_buf = [], s_want = 0, s_nl = 0, s_active = True\<rparr>"

definition is_eol :: "u8 \<Rightarrow> bool" where
  "is_eol b \<longleftrightarrow> b = 10 \<or> b = 13"

definition cloud_reply_cap_append :: "reply_cap \<Rightarrow> u8 list \<Rightarrow> reply_cap" where
  "cloud_reply_cap_append c buf =
     (if \<not> s_active c then c
      else
        c\<lparr>s_want := s_want c + length buf,
          s_nl := foldl (\<lambda>n b. if is_eol b then n + 1 else 0) (s_nl c) buf,
          s_buf := s_buf c @ take (CLOUD_REPLY_CAP_MAX - 1 - length (s_buf c)) buf\<rparr>)"

definition bytes :: "cstr \<Rightarrow> u8 list" where
  "bytes s = map of_char s"

definition err_reply :: "nat \<Rightarrow> cstr \<Rightarrow> u8 list option" where
  "err_reply out_cap msg =
     (let s = ''{\"status\":\"error\",\"message\":\"'' @ msg @ ''\"}'' in
      if length s < out_cap then Some (bytes s) else None)"

definition too_large_msg :: "nat \<Rightarrow> nat \<Rightarrow> cstr" where
  "too_large_msg want limit =
     snprintf 96 (''reply too large for the cloud channel ('' @ dec_digits want @ '' bytes, limit '' @
       dec_digits limit @ '')'')"

definition cloud_reply_cap_end :: "reply_cap \<Rightarrow> nat \<Rightarrow> reply_cap \<times> u8 list option" where
  "cloud_reply_cap_end c out_cap =
     (let c1 = c\<lparr>s_active := False\<rparr> in
      if out_cap = 0 then (c1, None)
      else
        let want = s_want c - s_nl c;
            c2 = (if length (s_buf c) > want then c1\<lparr>s_buf := take want (s_buf c)\<rparr> else c1);
            limit = (if out_cap < CLOUD_REPLY_CAP_MAX then out_cap else CLOUD_REPLY_CAP_MAX) - 1
        in if want > length (s_buf c2) \<or> length (s_buf c2) > limit
           then (c2, err_reply out_cap (too_large_msg want limit))
           else if s_buf c2 = [] then (c2, err_reply out_cap ''no reply'')
           else (c2, Some (s_buf c2)))"

subsection \<open>What is captured\<close>

definition strip_eol :: "u8 list \<Rightarrow> u8 list" where
  "strip_eol bs = rev (dropWhile is_eol (rev bs))"

lemma foldl_eol:
  "foldl (\<lambda>n b. if is_eol b then n + 1 else 0) n bs =
     (if list_all is_eol bs then n + length bs else length (takeWhile is_eol (rev bs)))"
proof (induction bs arbitrary: n rule: rev_induct)
  case (snoc b bs)
  have "takeWhile is_eol (rev bs) = rev bs" if "list_all is_eol bs"
    using that by (simp add: takeWhile_eq_all_conv list_all_iff)
  with snoc show ?case by auto
qed simp

definition captured :: "reply_cap \<Rightarrow> u8 list \<Rightarrow> bool" where
  "captured c sent \<longleftrightarrow> s_active c \<and> s_want c = length sent \<and>
     s_nl c = length (takeWhile is_eol (rev sent)) \<and> s_buf c = take (CLOUD_REPLY_CAP_MAX - 1) sent"

lemma captured_append:
  assumes "captured c sent"
  shows "captured (cloud_reply_cap_append c buf) (sent @ buf)"
proof -
  have eq: "takeWhile is_eol (rev buf @ rev sent) =
      (if list_all is_eol buf then rev buf @ takeWhile is_eol (rev sent) else takeWhile is_eol (rev buf))"
    by (auto simp: takeWhile_append list_all_iff)
  have "foldl (\<lambda>n b. if is_eol b then n + 1 else 0) (s_nl c) buf = length (takeWhile is_eol (rev (sent @ buf)))"
    unfolding foldl_eol using assms eq by (simp add: captured_def)
  then show ?thesis using assms by (simp add: captured_def cloud_reply_cap_append_def min_def)
qed

lemma captured_appends: "captured c sent \<Longrightarrow> captured (foldl cloud_reply_cap_append c bufs) (sent @ concat bufs)"
proof (induction bufs arbitrary: c sent)
  case (Cons b bufs)
  from Cons.IH [OF captured_append [OF Cons.prems]] show ?case by simp
qed simp

lemma captured_begin: "captured (cloud_reply_cap_begin c) []"
  by (simp add: captured_def cloud_reply_cap_begin_def)

lemma strip_eol_take: "strip_eol sent = take (length sent - length (takeWhile is_eol (rev sent))) sent"
  by (simp add: strip_eol_def dropWhile_eq_drop rev_drop)

lemma clip_kept:
  "n \<le> length t \<Longrightarrow> n \<le> m \<Longrightarrow> (if length (take m t) > n then take n (take m t) else take m t) = take n t"
  by (cases "length t \<le> m") (auto simp: min_def)

lemma clip_cut: "n \<le> length t \<Longrightarrow> m < n \<Longrightarrow> (if length (take m t) > n then take n (take m t) else take m t) = take m t"
  by simp

definition end_reply :: "u8 list \<Rightarrow> nat \<Rightarrow> nat \<Rightarrow> nat \<Rightarrow> u8 list option" where
  "end_reply b want limit out_cap =
     (if want > length b \<or> length b > limit then err_reply out_cap (too_large_msg want limit)
      else if b = [] then err_reply out_cap ''no reply'' else Some b)"

lemma cloud_reply_cap_end_eq:
  "0 < out_cap \<Longrightarrow> snd (cloud_reply_cap_end c out_cap) =
     end_reply (if length (s_buf c) > s_want c - s_nl c then take (s_want c - s_nl c) (s_buf c) else s_buf c)
       (s_want c - s_nl c) (min out_cap CLOUD_REPLY_CAP_MAX - 1) out_cap"
proof -
  have lim: "(if out_cap < CLOUD_REPLY_CAP_MAX then out_cap else CLOUD_REPLY_CAP_MAX) = min out_cap CLOUD_REPLY_CAP_MAX"
    by simp
  assume "0 < out_cap"
  then show ?thesis
    unfolding cloud_reply_cap_end_def Let_def lim end_reply_def
    by (cases "length (s_buf c) > s_want c - s_nl c") simp_all
qed

text \<open>
  C37. The reply of a cloud command is never cut. However the handler splits what it writes, the
  capture ends with exactly the reply without its trailing line ending when that fits the channel,
  with an error that says so and by how much when it does not, and with an error when there was none.
\<close>

theorem cloud_reply_whole_or_error:
  assumes "0 < out_cap"
  shows "let body = strip_eol (concat bufs);
             limit = min out_cap CLOUD_REPLY_CAP_MAX - 1
         in snd (cloud_reply_cap_end (foldl cloud_reply_cap_append (cloud_reply_cap_begin c) bufs) out_cap) =
           (if limit < length body then err_reply out_cap (too_large_msg (length body) limit)
            else if body = [] then err_reply out_cap ''no reply''
            else Some body)"
proof -
  let ?c = "foldl cloud_reply_cap_append (cloud_reply_cap_begin c) bufs" and ?t = "concat bufs"
  let ?n = "length ?t - length (takeWhile is_eol (rev ?t))"
  let ?lim = "min out_cap CLOUD_REPLY_CAP_MAX - 1"
  have cap: "s_want ?c = length ?t" "s_nl ?c = length (takeWhile is_eol (rev ?t))"
    "s_buf ?c = take (CLOUD_REPLY_CAP_MAX - 1) ?t"
    using captured_appends [OF captured_begin, of c bufs] by (simp_all add: captured_def)
  have body: "strip_eol ?t = take ?n ?t" "length (take ?n ?t) = ?n" by (simp_all add: strip_eol_take)
  have n: "?n \<le> length ?t" by simp
  note e = cloud_reply_cap_end_eq [OF assms, of ?c, unfolded cap]
  show ?thesis
  proof (cases "?n \<le> CLOUD_REPLY_CAP_MAX - 1")
    case True
    show ?thesis unfolding e Let_def clip_kept [OF n True] end_reply_def body by simp
  next
    case False
    then have m: "CLOUD_REPLY_CAP_MAX - 1 < ?n" "?lim < ?n" by auto
    have "length (take (CLOUD_REPLY_CAP_MAX - 1) ?t) < ?n" using m(1) by simp
    with m(2) show ?thesis unfolding e Let_def clip_cut [OF n m(1)] end_reply_def body by (simp only: if_True simp_thms)
  qed
qed

theorem cloud_reply_whole_or_error_witness:
  "snd (cloud_reply_cap_end (foldl cloud_reply_cap_append (cloud_reply_cap_begin
       \<lparr>s_buf = [], s_want = 0, s_nl = 0, s_active = False\<rparr>) [[123], [125, 13, 10]]) 64) =
     Some [123, 125]"
  using cloud_reply_whole_or_error
    [of 64 "[[123], [125, 13, 10]]" "\<lparr>s_buf = [], s_want = 0, s_nl = 0, s_active = False\<rparr>"]
  by (simp add: Let_def strip_eol_def is_eol_def CLOUD_REPLY_CAP_MAX_def)

end
