(* ===== verification/Psram.thy ===== *)
theory Psram
  imports Prelude
begin

section \<open>The shared PSRAM\<close>

text \<open>
  The model of three small components around the PSRAM and its quad bus: \<^verbatim>\<open>psram_alloc.c\<close> (the zones
  of a combined capture and its two limits), \<^verbatim>\<open>psram_regions.c\<close> (is the last capture still intact)
  and \<^verbatim>\<open>bus_owner.c\<close> (who holds the bus, how deep). 32-bit quantities are words, so that the
  products and running offsets of the allocator wrap where the C's wrap; its 64-bit sums are naturals,
  which the largest values do not overflow.
\<close>

subsection \<open>Zones (psram_alloc.c)\<close>

definition PSRAM_TOTAL_BYTES :: nat where "PSRAM_TOTAL_BYTES = 0x800000"
definition PSRAM_GUARD_BYTES :: nat where "PSRAM_GUARD_BYTES = 0x1000"
definition PSRAM_USABLE_BYTES :: nat where "PSRAM_USABLE_BYTES = PSRAM_TOTAL_BYTES - PSRAM_GUARD_BYTES"
definition PSRAM_SUSTAINED_BPS :: nat where "PSRAM_SUSTAINED_BPS = 20000000"

lemmas psram_consts = PSRAM_TOTAL_BYTES_def PSRAM_GUARD_BYTES_def PSRAM_USABLE_BYTES_def PSRAM_SUSTAINED_BPS_def

datatype psram_alloc_status_t = PSRAM_ALLOC_OK | PSRAM_ALLOC_ERR_CAPACITY | PSRAM_ALLOC_ERR_BANDWIDTH

record psram_request_t =
  la_samples :: u32
  adc_samples :: u32
  dac_bytes :: u32
  la_rate_hz :: u32
  adc_rate_hz :: u32
  dac_rate_hz :: u32

record psram_layout_t =
  status :: psram_alloc_status_t
  la_base :: u32
  la_len :: u32
  adc_base :: u32
  adc_len :: u32
  dac_base :: u32
  dac_len :: u32
  need_bytes :: u32
  avail_bytes :: u32
  load_bps :: u32
  bus_bps :: u32

definition clamp32 :: "nat \<Rightarrow> u32" where
  "clamp32 n = (if n > 0xFFFFFFFF then 0xFFFFFFFF else of_nat n)"

definition psram_plan :: "psram_request_t \<Rightarrow> psram_layout_t" where
  "psram_plan req =
     (let la = la_samples req * 2; adc = adc_samples req * 2; dac = dac_bytes req;
          off1 = 0 + la; off2 = off1 + adc;
          need = unat la + unat adc + unat dac;
          load = (unat (la_rate_hz req) + unat (adc_rate_hz req) + unat (dac_rate_hz req)) * 2
      in \<lparr>status =
             (if need > PSRAM_USABLE_BYTES then PSRAM_ALLOC_ERR_CAPACITY
              else if load > PSRAM_SUSTAINED_BPS then PSRAM_ALLOC_ERR_BANDWIDTH
              else PSRAM_ALLOC_OK),
           la_base = 0, la_len = la, adc_base = off1, adc_len = adc, dac_base = off2, dac_len = dac,
           need_bytes = clamp32 need, avail_bytes = of_nat PSRAM_USABLE_BYTES,
           load_bps = clamp32 load, bus_bps = of_nat PSRAM_SUSTAINED_BPS\<rparr>)"

text \<open>The bytes of a zone.\<close>

definition zone :: "u32 \<Rightarrow> u32 \<Rightarrow> nat set" where
  "zone base len = {unat base ..< unat base + unat len}"

lemma psram_plan_fields:
  "la_len (psram_plan req) = la_samples req * 2" "adc_len (psram_plan req) = adc_samples req * 2"
  "dac_len (psram_plan req) = dac_bytes req" "la_base (psram_plan req) = 0"
  "adc_base (psram_plan req) = la_samples req * 2"
  "dac_base (psram_plan req) = la_samples req * 2 + adc_samples req * 2"
  by (simp_all add: psram_plan_def Let_def)

lemma psram_plan_OK_iff:
  "status (psram_plan req) = PSRAM_ALLOC_OK \<longleftrightarrow>
     unat (la_samples req * 2) + unat (adc_samples req * 2) + unat (dac_bytes req) \<le> PSRAM_USABLE_BYTES \<and>
     (unat (la_rate_hz req) + unat (adc_rate_hz req) + unat (dac_rate_hz req)) * 2 \<le> PSRAM_SUSTAINED_BPS"
  by (simp add: psram_plan_def Let_def not_less)

lemma unat_add_small: "unat (a :: u32) + unat b < 4294967296 \<Longrightarrow> unat (a + b) = unat a + unat b"
  by (simp add: unat_word_ariths)

lemma unat_double: "unat (x :: u32) < 2147483648 \<Longrightarrow> unat (x * 2) = unat x * 2"
  by (simp add: unat_word_ariths)

text \<open>
  The zones of an accepted plan are disjoint, contiguous and in the PSRAM below its guard tail;
  for requests below the 32-bit limit they have exactly the requested depths, and the plan is accepted
  exactly when the depths fit the PSRAM and the combined rate fits the bus.
\<close>

theorem psram_plan_zones:
  assumes "unat (la_samples req) < 2147483648" and "unat (adc_samples req) < 2147483648"
  shows "let p = psram_plan req;
             need = 2 * unat (la_samples req) + 2 * unat (adc_samples req) + unat (dac_bytes req);
             rate = 2 * (unat (la_rate_hz req) + unat (adc_rate_hz req) + unat (dac_rate_hz req))
         in (status p = PSRAM_ALLOC_OK \<longleftrightarrow> need \<le> PSRAM_USABLE_BYTES \<and> rate \<le> PSRAM_SUSTAINED_BPS) \<and>
            (status p = PSRAM_ALLOC_OK \<longrightarrow>
               card (zone (la_base p) (la_len p)) = 2 * unat (la_samples req) \<and>
               card (zone (adc_base p) (adc_len p)) = 2 * unat (adc_samples req) \<and>
               card (zone (dac_base p) (dac_len p)) = unat (dac_bytes req) \<and>
               zone (la_base p) (la_len p) \<inter> zone (adc_base p) (adc_len p) = {} \<and>
               zone (la_base p) (la_len p) \<inter> zone (dac_base p) (dac_len p) = {} \<and>
               zone (adc_base p) (adc_len p) \<inter> zone (dac_base p) (dac_len p) = {} \<and>
               zone (la_base p) (la_len p) \<union> zone (adc_base p) (adc_len p) \<union> zone (dac_base p) (dac_len p) =
                 {0..<need})"
proof -
  note d = unat_double [OF assms(1)] unat_double [OF assms(2)]
  show ?thesis
  proof (cases "2 * unat (la_samples req) + 2 * unat (adc_samples req) + unat (dac_bytes req) \<le> PSRAM_USABLE_BYTES")
    case True
    then have "unat (la_samples req * 2 + adc_samples req * 2) = unat (la_samples req) * 2 + unat (adc_samples req) * 2"
      using unat_add_small [of "la_samples req * 2" "adc_samples req * 2"] d by (simp add: psram_consts)
    with d True show ?thesis
      unfolding Let_def psram_plan_OK_iff psram_plan_fields zone_def by auto
  next
    case False
    with d show ?thesis unfolding Let_def psram_plan_OK_iff by auto
  qed
qed

definition sample_request :: psram_request_t where
  "sample_request = \<lparr>la_samples = 1000, adc_samples = 0, dac_bytes = 500, la_rate_hz = 1000000, adc_rate_hz = 0,
     dac_rate_hz = 100000\<rparr>"

theorem psram_plan_zones_witness:
  "status (psram_plan sample_request) = PSRAM_ALLOC_OK"
  using psram_plan_zones [of sample_request] by (simp add: Let_def sample_request_def psram_consts)

text \<open>
  What the 64-bit sums do not catch: the doubling of a sample count is itself a 32-bit product,
  so a request of 2^31 or more samples is planned as if it were for the rest modulo 2^31.
\<close>

theorem psram_plan_sample_wrap:
  "\<exists>req. unat (la_samples req) > PSRAM_TOTAL_BYTES \<and> status (psram_plan req) = PSRAM_ALLOC_OK \<and>
     unat (la_len (psram_plan req)) = 2"
proof -
  let ?r = "\<lparr>la_samples = 0x80000001, adc_samples = 0, dac_bytes = 0, la_rate_hz = 0, adc_rate_hz = 0, dac_rate_hz = 0\<rparr>
    :: psram_request_t"
  have "unat (la_samples ?r) > PSRAM_TOTAL_BYTES" "unat (la_len (psram_plan ?r)) = 2"
    "status (psram_plan ?r) = PSRAM_ALLOC_OK"
    by (simp_all add: psram_plan_fields psram_plan_OK_iff psram_consts)
  then show ?thesis by blast
qed


subsection \<open>Is the last capture intact? (psram_regions.c)\<close>

definition REGIONS_MAX :: nat where "REGIONS_MAX = 2"

record regions =
  s_r :: "(u32 \<times> u32) list"
  s_stale :: "cstr option"

definition psram_regions_track :: "regions \<Rightarrow> u32 \<Rightarrow> u32 \<Rightarrow> u32 \<Rightarrow> u32 \<Rightarrow> regions" where
  "psram_regions_track r base0 len0 base1 len1 =
     \<lparr>s_r = (if len0 \<noteq> 0 then [(base0, len0)] else []) @ (if len1 \<noteq> 0 then [(base1, len1)] else []),
      s_stale = None\<rparr>"

definition psram_regions_forget :: "regions \<Rightarrow> regions" where
  "psram_regions_forget r = \<lparr>s_r = [], s_stale = None\<rparr>"

text \<open>The reason of a write, \<open>None\<close> for a NULL pointer.\<close>

definition why_or_default :: "cstr option \<Rightarrow> cstr" where
  "why_or_default why = (case why of Some w \<Rightarrow> w | None \<Rightarrow> ''another PSRAM write'')"

definition hits :: "nat \<Rightarrow> nat \<Rightarrow> u32 \<times> u32 \<Rightarrow> bool" where
  "hits base stop reg \<longleftrightarrow> base < unat (fst reg) + unat (snd reg) \<and> unat (fst reg) < stop"

definition psram_regions_dirty :: "regions \<Rightarrow> u32 \<Rightarrow> u32 \<Rightarrow> cstr option \<Rightarrow> regions" where
  "psram_regions_dirty r base len why =
     (if len = 0 \<or> s_stale r \<noteq> None then r
      else if list_ex (hits (unat base) (unat base + unat len)) (s_r r)
      then r\<lparr>s_stale := Some (why_or_default why)\<rparr>
      else r)"

definition psram_regions_dirty_all :: "regions \<Rightarrow> cstr option \<Rightarrow> regions" where
  "psram_regions_dirty_all r why =
     (if s_r r \<noteq> [] \<and> s_stale r = None then r\<lparr>s_stale := Some (why_or_default why)\<rparr> else r)"

definition psram_regions_stale :: "regions \<Rightarrow> cstr option" where
  "psram_regions_stale r = s_stale r"

datatype psram_ev = Write u32 u32 "cstr option" | Reload "cstr option"

fun region_ev :: "regions \<Rightarrow> psram_ev \<Rightarrow> regions" where
  "region_ev r (Write base len why) = psram_regions_dirty r base len why"
| "region_ev r (Reload why) = psram_regions_dirty_all r why"

text \<open>Does an event change a byte of the tracked capture?\<close>

fun spoils :: "(u32 \<times> u32) list \<Rightarrow> psram_ev \<Rightarrow> bool" where
  "spoils regs (Write base len why) \<longleftrightarrow> zone base len \<inter> (\<Union>(b, l) \<in> set regs. zone b l) \<noteq> {}"
| "spoils regs (Reload why) \<longleftrightarrow> regs \<noteq> []"

fun ev_why :: "psram_ev \<Rightarrow> cstr" where
  "ev_why (Write base len why) = why_or_default why"
| "ev_why (Reload why) = why_or_default why"

lemma zone_overlap:
  assumes "len \<noteq> 0" and "l \<noteq> 0"
  shows "zone base len \<inter> zone b l \<noteq> {} \<longleftrightarrow> hits (unat base) (unat base + unat len) (b, l)"
proof -
  have "0 < unat len" "0 < unat l" using assms by (simp_all add: unat_gt_0)
  then show ?thesis by (auto simp: zone_def hits_def set_eq_iff) (metis add_strict_left_mono
      linorder_le_less_linear nat_le_linear add.right_neutral)
qed

lemma region_ev_step:
  assumes "list_all (\<lambda>reg. snd reg \<noteq> 0) (s_r r)"
  shows "s_r (region_ev r e) = s_r r"
    and "s_stale (region_ev r e) = (if s_stale r = None \<and> spoils (s_r r) e then Some (ev_why e) else s_stale r)"
proof -
  have "list_ex (hits (unat base) (unat base + unat len)) (s_r r) \<longleftrightarrow>
      zone base len \<inter> (\<Union>(b, l) \<in> set (s_r r). zone b l) \<noteq> {}" if "len \<noteq> 0" for base len
    using assms zone_overlap [OF that] by (fastforce simp: list_ex_iff list_all_iff)
  moreover have "zone base 0 = {}" for base by (simp add: zone_def)
  ultimately show "s_r (region_ev r e) = s_r r"
    and "s_stale (region_ev r e) = (if s_stale r = None \<and> spoils (s_r r) e then Some (ev_why e) else s_stale r)"
    by (cases e; auto simp: psram_regions_dirty_def psram_regions_dirty_all_def)+
qed

text \<open>
  A capture counts as intact exactly while nothing has written over it: after any sequence of
  writes and gateware reloads the stale reason is that of the first event that touched a byte of the
  tracked ranges, and none if there was none.
\<close>

theorem psram_regions_first_spoiler:
  "let r = psram_regions_track r0 b0 l0 b1 l1 in
   psram_regions_stale (foldl region_ev r evs) = map_option ev_why (find (spoils (s_r r)) evs)"
proof -
  let ?r = "psram_regions_track r0 b0 l0 b1 l1"
  have "s_stale (foldl region_ev r evs) =
      (case s_stale r of Some w \<Rightarrow> Some w | None \<Rightarrow> map_option ev_why (find (spoils (s_r r)) evs))"
    if "list_all (\<lambda>reg. snd reg \<noteq> 0) (s_r r)" for r
    using that
  proof (induction evs arbitrary: r)
    case (Cons e evs)
    from Cons.IH [of "region_ev r e"] Cons.prems region_ev_step [OF Cons.prems, of e] show ?case
      by (auto split: option.split)
  qed (simp split: option.split)
  moreover have "list_all (\<lambda>reg. snd reg \<noteq> 0) (s_r ?r)" "s_stale ?r = None"
    by (simp_all add: psram_regions_track_def)
  ultimately show ?thesis by (simp add: Let_def psram_regions_stale_def)
qed

subsection \<open>Who holds the bus (bus_owner.c)\<close>

text \<open>Owners are task tokens, \<open>None\<close> for NULL; the counters of broken rules wrap as the C's do.\<close>

record bus_owner_t =
  owner :: "nat option"
  depth :: u16
  violations :: u32
  unpaired :: u32

definition bus_owner_take :: "bus_owner_t \<Rightarrow> nat option \<Rightarrow> bus_owner_t \<times> bool" where
  "bus_owner_take b who =
     (if depth b = 0 then (b\<lparr>owner := who, depth := 1\<rparr>, True)
      else
        let b1 = (if owner b \<noteq> who then b\<lparr>violations := violations b + 1\<rparr> else b)
        in (if depth b1 < 0xFFFF then b1\<lparr>depth := depth b1 + 1\<rparr> else b1, False))"

definition bus_owner_give :: "bus_owner_t \<Rightarrow> nat option \<Rightarrow> bus_owner_t \<times> bool" where
  "bus_owner_give b who =
     (if depth b = 0 then (b\<lparr>unpaired := unpaired b + 1\<rparr>, True)
      else
        let b1 = (if owner b \<noteq> who then b\<lparr>violations := violations b + 1\<rparr> else b);
            b2 = b1\<lparr>depth := depth b1 - 1\<rparr>
        in if depth b2 = 0 then (b2\<lparr>owner := None\<rparr>, True) else (b2, False))"

definition bus_owner_handover :: "bus_owner_t \<Rightarrow> bus_owner_t \<times> u16" where
  "bus_owner_handover b =
     (let b1 = (if depth b \<noteq> 0 then b\<lparr>violations := violations b + 1\<rparr> else b)
      in (b1\<lparr>depth := 0, owner := None\<rparr>, depth b))"

text \<open>A holder's session: balanced takes and gives by one task, nested at most to the counter's range.\<close>

fun balance :: "nat \<Rightarrow> bool list \<Rightarrow> nat option" where
  "balance d [] = Some d"
| "balance d (True # ops) = (if d < 65535 then balance (d + 1) ops else None)"
| "balance d (False # ops) = (if 0 < d then balance (d - 1) ops else None)"

text \<open>The pin switches a session asks for: \<open>True\<close> towards the STM32, \<open>False\<close> back to the iCE40.\<close>

fun session :: "nat option \<Rightarrow> bus_owner_t \<Rightarrow> bool list \<Rightarrow> bus_owner_t \<times> bool list" where
  "session who b [] = (b, [])"
| "session who b (True # ops) =
     (let (b', sw) = bus_owner_take b who; (b'', log) = session who b' ops
      in (b'', if sw then True # log else log))"
| "session who b (False # ops) =
     (let (b', sw) = bus_owner_give b who; (b'', log) = session who b' ops
      in (b'', if sw then False # log else log))"

text \<open>The switches of the outermost takes and gives, computed from the nesting depth alone.\<close>

fun outer_switches :: "nat \<Rightarrow> bool list \<Rightarrow> bool list" where
  "outer_switches d [] = []"
| "outer_switches d (True # ops) = (if d = 0 then True # outer_switches (d + 1) ops else outer_switches (d + 1) ops)"
| "outer_switches d (False # ops) = (if d = 1 then False # outer_switches (d - 1) ops else outer_switches (d - 1) ops)"

definition held :: "nat option \<Rightarrow> bus_owner_t \<Rightarrow> nat \<Rightarrow> bool" where
  "held who b d \<longleftrightarrow> unat (depth b) = d \<and> owner b = (if d = 0 then None else who)"

lemma take_held:
  assumes "held who b d" and "d < 65535"
  shows "held who (fst (bus_owner_take b who)) (d + 1)" and "snd (bus_owner_take b who) \<longleftrightarrow> d = 0"
    and "violations (fst (bus_owner_take b who)) = violations b" and "unpaired (fst (bus_owner_take b who)) = unpaired b"
proof -
  have d0: "depth b = 0 \<longleftrightarrow> d = 0" using assms(1) by (auto simp: held_def unat_eq_0)
  have lt: "depth b < 0xFFFF" using assms by (simp add: held_def word_less_nat_alt)
  have "unat (depth b + 1) = d + 1" using assms by (simp add: held_def unat_word_ariths)
  with d0 lt assms show "held who (fst (bus_owner_take b who)) (d + 1)" "snd (bus_owner_take b who) \<longleftrightarrow> d = 0"
    "violations (fst (bus_owner_take b who)) = violations b" "unpaired (fst (bus_owner_take b who)) = unpaired b"
    by (auto simp: bus_owner_take_def held_def Let_def)
qed

lemma give_held:
  assumes "held who b d" and "0 < d"
  shows "held who (fst (bus_owner_give b who)) (d - 1)" and "snd (bus_owner_give b who) \<longleftrightarrow> d = 1"
    and "violations (fst (bus_owner_give b who)) = violations b" and "unpaired (fst (bus_owner_give b who)) = unpaired b"
proof -
  have d0: "depth b \<noteq> 0" using assms by (auto simp: held_def unat_eq_0)
  have sub: "unat (depth b - 1) = d - 1" using assms unat_u16_sub [of "depth b" 1] unat_u16_bound [of "depth b"]
    by (auto simp: held_def mod_if)
  have d1: "depth b - 1 = 0 \<longleftrightarrow> d = 1" using sub assms(2) by (metis unat_eq_0 diff_is_0_eq le_antisym less_one nat_neq_iff One_nat_def Suc_leI diff_self_eq_0)
  from d0 sub d1 assms show "held who (fst (bus_owner_give b who)) (d - 1)" "snd (bus_owner_give b who) \<longleftrightarrow> d = 1"
    "violations (fst (bus_owner_give b who)) = violations b" "unpaired (fst (bus_owner_give b who)) = unpaired b"
    by (auto simp: bus_owner_give_def held_def Let_def)
qed

lemma session_held:
  "held who b d \<Longrightarrow> balance d ops = Some d' \<Longrightarrow>
     held who (fst (session who b ops)) d' \<and> snd (session who b ops) = outer_switches d ops \<and>
     violations (fst (session who b ops)) = violations b \<and> unpaired (fst (session who b ops)) = unpaired b"
proof (induction d ops arbitrary: b rule: balance.induct)
  case (2 d ops)
  then have d: "d < 65535" "balance (d + 1) ops = Some d'" by (auto split: if_splits)
  note t = take_held [OF 2(2) d(1)]
  from "2.IH" [OF d(1) t(1) d(2)] t show ?case
    by (simp add: case_prod_beta Let_def)
next
  case (3 d ops)
  then have d: "0 < d" "balance (d - 1) ops = Some d'" by (auto split: if_splits)
  note g = give_held [OF 3(2) d(1)]
  from "3.IH" [OF d(1) g(1) d(2)] g show ?case
    by (simp add: case_prod_beta Let_def)
qed auto

text \<open>
  A holder's nested takes and gives switch the bus exactly at the outermost ones: over any
  session of one task, however it nests, the pins go to the STM32 at the first take and back at its
  matching give and at no other point, nothing is counted as a violation, and after a balanced
  session the bus is free.
\<close>

theorem bus_owner_outermost_switches:
  assumes "held who b 0" and "balance 0 ops = Some d"
  shows "snd (session who b ops) = outer_switches 0 ops \<and> held who (fst (session who b ops)) d \<and>
    violations (fst (session who b ops)) = violations b \<and> unpaired (fst (session who b ops)) = unpaired b"
  using session_held [OF assms] by blast

definition free_bus :: bus_owner_t where
  "free_bus = \<lparr>owner = None, depth = 0, violations = 0, unpaired = 0\<rparr>"

theorem bus_owner_outermost_switches_witness:
  "snd (session (Some 7) free_bus [True, True, False, True, False, False]) = [True, False]"
  using bus_owner_outermost_switches [of "Some 7" free_bus "[True, True, False, True, False, False]" 0]
  by (simp add: held_def free_bus_def)

end
