(* ===== verification/Recovery.thy ===== *)
theory Recovery
  imports Prelude
begin

section \<open>The recovery ladder\<close>

text \<open>
  The model of \<^verbatim>\<open>stm32h563/src/recovery.c\<close>: which step a pod whose captures keep failing, or whose
  Ethernet link stays down, takes next, and the limits on how often. The clock is the 32-bit
  millisecond counter and wraps; rings hold the times of the last steps. A run is any sequence of polls at growing
  real times, each step taken some time after the poll that asked for it. A reset of the STM32 starts the clock
  and the ladder's state over: only the count of resets survives it.
\<close>

definition RECOVERY_FAIL_MS :: u32 where "RECOVERY_FAIL_MS = 10000"
definition RECOVERY_RELOAD_GAP_MS :: u32 where "RECOVERY_RELOAD_GAP_MS = 30000"
definition RECOVERY_RELOADS_PER_EPISODE :: u32 where "RECOVERY_RELOADS_PER_EPISODE = 2"
definition RECOVERY_RELOADS_PER_HOUR :: nat where "RECOVERY_RELOADS_PER_HOUR = 6"
definition RECOVERY_RESETS_MAX :: u32 where "RECOVERY_RESETS_MAX = 2"
definition RECOVERY_HEALTHY_MS :: u32 where "RECOVERY_HEALTHY_MS = 600000"
definition RECOVERY_LINK_DOWN_MS :: u32 where "RECOVERY_LINK_DOWN_MS = 20000"
definition RECOVERY_ETH_GAP_MS :: u32 where "RECOVERY_ETH_GAP_MS = 60000"
definition RECOVERY_ETH_PER_HOUR :: nat where "RECOVERY_ETH_PER_HOUR = 10"
definition RECOVERY_HOUR_MS :: u32 where "RECOVERY_HOUR_MS = 3600000"

datatype recovery_action_t = RECOVERY_NONE | RECOVERY_ICE40_RELOAD | RECOVERY_MCU_RESET | RECOVERY_ETH_RESTART

record recovery_t =
  episode_reloads :: u32
  last_reload_ms :: u32
  reload_times :: "u32 list"
  reload_n :: u32
  healthy_since_ms :: u32
  healthy_valid :: bool
  last_eth_ms :: u32
  eth_times :: "u32 list"
  eth_n :: u32
  limit_noted :: bool

definition recovery_init :: "u32 \<Rightarrow> recovery_t" where
  "recovery_init now_ms = \<lparr>episode_reloads = 0, last_reload_ms = 0,
     reload_times = replicate RECOVERY_RELOADS_PER_HOUR 0, reload_n = 0, healthy_since_ms = now_ms,
     healthy_valid = False, last_eth_ms = 0, eth_times = replicate RECOVERY_ETH_PER_HOUR 0, eth_n = 0,
     limit_noted = False\<rparr>"

definition in_last_hour :: "u32 list \<Rightarrow> nat \<Rightarrow> u32 \<Rightarrow> u32 \<Rightarrow> nat" where
  "in_last_hour ring sz n now_ms =
     (let filled = (if unat n < sz then unat n else sz) in
      length (filter (\<lambda>i. now_ms - ring ! i < RECOVERY_HOUR_MS) [0..<filled]))"

definition reload_allowed :: "recovery_t \<Rightarrow> u32 \<Rightarrow> bool" where
  "reload_allowed r now_ms \<longleftrightarrow>
     in_last_hour (reload_times r) RECOVERY_RELOADS_PER_HOUR (reload_n r) now_ms < RECOVERY_RELOADS_PER_HOUR"

definition reset_due :: "recovery_t \<Rightarrow> u32 \<Rightarrow> u32 \<Rightarrow> bool" where
  "reset_due r now_ms fail_ms =
     (if episode_reloads r = 0 then fail_ms \<ge> RECOVERY_FAIL_MS + RECOVERY_RELOAD_GAP_MS
      else now_ms - last_reload_ms r \<ge> RECOVERY_RELOAD_GAP_MS)"

definition more_reloads :: "recovery_t \<Rightarrow> u32 \<Rightarrow> bool" where
  "more_reloads r now_ms \<longleftrightarrow> episode_reloads r < RECOVERY_RELOADS_PER_EPISODE \<and> reload_allowed r now_ms"

text \<open>The health bookkeeping at the start of a poll: the state and the persisted reset count.\<close>

definition track_health :: "recovery_t \<Rightarrow> u32 \<Rightarrow> u32 \<Rightarrow> u32 \<Rightarrow> recovery_t \<times> u32" where
  "track_health r now_ms fail_ms resets =
     (if fail_ms = 0 then
        let r1 = (if \<not> healthy_valid r
                  then r\<lparr>healthy_valid := True, healthy_since_ms := now_ms, episode_reloads := 0, limit_noted := False\<rparr>
                  else r)
        in (r1, if resets \<noteq> 0 \<and> now_ms - healthy_since_ms r1 \<ge> RECOVERY_HEALTHY_MS then 0 else resets)
      else (r\<lparr>healthy_valid := False\<rparr>, resets))"

definition eth_step :: "recovery_t \<Rightarrow> u32 \<Rightarrow> u32 \<Rightarrow> recovery_action_t" where
  "eth_step r now_ms link_down_ms =
     (if link_down_ms \<ge> RECOVERY_LINK_DOWN_MS \<and>
         (eth_n r = 0 \<or> now_ms - last_eth_ms r \<ge> RECOVERY_ETH_GAP_MS) \<and>
         in_last_hour (eth_times r) RECOVERY_ETH_PER_HOUR (eth_n r) now_ms < RECOVERY_ETH_PER_HOUR
      then RECOVERY_ETH_RESTART else RECOVERY_NONE)"

definition recovery_poll ::
  "recovery_t \<Rightarrow> u32 \<Rightarrow> u32 \<Rightarrow> u32 \<Rightarrow> u32 \<Rightarrow> recovery_t \<times> u32 \<times> recovery_action_t" where
  "recovery_poll r now_ms fail_ms link_down_ms resets =
     (let (r1, resets1) = track_health r now_ms fail_ms resets in
      (r1, resets1,
       if fail_ms \<ge> RECOVERY_FAIL_MS then
         (if more_reloads r1 now_ms then
            (if episode_reloads r1 = 0 \<or> now_ms - last_reload_ms r1 \<ge> RECOVERY_RELOAD_GAP_MS
             then RECOVERY_ICE40_RELOAD else eth_step r1 now_ms link_down_ms)
          else if resets1 < RECOVERY_RESETS_MAX \<and> reset_due r1 now_ms fail_ms then RECOVERY_MCU_RESET
          else eth_step r1 now_ms link_down_ms)
       else eth_step r1 now_ms link_down_ms))"


definition recovery_exhausted :: "recovery_t \<Rightarrow> u32 \<Rightarrow> u32 \<Rightarrow> u32 \<Rightarrow> recovery_t \<times> bool" where
  "recovery_exhausted r now_ms fail_ms resets =
     (if limit_noted r \<or> fail_ms < RECOVERY_FAIL_MS then (r, False)
      else if more_reloads r now_ms \<or> resets < RECOVERY_RESETS_MAX then (r, False)
      else (r\<lparr>limit_noted := True\<rparr>, True))"

fun recovery_action_name :: "recovery_action_t \<Rightarrow> cstr" where
  "recovery_action_name RECOVERY_ICE40_RELOAD = ''iCE40 reload''"
| "recovery_action_name RECOVERY_MCU_RESET = ''STM32 reset''"
| "recovery_action_name RECOVERY_ETH_RESTART = ''Ethernet restart''"
| "recovery_action_name RECOVERY_NONE = ''none''"

subsection \<open>A ring of step times\<close>





subsection \<open>Runs\<close>

text \<open>
  \<open>clock\<close> is the time since boot before it wraps; the logs are the real times of this boot's steps, newest first,
  and \<open>again\<close> says of each reload whether it repeats one of the same failure episode. \<open>past\<close> keeps the logs of the
  boots before.
\<close>

record run =
  st :: "recovery_t option"
  resets :: u32
  clock :: nat
  reloads :: "nat list"
  again :: "bool list"
  restarts :: "nat list"
  past :: "(nat list \<times> bool list \<times> nat list) list"






















subsection \<open>Properties\<close>





text \<open>
  The ladder does not give up silently. When captures have failed for forty seconds, the link is
  up, and the last reload is half a minute back, a poll asks for a reload or a reset, or else the
  limits are used up and that is reported, once per episode.
\<close>

theorem recovery_acts_or_reports:
  assumes "recovery_poll r now fail_ms 0 n = (r', n', a)" and "fail_ms \<ge> 40000"
    and "now - last_reload_ms r \<ge> RECOVERY_RELOAD_GAP_MS"
  shows "a = RECOVERY_ICE40_RELOAD \<or> a = RECOVERY_MCU_RESET \<or>
    (\<not> limit_noted r \<longrightarrow> snd (recovery_exhausted r' now fail_ms n') \<and>
       \<not> snd (recovery_exhausted (fst (recovery_exhausted r' now fail_ms n')) now fail_ms n'))"
proof -
  have f: "fail_ms \<noteq> 0" "fail_ms \<ge> RECOVERY_FAIL_MS" "\<not> fail_ms < RECOVERY_FAIL_MS"
    "fail_ms \<ge> RECOVERY_FAIL_MS + RECOVERY_RELOAD_GAP_MS"
    using assms(2) by (auto simp: RECOVERY_FAIL_MS_def RECOVERY_RELOAD_GAP_MS_def word_le_nat_alt word_less_nat_alt)
  have r': "r' = r\<lparr>healthy_valid := False\<rparr>" "n' = n"
    using assms(1) f(1) by (auto simp: recovery_poll_def track_health_def)
  have "a = (if more_reloads r' now then RECOVERY_ICE40_RELOAD
      else if n < RECOVERY_RESETS_MAX then RECOVERY_MCU_RESET else eth_step r' now 0)"
    using assms(1,3) f by (auto simp: recovery_poll_def track_health_def reset_due_def)
  then show ?thesis using f r' by (auto simp: recovery_exhausted_def split: if_splits)
qed

theorem recovery_acts_or_reports_witness:
  "snd (snd (recovery_poll (recovery_init 0) 50000 45000 0 2)) = RECOVERY_ICE40_RELOAD \<or>
   snd (snd (recovery_poll (recovery_init 0) 50000 45000 0 2)) = RECOVERY_MCU_RESET \<or>
   (let (r', n', a) = recovery_poll (recovery_init 0) 50000 45000 0 2 in snd (recovery_exhausted r' 50000 45000 n'))"
proof -
  obtain r' n' a where p: "recovery_poll (recovery_init 0) 50000 45000 0 2 = (r', n', a)" by (metis prod_cases3)
  from recovery_acts_or_reports [OF p] show ?thesis
    unfolding p by (auto simp: recovery_init_def RECOVERY_RELOAD_GAP_MS_def Let_def)
qed

end
