(* ===== verification/BootGuard.thy ===== *)
theory BootGuard
  imports Prelude
begin

section \<open>Boot guard and safe mode\<close>

text \<open>
  The model of \<^verbatim>\<open>stm32h563/src/boot_guard.c\<close> and \<^verbatim>\<open>boot_policy.c\<close>: the record in \<^verbatim>\<open>.noinit\<close> RAM that
  survives a software or watchdog reset, the statics of the current boot, and every operation on
  them. The task recorded by the last crash (\<^verbatim>\<open>fault_last_crash_task\<close>) is an argument of
  \<open>boot_guard_begin\<close>; the watchdog, the barriers and the log are left out. A trap taken on purpose
  by the test loop is the flag \<open>trapped\<close>.
\<close>

definition BOOT_SUB_NET :: u32 where "BOOT_SUB_NET = 1"
definition BOOT_SUB_HW :: u32 where "BOOT_SUB_HW = 2"
definition BOOT_SUB_ALL :: u32 where "BOOT_SUB_ALL = BOOT_SUB_NET OR BOOT_SUB_HW"
definition BOOT_GUARD_MAGIC :: u32 where "BOOT_GUARD_MAGIC = 0x42475232"
definition BOOT_GUARD_SAFE_AFTER :: u32 where "BOOT_GUARD_SAFE_AFTER = 2"
definition BOOT_TEST_MAGIC :: u32 where "BOOT_TEST_MAGIC = 0x544c4f4f"

lemmas boot_consts = BOOT_SUB_NET_def BOOT_SUB_HW_def BOOT_SUB_ALL_def BOOT_GUARD_MAGIC_def
  BOOT_GUARD_SAFE_AFTER_def BOOT_TEST_MAGIC_def

datatype boot_stage_t =
    BOOT_STAGE_NONE | BOOT_STAGE_EARLY_HW | BOOT_STAGE_IDENTITY | BOOT_STAGE_USB | BOOT_STAGE_SCHEDULER
  | BOOT_STAGE_NET_INIT | BOOT_STAGE_HW_INIT | BOOT_STAGE_RUNNING

definition stages :: "boot_stage_t list" where
  "stages = [BOOT_STAGE_NONE, BOOT_STAGE_EARLY_HW, BOOT_STAGE_IDENTITY, BOOT_STAGE_USB, BOOT_STAGE_SCHEDULER,
     BOOT_STAGE_NET_INIT, BOOT_STAGE_HW_INIT, BOOT_STAGE_RUNNING]"

fun stage_val :: "boot_stage_t \<Rightarrow> u32" where
  "stage_val BOOT_STAGE_NONE = 0"
| "stage_val BOOT_STAGE_EARLY_HW = 1"
| "stage_val BOOT_STAGE_IDENTITY = 2"
| "stage_val BOOT_STAGE_USB = 3"
| "stage_val BOOT_STAGE_SCHEDULER = 4"
| "stage_val BOOT_STAGE_NET_INIT = 5"
| "stage_val BOOT_STAGE_HW_INIT = 6"
| "stage_val BOOT_STAGE_RUNNING = 7"

definition s_names :: "cstr list" where
  "s_names = [''start'', ''early hardware'', ''device identity'', ''usb'', ''starting tasks'', ''network'',
     ''ice40/psram'', ''running'']"

subsection \<open>Policy (boot_policy.c)\<close>

definition boot_policy_culprit :: "u32 \<Rightarrow> u32 \<Rightarrow> cstr option \<Rightarrow> u32" where
  "boot_policy_culprit started finished crash_task =
     (if crash_task = Some ''net'' then BOOT_SUB_NET
      else if crash_task = Some ''hw'' then BOOT_SUB_HW
      else started AND NOT finished AND BOOT_SUB_ALL)"

definition boot_policy_off :: "u32 \<Rightarrow> u32 \<Rightarrow> u32" where
  "boot_policy_off prev_off culprit =
     (let prev = prev_off AND BOOT_SUB_ALL in
      if culprit \<noteq> 0 then prev OR culprit else if prev \<noteq> 0 then prev else BOOT_SUB_ALL)"

definition boot_policy_off_str :: "u32 \<Rightarrow> cstr" where
  "boot_policy_off_str off =
     (if off AND BOOT_SUB_ALL = BOOT_SUB_NET then ''network''
      else if off AND BOOT_SUB_ALL = BOOT_SUB_HW then ''iCE40/PSRAM''
      else ''network and iCE40/PSRAM'')"

definition boot_policy_gateware_image :: "u8 \<Rightarrow> u8 \<Rightarrow> bool \<Rightarrow> bool \<Rightarrow> int" where
  "boot_policy_gateware_image running embedded running_is_deep configured =
     (if \<not> configured then 0
      else if running = 0 \<or> embedded = 0 \<or> running = embedded then - 1
      else if running_is_deep then 1 else 0)"

subsection \<open>State\<close>

record boot_record_t =
  br_magic :: u32
  br_failed :: u32
  br_stage :: u32
  br_last_stage :: u32
  br_started :: u32
  br_done :: u32
  br_off :: u32

record noinit =
  n_rec :: boot_record_t
  s_test_magic :: u32
  s_test_left :: u32
  s_test_sub :: u32

record boot = noinit +
  s_safe :: bool
  s_off :: u32
  s_hw_ready :: bool
  s_prior_failed :: u32
  s_report :: cstr
  trapped :: bool

definition SAFE_PREFIX :: cstr where "SAFE_PREFIX = ''safe mode: ''"

text \<open>The C runtime clears the statics, a reset leaves \<^verbatim>\<open>.noinit\<close> as it was.\<close>

definition after_reset :: "noinit \<Rightarrow> boot" where
  "after_reset n = noinit.extend (noinit.truncate n)
     \<lparr>s_safe = False, s_off = 0, s_hw_ready = False, s_prior_failed = 0, s_report = [], trapped = False\<rparr>"

definition boot_test_loop_end :: "boot \<Rightarrow> boot" where
  "boot_test_loop_end b = b\<lparr>s_test_magic := 0\<rparr>"

definition report_of :: "u32 \<Rightarrow> u32 \<Rightarrow> u32 \<Rightarrow> u32 \<Rightarrow> cstr" where
  "report_of failed lastst culprit off =
     (let at = (if culprit = BOOT_SUB_NET then s_names ! 5
                else if culprit = BOOT_SUB_HW then s_names ! 6
                else s_names ! unat lastst)
      in snprintf 128 (SAFE_PREFIX @ dec_digits (unat failed) @ '' failed boots in a row, the last in \"'' @ at @
           ''\"; '' @ boot_policy_off_str off @ '' off''))"

definition boot_guard_begin :: "bool \<Rightarrow> cstr option \<Rightarrow> boot \<Rightarrow> boot" where
  "boot_guard_begin fresh_start crash_task b =
     (let r = n_rec b;
          known = (\<not> fresh_start \<and> br_magic r = BOOT_GUARD_MAGIC);
          failed = (if known then br_failed r else 0);
          lastst = (if known \<and> br_stage r < 8 then br_stage r else 0);
          started = (if known then br_started r else 0);
          finished = (if known then br_done r else 0);
          prev_off = (if known then br_off r else 0);
          culprit = boot_policy_culprit started finished crash_task;
          b1 = (if failed \<ge> BOOT_GUARD_SAFE_AFTER then
                  boot_test_loop_end
                    (b\<lparr>s_safe := True, s_off := boot_policy_off prev_off culprit,
                       s_report := report_of failed lastst culprit (boot_policy_off prev_off culprit)\<rparr>)
                else b)
      in b1\<lparr>s_prior_failed := failed,
            n_rec := \<lparr>br_magic = BOOT_GUARD_MAGIC, br_failed = failed + 1, br_stage = 0, br_last_stage = lastst,
                      br_started = 0, br_done = 0, br_off = s_off b1\<rparr>\<rparr>)"

definition upd_rec :: "(boot_record_t \<Rightarrow> boot_record_t) \<Rightarrow> boot \<Rightarrow> boot" where
  "upd_rec f b = b\<lparr>n_rec := f (n_rec b)\<rparr>"

definition boot_guard_stage :: "boot_stage_t \<Rightarrow> boot \<Rightarrow> boot" where
  "boot_guard_stage s = upd_rec (\<lambda>r. r\<lparr>br_stage := stage_val s\<rparr>)"

definition boot_guard_sub_start :: "u32 \<Rightarrow> boot \<Rightarrow> boot" where
  "boot_guard_sub_start sub = upd_rec (\<lambda>r. r\<lparr>br_started := br_started r OR sub\<rparr>)"

definition boot_guard_sub_done :: "u32 \<Rightarrow> boot \<Rightarrow> boot" where
  "boot_guard_sub_done sub = upd_rec (\<lambda>r. r\<lparr>br_done := br_done r OR sub\<rparr>)"

definition boot_guard_safe_mode :: "boot \<Rightarrow> bool" where "boot_guard_safe_mode b = s_safe b"
definition boot_guard_skip_net :: "boot \<Rightarrow> bool" where "boot_guard_skip_net b \<longleftrightarrow> s_off b AND BOOT_SUB_NET \<noteq> 0"
definition boot_guard_skip_hw :: "boot \<Rightarrow> bool" where "boot_guard_skip_hw b \<longleftrightarrow> s_off b AND BOOT_SUB_HW \<noteq> 0"

definition boot_guard_healthy :: "boot \<Rightarrow> boot" where
  "boot_guard_healthy b =
     (if s_safe b then b else upd_rec (\<lambda>r. r\<lparr>br_failed := 0, br_stage := stage_val BOOT_STAGE_RUNNING\<rparr>) b)"

definition boot_guard_planned_reset :: "bool \<Rightarrow> boot \<Rightarrow> boot" where
  "boot_guard_planned_reset planned b =
     (if s_safe b then b
      else upd_rec (\<lambda>r. r\<lparr>br_failed := (if planned then s_prior_failed b else s_prior_failed b + 1)\<rparr>) b)"

definition boot_guard_report :: "boot \<Rightarrow> cstr" where "boot_guard_report b = s_report b"

definition boot_guard_reason :: "boot \<Rightarrow> cstr" where
  "boot_guard_reason b = (if s_report b \<noteq> [] then drop (length SAFE_PREFIX) (s_report b) else [])"

definition boot_hw_ready :: "boot \<Rightarrow> bool" where "boot_hw_ready b = s_hw_ready b"
definition boot_guard_set_hw_ready :: "boot \<Rightarrow> boot" where "boot_guard_set_hw_ready b = b\<lparr>s_hw_ready := True\<rparr>"

definition boot_guard_arm_test_loop :: "u32 \<Rightarrow> u32 \<Rightarrow> boot \<Rightarrow> boot" where
  "boot_guard_arm_test_loop boots sub b = b\<lparr>s_test_left := boots, s_test_sub := sub, s_test_magic := BOOT_TEST_MAGIC\<rparr>"

definition boot_guard_test_loop_point :: "u32 \<Rightarrow> boot \<Rightarrow> boot" where
  "boot_guard_test_loop_point sub b =
     (if s_test_magic b \<noteq> BOOT_TEST_MAGIC \<or> s_test_sub b \<noteq> sub then b
      else if s_safe b \<or> s_test_left b = 0 then boot_test_loop_end b
      else b\<lparr>s_test_left := s_test_left b - 1, trapped := True\<rparr>)"

subsection \<open>A history of boots\<close>

text \<open>
  What a boot calls between \<open>boot_guard_begin\<close> and its end, in any order; the test-loop calls are
  the console's. A boot is the two facts \<open>boot_guard_begin\<close> is told and these calls.
\<close>

datatype boot_ev =
    Stage boot_stage_t | Sub_start u32 | Sub_done u32 | Healthy | Planned bool | Hw_ready
  | Arm_test u32 u32 | Test_point u32

fun do_ev :: "boot \<Rightarrow> boot_ev \<Rightarrow> boot" where
  "do_ev b (Stage s) = boot_guard_stage s b"
| "do_ev b (Sub_start sub) = boot_guard_sub_start sub b"
| "do_ev b (Sub_done sub) = boot_guard_sub_done sub b"
| "do_ev b Healthy = boot_guard_healthy b"
| "do_ev b (Planned p) = boot_guard_planned_reset p b"
| "do_ev b Hw_ready = boot_guard_set_hw_ready b"
| "do_ev b (Arm_test n sub) = boot_guard_arm_test_loop n sub b"
| "do_ev b (Test_point sub) = boot_guard_test_loop_point sub b"

type_synonym boot_in = "bool \<times> cstr option \<times> boot_ev list"

definition boot_run :: "noinit \<Rightarrow> boot_in \<Rightarrow> boot" where
  "boot_run n i = (case i of (fresh, crash, evs) \<Rightarrow>
     foldl do_ev (boot_guard_begin fresh crash (after_reset n)) evs)"

fun boots :: "noinit \<Rightarrow> boot_in list \<Rightarrow> boot list" where
  "boots n [] = []"
| "boots n (i # is) = boot_run n i # boots (noinit.truncate (boot_run n i)) is"

text \<open>How the code's counter takes a boot, and the count it goes on with, at most the safe-mode limit.\<close>

datatype verdict = Good | Asked | Crashed

fun verdict_ev :: "verdict \<Rightarrow> boot_ev \<Rightarrow> verdict" where
  "verdict_ev v Healthy = Good"
| "verdict_ev v (Planned p) = (if p then Asked else Crashed)"
| "verdict_ev v _ = v"

definition verdict_of :: "boot_ev list \<Rightarrow> verdict" where
  "verdict_of evs = foldl verdict_ev Crashed evs"


text \<open>
  The specification is the counter \<^verbatim>\<open>boot_guard.h\<close> describes: the boots in a row that never reached healthy, at most
  the safe-mode limit. A healthy boot starts it over, whatever comes after in that boot; a boot that was not
  healthy yet and ends in a reset somebody asked for leaves it; any other adds one. In safe mode it stays.
\<close>

definition last_planned :: "boot_ev list \<Rightarrow> bool option" where
  "last_planned evs = foldl (\<lambda>a e. case e of Planned p \<Rightarrow> Some p | _ \<Rightarrow> a) None evs"

definition unhealthy_next :: "nat \<Rightarrow> boot_ev list \<Rightarrow> nat" where
  "unhealthy_next c evs =
     (if 2 \<le> c then 2 else if Healthy \<in> set evs then 0 else if last_planned evs = Some True then c else c + 1)"

fun safe_spec :: "nat \<Rightarrow> boot_in list \<Rightarrow> bool list" where
  "safe_spec c [] = []"
| "safe_spec c ((fresh, crash, evs) # is) =
     (let c0 = (if fresh then 0 else c)
      in (2 \<le> c0) # safe_spec (unhealthy_next c0 evs) is)"







lemma do_ev_keeps: "s_safe (do_ev b e) = s_safe b" "s_off (do_ev b e) = s_off b"
    "s_prior_failed (do_ev b e) = s_prior_failed b" "s_report (do_ev b e) = s_report b"
    "br_magic (n_rec (do_ev b e)) = br_magic (n_rec b)" "br_off (n_rec (do_ev b e)) = br_off (n_rec b)"
  by (cases e; simp add: boot_guard_stage_def boot_guard_sub_start_def boot_guard_sub_done_def upd_rec_def
      boot_guard_healthy_def boot_guard_planned_reset_def boot_guard_set_hw_ready_def
      boot_guard_arm_test_loop_def boot_guard_test_loop_point_def boot_test_loop_end_def)+

lemma do_evs_keep: "s_safe (foldl do_ev b es) = s_safe b" "s_off (foldl do_ev b es) = s_off b"
    "s_prior_failed (foldl do_ev b es) = s_prior_failed b" "s_report (foldl do_ev b es) = s_report b"
    "br_magic (n_rec (foldl do_ev b es)) = br_magic (n_rec b)"
    "br_off (n_rec (foldl do_ev b es)) = br_off (n_rec b)"
  by (induction es arbitrary: b; simp add: do_ev_keeps)+

definition count_after :: "u32 \<Rightarrow> verdict \<Rightarrow> u32" where
  "count_after prior v = (case v of Good \<Rightarrow> 0 | Asked \<Rightarrow> prior | Crashed \<Rightarrow> prior + 1)"

lemma do_ev_count:
  assumes "\<not> s_safe b" and "br_failed (n_rec b) = count_after (s_prior_failed b) v"
  shows "br_failed (n_rec (do_ev b e)) = count_after (s_prior_failed b) (verdict_ev v e)"
  using assms
  by (cases e; simp add: boot_guard_stage_def boot_guard_sub_start_def boot_guard_sub_done_def upd_rec_def
      boot_guard_healthy_def boot_guard_planned_reset_def boot_guard_set_hw_ready_def
      boot_guard_arm_test_loop_def boot_guard_test_loop_point_def boot_test_loop_end_def count_after_def)

lemma do_evs_count:
  assumes "\<not> s_safe b" and "br_failed (n_rec b) = count_after (s_prior_failed b) v"
  shows "br_failed (n_rec (foldl do_ev b es)) = count_after (s_prior_failed b) (foldl verdict_ev v es)"
  using assms
proof (induction es arbitrary: b v)
  case (Cons e es)
  have "\<not> s_safe (do_ev b e)" using Cons.prems by (simp add: do_ev_keeps)
  moreover have "br_failed (n_rec (do_ev b e)) = count_after (s_prior_failed (do_ev b e)) (verdict_ev v e)"
    using do_ev_count [OF Cons.prems] by (simp add: do_ev_keeps)
  ultimately show ?case using Cons.IH [of "do_ev b e" "verdict_ev v e"] by (simp add: do_ev_keeps)
qed simp

lemma do_evs_count_safe: "s_safe b \<Longrightarrow> br_failed (n_rec (foldl do_ev b es)) = br_failed (n_rec b)"
proof (induction es arbitrary: b)
  case (Cons e es)
  have "br_failed (n_rec (do_ev b e)) = br_failed (n_rec b)"
    using Cons.prems
    by (cases e; simp add: boot_guard_stage_def boot_guard_sub_start_def boot_guard_sub_done_def upd_rec_def
      boot_guard_healthy_def boot_guard_planned_reset_def boot_guard_set_hw_ready_def
      boot_guard_arm_test_loop_def boot_guard_test_loop_point_def boot_test_loop_end_def)
  with Cons show ?case by (simp add: do_ev_keeps)
qed simp

text \<open>The count \<open>boot_guard_begin\<close> reads.\<close>

definition prior :: "bool \<Rightarrow> noinit \<Rightarrow> u32" where
  "prior fresh n = (if \<not> fresh \<and> br_magic (n_rec n) = BOOT_GUARD_MAGIC then br_failed (n_rec n) else 0)"

lemma begin_facts:
  "s_safe (boot_guard_begin fresh crash (after_reset n)) \<longleftrightarrow> 2 \<le> prior fresh n"
  "s_prior_failed (boot_guard_begin fresh crash (after_reset n)) = prior fresh n"
  "br_failed (n_rec (boot_guard_begin fresh crash (after_reset n))) = prior fresh n + 1"
  "br_magic (n_rec (boot_guard_begin fresh crash (after_reset n))) = BOOT_GUARD_MAGIC"
  by (auto simp: boot_guard_begin_def after_reset_def noinit.defs prior_def Let_def boot_test_loop_end_def
      BOOT_GUARD_SAFE_AFTER_def)

lemma run_facts:
  "s_safe (boot_run n (fresh, crash, evs)) \<longleftrightarrow> 2 \<le> prior fresh n"
  "br_magic (n_rec (boot_run n (fresh, crash, evs))) = BOOT_GUARD_MAGIC"
  "br_failed (n_rec (boot_run n (fresh, crash, evs))) =
     (if 2 \<le> prior fresh n then prior fresh n + 1 else count_after (prior fresh n) (verdict_of evs))"
  by (auto simp: boot_run_def do_evs_keep begin_facts do_evs_count_safe verdict_of_def
      do_evs_count [where v = Crashed] count_after_def)


lemma truncate_rec: "n_rec (noinit.truncate b) = n_rec b"
  by (simp add: noinit.defs)





text \<open>
  A planned reset restores the count from before the boot even when the boot was judged healthy
  meanwhile: a crash, a boot that became healthy and was then rebooted on purpose, and one more
  crash put the next boot in safe mode, reporting two failed boots in a row. The counter of the specification is
  1 there.
\<close>

theorem planned_reset_forgets_healthy:
  "let b = boots n [(True, crash0, []), (False, crash1, [Healthy, Planned True]), (False, crash2, []),
                    (False, None, [])] ! 3
   in boot_guard_safe_mode b \<and> s_prior_failed b = 2 \<and>
      safe_spec 0 [(True, crash0, []), (False, crash1, [Healthy, Planned True]), (False, crash2, []), (False, None, [])] ! 3 = False"
proof -
  let ?n1 = "noinit.truncate (boot_run n (True, crash0, []))"
  let ?n2 = "noinit.truncate (boot_run ?n1 (False, crash1, [Healthy, Planned True]))"
  let ?n3 = "noinit.truncate (boot_run ?n2 (False, crash2, []))"
  have p1: "prior False ?n1 = 1"
    by (simp add: prior_def [of False] truncate_rec run_facts verdict_of_def count_after_def) (simp add: prior_def)
  have p2: "prior False ?n2 = 1"
    by (simp add: prior_def [of False ?n2] truncate_rec run_facts p1 verdict_of_def count_after_def word_le_nat_alt)
  have p3: "prior False ?n3 = 2"
    by (simp add: prior_def [of False ?n3] truncate_rec run_facts p2 verdict_of_def count_after_def word_le_nat_alt)
  have "s_prior_failed (boot_run ?n3 (False, None, [])) = 2"
    using p3 by (simp add: boot_run_def begin_facts do_evs_keep)
  then show ?thesis using p3
    by (simp add: Let_def boot_guard_safe_mode_def run_facts eval_nat_numeral unhealthy_next_def last_planned_def)
qed

subsection \<open>What safe mode turns off\<close>

lemma and_1_bit: "(x :: u32) AND 1 \<noteq> 0 \<longleftrightarrow> bit x 0"
  by (simp add: and_one_eq odd_iff_mod_2_eq_one bit_0)

lemma bit_two: "bit (2 :: u32) m \<longleftrightarrow> m = 1"
  using bit_exp_iff [where 'a = "32 word", of 1 m] by (auto simp: possible_bit_word)

lemma and_2_bit: "(x :: u32) AND 2 \<noteq> 0 \<longleftrightarrow> bit x 1"
proof -
  have "x AND 2 = (if bit x 1 then 2 else 0)"
  proof (rule bit_eqI)
    fix n :: nat
    show "bit (x AND 2) n = bit (if bit x 1 then 2 else (0 :: u32)) n"
      unfolding bit_and_iff bit_two by (cases "bit x 1") (auto simp: bit_two simp del: bit_numeral_word_iff)
  qed
  then show ?thesis by simp
qed

lemma sub_bits: "bit BOOT_SUB_ALL m \<longleftrightarrow> m < 2" "bit BOOT_SUB_NET m \<longleftrightarrow> m = 0" "bit BOOT_SUB_HW m \<longleftrightarrow> m = 1"
  unfolding boot_consts bit_or_iff bit_1_iff bit_two by auto

lemma skip_bits: "boot_guard_skip_net b \<longleftrightarrow> bit (s_off b) 0" "boot_guard_skip_hw b \<longleftrightarrow> bit (s_off b) 1"
  by (simp_all add: boot_guard_skip_net_def boot_guard_skip_hw_def boot_consts(1,2) and_1_bit and_2_bit)

lemma low_nonzero: "x AND BOOT_SUB_ALL \<noteq> 0 \<longleftrightarrow> bit x 0 \<or> bit x 1"
proof
  assume "x AND BOOT_SUB_ALL \<noteq> 0"
  then obtain m where "bit (x AND BOOT_SUB_ALL) m" using bit_eqI [of "x AND BOOT_SUB_ALL" 0] by auto
  then show "bit x 0 \<or> bit x 1" by (auto simp: bit_and_iff sub_bits less_2_cases_iff)
next
  assume "bit x 0 \<or> bit x 1"
  then have "bit (x AND BOOT_SUB_ALL) 0 \<or> bit (x AND BOOT_SUB_ALL) 1" by (auto simp: bit_and_iff sub_bits)
  then show "x AND BOOT_SUB_ALL \<noteq> 0" by auto
qed

lemma policy_off_bits:
  assumes "m < 2"
  shows "bit (boot_policy_off prev culprit) m \<longleftrightarrow>
    bit prev m \<or> bit culprit m \<or> (culprit = 0 \<and> \<not> bit prev 0 \<and> \<not> bit prev 1)"
proof -
  have z: "prev AND BOOT_SUB_ALL = 0 \<longleftrightarrow> \<not> bit prev 0 \<and> \<not> bit prev 1" using low_nonzero [of prev] by blast
  have "bit prev m \<Longrightarrow> bit prev 0 \<or> bit prev 1" using assms by (auto simp: less_2_cases_iff)
  then show ?thesis using assms
    by (auto simp: boot_policy_off_def Let_def z bit_or_iff bit_and_iff sub_bits)
qed

lemma culprit_bits:
  assumes "m < 2"
  shows "bit (boot_policy_culprit started finished crash) m \<longleftrightarrow>
    (if crash = Some ''net'' then m = 0 else if crash = Some ''hw'' then m = 1
     else bit started m \<and> \<not> bit finished m)"
  using assms by (auto simp: boot_policy_culprit_def bit_and_iff bit_not_iff_eq sub_bits)

lemma culprit_zero:
  "boot_policy_culprit started finished crash = 0 \<longleftrightarrow>
     crash \<noteq> Some ''net'' \<and> crash \<noteq> Some ''hw'' \<and>
     \<not> (bit started 0 \<and> \<not> bit finished 0) \<and> \<not> (bit started 1 \<and> \<not> bit finished 1)"
proof -
  have "started AND NOT finished AND BOOT_SUB_ALL = 0 \<longleftrightarrow>
      \<not> (bit started 0 \<and> \<not> bit finished 0) \<and> \<not> (bit started 1 \<and> \<not> bit finished 1)"
    using low_nonzero [of "started AND NOT finished"]
    by (auto simp: and.assoc bit_and_iff bit_not_iff_eq simp del: One_nat_def)
  then show ?thesis
    by (simp add: boot_policy_culprit_def boot_consts(1,2) del: One_nat_def)
qed

text \<open>The record a boot leaves for the next one.\<close>

lemma begin_off:
  assumes "br_magic (n_rec n) = BOOT_GUARD_MAGIC" and "2 \<le> br_failed (n_rec n)"
  shows "s_off (boot_guard_begin False crash (after_reset n)) =
    boot_policy_off (br_off (n_rec n)) (boot_policy_culprit (br_started (n_rec n)) (br_done (n_rec n)) crash)"
  using assms by (simp add: boot_guard_begin_def after_reset_def noinit.defs Let_def boot_test_loop_end_def
      BOOT_GUARD_SAFE_AFTER_def)

lemma begin_br_off: "br_off (n_rec (boot_guard_begin fresh crash (after_reset n))) =
    s_off (boot_guard_begin fresh crash (after_reset n))"
  by (simp add: boot_guard_begin_def after_reset_def noinit.defs Let_def boot_test_loop_end_def)

lemma run_off: "br_off (n_rec (boot_run n i)) = s_off (boot_run n i)"
  by (cases i) (simp add: boot_run_def do_evs_keep begin_br_off)

text \<open>Whom the next boot blames: the task that crashed, else a bring-up that began and did not finish.\<close>

fun begins :: "u32 \<Rightarrow> boot_ev \<Rightarrow> bool" where
  "begins sub (Sub_start s) = (s AND sub \<noteq> 0)"
| "begins sub _ = False"

fun completes :: "u32 \<Rightarrow> boot_ev \<Rightarrow> bool" where
  "completes sub (Sub_done s) = (s AND sub \<noteq> 0)"
| "completes sub _ = False"

definition blamed :: "u32 \<Rightarrow> cstr option \<Rightarrow> boot_ev list \<Rightarrow> bool" where
  "blamed sub crash evs =
     (if crash = Some ''net'' then sub = BOOT_SUB_NET
      else if crash = Some ''hw'' then sub = BOOT_SUB_HW
      else list_ex (begins sub) evs \<and> \<not> list_ex (completes sub) evs)"

lemma and_sub_bit:
  assumes "m < 2"
  shows "(x :: u32) AND 2 ^ m = 0 \<longleftrightarrow> \<not> bit x m"
proof -
  have "m = 0 \<or> m = 1" using assms by auto
  then show ?thesis using and_1_bit [of x] and_2_bit [of x] by (auto simp del: One_nat_def)
qed

lemma do_ev_subs:
  assumes "m < 2"
  shows "bit (br_started (n_rec (do_ev b e))) m \<longleftrightarrow> bit (br_started (n_rec b)) m \<or> begins (2 ^ m) e"
    and "bit (br_done (n_rec (do_ev b e))) m \<longleftrightarrow> bit (br_done (n_rec b)) m \<or> completes (2 ^ m) e"
  by (cases e; simp add: boot_guard_stage_def boot_guard_sub_start_def boot_guard_sub_done_def upd_rec_def
      boot_guard_healthy_def boot_guard_planned_reset_def boot_guard_set_hw_ready_def
      boot_guard_arm_test_loop_def boot_guard_test_loop_point_def boot_test_loop_end_def
      bit_or_iff and_sub_bit [OF assms])+

lemma do_evs_subs:
  assumes "m < 2"
  shows "bit (br_started (n_rec (foldl do_ev b es))) m \<longleftrightarrow>
      bit (br_started (n_rec b)) m \<or> list_ex (begins (2 ^ m)) es"
    and "bit (br_done (n_rec (foldl do_ev b es))) m \<longleftrightarrow>
      bit (br_done (n_rec b)) m \<or> list_ex (completes (2 ^ m)) es"
  using assms by (induction es arbitrary: b) (auto simp: do_ev_subs)

lemma run_subs:
  assumes "m < 2"
  shows "bit (br_started (n_rec (boot_run n (fresh, crash, evs)))) m \<longleftrightarrow> list_ex (begins (2 ^ m)) evs"
    and "bit (br_done (n_rec (boot_run n (fresh, crash, evs)))) m \<longleftrightarrow> list_ex (completes (2 ^ m)) evs"
  using assms by (simp_all add: boot_run_def do_evs_subs boot_guard_begin_def after_reset_def noinit.defs Let_def)

lemma safe_off_bits:
  assumes "boot_guard_safe_mode (boot_run (noinit.truncate (boot_run n (fresh, crash, evs))) (False, crash', evs'))"
    and m: "m < 2"
  shows "bit (s_off (boot_run (noinit.truncate (boot_run n (fresh, crash, evs))) (False, crash', evs'))) m \<longleftrightarrow>
    (let b = boot_run n (fresh, crash, evs) in
     bit (s_off b) m \<or> blamed (2 ^ m) crash' evs \<or>
     \<not> (bit (s_off b) 0 \<or> bit (s_off b) 1 \<or> blamed 1 crash' evs \<or> blamed 2 crash' evs))"
proof -
  define b where "b = boot_run n (fresh, crash, evs)"
  have "2 \<le> br_failed (n_rec b)"
    using assms(1) by (simp add: boot_guard_safe_mode_def run_facts b_def prior_def truncate_rec)
  moreover have "br_magic (n_rec b) = BOOT_GUARD_MAGIC" by (simp add: b_def run_facts)
  ultimately have off: "s_off (boot_run (noinit.truncate b) (False, crash', evs')) =
      boot_policy_off (s_off b) (boot_policy_culprit (br_started (n_rec b)) (br_done (n_rec b)) crash')"
    by (simp add: boot_run_def [of "noinit.truncate b"] do_evs_keep begin_off truncate_rec)
       (simp add: b_def run_off)
  have cases_m: "m = 0 \<or> m = 1" using m by auto
  have subs: "bit (br_started (n_rec b)) 0 \<longleftrightarrow> list_ex (begins 1) evs"
      "bit (br_started (n_rec b)) 1 \<longleftrightarrow> list_ex (begins 2) evs"
      "bit (br_done (n_rec b)) 0 \<longleftrightarrow> list_ex (completes 1) evs"
      "bit (br_done (n_rec b)) 1 \<longleftrightarrow> list_ex (completes 2) evs"
    using run_subs [of 0 n fresh crash evs] run_subs [of 1 n fresh crash evs]
    by (simp_all add: b_def del: One_nat_def)
  show ?thesis
    unfolding b_def [symmetric] Let_def off policy_off_bits [OF m] culprit_bits [OF m] culprit_zero
      blamed_def boot_consts(1,2) subs
    by (rule disjE [OF cases_m]; cases "crash' = Some ''net''"; cases "crash' = Some ''hw''")
       (simp_all add: subs del: One_nat_def, blast+)
qed

text \<open>
  C27. Safe mode turns off exactly what failed: after any boot, a following boot in safe mode skips the
  network (the iCE40 and PSRAM) exactly if the boot before already skipped it, or it is to blame, that
  is its task crashed or its bring-up began and did not finish, or nothing is known to be at fault, and
  then it skips both. So it never skips nothing, and what one safe boot skips every next one skips.
\<close>

theorem safe_mode_skips_what_failed:
  assumes "boot_guard_safe_mode (boot_run (noinit.truncate (boot_run n (fresh, crash, evs))) (False, crash', evs'))"
  shows "let b = boot_run n (fresh, crash, evs);
             b' = boot_run (noinit.truncate b) (False, crash', evs');
             unknown = (\<not> (boot_guard_skip_net b \<or> boot_guard_skip_hw b \<or>
                           blamed BOOT_SUB_NET crash' evs \<or> blamed BOOT_SUB_HW crash' evs))
         in (boot_guard_skip_net b' \<longleftrightarrow> boot_guard_skip_net b \<or> blamed BOOT_SUB_NET crash' evs \<or> unknown) \<and>
            (boot_guard_skip_hw b' \<longleftrightarrow> boot_guard_skip_hw b \<or> blamed BOOT_SUB_HW crash' evs \<or> unknown) \<and>
            (boot_guard_skip_net b' \<or> boot_guard_skip_hw b')"
  using safe_off_bits [OF assms, of 0] safe_off_bits [OF assms, of 1]
  by (auto simp: Let_def skip_bits boot_consts(1,2) simp del: One_nat_def)

definition crashed_once :: noinit where
  "crashed_once = \<lparr>n_rec = \<lparr>br_magic = BOOT_GUARD_MAGIC, br_failed = 1, br_stage = 5, br_last_stage = 0,
     br_started = 1, br_done = 0, br_off = 0\<rparr>, s_test_magic = 0, s_test_left = 0, s_test_sub = 0\<rparr>"

lemma crashed_once_prior: "prior False crashed_once = 1"
  by (simp add: prior_def crashed_once_def)

theorem safe_mode_skips_what_failed_witness:
  "let b' = boot_run (noinit.truncate (boot_run crashed_once (False, None, [Sub_start 1, Sub_start 2, Sub_done 2])))
              (False, None, [])
   in boot_guard_safe_mode b' \<and> boot_guard_skip_net b' \<and> \<not> boot_guard_skip_hw b'"
proof -
  let ?b = "boot_run crashed_once (False, None, [Sub_start 1, Sub_start 2, Sub_done 2])"
  let ?b' = "boot_run (noinit.truncate ?b) (False, None, [])"
  have safe: "boot_guard_safe_mode ?b'"
    by (simp add: boot_guard_safe_mode_def run_facts crashed_once_prior prior_def [of False "noinit.truncate ?b"]
        truncate_rec verdict_of_def count_after_def word_le_nat_alt)
  have "s_off ?b = 0"
    by (simp add: boot_run_def do_evs_keep)
       (simp add: boot_guard_begin_def after_reset_def noinit.defs Let_def crashed_once_def BOOT_GUARD_SAFE_AFTER_def
          word_le_nat_alt boot_guard_sub_start_def boot_guard_sub_done_def upd_rec_def)
  then have "\<not> boot_guard_skip_net ?b" "\<not> boot_guard_skip_hw ?b"
    by (simp_all add: boot_guard_skip_net_def boot_guard_skip_hw_def)
  with safe safe_mode_skips_what_failed [OF safe] show ?thesis
    by (simp add: Let_def blamed_def boot_consts(1,2))
qed

end
