(* ===== verification/Sha256.thy ===== *)
theory Sha256
  imports Prelude "HOL-Library.Monad_Syntax"
begin

section \<open>SHA-256 and HMAC-SHA256 of the Wi-Fi bridge\<close>

text \<open>
  The model of \<^verbatim>\<open>wifi-bridge/components/bridge_core/hmac_sha256.c\<close>. The context, the block
  function and the streaming operations are the code's; the two loops that are not bounded by a
  counter, the copy loop of \<open>sha256_update\<close> and the padding loop of \<open>sha256_final\<close>, are partial
  functions whose value \<open>None\<close> is a loop that never ends, and are proved to end. The reference is
  FIPS 180-4 (message schedule as a recurrence, padding, one pass over the blocks) and RFC 2104.
  Byte strings are lists of bytes, \<^verbatim>\<open>size_t\<close> is a natural number, the byte counter wraps at 64 bits.
\<close>

type_synonym bytes = "u8 list"

definition K :: "u32 list" where
  "K = concat [
    [0x428a2f98, 0x71374491, 0xb5c0fbcf, 0xe9b5dba5, 0x3956c25b, 0x59f111f1, 0x923f82a4, 0xab1c5ed5],
    [0xd807aa98, 0x12835b01, 0x243185be, 0x550c7dc3, 0x72be5d74, 0x80deb1fe, 0x9bdc06a7, 0xc19bf174],
    [0xe49b69c1, 0xefbe4786, 0x0fc19dc6, 0x240ca1cc, 0x2de92c6f, 0x4a7484aa, 0x5cb0a9dc, 0x76f988da],
    [0x983e5152, 0xa831c66d, 0xb00327c8, 0xbf597fc7, 0xc6e00bf3, 0xd5a79147, 0x06ca6351, 0x14292967],
    [0x27b70a85, 0x2e1b2138, 0x4d2c6dfc, 0x53380d13, 0x650a7354, 0x766a0abb, 0x81c2c92e, 0x92722c85],
    [0xa2bfe8a1, 0xa81a664b, 0xc24b8b70, 0xc76c51a3, 0xd192e819, 0xd6990624, 0xf40e3585, 0x106aa070],
    [0x19a4c116, 0x1e376c08, 0x2748774c, 0x34b0bcb5, 0x391c0cb3, 0x4ed8aa4a, 0x5b9cca4f, 0x682e6ff3],
    [0x748f82ee, 0x78a5636f, 0x84c87814, 0x8cc70208, 0x90befffa, 0xa4506ceb, 0xbef9a3f7, 0xc67178f2]]"

definition H0 :: "u32 list" where
  "H0 = [0x6a09e667, 0xbb67ae85, 0x3c6ef372, 0xa54ff53a, 0x510e527f, 0x9b05688c, 0x1f83d9ab, 0x5be0cd19]"

definition ROR :: "u32 \<Rightarrow> nat \<Rightarrow> u32" where
  "ROR x n = drop_bit n x OR push_bit (32 - n) x"

record sha256_ctx_t =
  c_h :: "u32 list"
  c_len :: u64
  c_buf :: bytes
  c_used :: nat

subsection \<open>One block\<close>

definition load_word :: "bytes \<Rightarrow> nat \<Rightarrow> u32" where
  "load_word p i = push_bit 24 (ucast (p ! (4 * i))) OR push_bit 16 (ucast (p ! (4 * i + 1))) OR
     push_bit 8 (ucast (p ! (4 * i + 2))) OR ucast (p ! (4 * i + 3))"

definition expand :: "u32 list \<Rightarrow> u32 list" where
  "expand w =
     (let i = length w;
          s0 = ROR (w ! (i - 15)) 7 XOR ROR (w ! (i - 15)) 18 XOR drop_bit 3 (w ! (i - 15));
          s1 = ROR (w ! (i - 2)) 17 XOR ROR (w ! (i - 2)) 19 XOR drop_bit 10 (w ! (i - 2))
      in w @ [w ! (i - 16) + s0 + w ! (i - 7) + s1])"

definition schedule :: "bytes \<Rightarrow> u32 list" where
  "schedule p = (expand ^^ 48) (map (load_word p) [0..<16])"

type_synonym regs = "u32 \<times> u32 \<times> u32 \<times> u32 \<times> u32 \<times> u32 \<times> u32 \<times> u32"

fun sha_round :: "u32 list \<Rightarrow> nat \<Rightarrow> regs \<Rightarrow> regs" where
  "sha_round w i (a, b, cc, d, e, f, g, hh) =
     (let t1 = hh + (ROR e 6 XOR ROR e 11 XOR ROR e 25) + ((e AND f) XOR (NOT e AND g)) + K ! i + w ! i;
          t2 = (ROR a 2 XOR ROR a 13 XOR ROR a 22) + ((a AND b) XOR (a AND cc) XOR (b AND cc))
      in (t1 + t2, a, b, cc, d + t1, e, f, g))"

definition block :: "u32 list \<Rightarrow> bytes \<Rightarrow> u32 list" where
  "block hs p =
     (case fold (sha_round (schedule p)) [0..<64]
             (hs ! 0, hs ! 1, hs ! 2, hs ! 3, hs ! 4, hs ! 5, hs ! 6, hs ! 7) of
        (a, b, cc, d, e, f, g, hh) \<Rightarrow>
          [hs ! 0 + a, hs ! 1 + b, hs ! 2 + cc, hs ! 3 + d, hs ! 4 + e, hs ! 5 + f, hs ! 6 + g, hs ! 7 + hh])"

subsection \<open>The streaming operations\<close>

text \<open>The buffer of a fresh context is not initialised by the code; its old contents are an argument.\<close>

definition sha256_init :: "sha256_ctx_t \<Rightarrow> sha256_ctx_t" where
  "sha256_init c = c\<lparr>c_h := H0, c_len := 0, c_used := 0\<rparr>"

definition blit :: "bytes \<Rightarrow> nat \<Rightarrow> bytes \<Rightarrow> bytes" where
  "blit b at p = take at b @ p @ drop (at + length p) b"

definition absorb :: "sha256_ctx_t \<Rightarrow> bytes \<Rightarrow> sha256_ctx_t" where
  "absorb c p =
     (let c1 = c\<lparr>c_buf := blit (c_buf c) (c_used c) p, c_used := c_used c + length p\<rparr> in
      if c_used c1 = 64 then c1\<lparr>c_h := block (c_h c1) (c_buf c1), c_used := 0\<rparr> else c1)"

partial_function (option) copy_loop :: "sha256_ctx_t \<Rightarrow> bytes \<Rightarrow> sha256_ctx_t option" where
  "copy_loop c p =
     (if p = [] then Some c
      else let n = (if 64 - c_used c > length p then length p else 64 - c_used c)
           in copy_loop (absorb c (take n p)) (drop n p))"

definition sha256_update :: "sha256_ctx_t \<Rightarrow> bytes \<Rightarrow> sha256_ctx_t option" where
  "sha256_update c data = copy_loop (c\<lparr>c_len := c_len c + of_nat (length data)\<rparr>) data"

partial_function (option) pad_loop :: "sha256_ctx_t \<Rightarrow> sha256_ctx_t option" where
  "pad_loop c = (if c_used c \<noteq> 56 then do { c' \<leftarrow> sha256_update c [0]; pad_loop c' } else Some c)"

definition be64 :: "u64 \<Rightarrow> bytes" where
  "be64 bits = map (\<lambda>i. ucast (drop_bit (56 - 8 * i) bits)) [0..<8]"

definition be32 :: "u32 \<Rightarrow> bytes" where
  "be32 x = [ucast (drop_bit 24 x), ucast (drop_bit 16 x), ucast (drop_bit 8 x), ucast x]"

definition zero_ctx :: sha256_ctx_t where
  "zero_ctx = \<lparr>c_h = replicate 8 0, c_len = 0, c_buf = replicate 64 0, c_used = 0\<rparr>"

definition sha256_final :: "sha256_ctx_t \<Rightarrow> (sha256_ctx_t \<times> bytes) option" where
  "sha256_final c =
     (let bits = c_len c * 8 in
      do { c1 \<leftarrow> sha256_update c [0x80];
           c2 \<leftarrow> pad_loop c1;
           c3 \<leftarrow> sha256_update c2 (be64 bits);
           Some (zero_ctx, concat (map (\<lambda>i. be32 (c_h c3 ! i)) [0..<8])) })"

subsection \<open>The reference: FIPS 180-4\<close>

definition Ch :: "u32 \<Rightarrow> u32 \<Rightarrow> u32 \<Rightarrow> u32" where "Ch x y z = (x AND y) XOR (NOT x AND z)"
definition Maj :: "u32 \<Rightarrow> u32 \<Rightarrow> u32 \<Rightarrow> u32" where "Maj x y z = (x AND y) XOR (x AND z) XOR (y AND z)"
definition Sigma0 :: "u32 \<Rightarrow> u32" where "Sigma0 x = word_rotr 2 x XOR word_rotr 13 x XOR word_rotr 22 x"
definition Sigma1 :: "u32 \<Rightarrow> u32" where "Sigma1 x = word_rotr 6 x XOR word_rotr 11 x XOR word_rotr 25 x"
definition sigma0 :: "u32 \<Rightarrow> u32" where "sigma0 x = word_rotr 7 x XOR word_rotr 18 x XOR drop_bit 3 x"
definition sigma1 :: "u32 \<Rightarrow> u32" where "sigma1 x = word_rotr 17 x XOR word_rotr 19 x XOR drop_bit 10 x"

fun Wt :: "bytes \<Rightarrow> nat \<Rightarrow> u32" where
  "Wt p t = (if t < 16 then load_word p t
     else sigma1 (Wt p (t - 2)) + Wt p (t - 7) + sigma0 (Wt p (t - 15)) + Wt p (t - 16))"

declare Wt.simps [simp del]

fun fips_round :: "bytes \<Rightarrow> nat \<Rightarrow> regs \<Rightarrow> regs" where
  "fips_round p t (a, b, c, d, e, f, g, hh) =
     (let T1 = hh + Sigma1 e + Ch e f g + K ! t + Wt p t; T2 = Sigma0 a + Maj a b c
      in (T1 + T2, a, b, c, d + T1, e, f, g))"

definition fips_compress :: "u32 list \<Rightarrow> bytes \<Rightarrow> u32 list" where
  "fips_compress hs p =
     (case fold (fips_round p) [0..<64] (hs ! 0, hs ! 1, hs ! 2, hs ! 3, hs ! 4, hs ! 5, hs ! 6, hs ! 7) of
        (a, b, c, d, e, f, g, hh) \<Rightarrow> map2 (+) hs [a, b, c, d, e, f, g, hh])"

fun blocks :: "bytes \<Rightarrow> bytes list" where
  "blocks p = (if length p < 64 then [] else take 64 p # blocks (drop 64 p))"

declare blocks.simps [simp del]

definition pad :: "bytes \<Rightarrow> bytes" where
  "pad m = m @ [0x80] @ replicate ((119 - length m mod 64) mod 64) 0 @ be64 (of_nat (8 * length m))"

definition sha256_spec :: "bytes \<Rightarrow> bytes" where
  "sha256_spec m = concat (map be32 (foldl fips_compress H0 (blocks (pad m))))"

subsection \<open>The block function is the FIPS compression\<close>

lemma ROR_rotr: "0 < n \<Longrightarrow> n < 32 \<Longrightarrow> ROR x n = word_rotr n x"
  unfolding ROR_def
  by (rule bit_word_eqI)
     (auto simp: bit_or_iff bit_drop_bit_eq bit_push_bit_iff bit_word_rotr_iff le_mod_geq not_le mod_if
        add.commute [of n] dest: bit_imp_le_length)

lemma expand_W: "16 \<le> n \<Longrightarrow> expand (map (Wt p) [0..<n]) = map (Wt p) [0..<Suc n]"
  by (simp add: expand_def Let_def Wt.simps [of p n] ROR_rotr sigma0_def sigma1_def ac_simps)

lemma schedule_W: "schedule p = map (Wt p) [0..<64]"
proof -
  have "(expand ^^ n) (map (load_word p) [0..<16]) = map (Wt p) [0..<16 + n]" for n
  proof (induction n)
    case 0
    show ?case by (simp add: Wt.simps)
  next
    case (Suc n)
    then show ?case using expand_W [of "16 + n" p] by simp
  qed
  from this [of 48] show ?thesis by (simp add: schedule_def)
qed

lemma round_fips: "t < 64 \<Longrightarrow> sha_round (schedule p) t r = fips_round p t r"
  by (cases "(p, t, r)" rule: fips_round.cases) (simp add: schedule_W ROR_rotr Sigma0_def Sigma1_def Ch_def Maj_def Let_def)

lemma list8:
  assumes "length hs = 8"
  shows "hs = [hs ! 0, hs ! 1, hs ! 2, hs ! 3, hs ! 4, hs ! 5, hs ! 6, hs ! 7]"
  by (rule nth_equalityI) (use assms in \<open>auto simp: less_Suc_eq numeral_eq_Suc\<close>)

lemma block_fips:
  assumes "length hs = 8"
  shows "block hs p = fips_compress hs p"
proof -
  have f: "fold (sha_round (schedule p)) [0..<64] r = fold (fips_round p) [0..<64] r" for r
    by (rule fold_cong) (auto simp: fun_eq_iff round_fips)
  have m: "map2 (+) hs [a, b, c, d, e, f, g, hh] =
      [hs ! 0 + a, hs ! 1 + b, hs ! 2 + c, hs ! 3 + d, hs ! 4 + e, hs ! 5 + f, hs ! 6 + g, hs ! 7 + hh]"
    for a b c d e f g hh
    by (subst (1) list8 [OF assms]) simp
  show ?thesis by (simp add: block_def fips_compress_def f m split: prod.split)
qed

lemma length_block [simp]: "length (block hs p) = 8"
  by (simp add: block_def split: prod.split)

subsection \<open>A context holds a message\<close>

definition compress_all :: "u32 list \<Rightarrow> bytes \<Rightarrow> u32 list" where
  "compress_all hs m = foldl block hs (blocks m)"

lemma blocks_short: "length m < 64 \<Longrightarrow> blocks m = []"
  by (simp add: blocks.simps)

lemma blocks_append: "length m mod 64 = 0 \<Longrightarrow> blocks (m @ x) = blocks m @ blocks x"
proof (induction m rule: blocks.induct)
  case (1 m)
  show ?case
  proof (cases "length m < 64")
    case True
    then show ?thesis using 1 by (simp add: blocks_short)
  next
    case False
    then have "length (drop 64 m) mod 64 = 0" using 1 by (simp add: le_mod_geq)
    with 1 False show ?thesis by (subst (1 2) blocks.simps) (simp add: Let_def)
  qed
qed

lemma compress_all_append:
  "length m mod 64 = 0 \<Longrightarrow> compress_all hs (m @ x) = compress_all (compress_all hs m) x"
  by (simp add: compress_all_def blocks_append)

lemma compress_all_short: "length x < 64 \<Longrightarrow> compress_all hs x = hs"
  by (simp add: compress_all_def blocks_short)

lemma compress_all_block: "length x = 64 \<Longrightarrow> compress_all hs x = block hs x"
  by (simp add: compress_all_def blocks.simps [of x] blocks_short)

lemma compress_all_fips:
  assumes "length hs = 8"
  shows "compress_all hs m = foldl fips_compress hs (blocks m)"
proof -
  have "foldl block hs bs = foldl fips_compress hs bs" if "length hs = 8" for bs
    using that
  proof (induction bs arbitrary: hs)
    case (Cons b bs)
    have "length (block hs b) = 8" by simp
    with Cons show ?case by (simp add: block_fips)
  qed simp
  then show ?thesis using assms by (simp add: compress_all_def)
qed

definition holds :: "sha256_ctx_t \<Rightarrow> bytes \<Rightarrow> bool" where
  "holds c m \<longleftrightarrow> length (c_buf c) = 64 \<and> c_used c < 64 \<and>
     (\<exists>full rest. m = full @ rest \<and> length full mod 64 = 0 \<and> length rest = c_used c \<and>
       take (c_used c) (c_buf c) = rest \<and> c_h c = compress_all H0 full)"

lemma add_mod_64: "a mod 64 = 0 \<Longrightarrow> (a + b) mod 64 = b mod (64 :: nat)"
  by (metis add_0 mod_add_left_eq)

lemma holds_used: "holds c m \<Longrightarrow> c_used c = length m mod 64"
  by (auto simp: holds_def add_mod_64)

lemma holds_h: "holds c m \<Longrightarrow> c_h c = compress_all H0 m"
  by (auto simp: holds_def compress_all_append compress_all_short)

lemma holds_absorb:
  assumes "holds c m" and "length p + c_used c \<le> 64"
  shows "holds (absorb c p) (m @ p)"
proof -
  have b: "length (c_buf c) = 64" "c_used c < 64" using assms(1) by (simp_all add: holds_def)
  obtain full rest where f: "m = full @ rest" "length full mod 64 = 0" "length rest = c_used c"
      "take (c_used c) (c_buf c) = rest" "c_h c = compress_all H0 full"
    using assms(1) unfolding holds_def by (elim conjE exE) (rule that)
  have buf: "blit (c_buf c) (c_used c) p = rest @ p @ drop (c_used c + length p) (c_buf c)"
    using f by (simp add: blit_def)
  show ?thesis
  proof (cases "c_used c + length p = 64")
    case True
    then have buf': "blit (c_buf c) (c_used c) p = rest @ p" using buf b by simp
    have l: "length (rest @ p) = 64" using True f(3) by simp
    have "compress_all H0 (full @ rest @ p) = block (c_h c) (rest @ p)"
      by (simp only: compress_all_append [OF f(2)] compress_all_block [OF l] f(5))
    moreover have "length (full @ rest @ p) mod 64 = 0"
      using f(2) l by (metis add_mod_64 length_append mod_self)
    moreover have "absorb c p = c\<lparr>c_buf := rest @ p, c_h := block (c_h c) (rest @ p), c_used := 0\<rparr>"
      using True by (simp add: absorb_def Let_def buf')
    ultimately show ?thesis using l f(1) by (simp add: holds_def)
  next
    case False
    with assms(2) have "c_used c + length p < 64" by simp
    then show ?thesis using False f b buf
      by (simp add: holds_def absorb_def Let_def)
  qed
qed

lemma absorb_len [simp]: "c_len (absorb c p) = c_len c"
  by (simp add: absorb_def Let_def)

lemma holds_len_upd: "holds (c\<lparr>c_len := n\<rparr>) m = holds c m"
  by (simp add: holds_def)

lemma copy_loop_holds:
  "holds c m \<Longrightarrow> \<exists>c'. copy_loop c p = Some c' \<and> holds c' (m @ p) \<and> c_len c' = c_len c"
proof (induction "length p" arbitrary: c m p rule: less_induct)
  case less
  show ?case
  proof (cases "p = []")
    case True
    then show ?thesis using less by (simp add: copy_loop.simps)
  next
    case False
    define n where "n = (if 64 - c_used c > length p then length p else 64 - c_used c)"
    have u: "c_used c < 64" using less.prems by (simp add: holds_def)
    have n: "0 < n" "n \<le> length p" "length (take n p) + c_used c \<le> 64" using False u by (auto simp: n_def)
    have "holds (absorb c (take n p)) (m @ take n p)" by (rule holds_absorb) (use less.prems n in auto)
    moreover have "length (drop n p) < length p" using n False by simp
    ultimately obtain c' where "copy_loop (absorb c (take n p)) (drop n p) = Some c'"
        "holds c' ((m @ take n p) @ drop n p)" "c_len c' = c_len (absorb c (take n p))"
      using less.hyps by blast
    then show ?thesis using False by (subst copy_loop.simps) (simp add: Let_def n_def)
  qed
qed

lemma update_holds:
  assumes "holds c m"
  shows "\<exists>c'. sha256_update c p = Some c' \<and> holds c' (m @ p) \<and> c_len c' = c_len c + of_nat (length p)"
  unfolding sha256_update_def
  using copy_loop_holds [of "c\<lparr>c_len := c_len c + of_nat (length p)\<rparr>" m p] assms by (simp add: holds_len_upd)

lemma init_holds: "length (c_buf c) = 64 \<Longrightarrow> holds (sha256_init c) []"
  by (simp add: holds_def sha256_init_def compress_all_short)

subsection \<open>The padding loop\<close>

definition zeros_needed :: "nat \<Rightarrow> nat" where
  "zeros_needed u = (120 - u) mod 64"

lemma zeros_needed_step:
  assumes "u < 64" and "u \<noteq> 56"
  shows "zeros_needed u = Suc (zeros_needed (Suc u mod 64))"
proof (cases "u = 63")
  case False
  then have s: "Suc u mod 64 = Suc u" using assms by simp
  show ?thesis
  proof (cases "u < 56")
    case True
    then have e: "120 - u = 64 + (56 - u)" "120 - Suc u = 64 + (55 - u)" by simp_all
    show ?thesis
      unfolding zeros_needed_def s unfolding e mod_add_self1 using True by simp
  next
    case ge: False
    then have "120 - u < 64" "120 - Suc u < 64" using assms by auto
    then show ?thesis using assms(1) unfolding zeros_needed_def s by simp
  qed
qed (simp add: zeros_needed_def)

lemma pad_loop_holds:
  "holds c m \<Longrightarrow> \<exists>c'. pad_loop c = Some c' \<and> holds c' (m @ replicate (zeros_needed (c_used c)) 0)"
proof (induction "zeros_needed (c_used c)" arbitrary: c m rule: less_induct)
  case less
  show ?case
  proof (cases "c_used c = 56")
    case True
    then show ?thesis using less.prems by (simp add: pad_loop.simps zeros_needed_def)
  next
    case False
    obtain c1 where c1: "sha256_update c [0] = Some c1" "holds c1 (m @ [0])"
      using update_holds [OF less.prems, of "[0]"] by blast
    have u: "c_used c < 64" using less.prems by (simp add: holds_def)
    have "c_used c1 = Suc (c_used c) mod 64"
      using holds_used [OF c1(2)] holds_used [OF less.prems] by (simp add: mod_Suc_eq)
    then have z: "zeros_needed (c_used c) = Suc (zeros_needed (c_used c1))"
      using zeros_needed_step [OF u False] by simp
    then obtain c' where "pad_loop c1 = Some c'" "holds c' ((m @ [0]) @ replicate (zeros_needed (c_used c1)) 0)"
      using less.hyps [OF _ c1(2)] by auto
    then show ?thesis using False c1 z by (subst pad_loop.simps) (simp add: replicate_app_Cons_same)
  qed
qed

lemma length_be64 [simp]: "length (be64 b) = 8"
  by (simp add: be64_def)

lemma pad_zeros: "zeros_needed (Suc u mod 64) = (119 - u mod 64) mod 64"
proof -
  have "u mod 64 < 64" by simp
  then have "Suc u mod 64 = (if u mod 64 = 63 then 0 else Suc (u mod 64))" by (simp add: mod_Suc)
  then show ?thesis by (simp add: zeros_needed_def)
qed

lemma final_spec:
  assumes c: "holds c m" and l: "c_len c = of_nat (length m)"
  shows "sha256_final c = Some (zero_ctx, sha256_spec m)"
proof -
  obtain c1 where c1: "sha256_update c [0x80] = Some c1" "holds c1 (m @ [0x80])"
    using update_holds [OF c, of "[0x80]"] by blast
  obtain c2 where c2: "pad_loop c1 = Some c2" "holds c2 ((m @ [0x80]) @ replicate (zeros_needed (c_used c1)) 0)"
    using pad_loop_holds [OF c1(2)] by blast
  obtain c3 where c3: "sha256_update c2 (be64 (c_len c * 8)) = Some c3"
      "holds c3 (((m @ [0x80]) @ replicate (zeros_needed (c_used c1)) 0) @ be64 (c_len c * 8))"
    using update_holds [OF c2(2)] by blast
  have u1: "c_used c1 = Suc (length m) mod 64" using holds_used [OF c1(2)] by simp
  have "c_len c * 8 = of_nat (8 * length m)" using l by (simp add: mult.commute)
  then have p: "((m @ [0x80]) @ replicate (zeros_needed (c_used c1)) 0) @ be64 (c_len c * 8) = pad m"
    by (simp add: pad_def u1 pad_zeros)
  have h8: "length H0 = 8" by (simp add: H0_def)
  have h: "c_h c3 = foldl fips_compress H0 (blocks (pad m))"
    using holds_h [OF c3(2)] unfolding p compress_all_fips [OF h8] .
  have "length (c_h c3) = 8"
  proof -
    have "length (foldl block hs bs) = 8" if "length hs = 8" for hs bs
      using that by (induction bs arbitrary: hs) auto
    then show ?thesis using holds_h [OF c3(2)] h8 by (simp add: compress_all_def)
  qed
  then have "concat (map (\<lambda>i. be32 (c_h c3 ! i)) [0..<8]) = concat (map be32 (c_h c3))"
    by (metis map_nth map_map comp_apply map_cong)
  then show ?thesis using c1 c2 c3 by (simp add: sha256_final_def Let_def h sha256_spec_def)
qed

subsection \<open>Hashing in pieces\<close>

fun updates :: "sha256_ctx_t \<Rightarrow> bytes list \<Rightarrow> sha256_ctx_t option" where
  "updates c [] = Some c"
| "updates c (p # ps) = do { c' \<leftarrow> sha256_update c p; updates c' ps }"

lemma updates_holds:
  "holds c m \<Longrightarrow> c_len c = of_nat (length m) \<Longrightarrow>
   \<exists>c'. updates c ps = Some c' \<and> holds c' (m @ concat ps) \<and> c_len c' = of_nat (length (m @ concat ps))"
proof (induction ps arbitrary: c m)
  case (Cons p ps)
  obtain c1 where "sha256_update c p = Some c1" "holds c1 (m @ p)" "c_len c1 = of_nat (length (m @ p))"
    using update_holds [OF Cons.prems(1), of p] Cons.prems(2) by auto
  then show ?case using Cons.IH [of c1 "m @ p"] by simp
qed simp

lemma init_len [simp]: "c_len (sha256_init c) = 0"
  by (simp add: sha256_init_def)

lemma stream_spec:
  assumes "length (c_buf c) = 64"
  shows "do { c' \<leftarrow> updates (sha256_init c) ps; sha256_final c' } = Some (zero_ctx, sha256_spec (concat ps))"
proof -
  obtain c' where "updates (sha256_init c) ps = Some c'" "holds c' (concat ps)" "c_len c' = of_nat (length (concat ps))"
    using updates_holds [OF init_holds [OF assms], of ps] by auto
  then show ?thesis by (simp add: final_spec)
qed

lemma be32_length [simp]: "length (be32 x) = 4"
  by (simp add: be32_def)

lemma length_sha256_spec [simp]: "length (sha256_spec m) = 32"
proof -
  have h8: "length H0 = 8" by (simp add: H0_def)
  have f: "length (foldl block hs bs) = 8" if "length hs = 8" for hs bs
    using that by (induction bs arbitrary: hs) auto
  have "length (foldl fips_compress H0 (blocks (pad m))) = 8"
    using f [OF h8, of "blocks (pad m)"] compress_all_fips [OF h8, of "pad m"] by (simp add: compress_all_def)
  moreover have "length (concat (map be32 xs)) = 4 * length xs" for xs by (induction xs) auto
  ultimately show ?thesis by (simp add: sha256_spec_def)
qed

text \<open>
  C20. However a message is cut into pieces, hashing it piece by piece returns the SHA-256 of FIPS
  180-4 of the whole message, whatever the buffer of the context held before, and leaves the context
  cleared: neither the copy loop nor the padding loop runs forever.
\<close>

theorem sha256_stream_fips:
  assumes "length (c_buf c) = 64"
  shows "do { c' \<leftarrow> updates (sha256_init c) ps; sha256_final c' } = Some (zero_ctx, sha256_spec (concat ps))"
  by (rule stream_spec [OF assms])

theorem sha256_stream_fips_witness:
  "do { c' \<leftarrow> updates (sha256_init \<lparr>c_h = [], c_len = 7, c_buf = replicate 64 0xAA, c_used = 3\<rparr>) [[0x61], [], [0x62, 0x63]];
        sha256_final c' } = Some (zero_ctx, sha256_spec [0x61, 0x62, 0x63])"
  by (subst sha256_stream_fips) simp_all

text \<open>The loops need no more of a context than that its buffer is not full.\<close>

lemma absorb_used: "c_used c + length p \<le> 64 \<Longrightarrow> c_used (absorb c p) = (c_used c + length p) mod 64"
  by (auto simp: absorb_def Let_def)

lemma copy_loop_returns:
  "c_used c < 64 \<Longrightarrow> \<exists>c'. copy_loop c p = Some c' \<and> c_used c' = (c_used c + length p) mod 64"
proof (induction "length p" arbitrary: c p rule: less_induct)
  case less
  show ?case
  proof (cases "p = []")
    case False
    define n where "n = (if 64 - c_used c > length p then length p else 64 - c_used c)"
    have n: "0 < n" "n \<le> length p" "c_used c + length (take n p) \<le> 64" using False less.prems by (auto simp: n_def)
    have a: "c_used (absorb c (take n p)) = (c_used c + n) mod 64" using absorb_used [OF n(3)] n(2) by simp
    moreover have "length (drop n p) < length p" using n False by simp
    ultimately obtain c' where "copy_loop (absorb c (take n p)) (drop n p) = Some c'"
        "c_used c' = ((c_used c + n) mod 64 + length (drop n p)) mod 64"
      using less.hyps [of "drop n p" "absorb c (take n p)"] by auto
    moreover have "((c_used c + n) mod 64 + length (drop n p)) mod 64 = (c_used c + length p) mod 64"
      unfolding length_drop mod_add_left_eq using n(2) by simp
    ultimately show ?thesis using False by (subst copy_loop.simps) (simp add: Let_def n_def)
  qed (simp add: copy_loop.simps less.prems)
qed

lemma update_returns:
  "c_used c < 64 \<Longrightarrow> \<exists>c'. sha256_update c p = Some c' \<and> c_used c' = (c_used c + length p) mod 64"
  unfolding sha256_update_def using copy_loop_returns [of "c\<lparr>c_len := c_len c + of_nat (length p)\<rparr>" p] by simp

lemma pad_loop_returns: "c_used c < 64 \<Longrightarrow> \<exists>c'. pad_loop c = Some c' \<and> c_used c' = 56"
proof (induction "zeros_needed (c_used c)" arbitrary: c rule: less_induct)
  case less
  show ?case
  proof (cases "c_used c = 56")
    case False
    obtain c1 where c1: "sha256_update c [0] = Some c1" "c_used c1 = Suc (c_used c) mod 64"
      using update_returns [OF less.prems, of "[0]"] by auto
    then have "zeros_needed (c_used c1) < zeros_needed (c_used c)" "c_used c1 < 64"
      using zeros_needed_step [OF less.prems False] by simp_all
    then show ?thesis using less.hyps [of c1] c1 False by (subst pad_loop.simps) simp
  qed (simp add: pad_loop.simps)
qed

text \<open>
  C38. The loops end: from any context whose buffer is not full, and which no message need have led to,
  \<open>sha256_update\<close> returns with the buffer again not full and \<open>sha256_final\<close> returns a digest.
\<close>

theorem sha256_loops_end:
  assumes "c_used c < 64"
  shows "(\<exists>c'. sha256_update c p = Some c' \<and> c_used c' < 64) \<and> (\<exists>out. sha256_final c = Some (zero_ctx, out) \<and> length out = 32)"
proof
  show "\<exists>c'. sha256_update c p = Some c' \<and> c_used c' < 64" using update_returns [OF assms, of p] by auto
  obtain c1 where c1: "sha256_update c [0x80] = Some c1" "c_used c1 < 64"
    using update_returns [OF assms, of "[0x80]"] by auto
  obtain c2 where c2: "pad_loop c1 = Some c2" "c_used c2 < 64" using pad_loop_returns [OF c1(2)] by auto
  obtain c3 where c3: "sha256_update c2 (be64 (c_len c * 8)) = Some c3" using update_returns [OF c2(2)] by blast
  have l: "length (concat (map be32 xs)) = 4 * length xs" for xs by (induction xs) auto
  show "\<exists>out. sha256_final c = Some (zero_ctx, out) \<and> length out = 32"
    using c1 c2 c3 l [of "map (\<lambda>i. c_h c3 ! i) [0..<8]"] by (simp add: sha256_final_def Let_def comp_def)
qed

theorem sha256_loops_end_witness:
  "let c = \<lparr>c_h = replicate 8 0, c_len = 5, c_buf = replicate 64 1, c_used = 63\<rparr>
   in (\<exists>c'. sha256_update c [1, 2, 3] = Some c' \<and> c_used c' < 64) \<and>
      (\<exists>out. sha256_final c = Some (zero_ctx, out) \<and> length out = 32)"
  unfolding Let_def by (rule sha256_loops_end) simp

subsection \<open>HMAC\<close>

record hmac_sha256_ctx_t =
  inner :: sha256_ctx_t
  opad_key :: bytes

text \<open>A context on the stack: what its memory holds before \<open>sha256_init\<close> is never read.\<close>

definition stack_ctx :: sha256_ctx_t where "stack_ctx = zero_ctx"

definition hmac_sha256_init :: "hmac_sha256_ctx_t \<Rightarrow> bytes \<Rightarrow> hmac_sha256_ctx_t option" where
  "hmac_sha256_init c key =
     do { k \<leftarrow> (if length key > 64
                then do { t \<leftarrow> sha256_update (sha256_init stack_ctx) key;
                          (t', out) \<leftarrow> sha256_final t;
                          Some (blit (replicate 64 0) 0 out) }
                else Some (blit (replicate 64 0) 0 key));
          let ipad = map (\<lambda>x. x XOR 0x36) k;
          inn \<leftarrow> sha256_update (sha256_init (inner c)) ipad;
          Some \<lparr>inner = inn, opad_key = map (\<lambda>x. x XOR 0x5c) k\<rparr> }"

definition hmac_sha256_update :: "hmac_sha256_ctx_t \<Rightarrow> bytes \<Rightarrow> hmac_sha256_ctx_t option" where
  "hmac_sha256_update c data = do { i \<leftarrow> sha256_update (inner c) data; Some (c\<lparr>inner := i\<rparr>) }"

definition hmac_sha256_final :: "hmac_sha256_ctx_t \<Rightarrow> (hmac_sha256_ctx_t \<times> bytes) option" where
  "hmac_sha256_final c =
     do { (i, ih) \<leftarrow> sha256_final (inner c);
          o1 \<leftarrow> sha256_update (sha256_init stack_ctx) (opad_key c);
          o2 \<leftarrow> sha256_update o1 ih;
          (o3, out) \<leftarrow> sha256_final o2;
          Some (\<lparr>inner = zero_ctx, opad_key = replicate 64 0\<rparr>, out) }"

definition ct_memcmp :: "bytes \<Rightarrow> bytes \<Rightarrow> nat \<Rightarrow> u8" where
  "ct_memcmp a b n = fold (\<lambda>i d. d OR (a ! i XOR b ! i)) [0..<n] 0"

text \<open>RFC 2104, with the block size 64.\<close>

definition hmac_key :: "bytes \<Rightarrow> bytes" where
  "hmac_key key = (let k = (if length key > 64 then sha256_spec key else key) in k @ replicate (64 - length k) 0)"

definition hmac_spec :: "bytes \<Rightarrow> bytes \<Rightarrow> bytes" where
  "hmac_spec key m = (let k = hmac_key key in
     sha256_spec (map (\<lambda>x. x XOR 0x5c) k @ sha256_spec (map (\<lambda>x. x XOR 0x36) k @ m)))"

fun hmac_updates :: "hmac_sha256_ctx_t \<Rightarrow> bytes list \<Rightarrow> hmac_sha256_ctx_t option" where
  "hmac_updates c [] = Some c"
| "hmac_updates c (p # ps) = do { c' \<leftarrow> hmac_sha256_update c p; hmac_updates c' ps }"

lemma hmac_updates_inner:
  "hmac_updates c ps = do { i \<leftarrow> updates (inner c) ps; Some (c\<lparr>inner := i\<rparr>) }"
  by (induction ps arbitrary: c) (auto simp: hmac_sha256_update_def split: bind_split)

lemma hash_one: "do { t \<leftarrow> sha256_update (sha256_init stack_ctx) m; sha256_final t } = Some (zero_ctx, sha256_spec m)"
  using stream_spec [of stack_ctx "[m]"] by (simp add: stack_ctx_def zero_ctx_def)

lemma hash_two:
  "do { t \<leftarrow> sha256_update (sha256_init stack_ctx) m; t' \<leftarrow> sha256_update t n; sha256_final t' } =
   Some (zero_ctx, sha256_spec (m @ n))"
  using stream_spec [of stack_ctx "[m, n]"] by (simp add: stack_ctx_def zero_ctx_def)

lemma blit_zeros: "length p \<le> 64 \<Longrightarrow> blit (replicate 64 0) 0 p = p @ replicate (64 - length p) 0"
  by (simp add: blit_def)

lemma hmac_init_spec:
  "hmac_sha256_init c key =
     do { inn \<leftarrow> sha256_update (sha256_init (inner c)) (map (\<lambda>x. x XOR 0x36) (hmac_key key));
          Some \<lparr>inner = inn, opad_key = map (\<lambda>x. x XOR 0x5c) (hmac_key key)\<rparr> }"
proof -
  have "(if length key > 64 then do { t \<leftarrow> sha256_update (sha256_init stack_ctx) key;
            (t', out) \<leftarrow> sha256_final t; Some (blit (replicate 64 0) 0 out) }
         else Some (blit (replicate 64 0) 0 key)) = Some (hmac_key key)"
    using hash_one [of key] by (auto simp: hmac_key_def Let_def blit_zeros bind_eq_Some_conv)
  then show ?thesis by (simp add: hmac_sha256_init_def Let_def)
qed

lemma hmac_stream_spec:
  assumes "length (c_buf (inner c)) = 64"
  shows "do { c1 \<leftarrow> hmac_sha256_init c key; c2 \<leftarrow> hmac_updates c1 ps; hmac_sha256_final c2 } =
    Some (\<lparr>inner = zero_ctx, opad_key = replicate 64 0\<rparr>, hmac_spec key (concat ps))"
proof -
  let ?i = "map (\<lambda>x. x XOR 0x36) (hmac_key key)" and ?o = "map (\<lambda>x. x XOR 0x5c) (hmac_key key)"
  from stream_spec [OF assms, of "?i # ps"]
  obtain i1 i2 where i: "sha256_update (sha256_init (inner c)) ?i = Some i1" "updates i1 ps = Some i2"
      "sha256_final i2 = Some (zero_ctx, sha256_spec (?i @ concat ps))"
    by (auto simp: bind_eq_Some_conv)
  from hash_two [of ?o "sha256_spec (?i @ concat ps)"]
  obtain o1 o2 where "sha256_update (sha256_init stack_ctx) ?o = Some o1"
      "sha256_update o1 (sha256_spec (?i @ concat ps)) = Some o2"
      "sha256_final o2 = Some (zero_ctx, sha256_spec (?o @ sha256_spec (?i @ concat ps)))"
    by (auto simp: bind_eq_Some_conv)
  with i show ?thesis
    by (simp add: hmac_init_spec hmac_updates_inner hmac_sha256_final_def hmac_spec_def Let_def)
qed

text \<open>
  HMAC computed over any pieces of a message with a key of any length is that of RFC 2104 over
  the FIPS hash, and the key material in the context is cleared.
\<close>

theorem hmac_rfc2104:
  assumes "length (c_buf (inner c)) = 64"
  shows "do { c1 \<leftarrow> hmac_sha256_init c key; c2 \<leftarrow> hmac_updates c1 ps; hmac_sha256_final c2 } =
    Some (\<lparr>inner = zero_ctx, opad_key = replicate 64 0\<rparr>, hmac_spec key (concat ps))"
  by (rule hmac_stream_spec [OF assms])

theorem hmac_rfc2104_witness:
  "do { c1 \<leftarrow> hmac_sha256_init \<lparr>inner = zero_ctx, opad_key = []\<rparr> [1, 2]; c2 \<leftarrow> hmac_updates c1 [[3], [4, 5]];
        hmac_sha256_final c2 } =
    Some (\<lparr>inner = zero_ctx, opad_key = replicate 64 0\<rparr>, hmac_spec [1, 2] [3, 4, 5])"
  by (subst hmac_rfc2104) (simp_all add: zero_ctx_def)

lemma length_hmac_spec [simp]: "length (hmac_spec key m) = 32"
  by (simp add: hmac_spec_def Let_def)

lemma fold_or_zero: "fold (\<lambda>i d. d OR f i) xs (d0 :: u8) = 0 \<longleftrightarrow> d0 = 0 \<and> (\<forall>i \<in> set xs. f i = 0)"
  by (induction xs arbitrary: d0) (auto simp: or_eq_0_iff)

lemma xor_zero_iff: "(x :: u8) XOR y = 0 \<longleftrightarrow> x = y"
  by (metis xor.assoc xor.right_neutral xor_self_eq)

lemma ct_memcmp_eq: "ct_memcmp a b n = 0 \<longleftrightarrow> (\<forall>i < n. a ! i = b ! i)"
  by (auto simp: ct_memcmp_def fold_or_zero xor_zero_iff)

end
