(* ===== verification/Bwp.thy ===== *)
theory Bwp
  imports Sha256
begin

section \<open>The control protocol of the Wi-Fi bridge\<close>

text \<open>
  The model of the writer, the reader and the request authentication of
  \<^verbatim>\<open>wifi-bridge/components/bridge_core/bwp.c\<close>. A frame is the list of the bytes of its buffer;
  a pointer into it is an offset. The writer carries its buffer. A MAC is an option, \<open>None\<close> if the
  hash never returned, which never happens (\<open>auth_mac_spec\<close>).
\<close>

subsection \<open>Constants and types\<close>

definition BWP_ETHERTYPE :: u16 where "BWP_ETHERTYPE = 0x88B5"
definition BWP_MAGIC0 :: u8 where "BWP_MAGIC0 = 0x42"
definition BWP_MAGIC1 :: u8 where "BWP_MAGIC1 = 0x57"
definition BWP_VERSION :: u8 where "BWP_VERSION = 1"
definition BWP_ETH_HDR_LEN :: nat where "BWP_ETH_HDR_LEN = 14"
definition BWP_HDR_LEN :: nat where "BWP_HDR_LEN = 8"
definition BWP_MIN_FRAME :: nat where "BWP_MIN_FRAME = 60"
definition BWP_MAX_FRAME :: nat where "BWP_MAX_FRAME = 1514"
definition BWP_KEY_LEN :: nat where "BWP_KEY_LEN = 32"
definition BWP_NONCE_LEN :: nat where "BWP_NONCE_LEN = 8"
definition BWP_AUTH_LEN :: nat where "BWP_AUTH_LEN = 16"
definition BWP_T_COUNTER :: u8 where "BWP_T_COUNTER = 0x19"
definition BWP_T_AUTH :: u8 where "BWP_T_AUTH = 0x1A"

lemmas bwp_consts = BWP_ETHERTYPE_def BWP_MAGIC0_def BWP_MAGIC1_def BWP_VERSION_def BWP_ETH_HDR_LEN_def
  BWP_HDR_LEN_def BWP_MIN_FRAME_def BWP_MAX_FRAME_def BWP_KEY_LEN_def BWP_NONCE_LEN_def BWP_AUTH_LEN_def

record bwp_writer_t =
  w_buf :: bytes
  w_cap :: nat
  w_len :: nat
  w_nest_at :: nat
  w_overflow :: bool

record bwp_msg_t =
  m_dst :: nat
  m_src :: nat
  m_version :: u8
  m_type :: u8
  m_seq :: u16
  m_body :: nat
  m_body_len :: u16

datatype bwp_parse_t = BWP_PARSE_OK | BWP_PARSE_NOT_BWP | BWP_PARSE_BAD_VERSION | BWP_PARSE_MALFORMED
datatype bwp_verify_t = BWP_VERIFY_OK | BWP_VERIFY_MISSING | BWP_VERIFY_BAD

record bwp_iter_t =
  it_p :: nat
  it_left :: nat

subsection \<open>Big-endian numbers\<close>

definition put_be16 :: "u16 \<Rightarrow> bytes" where
  "put_be16 v = [ucast (drop_bit 8 v), ucast v]"

definition get_be16 :: "bytes \<Rightarrow> nat \<Rightarrow> u16" where
  "get_be16 mem p = push_bit 8 (ucast (mem ! p)) OR ucast (mem ! (p + 1))"

definition put_be32 :: "u32 \<Rightarrow> bytes" where
  "put_be32 v = [ucast (drop_bit 24 v), ucast (drop_bit 16 v), ucast (drop_bit 8 v), ucast v]"

definition get_be32 :: "bytes \<Rightarrow> nat \<Rightarrow> u32" where
  "get_be32 mem p = push_bit 24 (ucast (mem ! p)) OR push_bit 16 (ucast (mem ! (p + 1))) OR
     push_bit 8 (ucast (mem ! (p + 2))) OR ucast (mem ! (p + 3))"

subsection \<open>The writer\<close>

definition reserve :: "bwp_writer_t \<Rightarrow> nat \<Rightarrow> bwp_writer_t \<times> nat option" where
  "reserve w n =
     (if w_overflow w \<or> w_len w + n > w_cap w then (w\<lparr>w_overflow := True\<rparr>, None)
      else (w\<lparr>w_len := w_len w + n\<rparr>, Some (w_len w)))"

definition poke :: "nat \<Rightarrow> bytes \<Rightarrow> bwp_writer_t \<Rightarrow> bwp_writer_t" where
  "poke p bs w = w\<lparr>w_buf := blit (w_buf w) p bs\<rparr>"

definition bwp_begin :: "bytes \<Rightarrow> nat \<Rightarrow> bytes \<Rightarrow> bytes \<Rightarrow> u8 \<Rightarrow> u16 \<Rightarrow> bwp_writer_t" where
  "bwp_begin buf cap dst src mtyp seq =
     (let w = \<lparr>w_buf = buf, w_cap = (if cap > BWP_MAX_FRAME then BWP_MAX_FRAME else cap), w_len = 0,
               w_nest_at = 0, w_overflow = False\<rparr>
      in case reserve w (BWP_ETH_HDR_LEN + BWP_HDR_LEN) of
           (w1, None) \<Rightarrow> w1
         | (w1, Some p) \<Rightarrow>
             poke p (take 6 dst @ take 6 src @ put_be16 BWP_ETHERTYPE @ [BWP_MAGIC0, BWP_MAGIC1, BWP_VERSION, mtyp] @
                     put_be16 seq @ put_be16 0) w1)"

definition bwp_put :: "u8 \<Rightarrow> bytes \<Rightarrow> bwp_writer_t \<Rightarrow> bwp_writer_t" where
  "bwp_put tag val w =
     (if length val > 0xFFFF then w\<lparr>w_overflow := True\<rparr>
      else case reserve w (3 + length val) of
             (w1, None) \<Rightarrow> w1
           | (w1, Some p) \<Rightarrow> poke p (tag # put_be16 (of_nat (length val)) @ val) w1)"

definition bwp_put_u8 :: "u8 \<Rightarrow> u8 \<Rightarrow> bwp_writer_t \<Rightarrow> bwp_writer_t" where
  "bwp_put_u8 tag v = bwp_put tag [v]"

definition bwp_put_u32 :: "u8 \<Rightarrow> u32 \<Rightarrow> bwp_writer_t \<Rightarrow> bwp_writer_t" where
  "bwp_put_u32 tag v = bwp_put tag (put_be32 v)"

text \<open>The bytes of a C string.\<close>

definition str_bytes :: "cstr \<Rightarrow> bytes" where
  "str_bytes s = map of_char s"

definition bwp_put_str :: "u8 \<Rightarrow> cstr \<Rightarrow> bwp_writer_t \<Rightarrow> bwp_writer_t" where
  "bwp_put_str tag s = bwp_put tag (str_bytes s)"

definition bwp_nest_begin :: "u8 \<Rightarrow> bwp_writer_t \<Rightarrow> bwp_writer_t" where
  "bwp_nest_begin tag w =
     (case reserve w 3 of
        (w1, None) \<Rightarrow> w1
      | (w1, Some p) \<Rightarrow> (poke p [tag] w1)\<lparr>w_nest_at := w_len w1 - 2\<rparr>)"

definition bwp_nest_end :: "bwp_writer_t \<Rightarrow> bwp_writer_t" where
  "bwp_nest_end w =
     (if \<not> w_overflow w \<and> w_nest_at w \<noteq> 0
      then poke (w_nest_at w) (put_be16 (of_nat (w_len w - w_nest_at w - 2))) w else w)\<lparr>w_nest_at := 0\<rparr>"

definition bwp_finish :: "bwp_writer_t \<Rightarrow> bytes \<times> nat" where
  "bwp_finish w =
     (if w_overflow w then (w_buf w, 0)
      else let w1 = poke 20 (put_be16 (of_nat (w_len w - BWP_ETH_HDR_LEN - BWP_HDR_LEN))) w in
           if w_len w1 < BWP_MIN_FRAME then
             if w_cap w1 < BWP_MIN_FRAME then (w_buf w1, 0)
             else (blit (w_buf w1) (w_len w1) (replicate (BWP_MIN_FRAME - w_len w1) 0), BWP_MIN_FRAME)
           else (w_buf w1, w_len w1))"

subsection \<open>The reader\<close>

function bwp_tlv_valid :: "bytes \<Rightarrow> nat \<Rightarrow> nat \<Rightarrow> bool" where
  "bwp_tlv_valid mem body len =
     (if len = 0 then True
      else if len < 3 then False
      else let vlen = unat (get_be16 mem (body + 1)) in
           if vlen > len - 3 then False else bwp_tlv_valid mem (body + 3 + vlen) (len - (3 + vlen)))"
  by pat_completeness auto
termination by (relation "measure (\<lambda>(mem, body, len). len)") auto

declare bwp_tlv_valid.simps [simp del]

definition no_msg :: bwp_msg_t where
  "no_msg = \<lparr>m_dst = 0, m_src = 0, m_version = 0, m_type = 0, m_seq = 0, m_body = 0, m_body_len = 0\<rparr>"

text \<open>The message is what \<^verbatim>\<open>*out\<close> holds afterwards; \<open>out\<close> is what it held before.\<close>

definition bwp_parse :: "bytes \<Rightarrow> nat \<Rightarrow> bwp_msg_t \<Rightarrow> bwp_parse_t \<times> bwp_msg_t" where
  "bwp_parse frame len out =
     (if len < BWP_ETH_HDR_LEN + 2 \<or> get_be16 frame 12 \<noteq> BWP_ETHERTYPE then (BWP_PARSE_NOT_BWP, out)
      else if frame ! 14 \<noteq> BWP_MAGIC0 \<or> frame ! 15 \<noteq> BWP_MAGIC1 then (BWP_PARSE_NOT_BWP, out)
      else if len < BWP_ETH_HDR_LEN + BWP_HDR_LEN then (BWP_PARSE_MALFORMED, out)
      else
        let m = \<lparr>m_dst = 0, m_src = 6, m_version = frame ! 16, m_type = frame ! 17, m_seq = get_be16 frame 18,
                 m_body = BWP_ETH_HDR_LEN + BWP_HDR_LEN, m_body_len = get_be16 frame 20\<rparr>
        in if m_version m \<noteq> BWP_VERSION then (BWP_PARSE_BAD_VERSION, m)
           else if unat (m_body_len m) > len - BWP_ETH_HDR_LEN - BWP_HDR_LEN then (BWP_PARSE_MALFORMED, m)
           else if \<not> bwp_tlv_valid frame (m_body m) (unat (m_body_len m)) then (BWP_PARSE_MALFORMED, m)
           else (BWP_PARSE_OK, m))"

definition bwp_iter_init :: "nat \<Rightarrow> nat \<Rightarrow> bwp_iter_t" where
  "bwp_iter_init body len = \<lparr>it_p = body, it_left = len\<rparr>"

text \<open>The tag, the offset and the length of the next value, and the advanced iterator.\<close>

definition bwp_iter_next :: "bytes \<Rightarrow> bwp_iter_t \<Rightarrow> (u8 \<times> nat \<times> u16) option \<times> bwp_iter_t" where
  "bwp_iter_next mem it =
     (if it_left it < 3 then (None, it)
      else let vlen = get_be16 mem (it_p it + 1) in
           if unat vlen > it_left it - 3 then (None, it\<lparr>it_left := 0\<rparr>)
           else (Some (mem ! it_p it, it_p it + 3, vlen),
                 \<lparr>it_p = it_p it + 3 + unat vlen, it_left = it_left it - (3 + unat vlen)\<rparr>))"

lemma iter_next_less: "bwp_iter_next mem it = (Some x, it') \<Longrightarrow> it_left it' < it_left it"
  by (auto simp: bwp_iter_next_def Let_def split: if_splits)

text \<open>
  The code writes \<^verbatim>\<open>*val\<close> and \<^verbatim>\<open>*vlen\<close> at every field it passes, found or not: \<open>cur\<close> is what they
  hold, \<open>None\<close> as long as they are untouched.
\<close>

function find_loop :: "bytes \<Rightarrow> u8 \<Rightarrow> bwp_iter_t \<Rightarrow> (nat \<times> u16) option \<Rightarrow> bool \<times> (nat \<times> u16) option" where
  "find_loop mem tag it cur =
     (case bwp_iter_next mem it of
        (None, it') \<Rightarrow> (False, cur)
      | (Some (t, val, vlen), it') \<Rightarrow>
          if t = tag then (True, Some (val, vlen)) else find_loop mem tag it' (Some (val, vlen)))"
  by pat_completeness auto
termination by (relation "measure (\<lambda>(mem, tag, it, cur). it_left it)") (auto dest: iter_next_less [OF sym])

declare find_loop.simps [simp del]

definition bwp_find :: "bytes \<Rightarrow> nat \<Rightarrow> nat \<Rightarrow> u8 \<Rightarrow> bool \<times> (nat \<times> u16) option" where
  "bwp_find mem body len tag = find_loop mem tag (bwp_iter_init body len) None"

definition bwp_get_u8 :: "bytes \<Rightarrow> nat \<Rightarrow> nat \<Rightarrow> u8 \<Rightarrow> u8 option" where
  "bwp_get_u8 mem body len tag =
     (case bwp_find mem body len tag of
        (True, Some (v, n)) \<Rightarrow> if n \<noteq> 1 then None else Some (mem ! v)
      | _ \<Rightarrow> None)"

definition bwp_get_u32 :: "bytes \<Rightarrow> nat \<Rightarrow> nat \<Rightarrow> u8 \<Rightarrow> u32 option" where
  "bwp_get_u32 mem body len tag =
     (case bwp_find mem body len tag of
        (True, Some (v, n)) \<Rightarrow> if n \<noteq> 4 then None else Some (get_be32 mem v)
      | _ \<Rightarrow> None)"

text \<open>The bytes copied to \<^verbatim>\<open>out\<close> before its NUL.\<close>

definition bwp_get_str :: "bytes \<Rightarrow> nat \<Rightarrow> nat \<Rightarrow> u8 \<Rightarrow> nat \<Rightarrow> bytes option" where
  "bwp_get_str mem body len tag cap =
     (case bwp_find mem body len tag of
        (True, Some (v, n)) \<Rightarrow> if unat n \<ge> cap then None else Some (take (unat n) (drop v mem))
      | _ \<Rightarrow> None)"

subsection \<open>Signing and verifying\<close>

definition auth_mac :: "bytes \<Rightarrow> bytes \<Rightarrow> bytes \<Rightarrow> bytes option" where
  "auth_mac key nonce data =
     do { h0 \<leftarrow> hmac_sha256_init \<lparr>inner = stack_ctx, opad_key = replicate 64 0\<rparr> (take BWP_KEY_LEN key);
          h1 \<leftarrow> hmac_sha256_update h0 (take BWP_NONCE_LEN nonce);
          h2 \<leftarrow> hmac_sha256_update h1 data;
          (h3, full) \<leftarrow> hmac_sha256_final h2;
          Some (take BWP_AUTH_LEN full) }"

definition bwp_sign :: "bytes \<Rightarrow> bytes \<Rightarrow> u32 \<Rightarrow> bwp_writer_t \<Rightarrow> bwp_writer_t option" where
  "bwp_sign key nonce counter w0 =
     (let w = bwp_put_u32 BWP_T_COUNTER counter w0 in
      if w_overflow w \<or> w_len w + 3 + BWP_AUTH_LEN > w_cap w then Some (w\<lparr>w_overflow := True\<rparr>)
      else
        let w1 = poke 20 (put_be16 (of_nat (w_len w + 3 + BWP_AUTH_LEN - BWP_ETH_HDR_LEN - BWP_HDR_LEN))) w
        in do { mac \<leftarrow> auth_mac key nonce (take (w_len w1 - BWP_ETH_HDR_LEN) (drop BWP_ETH_HDR_LEN (w_buf w1)));
                Some (bwp_put BWP_T_AUTH mac w1) })"

definition bwp_sign_frame :: "bytes \<Rightarrow> nat \<Rightarrow> bytes \<Rightarrow> bytes \<Rightarrow> u32 \<Rightarrow> (bytes \<times> nat) option" where
  "bwp_sign_frame buf cap key nonce counter =
     (let w = \<lparr>w_buf = buf, w_cap = (if cap > BWP_MAX_FRAME then BWP_MAX_FRAME else cap),
               w_len = BWP_ETH_HDR_LEN + BWP_HDR_LEN + unat (get_be16 buf 20), w_nest_at = 0, w_overflow = False\<rparr>
      in if w_len w > w_cap w then Some (buf, 0)
         else do { w1 \<leftarrow> bwp_sign key nonce counter w; Some (bwp_finish w1) })"

text \<open>The loop of \<open>bwp_verify\<close>: where the value of AUTH is, and whether something is wrong.\<close>

function auth_loop :: "bytes \<Rightarrow> bwp_iter_t \<Rightarrow> nat option \<Rightarrow> bool \<Rightarrow> nat option \<times> bool" where
  "auth_loop mem it auth bad =
     (case bwp_iter_next mem it of
        (None, it') \<Rightarrow> (auth, bad)
      | (Some (tag, v, vl), it') \<Rightarrow>
          (let bad1 = (if auth \<noteq> None then True else bad) in
           if tag = BWP_T_AUTH
           then auth_loop mem it' (Some v) (if unat vl \<noteq> BWP_AUTH_LEN \<or> auth \<noteq> None then True else bad1)
           else auth_loop mem it' auth bad1))"
  by pat_completeness auto
termination
  by (relation "measure (\<lambda>(mem, it, auth, bad). it_left it)") (auto dest: iter_next_less [OF sym])

declare auth_loop.simps [simp del]

definition bwp_verify :: "bytes \<Rightarrow> bwp_msg_t \<Rightarrow> bytes \<Rightarrow> bytes \<Rightarrow> (bwp_verify_t \<times> u32 option) option" where
  "bwp_verify frame m key nonce =
     (case auth_loop frame (bwp_iter_init (m_body m) (unat (m_body_len m))) None False of
        (None, bad) \<Rightarrow> Some (BWP_VERIFY_MISSING, None)
      | (Some auth, bad) \<Rightarrow>
          (case bwp_get_u32 frame (m_body m) (unat (m_body_len m)) BWP_T_COUNTER of
             None \<Rightarrow> Some (BWP_VERIFY_MISSING, None)
           | Some counter \<Rightarrow>
               if bad then Some (BWP_VERIFY_BAD, Some counter)
               else
                 do { want \<leftarrow> auth_mac key nonce
                        (take (auth - 3 - BWP_ETH_HDR_LEN) (drop BWP_ETH_HDR_LEN frame));
                      Some (if ct_memcmp want (drop auth frame) BWP_AUTH_LEN = 0 then BWP_VERIFY_OK else BWP_VERIFY_BAD,
                            Some counter) }))"

end
