(* ===== verification/L2fwd.thy ===== *)
theory L2fwd
  imports Bwp
begin

section \<open>Layer-2 forwarding of the Wi-Fi bridge\<close>

text \<open>
  The model of \<^verbatim>\<open>wifi-bridge/components/bridge_core/l2fwd.c\<close>: which MAC is the pod's, and what
  happens to a frame from the cable or from the radio. A frame is its bytes and the length the driver
  reports; an action comes with the state, which holds the reason of the last drop.
\<close>

datatype l2_action_t = L2_DROP | L2_FORWARD | L2_CONTROL
datatype l2_event_t = L2_EV_NONE | L2_EV_LEARNED | L2_EV_CHANGED
datatype l2_why_t =
    L2_WHY_NONE | L2_WHY_RUNT | L2_WHY_BAD_SRC | L2_WHY_OWN_SRC | L2_WHY_OTHER_MAC | L2_WHY_NOT_FOR_POD
  | L2_WHY_CONTROL | L2_WHY_TO_BRIDGE | L2_WHY_NO_POD | L2_WHY_WIFI_DOWN | L2_WHY_REFLECTED

record l2fwd_t =
  bridge_mac :: bytes
  pod_mac :: bytes
  pod_known :: bool
  relearn :: bool
  last_why :: l2_why_t

definition ethertype :: "bytes \<Rightarrow> u16" where
  "ethertype f = push_bit 8 (ucast (f ! 12)) OR ucast (f ! 13)"

definition l2_is_multicast :: "bytes \<Rightarrow> bool" where
  "l2_is_multicast mac \<longleftrightarrow> mac ! 0 AND 0x01 \<noteq> 0"

definition dst_of :: "bytes \<Rightarrow> bytes" where "dst_of f = take 6 f"
definition src_of :: "bytes \<Rightarrow> bytes" where "src_of f = take 6 (drop 6 f)"

definition drop_why :: "l2fwd_t \<Rightarrow> l2_why_t \<Rightarrow> l2fwd_t \<times> l2_action_t" where
  "drop_why s why = (s\<lparr>last_why := why\<rparr>, L2_DROP)"

definition l2fwd_init :: "bytes \<Rightarrow> l2fwd_t" where
  "l2fwd_init mac = \<lparr>bridge_mac = take 6 mac, pod_mac = replicate 6 0, pod_known = False, relearn = False,
     last_why = L2_WHY_NONE\<rparr>"

definition l2fwd_link_down :: "l2fwd_t \<Rightarrow> l2fwd_t" where
  "l2fwd_link_down s = s\<lparr>relearn := True\<rparr>"

text \<open>The learning step of an accepted control frame.\<close>

definition learn :: "l2fwd_t \<Rightarrow> bytes \<Rightarrow> l2fwd_t \<times> l2_event_t" where
  "learn s src =
     (if \<not> pod_known s \<or> relearn s then
        (s\<lparr>pod_mac := src, pod_known := True, relearn := False\<rparr>,
         if \<not> pod_known s \<or> (pod_known s \<and> pod_mac s \<noteq> src)
         then (if pod_known s then L2_EV_CHANGED else L2_EV_LEARNED) else L2_EV_NONE)
      else (s, L2_EV_NONE))"

definition l2fwd_from_eth :: "l2fwd_t \<Rightarrow> bytes \<Rightarrow> nat \<Rightarrow> bool \<Rightarrow> l2_event_t \<times> l2fwd_t \<times> l2_action_t" where
  "l2fwd_from_eth s0 f len wifi_up =
     (let s = s0\<lparr>last_why := L2_WHY_NONE\<rparr>; dst = dst_of f; src = src_of f in
      if len < 14 then (L2_EV_NONE, drop_why s L2_WHY_RUNT)
      else if l2_is_multicast src \<or> src = replicate 6 0 then (L2_EV_NONE, drop_why s L2_WHY_BAD_SRC)
      else if src = bridge_mac s then (L2_EV_NONE, drop_why s L2_WHY_OWN_SRC)
      else if ethertype f = BWP_ETHERTYPE then
        (if dst \<noteq> bridge_mac s \<and> \<not> l2_is_multicast dst then (L2_EV_NONE, drop_why s L2_WHY_CONTROL)
         else let (s1, ev) = learn s src in
              if src \<noteq> pod_mac s1 then (ev, drop_why s1 L2_WHY_OTHER_MAC) else (ev, s1, L2_CONTROL))
      else if \<not> pod_known s then (L2_EV_NONE, drop_why s L2_WHY_NO_POD)
      else if src \<noteq> pod_mac s then (L2_EV_NONE, drop_why s L2_WHY_OTHER_MAC)
      else if dst = bridge_mac s then (L2_EV_NONE, drop_why s L2_WHY_TO_BRIDGE)
      else if \<not> wifi_up then (L2_EV_NONE, drop_why s L2_WHY_WIFI_DOWN)
      else (L2_EV_NONE, s, L2_FORWARD))"

definition l2fwd_from_wifi :: "l2fwd_t \<Rightarrow> bytes \<Rightarrow> nat \<Rightarrow> l2fwd_t \<times> l2_action_t" where
  "l2fwd_from_wifi s0 f len =
     (let s = s0\<lparr>last_why := L2_WHY_NONE\<rparr>; dst = dst_of f; src = src_of f in
      if len < 14 then drop_why s L2_WHY_RUNT
      else if ethertype f = BWP_ETHERTYPE then drop_why s L2_WHY_CONTROL
      else if \<not> pod_known s \<or> relearn s then drop_why s L2_WHY_NO_POD
      else if src = pod_mac s then drop_why s L2_WHY_REFLECTED
      else if l2_is_multicast dst \<or> dst = pod_mac s then (s, L2_FORWARD)
      else drop_why s L2_WHY_NOT_FOR_POD)"

subsection \<open>A history of frames and link changes\<close>

datatype l2_in = Eth bytes nat bool | Wifi bytes nat | Link_down

fun l2_step :: "l2fwd_t \<Rightarrow> l2_in \<Rightarrow> l2fwd_t \<times> l2_action_t option" where
  "l2_step s (Eth f len up) = (case l2fwd_from_eth s f len up of (ev, s', a) \<Rightarrow> (s', Some a))"
| "l2_step s (Wifi f len) = (case l2fwd_from_wifi s f len of (s', a) \<Rightarrow> (s', Some a))"
| "l2_step s Link_down = (l2fwd_link_down s, None)"

fun l2_run :: "l2fwd_t \<Rightarrow> l2_in list \<Rightarrow> l2_action_t option list" where
  "l2_run s [] = []"
| "l2_run s (i # is) = (let (s', a) = l2_step s i in a # l2_run s' is)"

text \<open>
  The specification keeps the pod's address, once a control frame named it, and whether the pod has
  shown itself by a control frame since the last link-down.
\<close>

type_synonym l2_spec = "bytes option \<times> bool"

definition unicast_peer :: "bytes \<Rightarrow> bytes \<Rightarrow> bool" where
  "unicast_peer mac src \<longleftrightarrow> \<not> l2_is_multicast src \<and> src \<noteq> replicate 6 0 \<and> src \<noteq> mac"

definition control_in :: "bytes \<Rightarrow> bytes \<Rightarrow> nat \<Rightarrow> bool" where
  "control_in mac f len \<longleftrightarrow> 14 \<le> len \<and> ethertype f = BWP_ETHERTYPE \<and> unicast_peer mac (src_of f) \<and>
     (dst_of f = mac \<or> l2_is_multicast (dst_of f))"

fun spec_step :: "bytes \<Rightarrow> l2_spec \<Rightarrow> l2_in \<Rightarrow> l2_spec \<times> l2_action_t option" where
  "spec_step mac (pod, shown) (Eth f len up) =
     (if control_in mac f len then
        let pod' = (if shown then pod else Some (src_of f))
        in ((pod', True), Some (if pod' = Some (src_of f) then L2_CONTROL else L2_DROP))
      else
        ((pod, shown),
         Some (if 14 \<le> len \<and> ethertype f \<noteq> BWP_ETHERTYPE \<and> unicast_peer mac (src_of f) \<and>
                  pod = Some (src_of f) \<and> dst_of f \<noteq> mac \<and> up
               then L2_FORWARD else L2_DROP)))"
| "spec_step mac (pod, shown) (Wifi f len) =
     ((pod, shown),
      Some (if 14 \<le> len \<and> ethertype f \<noteq> BWP_ETHERTYPE \<and> shown \<and> pod \<noteq> Some (src_of f) \<and>
               (l2_is_multicast (dst_of f) \<or> pod = Some (dst_of f))
            then L2_FORWARD else L2_DROP))"
| "spec_step mac (pod, shown) Link_down = ((pod, False), None)"

fun spec_run :: "bytes \<Rightarrow> l2_spec \<Rightarrow> l2_in list \<Rightarrow> l2_action_t option list" where
  "spec_run mac p [] = []"
| "spec_run mac p (i # is) = (let (p', a) = spec_step mac p i in a # spec_run mac p' is)"

definition l2_rel :: "bytes \<Rightarrow> l2_spec \<Rightarrow> l2fwd_t \<Rightarrow> bool" where
  "l2_rel mac p s \<longleftrightarrow> bridge_mac s = mac \<and> fst p = (if pod_known s then Some (pod_mac s) else None) \<and>
     snd p = (pod_known s \<and> \<not> relearn s)"

lemma eth_simulates:
  assumes "l2_rel mac (pod, shown) s"
  shows "l2_rel mac (fst (spec_step mac (pod, shown) (Eth f len up))) (fst (l2_step s (Eth f len up)))"
    and "snd (l2_step s (Eth f len up)) = snd (spec_step mac (pod, shown) (Eth f len up))"
  using assms
  by (auto simp: l2_rel_def l2fwd_from_eth_def drop_why_def learn_def Let_def control_in_def unicast_peer_def)

lemma wifi_simulates:
  assumes "l2_rel mac (pod, shown) s"
  shows "l2_rel mac (fst (spec_step mac (pod, shown) (Wifi f len))) (fst (l2_step s (Wifi f len)))"
    and "snd (l2_step s (Wifi f len)) = snd (spec_step mac (pod, shown) (Wifi f len))"
  using assms by (auto simp: l2_rel_def l2fwd_from_wifi_def drop_why_def Let_def)

lemma l2_simulates:
  assumes "l2_rel mac p s"
  shows "l2_rel mac (fst (spec_step mac p i)) (fst (l2_step s i)) \<and> snd (l2_step s i) = snd (spec_step mac p i)"
proof (cases i)
  case (Eth f len up)
  with assms show ?thesis using eth_simulates [of mac "fst p" "snd p" s f len up] by simp
next
  case (Wifi f len)
  with assms show ?thesis using wifi_simulates [of mac "fst p" "snd p" s f len] by simp
next
  case Link_down
  with assms show ?thesis by (cases p) (auto simp: l2_rel_def l2fwd_link_down_def)
qed

lemma run_simulates: "l2_rel mac p s \<Longrightarrow> l2_run s is = spec_run mac p is"
proof (induction "is" arbitrary: p s)
  case (Cons i "is")
  then show ?case using l2_simulates [OF Cons.prems, of i]
    by (cases "l2_step s i"; cases "spec_step mac p i") (auto simp: Let_def)
qed simp

text \<open>
  C16. Whatever frames arrive on the cable and by radio and however often the link drops, the bridge
  forwards and answers exactly as the policy says: to Wi-Fi only frames of the one address that named
  itself by a control frame, to the cable only frames for that pod or multicasts, not its own
  echoes and only while it has shown itself since the last link-down, control frames never, and a
  different address becomes the pod only through a control frame after a link-down.
\<close>

theorem l2_refines_policy:
  assumes "length mac = 6"
  shows "l2_run (l2fwd_init mac) is = spec_run mac (None, False) is"
  by (rule run_simulates) (use assms in \<open>simp add: l2_rel_def l2fwd_init_def\<close>)

lemma six_zeros: "replicate 6 (0 :: u8) = [0, 0, 0, 0, 0, 0]"
  by (simp add: eval_nat_numeral)

theorem l2_refines_policy_witness:
  "let me = [2, 0, 0, 0, 0, 9]; pod = [2, 0, 0, 0, 0, 1]; ap = [2, 0, 0, 0, 0, 5]; ip = [8, 0];
       ctl = [255, 255, 255, 255, 255, 255] @ pod @ [0x88, 0xB5]
   in l2_run (l2fwd_init me) [Wifi (pod @ ap @ ip) 14, Eth ctl 14 True, Eth (ap @ pod @ ip) 14 True,
        Wifi (pod @ ap @ ip) 14, Link_down, Wifi (pod @ ap @ ip) 14]
      = [Some L2_DROP, Some L2_CONTROL, Some L2_FORWARD, Some L2_FORWARD, None, Some L2_DROP]"
  unfolding Let_def
  by (subst l2_refines_policy)
     (simp_all add: control_in_def unicast_peer_def src_of_def dst_of_def ethertype_def l2_is_multicast_def
        BWP_ETHERTYPE_def six_zeros)

end
