(* ===== verification/BwpAuth.thy ===== *)
theory BwpAuth
  imports Bwp
begin

section \<open>What the control protocol's reader and signatures guarantee\<close>

text \<open>
  The abstract view of a body is a list of tagged values; the reader's loops are shown to compute on
  it, the writer to append to it. On that rest the properties of signing and verifying.
\<close>

type_synonym tlv = "u8 \<times> bytes"

definition tlv_enc :: "tlv \<Rightarrow> bytes" where
  "tlv_enc tv = fst tv # put_be16 (of_nat (length (snd tv))) @ snd tv"

definition tlvs_enc :: "tlv list \<Rightarrow> bytes" where
  "tlvs_enc ts = concat (map tlv_enc ts)"

definition tlvs_ok :: "tlv list \<Rightarrow> bool" where
  "tlvs_ok ts \<longleftrightarrow> list_all (\<lambda>tv. length (snd tv) \<le> 0xFFFF) ts"

lemma length_put_be16 [simp]: "length (put_be16 v) = 2" by (simp add: put_be16_def)
lemma length_put_be32 [simp]: "length (put_be32 v) = 4" by (simp add: put_be32_def)
lemma length_tlv_enc [simp]: "length (tlv_enc tv) = 3 + length (snd tv)" by (simp add: tlv_enc_def)

lemma tlvs_enc_simps [simp]:
  "tlvs_enc [] = []" "tlvs_enc (tv # ts) = tlv_enc tv @ tlvs_enc ts" "tlvs_enc (ts @ us) = tlvs_enc ts @ tlvs_enc us"
  by (simp_all add: tlvs_enc_def)

lemma tlvs_ok_simps [simp]:
  "tlvs_ok []" "tlvs_ok (tv # ts) \<longleftrightarrow> length (snd tv) \<le> 0xFFFF \<and> tlvs_ok ts"
  "tlvs_ok (ts @ us) \<longleftrightarrow> tlvs_ok ts \<and> tlvs_ok us"
  by (simp_all add: tlvs_ok_def)

subsection \<open>Big-endian numbers\<close>

lemma get_put_be16: "get_be16 (pre @ put_be16 v @ post) (length pre) = v"
  by (simp add: get_be16_def put_be16_def nth_append)
     (rule bit_word_eqI, auto simp: bit_or_iff bit_push_bit_iff bit_ucast_iff bit_drop_bit_eq)

lemma put_get_be16: "put_be16 (push_bit 8 (ucast (a :: u8)) OR ucast (b :: u8)) = [a, b]"
proof -
  have "ucast (drop_bit 8 (push_bit 8 (ucast a) OR ucast b :: u16)) = a"
    by (rule bit_word_eqI) (auto simp: bit_or_iff bit_push_bit_iff bit_ucast_iff bit_drop_bit_eq dest: bit_imp_le_length)
  moreover have "ucast (push_bit 8 (ucast a) OR ucast b :: u16) = b"
    by (rule bit_word_eqI) (auto simp: bit_or_iff bit_push_bit_iff bit_ucast_iff dest: bit_imp_le_length)
  ultimately show ?thesis by (simp add: put_be16_def)
qed

lemma get_put_be32: "get_be32 (put_be32 v) 0 = v"
  by (simp add: get_be32_def put_be32_def)
     (rule bit_word_eqI, rename_tac n, case_tac "n < 8"; case_tac "n < 16"; case_tac "n < 24";
      auto simp: bit_or_iff bit_push_bit_iff bit_ucast_iff bit_drop_bit_eq)

lemma get_be32_at: "length v = 4 \<Longrightarrow> get_be32 (pre @ v @ post) (length pre) = get_be32 v 0"
  by (simp add: get_be32_def nth_append eval_nat_numeral)

lemma unat_len16: "n \<le> 0xFFFF \<Longrightarrow> unat (of_nat n :: u16) = n"
  by (simp add: unat_of_nat take_bit_eq_mod)

subsection \<open>The iterator\<close>

lemma iter_next_tlv:
  assumes "length v \<le> 0xFFFF" and "p = length pre"
  shows "bwp_iter_next (pre @ tlv_enc (t, v) @ post) \<lparr>it_p = p, it_left = 3 + length v + n\<rparr> =
    (Some (t, p + 3, of_nat (length v)), \<lparr>it_p = p + 3 + length v, it_left = n\<rparr>)"
proof -
  have "get_be16 (pre @ tlv_enc (t, v) @ post) (Suc (length pre)) = of_nat (length v)"
    using get_put_be16 [of "pre @ [t]" "of_nat (length v)" "v @ post"] by (simp add: tlv_enc_def)
  moreover have "unat (of_nat (length v) :: u16) = length v" using assms(1) by (rule unat_len16)
  ultimately show ?thesis
    using assms(2) by (simp add: bwp_iter_next_def Let_def tlv_enc_def nth_append)
qed

lemma tlv_valid_step:
  assumes "length v \<le> 0xFFFF"
  shows "bwp_tlv_valid (pre @ tlv_enc (t, v) @ post) (length pre) (3 + length v + n) \<longleftrightarrow>
    bwp_tlv_valid (pre @ tlv_enc (t, v) @ post) (length pre + 3 + length v) n"
proof -
  have "get_be16 (pre @ tlv_enc (t, v) @ post) (length pre + 1) = of_nat (length v)"
    using get_put_be16 [of "pre @ [t]" "of_nat (length v)" "v @ post"] by (simp add: tlv_enc_def)
  moreover have "unat (of_nat (length v) :: u16) = length v" using assms(1) by (rule unat_len16)
  ultimately show ?thesis by (subst bwp_tlv_valid.simps) (simp add: Let_def)
qed

lemma tlv_valid_enc:
  "tlvs_ok ts \<Longrightarrow> bwp_tlv_valid (pre @ tlvs_enc ts @ post) (length pre) (length (tlvs_enc ts))"
proof (induction ts arbitrary: pre)
  case Nil
  show ?case by (simp add: bwp_tlv_valid.simps)
next
  case (Cons tv ts)
  obtain t v where tv: "tv = (t, v)" by (cases tv)
  have "bwp_tlv_valid ((pre @ tlv_enc tv) @ tlvs_enc ts @ post) (length (pre @ tlv_enc tv)) (length (tlvs_enc ts))"
    using Cons.IH [of "pre @ tlv_enc tv"] Cons.prems by simp
  then show ?case
    using tlv_valid_step [of v pre t "tlvs_enc ts @ post" "length (tlvs_enc ts)"] Cons.prems
    by (simp add: tv add.assoc)
qed

lemma drop3: "p + 3 \<le> length xs \<Longrightarrow> drop p xs = xs ! p # xs ! (p + 1) # xs ! (p + 2) # drop (p + 3) xs"
  using Cons_nth_drop_Suc [of p xs] Cons_nth_drop_Suc [of "Suc p" xs] Cons_nth_drop_Suc [of "Suc (Suc p)" xs]
  by (simp add: numeral_3_eq_3)

lemma tlv_valid_decode:
  "bwp_tlv_valid mem p n \<Longrightarrow> p + n \<le> length mem \<Longrightarrow>
   \<exists>ts. tlvs_ok ts \<and> take n (drop p mem) = tlvs_enc ts"
proof (induction mem p n rule: bwp_tlv_valid.induct)
  case (1 mem p n)
  show ?case
  proof (cases "n = 0")
    case True
    then show ?thesis by (intro exI [of _ "[]"]) simp
  next
    case False
    define vlen where "vlen = unat (get_be16 mem (p + 1))"
    have b: "\<not> n < 3" "\<not> vlen > n - 3" "bwp_tlv_valid mem (p + 3 + vlen) (n - (3 + vlen))"
      using 1(2) False by (auto simp: bwp_tlv_valid.simps [of mem p n] vlen_def Let_def split: if_splits)
    then obtain ts where ts: "tlvs_ok ts" "take (n - (3 + vlen)) (drop (p + 3 + vlen) mem) = tlvs_enc ts"
      using 1(1) [OF False b(1) vlen_def] 1(3) by auto
    define v where "v = take vlen (drop (p + 3) mem)"
    have lv: "length v = vlen" using 1(3) b by (simp add: v_def)
    have le: "vlen \<le> 0xFFFF" using unat_u16_bound [of "get_be16 mem (p + 1)"] by (simp add: vlen_def)
    have pv: "put_be16 (of_nat vlen) = [mem ! (p + 1), mem ! (p + 2)]"
      by (simp add: vlen_def get_be16_def put_get_be16)
    have "drop p mem = mem ! p # mem ! (p + 1) # mem ! (p + 2) # drop (p + 3) mem"
      using drop3 [of p mem] 1(3) b(1) by simp
    then have "take n (drop p mem) = mem ! p # mem ! (p + 1) # mem ! (p + 2) # take (n - 3) (drop (p + 3) mem)"
      using b(1) by (simp add: take_Cons' numeral_3_eq_3)
    moreover have "take (n - 3) (drop (p + 3) mem) = v @ take (n - (3 + vlen)) (drop (p + 3 + vlen) mem)"
    proof -
      have "n - 3 = vlen + (n - (3 + vlen))" using b by simp
      then have "take (n - 3) (drop (p + 3) mem) =
          take vlen (drop (p + 3) mem) @ take (n - (3 + vlen)) (drop vlen (drop (p + 3) mem))"
        by (metis take_add)
      then show ?thesis by (simp add: v_def ac_simps)
    qed
    ultimately have "take n (drop p mem) = tlvs_enc ((mem ! p, v) # ts)"
      using ts(2) by (simp add: tlv_enc_def lv pv)
    then show ?thesis using ts(1) le lv by (intro exI [of _ "(mem ! p, v) # ts"]) simp
  qed
qed

lemma iter_next_end: "bwp_iter_next mem \<lparr>it_p = p, it_left = 0\<rparr> = (None, \<lparr>it_p = p, it_left = 0\<rparr>)"
  by (simp add: bwp_iter_next_def)

lemma iter_next_cons:
  assumes "tlvs_ok ((t, v) # ts)"
  shows "bwp_iter_next (pre @ tlvs_enc ((t, v) # ts) @ post)
      \<lparr>it_p = length pre, it_left = length (tlvs_enc ((t, v) # ts))\<rparr> =
    (Some (t, length pre + 3, of_nat (length v)),
     \<lparr>it_p = length (pre @ tlv_enc (t, v)), it_left = length (tlvs_enc ts)\<rparr>)"
  using iter_next_tlv [of v "length pre" pre t "tlvs_enc ts @ post" "length (tlvs_enc ts)"] assms
  by (simp add: add.assoc)

lemma find_none:
  "tlvs_ok ts \<Longrightarrow> tag \<notin> fst ` set ts \<Longrightarrow>
   \<not> fst (find_loop (pre @ tlvs_enc ts @ post) tag \<lparr>it_p = length pre, it_left = length (tlvs_enc ts)\<rparr> cur)"
proof (induction ts arbitrary: pre cur)
  case Nil
  show ?case by (simp add: find_loop.simps iter_next_end)
next
  case (Cons tv ts)
  obtain t v where tv: "tv = (t, v)" by (cases tv)
  have "\<not> fst (find_loop ((pre @ tlv_enc tv) @ tlvs_enc ts @ post) tag
      \<lparr>it_p = length (pre @ tlv_enc tv), it_left = length (tlvs_enc ts)\<rparr> (Some (length pre + 3, of_nat (length v))))"
    using Cons.IH [of "pre @ tlv_enc tv"] Cons.prems by simp
  then show ?case unfolding tv
    by (subst find_loop.simps, subst iter_next_cons) (use Cons.prems in \<open>simp_all add: tv eq_commute [of t tag]\<close>)
qed

lemma find_first:
  "tlvs_ok (us @ (tag, x) # ts) \<Longrightarrow> tag \<notin> fst ` set us \<Longrightarrow>
   find_loop (pre @ tlvs_enc (us @ (tag, x) # ts) @ post) tag
     \<lparr>it_p = length pre, it_left = length (tlvs_enc (us @ (tag, x) # ts))\<rparr> cur =
   (True, Some (length pre + length (tlvs_enc us) + 3, of_nat (length x)))"
proof (induction us arbitrary: pre cur)
  case Nil
  then show ?case unfolding append_Nil by (subst find_loop.simps, subst iter_next_cons) simp_all
next
  case (Cons tv us)
  obtain t v where tv: "tv = (t, v)" by (cases tv)
  have "find_loop ((pre @ tlv_enc tv) @ tlvs_enc (us @ (tag, x) # ts) @ post) tag
      \<lparr>it_p = length (pre @ tlv_enc tv), it_left = length (tlvs_enc (us @ (tag, x) # ts))\<rparr>
      (Some (length pre + 3, of_nat (length v))) =
      (True, Some (length (pre @ tlv_enc tv) + length (tlvs_enc us) + 3, of_nat (length x)))"
    using Cons.IH [of "pre @ tlv_enc tv"] Cons.prems by simp
  then show ?case unfolding tv append_Cons
    by (subst find_loop.simps, subst iter_next_cons) (use Cons.prems in \<open>simp_all add: tv eq_commute [of t tag]\<close>)
qed

text \<open>The 32-bit value a body carries under a tag.\<close>

definition tlv_u32 :: "tlv list \<Rightarrow> u8 \<Rightarrow> u32 option" where
  "tlv_u32 ts tag = (case map_of ts tag of None \<Rightarrow> None | Some v \<Rightarrow> if length v = 4 then Some (get_be32 v 0) else None)"

lemma map_of_split:
  assumes "map_of ts tag = Some x"
  shows "\<exists>us vs. ts = us @ (tag, x) # vs \<and> tag \<notin> fst ` set us"
  using assms
proof (induction ts)
  case (Cons tv ts)
  obtain t v where tv: "tv = (t, v)" by (cases tv)
  show ?case
  proof (cases "t = tag")
    case True
    with Cons.prems tv have "tv # ts = [] @ (tag, x) # ts" by simp
    then show ?thesis by fastforce
  next
    case False
    with Cons tv obtain us vs where "ts = us @ (tag, x) # vs" "tag \<notin> fst ` set us" by auto
    with False tv have "tv # ts = (tv # us) @ (tag, x) # vs \<and> tag \<notin> fst ` set (tv # us)" by auto
    then show ?thesis by blast
  qed
qed simp

lemma of_nat_u16_eq: "n \<le> 0xFFFF \<Longrightarrow> k \<le> 0xFFFF \<Longrightarrow> (of_nat n :: u16) = of_nat k \<longleftrightarrow> n = k"
  using unat_len16 [of n] unat_len16 [of k] by metis

lemma get_u32_spec:
  assumes ok: "tlvs_ok ts"
  shows "bwp_get_u32 (pre @ tlvs_enc ts @ post) (length pre) (length (tlvs_enc ts)) tag = tlv_u32 ts tag"
proof (cases "map_of ts tag")
  case None
  then have "tag \<notin> fst ` set ts" by (simp add: map_of_eq_None_iff)
  with None show ?thesis
    using find_none [OF ok, of tag pre post None]
    by (cases "bwp_find (pre @ tlvs_enc ts @ post) (length pre) (length (tlvs_enc ts)) tag")
      (auto simp: bwp_get_u32_def bwp_find_def bwp_iter_init_def tlv_u32_def)
next
  case (Some x)
  then obtain us vs where s: "ts = us @ (tag, x) # vs" "tag \<notin> fst ` set us" using map_of_split by metis
  have f: "bwp_find (pre @ tlvs_enc ts @ post) (length pre) (length (tlvs_enc ts)) tag =
      (True, Some (length pre + length (tlvs_enc us) + 3, of_nat (length x)))"
    using find_first [of us tag x vs pre post None] ok s unfolding bwp_find_def bwp_iter_init_def by simp
  have four: "(of_nat (length x) :: u16) = 4 \<longleftrightarrow> length x = 4"
    using of_nat_u16_eq [of "length x" 4] ok s(1) by simp
  have "get_be32 (pre @ tlvs_enc ts @ post) (length pre + length (tlvs_enc us) + 3) = get_be32 x 0" if "length x = 4"
    using get_be32_at [OF that, of "pre @ tlvs_enc us @ tag # put_be16 (of_nat (length x))" "tlvs_enc vs @ post"]
    by (simp add: s(1) tlv_enc_def add.assoc)
  then show ?thesis using Some f four by (simp add: bwp_get_u32_def tlv_u32_def)
qed

subsection \<open>Where AUTH is\<close>

lemma auth_loop_bad: "snd (auth_loop mem it auth True)"
proof (induction mem it auth True rule: auth_loop.induct)
  case (1 mem it auth)
  then show ?case
    by (subst auth_loop.simps) (auto split: prod.split option.split simp: Let_def)
qed

lemma auth_loop_after: "bwp_iter_next mem it = (Some x, it') \<Longrightarrow> snd (auth_loop mem it (Some a) bad)"
  by (cases x) (subst auth_loop.simps, simp add: Let_def auth_loop_bad)

lemma auth_loop_good:
  "tlvs_ok ts \<Longrightarrow>
   auth_loop (pre @ tlvs_enc ts @ post) \<lparr>it_p = length pre, it_left = length (tlvs_enc ts)\<rparr> None False = (Some a, False) \<longleftrightarrow>
   (\<exists>us v. ts = us @ [(BWP_T_AUTH, v)] \<and> BWP_T_AUTH \<notin> fst ` set us \<and> length v = BWP_AUTH_LEN \<and>
      a = length pre + length (tlvs_enc us) + 3)"
proof (induction ts arbitrary: pre)
  case Nil
  show ?case by (simp add: auth_loop.simps iter_next_end)
next
  case (Cons tv ts)
  obtain t v where tv: "tv = (t, v)" by (cases tv)
  let ?mem = "pre @ tlvs_enc ((t, v) # ts) @ post"
  let ?it' = "\<lparr>it_p = length (pre @ tlv_enc (t, v)), it_left = length (tlvs_enc ts)\<rparr>"
  have ok: "tlvs_ok ((t, v) # ts)" using Cons.prems tv by simp
  have lv: "unat (of_nat (length v) :: u16) = length v" using ok by (simp add: unat_len16)
  show ?case
  proof (cases "t = BWP_T_AUTH")
    case True
    have step: "auth_loop ?mem \<lparr>it_p = length pre, it_left = length (tlvs_enc ((t, v) # ts))\<rparr> None False =
        auth_loop ?mem ?it' (Some (length pre + 3)) (length v \<noteq> BWP_AUTH_LEN)"
      by (subst auth_loop.simps, subst iter_next_cons [OF ok]) (simp add: Let_def True lv)
    show ?thesis
    proof (cases ts)
      case Nil
      then show ?thesis unfolding tv step
        by (subst auth_loop.simps) (auto simp: iter_next_end True Cons_eq_append_conv)
    next
      case (Cons tv2 ts2)
      obtain t2 v2 where tv2: "tv2 = (t2, v2)" by (cases tv2)
      have ok2: "tlvs_ok ((t2, v2) # ts2)" using ok Cons tv2 by simp
      have mem: "?mem = (pre @ tlv_enc (t, v)) @ tlvs_enc ((t2, v2) # ts2) @ post" using Cons tv2 by simp
      have "snd (auth_loop ?mem ?it' (Some (length pre + 3)) (length v \<noteq> BWP_AUTH_LEN))"
        using auth_loop_after [OF iter_next_cons [OF ok2, of "pre @ tlv_enc (t, v)" post]] Cons tv2 mem by simp
      then have "auth_loop ?mem ?it' (Some (length pre + 3)) (length v \<noteq> BWP_AUTH_LEN) \<noteq> (Some a, False)"
        by (metis snd_conv)
      moreover have "\<not> (\<exists>us w. (t, v) # ts = us @ [(BWP_T_AUTH, w)] \<and> BWP_T_AUTH \<notin> fst ` set us)"
        using True Cons by (auto simp: Cons_eq_append_conv)
      ultimately show ?thesis unfolding tv step by blast
    qed
  next
    case False
    have step: "auth_loop ?mem \<lparr>it_p = length pre, it_left = length (tlvs_enc ((t, v) # ts))\<rparr> None False =
        auth_loop ((pre @ tlv_enc (t, v)) @ tlvs_enc ts @ post) ?it' None False"
      by (subst auth_loop.simps, subst iter_next_cons [OF ok]) (simp add: Let_def False)
    have "(\<exists>us w. (t, v) # ts = us @ [(BWP_T_AUTH, w)] \<and> BWP_T_AUTH \<notin> fst ` set us \<and>
            length w = BWP_AUTH_LEN \<and> a = length pre + length (tlvs_enc us) + 3) \<longleftrightarrow>
        (\<exists>us w. ts = us @ [(BWP_T_AUTH, w)] \<and> BWP_T_AUTH \<notin> fst ` set us \<and>
            length w = BWP_AUTH_LEN \<and> a = length (pre @ tlv_enc (t, v)) + length (tlvs_enc us) + 3)"
      using False by (auto simp: Cons_eq_append_conv)
    then show ?thesis unfolding tv step using Cons.IH [of "pre @ tlv_enc (t, v)"] ok by simp
  qed
qed

subsection \<open>The MAC and what verifying accepts\<close>

definition mac_spec :: "bytes \<Rightarrow> bytes \<Rightarrow> bytes \<Rightarrow> bytes" where
  "mac_spec key nonce data =
     take BWP_AUTH_LEN (hmac_spec (take BWP_KEY_LEN key) (take BWP_NONCE_LEN nonce @ data))"

lemma length_mac_spec [simp]: "length (mac_spec key nonce data) = BWP_AUTH_LEN"
  by (simp add: mac_spec_def BWP_AUTH_LEN_def)

lemma auth_mac_spec: "auth_mac key nonce data = Some (mac_spec key nonce data)"
proof -
  have "length (c_buf (inner \<lparr>inner = stack_ctx, opad_key = replicate 64 0\<rparr>)) = 64"
    by (simp add: stack_ctx_def zero_ctx_def)
  from hmac_stream_spec [OF this, of "take BWP_KEY_LEN key" "[take BWP_NONCE_LEN nonce, data]"]
  show ?thesis by (auto simp: auth_mac_def mac_spec_def bind_eq_Some_conv)
qed

definition mac_over :: "bytes \<Rightarrow> bytes \<Rightarrow> bytes \<Rightarrow> tlv list \<Rightarrow> bytes" where
  "mac_over key nonce pre us = mac_spec key nonce (drop BWP_ETH_HDR_LEN pre @ tlvs_enc us)"

lemma take16: "length (v :: bytes) = n \<Longrightarrow> length w = n \<Longrightarrow>
    (\<forall>i < n. w ! i = (v @ post) ! i) \<longleftrightarrow> v = w"
  by (auto simp: nth_append list_eq_iff_nth_eq)

lemma verify_ok_iff:
  assumes ok: "tlvs_ok ts" and pre: "length pre = 22"
    and m: "m_body m = 22" "unat (m_body_len m) = length (tlvs_enc ts)"
  shows "bwp_verify (pre @ tlvs_enc ts @ post) m key nonce = Some (BWP_VERIFY_OK, c) \<longleftrightarrow>
    (\<exists>us ctr. ts = us @ [(BWP_T_AUTH, mac_over key nonce pre us)] \<and> BWP_T_AUTH \<notin> fst ` set us \<and>
       tlv_u32 ts BWP_T_COUNTER = Some ctr \<and> c = Some ctr)"
proof -
  let ?f = "pre @ tlvs_enc ts @ post"
  let ?loop = "auth_loop ?f \<lparr>it_p = length pre, it_left = length (tlvs_enc ts)\<rparr> None False"
  have it: "bwp_iter_init (m_body m) (unat (m_body_len m)) = \<lparr>it_p = length pre, it_left = length (tlvs_enc ts)\<rparr>"
    using pre m by (simp add: bwp_iter_init_def)
  have u: "bwp_get_u32 ?f (m_body m) (unat (m_body_len m)) BWP_T_COUNTER = tlv_u32 ts BWP_T_COUNTER"
    using get_u32_spec [OF ok, of pre post BWP_T_COUNTER] pre m by simp
  have mac: "take (a - 3 - BWP_ETH_HDR_LEN) (drop BWP_ETH_HDR_LEN ?f) = drop BWP_ETH_HDR_LEN pre @ tlvs_enc us \<and>
      drop a ?f = v @ post"
    if "ts = us @ [(BWP_T_AUTH, v)]" "a = length pre + length (tlvs_enc us) + 3" for us v a
    using that pre by (simp add: BWP_ETH_HDR_LEN_def tlv_enc_def)
  show ?thesis
  proof (cases "\<exists>us v. ts = us @ [(BWP_T_AUTH, v)] \<and> BWP_T_AUTH \<notin> fst ` set us \<and> length v = BWP_AUTH_LEN")
    case True
    then obtain us v where uv: "ts = us @ [(BWP_T_AUTH, v)]" "BWP_T_AUTH \<notin> fst ` set us" "length v = BWP_AUTH_LEN"
      by blast
    define a where "a = length pre + length (tlvs_enc us) + 3"
    have loop: "?loop = (Some a, False)" using auth_loop_good [OF ok, of pre post a] uv by (auto simp: a_def)
    have "bwp_verify ?f m key nonce =
      (case tlv_u32 ts BWP_T_COUNTER of
         None \<Rightarrow> Some (BWP_VERIFY_MISSING, None)
       | Some counter \<Rightarrow> Some (if v = mac_over key nonce pre us then BWP_VERIFY_OK else BWP_VERIFY_BAD, Some counter))"
      using mac [OF uv(1) a_def] take16 [OF uv(3) length_mac_spec, of key nonce "drop BWP_ETH_HDR_LEN pre @ tlvs_enc us" post]
      unfolding bwp_verify_def it loop u
      by (auto simp: auth_mac_spec ct_memcmp_eq mac_over_def split: option.split)
    then show ?thesis using uv by (auto split: option.splits if_splits)
  next
    case False
    have "fst ?loop = None \<or> snd ?loop"
    proof (rule ccontr)
      assume "\<not> (fst ?loop = None \<or> snd ?loop)"
      then obtain a where "?loop = (Some a, False)" by (cases ?loop) auto
      then show False using auth_loop_good [OF ok, of pre post a] False by blast
    qed
    then have "bwp_verify ?f m key nonce \<noteq> Some (BWP_VERIFY_OK, c)"
      unfolding bwp_verify_def it u
      by (cases ?loop; cases "fst ?loop"; cases "tlv_u32 ts BWP_T_COUNTER") auto
    then show ?thesis using False by (metis length_mac_spec mac_over_def)
  qed
qed

subsection \<open>The writer appends\<close>

definition built :: "bwp_writer_t \<Rightarrow> bytes \<Rightarrow> bool" where
  "built w b \<longleftrightarrow> \<not> w_overflow w \<and> w_len w = length b \<and> take (length b) (w_buf w) = b \<and>
     length b \<le> w_cap w \<and> w_cap w \<le> length (w_buf w) \<and> w_cap w \<le> BWP_MAX_FRAME"

lemma length_blit: "at + length p \<le> length b \<Longrightarrow> length (blit b at p) = length b"
  by (simp add: blit_def)

lemma blit_at_end:
  assumes "take (length a) b = a" and "length a + length p \<le> length b"
  shows "take (length (a @ p)) (blit b (length a) p) = a @ p"
  using assms by (simp add: blit_def)

lemma put_built:
  assumes w: "built w b"
  shows "length b + 3 + length v \<le> w_cap w \<Longrightarrow> built (bwp_put t v w) (b @ tlv_enc (t, v))"
    and "w_cap w < length b + 3 + length v \<Longrightarrow> w_overflow (bwp_put t v w)"
    and "w_cap (bwp_put t v w) = w_cap w"
proof -
  show "built (bwp_put t v w) (b @ tlv_enc (t, v))" if f: "length b + 3 + length v \<le> w_cap w"
  proof -
    have small: "\<not> 0xFFFF < length v" using w f by (simp add: built_def BWP_MAX_FRAME_def)
    have b: "take (length b) (w_buf w) = b" "length b + length (tlv_enc (t, v)) \<le> length (w_buf w)"
      using w f by (simp_all add: built_def)
    have "bwp_put t v w = w\<lparr>w_len := length b + (3 + length v), w_buf := blit (w_buf w) (length b) (tlv_enc (t, v))\<rparr>"
      using w f small by (simp add: bwp_put_def reserve_def poke_def built_def tlv_enc_def)
    then show ?thesis
      using w f blit_at_end [OF b] length_blit [OF b(2)] by (simp add: built_def)
  qed
  show "w_overflow (bwp_put t v w)" if "w_cap w < length b + 3 + length v"
    using w that by (simp add: bwp_put_def reserve_def built_def)
  show "w_cap (bwp_put t v w) = w_cap w"
    by (simp add: bwp_put_def reserve_def poke_def)
qed

lemma put_overflow: "w_overflow w \<Longrightarrow> w_overflow (bwp_put t v w)"
  by (simp add: bwp_put_def reserve_def)

definition bwp_puts :: "tlv list \<Rightarrow> bwp_writer_t \<Rightarrow> bwp_writer_t" where
  "bwp_puts ts w = fold (\<lambda>tv. bwp_put (fst tv) (snd tv)) ts w"

lemma puts_overflow: "w_overflow w \<Longrightarrow> w_overflow (bwp_puts ts w)"
  by (induction ts arbitrary: w) (auto simp: bwp_puts_def put_overflow)

lemma puts_cap [simp]: "w_cap (bwp_puts ts w) = w_cap w"
  unfolding bwp_puts_def
  by (induction ts arbitrary: w) (auto simp: bwp_put_def reserve_def poke_def)

lemma puts_built:
  assumes "built w b"
  shows "length b + length (tlvs_enc ts) \<le> w_cap w \<Longrightarrow> built (bwp_puts ts w) (b @ tlvs_enc ts)"
    and "w_cap w < length b + length (tlvs_enc ts) \<Longrightarrow> w_overflow (bwp_puts ts w)"
proof -
  have "(length b + length (tlvs_enc ts) \<le> w_cap w \<longrightarrow> built (bwp_puts ts w) (b @ tlvs_enc ts)) \<and>
      (w_cap w < length b + length (tlvs_enc ts) \<longrightarrow> w_overflow (bwp_puts ts w))"
    using assms
  proof (induction ts arbitrary: w b)
    case (Cons tv ts)
    let ?w1 = "bwp_put (fst tv) (snd tv) w"
    have s: "bwp_puts (tv # ts) w = bwp_puts ts ?w1" by (simp add: bwp_puts_def)
    show ?case
    proof (cases "length b + 3 + length (snd tv) \<le> w_cap w")
      case True
      then have "built ?w1 (b @ tlv_enc tv)" using put_built(1) [OF Cons.prems True, of "fst tv"] by simp
      then show ?thesis using Cons.IH [of ?w1 "b @ tlv_enc tv"] put_built(3) [OF Cons.prems]
        by (simp add: s add.assoc)
    next
      case False
      then have "w_overflow ?w1" using put_built(2) [OF Cons.prems] by simp
      then show ?thesis using False by (simp add: s puts_overflow)
    qed
  qed (simp add: bwp_puts_def built_def)
  then show "length b + length (tlvs_enc ts) \<le> w_cap w \<Longrightarrow> built (bwp_puts ts w) (b @ tlvs_enc ts)"
    and "w_cap w < length b + length (tlvs_enc ts) \<Longrightarrow> w_overflow (bwp_puts ts w)" by blast+
qed

text \<open>The header with a body length.\<close>

definition hdr :: "bytes \<Rightarrow> bytes \<Rightarrow> u8 \<Rightarrow> u16 \<Rightarrow> nat \<Rightarrow> bytes" where
  "hdr dst src mtyp seq n = take 6 dst @ take 6 src @ put_be16 BWP_ETHERTYPE @
     [BWP_MAGIC0, BWP_MAGIC1, BWP_VERSION, mtyp] @ put_be16 seq @ put_be16 (of_nat n)"

lemma length_hdr [simp]: "length dst = 6 \<Longrightarrow> length src = 6 \<Longrightarrow> length (hdr dst src mtyp seq n) = 22"
  by (simp add: hdr_def)

lemma begin_built:
  assumes "length dst = 6" "length src = 6" "cap \<le> length buf" "22 \<le> cap"
  shows "built (bwp_begin buf cap dst src mtyp seq) (hdr dst src mtyp seq 0)"
    and "w_cap (bwp_begin buf cap dst src mtyp seq) = min cap BWP_MAX_FRAME"
  using assms by (auto simp: bwp_begin_def Let_def reserve_def poke_def built_def hdr_def BWP_ETH_HDR_LEN_def
      BWP_HDR_LEN_def BWP_MAX_FRAME_def blit_def)

lemma begin_overflow: "cap < 22 \<Longrightarrow> w_overflow (bwp_begin buf cap dst src mtyp seq)"
  by (auto simp: bwp_begin_def Let_def reserve_def bwp_consts)

lemma poke_len:
  assumes "built w (hdr dst src mtyp seq n @ x)" "length dst = 6" "length src = 6"
  shows "built (poke 20 (put_be16 (of_nat k)) w) (hdr dst src mtyp seq k @ x)"
proof -
  let ?b = "hdr dst src mtyp seq n @ x"
  have b: "take (length ?b) (w_buf w) = ?b" "length ?b \<le> length (w_buf w)" using assms(1) by (auto simp: built_def)
  define rest where "rest = drop (length ?b) (w_buf w)"
  have wb: "w_buf w = ?b @ rest" unfolding rest_def using b(1) by (metis append_take_drop_id)
  have "blit (w_buf w) 20 (put_be16 (of_nat k)) = (hdr dst src mtyp seq k @ x) @ rest"
    unfolding wb blit_def using assms(2,3) by (simp add: hdr_def put_be16_def)
  then show ?thesis using assms unfolding built_def poke_def wb by simp
qed

lemma poke_fields [simp]: "w_cap (poke p bs w) = w_cap w" "w_overflow (poke p bs w) = w_overflow w"
    "w_len (poke p bs w) = w_len w"
  by (simp_all add: poke_def)

definition signed_tlvs :: "bytes \<Rightarrow> bytes \<Rightarrow> u32 \<Rightarrow> (nat \<Rightarrow> bytes) \<Rightarrow> tlv list \<Rightarrow> tlv list" where
  "signed_tlvs key nonce counter h ts =
     (let us = ts @ [(BWP_T_COUNTER, put_be32 counter)]
      in us @ [(BWP_T_AUTH, mac_over key nonce (h (length (tlvs_enc us) + 19)) us)])"

lemma length_signed: "length (tlvs_enc (signed_tlvs key nonce counter h ts)) = length (tlvs_enc ts) + 26"
  by (simp add: signed_tlvs_def Let_def mac_over_def BWP_AUTH_LEN_def)

lemma sign_built:
  assumes w: "built w (hdr dst src mtyp seq n @ tlvs_enc ts)" and l: "length dst = 6" "length src = 6"
  shows "48 + length (tlvs_enc ts) \<le> w_cap w \<Longrightarrow>
      \<exists>w'. bwp_sign key nonce counter w = Some w' \<and> w_cap w' = w_cap w \<and>
        built w' (hdr dst src mtyp seq (length (tlvs_enc ts) + 26) @
          tlvs_enc (signed_tlvs key nonce counter (hdr dst src mtyp seq) ts))"
    and "w_cap w < 48 + length (tlvs_enc ts) \<Longrightarrow> \<exists>w'. bwp_sign key nonce counter w = Some w' \<and> w_overflow w'"
proof -
  let ?us = "ts @ [(BWP_T_COUNTER, put_be32 counter)]"
  let ?w = "bwp_put_u32 BWP_T_COUNTER counter w"
  have cap: "w_cap ?w = w_cap w" using put_built(3) [OF w] by (simp add: bwp_put_u32_def)
  have lus: "length (tlvs_enc ?us) = length (tlvs_enc ts) + 7" by simp
  {
    assume f: "48 + length (tlvs_enc ts) \<le> w_cap w"
    have w1: "built ?w (hdr dst src mtyp seq n @ tlvs_enc ?us)"
      using put_built(1) [OF w, of "put_be32 counter" BWP_T_COUNTER] f l by (simp add: bwp_put_u32_def)
    have len: "w_len ?w = 22 + (length (tlvs_enc ts) + 7)" using w1 l by (simp add: built_def)
    let ?k = "length (tlvs_enc ts) + 26"
    let ?w2 = "poke 20 (put_be16 (of_nat ?k)) ?w"
    have w2: "built ?w2 (hdr dst src mtyp seq ?k @ tlvs_enc ?us)" by (rule poke_len [OF w1 l])
    have "take (w_len ?w2) (w_buf ?w2) = hdr dst src mtyp seq ?k @ tlvs_enc ?us"
      using w2 by (simp add: built_def)
    then have data: "take (w_len ?w2 - BWP_ETH_HDR_LEN) (drop BWP_ETH_HDR_LEN (w_buf ?w2)) =
        drop BWP_ETH_HDR_LEN (hdr dst src mtyp seq ?k) @ tlvs_enc ?us"
      unfolding drop_take [symmetric] using l by (simp add: BWP_ETH_HDR_LEN_def)
    let ?mac = "mac_over key nonce (hdr dst src mtyp seq ?k) ?us"
    have sgn: "bwp_sign key nonce counter w = Some (bwp_put BWP_T_AUTH ?mac ?w2)"
    proof -
      have "\<not> w_overflow ?w" using w1 by (simp add: built_def)
      moreover have "\<not> (w_len ?w + 3 + BWP_AUTH_LEN > w_cap ?w)" using len cap f by (simp add: BWP_AUTH_LEN_def)
      moreover have "w_len ?w + 3 + BWP_AUTH_LEN - BWP_ETH_HDR_LEN - BWP_HDR_LEN = ?k"
        using len by (simp add: bwp_consts)
      ultimately show ?thesis
        using data by (simp add: bwp_sign_def Let_def auth_mac_spec mac_over_def)
    qed
    have "built (bwp_put BWP_T_AUTH ?mac ?w2) ((hdr dst src mtyp seq ?k @ tlvs_enc ?us) @ tlv_enc (BWP_T_AUTH, ?mac))"
      using put_built(1) [OF w2, of ?mac BWP_T_AUTH] f l cap lus by (simp add: mac_over_def BWP_AUTH_LEN_def)
    then have "built (bwp_put BWP_T_AUTH ?mac ?w2) (hdr dst src mtyp seq ?k @
          tlvs_enc (signed_tlvs key nonce counter (hdr dst src mtyp seq) ts))"
      by (simp add: signed_tlvs_def Let_def add.commute)
    then show "\<exists>w'. bwp_sign key nonce counter w = Some w' \<and> w_cap w' = w_cap w \<and>
        built w' (hdr dst src mtyp seq (length (tlvs_enc ts) + 26) @
          tlvs_enc (signed_tlvs key nonce counter (hdr dst src mtyp seq) ts))"
      using sgn put_built(3) [OF w2] cap by auto
  }
  {
    assume f: "w_cap w < 48 + length (tlvs_enc ts)"
    have "w_overflow ?w \<or> w_len ?w + 3 + BWP_AUTH_LEN > w_cap ?w"
    proof (cases "22 + length (tlvs_enc ts) + 7 \<le> w_cap w")
      case True
      then have "built ?w (hdr dst src mtyp seq n @ tlvs_enc ?us)"
        using put_built(1) [OF w, of "put_be32 counter" BWP_T_COUNTER] l by (simp add: bwp_put_u32_def)
      then have "w_len ?w = 22 + (length (tlvs_enc ts) + 7)" using l by (simp add: built_def)
      then show ?thesis using f cap by (simp add: BWP_AUTH_LEN_def)
    next
      case False
      then show ?thesis using put_built(2) [OF w, of "put_be32 counter" BWP_T_COUNTER] l by (simp add: bwp_put_u32_def)
    qed
    then show "\<exists>w'. bwp_sign key nonce counter w = Some w' \<and> w_overflow w'"
      by (simp add: bwp_sign_def Let_def)
  }
qed

text \<open>What \<open>bwp_finish\<close> hands out: the patched header, the body, and zeros up to 60 bytes.\<close>

lemma finish_built:
  assumes w: "built w (hdr dst src mtyp seq n @ x)" and l: "length dst = 6" "length src = 6"
    and cap: "BWP_MIN_FRAME \<le> w_cap w"
  shows "\<exists>rest. bwp_finish w = ((hdr dst src mtyp seq (length x) @ x @ rest), max BWP_MIN_FRAME (22 + length x)) \<and>
    max BWP_MIN_FRAME (22 + length x) \<le> 22 + length x + length rest"
proof -
  let ?w1 = "poke 20 (put_be16 (of_nat (length x))) w"
  have w1: "built ?w1 (hdr dst src mtyp seq (length x) @ x)" by (rule poke_len [OF w l])
  have len: "w_len w = 22 + length x" using w l by (simp add: built_def)
  let ?b = "hdr dst src mtyp seq (length x) @ x"
  have buf: "take (length ?b) (w_buf ?w1) = ?b" "w_cap w \<le> length (w_buf ?w1)" "22 + length x \<le> w_cap w"
    using w1 l by (auto simp: built_def)
  define rest where "rest = drop (length ?b) (w_buf ?w1)"
  have wb: "w_buf ?w1 = ?b @ rest" unfolding rest_def using buf(1) by (metis append_take_drop_id)
  have lr: "length (w_buf ?w1) = 22 + length x + length rest" using wb l by simp
  have f: "bwp_finish w = (if 22 + length x < BWP_MIN_FRAME
      then (blit (w_buf ?w1) (22 + length x) (replicate (BWP_MIN_FRAME - (22 + length x)) 0), BWP_MIN_FRAME)
      else (w_buf ?w1, 22 + length x))"
    using w cap len by (simp add: bwp_finish_def Let_def built_def BWP_ETH_HDR_LEN_def BWP_HDR_LEN_def)
  show ?thesis
  proof (cases "22 + length x < BWP_MIN_FRAME")
    case True
    let ?rest = "replicate (BWP_MIN_FRAME - (22 + length x)) 0 @ drop (BWP_MIN_FRAME - (22 + length x)) rest"
    have "blit (w_buf ?w1) (22 + length x) (replicate (BWP_MIN_FRAME - (22 + length x)) 0) = ?b @ ?rest"
      unfolding wb blit_def using l True by simp
    then show ?thesis using f True by (intro exI [of _ ?rest]) (simp add: max_def)
  next
    case False
    then show ?thesis using f wb lr buf(2,3) by (intro exI [of _ rest]) (simp add: max_def)
  qed
qed

subsection \<open>Parsing\<close>

lemma parse_hdr:
  assumes l: "length dst = 6" "length src = 6" and ok: "tlvs_ok ts" and small: "length (tlvs_enc ts) \<le> 0xFFFF"
    and n: "22 + length (tlvs_enc ts) \<le> n"
  shows "bwp_parse (hdr dst src mtyp seq (length (tlvs_enc ts)) @ tlvs_enc ts @ rest) n out =
    (BWP_PARSE_OK, \<lparr>m_dst = 0, m_src = 6, m_version = BWP_VERSION, m_type = mtyp, m_seq = seq, m_body = 22,
       m_body_len = of_nat (length (tlvs_enc ts))\<rparr>)"
proof -
  let ?H = "hdr dst src mtyp seq (length (tlvs_enc ts))" and ?x = "tlvs_enc ts"
  have e: "get_be16 (?H @ ?x @ rest) 12 = BWP_ETHERTYPE"
    using get_put_be16 [of "take 6 dst @ take 6 src" BWP_ETHERTYPE "[BWP_MAGIC0, BWP_MAGIC1, BWP_VERSION, mtyp] @
        put_be16 seq @ put_be16 (of_nat (length ?x)) @ ?x @ rest"] l by (simp add: hdr_def)
  have sq: "get_be16 (?H @ ?x @ rest) 18 = seq"
    using get_put_be16 [of "take 6 dst @ take 6 src @ put_be16 BWP_ETHERTYPE @ [BWP_MAGIC0, BWP_MAGIC1, BWP_VERSION, mtyp]"
        seq "put_be16 (of_nat (length ?x)) @ ?x @ rest"] l by (simp add: hdr_def)
  have bl: "get_be16 (?H @ ?x @ rest) 20 = of_nat (length ?x)"
    using get_put_be16 [of "take 6 dst @ take 6 src @ put_be16 BWP_ETHERTYPE @
        [BWP_MAGIC0, BWP_MAGIC1, BWP_VERSION, mtyp] @ put_be16 seq" "of_nat (length ?x)" "?x @ rest"] l by (simp add: hdr_def)
  have b: "(?H @ ?x @ rest) ! 14 = BWP_MAGIC0" "(?H @ ?x @ rest) ! 15 = BWP_MAGIC1"
      "(?H @ ?x @ rest) ! 16 = BWP_VERSION" "(?H @ ?x @ rest) ! 17 = mtyp"
    using l by (simp_all add: hdr_def nth_append)
  have u: "unat (of_nat (length ?x) :: u16) = length ?x" by (rule unat_len16 [OF small])
  have v: "bwp_tlv_valid (?H @ ?x @ rest) 22 (length ?x)" using tlv_valid_enc [OF ok, of ?H rest] l by simp
  show ?thesis
    using n unfolding bwp_parse_def Let_def e sq bl b
    by (simp add: BWP_ETH_HDR_LEN_def BWP_HDR_LEN_def u v)
qed

text \<open>The value a caller of \<open>bwp_find\<close> reads.\<close>

definition field_value :: "bytes \<Rightarrow> nat \<Rightarrow> nat \<Rightarrow> u8 \<Rightarrow> bytes option" where
  "field_value mem body len tag =
     (case bwp_find mem body len tag of
        (True, Some (v, n)) \<Rightarrow> Some (take (unat n) (drop v mem))
      | _ \<Rightarrow> None)"

lemma map_of_find:
  assumes ok: "tlvs_ok ts" and pre: "length pre = 22"
  shows "field_value (pre @ tlvs_enc ts @ post) 22 (length (tlvs_enc ts)) tag = map_of ts tag"
proof (cases "map_of ts tag")
  case None
  then have "tag \<notin> fst ` set ts" by (simp add: map_of_eq_None_iff)
  with None show ?thesis
    using find_none [OF ok, of tag pre post None] pre
    by (cases "bwp_find (pre @ tlvs_enc ts @ post) 22 (length (tlvs_enc ts)) tag")
      (auto simp: field_value_def bwp_find_def bwp_iter_init_def)
next
  case (Some x)
  then obtain us vs where s: "ts = us @ (tag, x) # vs" "tag \<notin> fst ` set us" using map_of_split by metis
  have f: "bwp_find (pre @ tlvs_enc ts @ post) 22 (length (tlvs_enc ts)) tag =
      (True, Some (22 + length (tlvs_enc us) + 3, of_nat (length x)))"
    using find_first [of us tag x vs pre post None] ok s pre unfolding bwp_find_def bwp_iter_init_def by simp
  have u: "unat (of_nat (length x) :: u16) = length x" using ok s(1) by (simp add: unat_len16)
  have d: "drop (22 + length (tlvs_enc us) + 3) (pre @ tlvs_enc ts @ post) = x @ tlvs_enc vs @ post"
    using pre by (simp add: s(1) tlv_enc_def)
  show ?thesis unfolding field_value_def f option.case prod.case bool.case u d by (simp add: Some)
qed

lemma parse_ok_body:
  assumes "bwp_parse frame n out = (BWP_PARSE_OK, m)" and n: "n \<le> length frame"
  shows "\<exists>ts. tlvs_ok ts \<and> frame = take 22 frame @ tlvs_enc ts @ drop (22 + unat (m_body_len m)) frame \<and>
    length (take 22 frame) = 22 \<and> m_body m = 22 \<and> unat (m_body_len m) = length (tlvs_enc ts)"
proof -
  from assms(1) have p: "m_body m = 22" "22 \<le> n" "unat (m_body_len m) \<le> n - 22"
      "bwp_tlv_valid frame 22 (unat (m_body_len m))"
    by (auto simp: bwp_parse_def Let_def BWP_ETH_HDR_LEN_def BWP_HDR_LEN_def split: if_splits)
  have le: "22 + unat (m_body_len m) \<le> length frame" using p(2,3) n by simp
  obtain ts where ts: "tlvs_ok ts" "take (unat (m_body_len m)) (drop 22 frame) = tlvs_enc ts"
    using tlv_valid_decode [OF p(4) le] by blast
  have "frame = take 22 frame @ take (unat (m_body_len m)) (drop 22 frame) @ drop (22 + unat (m_body_len m)) frame"
    by (metis append_take_drop_id drop_drop add.commute)
  moreover have "length (tlvs_enc ts) = unat (m_body_len m)" using ts(2) le by (metis length_take length_drop
      add_le_imp_le_diff min.absorb2 add.commute)
  moreover have "length (take 22 frame) = 22" using p(2) n by simp
  ultimately show ?thesis using ts p(1) by (intro exI [of _ ts]) simp
qed

lemma tlv_u32_snoc: "tag \<noteq> t \<Longrightarrow> tlv_u32 (us @ [(t, v)]) tag = tlv_u32 us tag"
  by (simp add: tlv_u32_def map_of_append map_add_def split: option.split)

text \<open>
  C19. A request the bridge accepts as authentic is one whose last field is AUTH, exactly once, whose
  16 bytes are the MAC, under the key and this boot's nonce, of everything from the message header up
  to that field: the type, the sequence number, the body length and every other field. The counter
  reported is the one among the covered fields. So nothing that follows or precedes the MAC in the
  message is unprotected.
\<close>

theorem bwp_verified_is_covered:
  assumes "bwp_parse frame n out = (BWP_PARSE_OK, m)" and "n \<le> length frame"
    and "bwp_verify frame m key nonce = Some (BWP_VERIFY_OK, c)"
  shows "\<exists>us ctr. tlvs_ok us \<and> BWP_T_AUTH \<notin> fst ` set us \<and> c = Some ctr \<and> tlv_u32 us BWP_T_COUNTER = Some ctr \<and>
    take (unat (m_body_len m)) (drop 22 frame) =
      tlvs_enc (us @ [(BWP_T_AUTH, mac_spec key nonce (take (8 + length (tlvs_enc us)) (drop 14 frame)))])"
proof -
  obtain ts where ts: "tlvs_ok ts" "frame = take 22 frame @ tlvs_enc ts @ drop (22 + unat (m_body_len m)) frame"
      "length (take 22 frame) = 22" "m_body m = 22" "unat (m_body_len m) = length (tlvs_enc ts)"
    using parse_ok_body [OF assms(1,2)] by blast
  define pre post where "pre = take 22 frame" and "post = drop (22 + unat (m_body_len m)) frame"
  note f = ts(2) [folded pre_def post_def] and lp = ts(3) [folded pre_def]
  obtain us ctr where u: "ts = us @ [(BWP_T_AUTH, mac_over key nonce pre us)]" "BWP_T_AUTH \<notin> fst ` set us"
      "tlv_u32 ts BWP_T_COUNTER = Some ctr" "c = Some ctr"
    using verify_ok_iff [OF ts(1) lp ts(4,5), of post key nonce c] assms(3) f by auto
  have "BWP_T_COUNTER \<noteq> BWP_T_AUTH" by (simp add: BWP_T_COUNTER_def BWP_T_AUTH_def)
  then have c: "tlv_u32 us BWP_T_COUNTER = Some ctr" using u(1,3) tlv_u32_snoc by metis
  have "take (8 + length (tlvs_enc us)) (drop 14 frame) = drop 14 pre @ tlvs_enc us"
    by (subst f, subst u(1)) (use lp in simp)
  moreover have "take (unat (m_body_len m)) (drop 22 frame) = tlvs_enc ts"
    by (subst f) (use lp ts(5) in simp)
  ultimately show ?thesis
    using u c ts(1) by (intro exI [of _ us] exI [of _ ctr]) (simp add: mac_over_def BWP_ETH_HDR_LEN_def)
qed

text \<open>A parsed frame whose body is a list of fields.\<close>

definition carries :: "bytes \<Rightarrow> bwp_msg_t \<Rightarrow> bytes \<Rightarrow> tlv list \<Rightarrow> bytes \<Rightarrow> bool" where
  "carries frame m pre ts post \<longleftrightarrow> frame = pre @ tlvs_enc ts @ post \<and> length pre = 22 \<and> tlvs_ok ts \<and>
     m_body m = 22 \<and> unat (m_body_len m) = length (tlvs_enc ts)"

lemma signed_tlvs_ok: "tlvs_ok (signed_tlvs key nonce counter h ts) \<longleftrightarrow> tlvs_ok ts"
  by (simp add: signed_tlvs_def Let_def mac_over_def BWP_AUTH_LEN_def)

lemma built_fits: "built w (b @ tlvs_enc ts) \<Longrightarrow> tlvs_ok ts"
proof -
  assume "built w (b @ tlvs_enc ts)"
  then have "length (tlvs_enc ts) \<le> 0xFFFF" by (simp add: built_def BWP_MAX_FRAME_def)
  then show ?thesis by (induction ts) auto
qed

lemma signed_frame:
  assumes l: "length dst = 6" "length src = 6" and cap: "cap \<le> length buf" "60 \<le> cap"
    and tags: "BWP_T_COUNTER \<notin> fst ` set ts" "BWP_T_AUTH \<notin> fst ` set ts"
    and fits: "48 + length (tlvs_enc ts) \<le> min cap BWP_MAX_FRAME"
  shows "\<exists>w frame n m. bwp_sign key nonce counter (bwp_puts ts (bwp_begin buf cap dst src mtyp seq)) = Some w \<and>
    bwp_finish w = (frame, n) \<and> 60 \<le> n \<and> n \<le> cap \<and> n \<le> length frame \<and>
    bwp_parse frame n out = (BWP_PARSE_OK, m) \<and> m_type m = mtyp \<and> m_seq m = seq \<and> take 12 frame = dst @ src \<and>
    bwp_verify frame m key nonce = Some (BWP_VERIFY_OK, Some counter) \<and>
    (\<forall>tag. tag \<noteq> BWP_T_COUNTER \<longrightarrow> tag \<noteq> BWP_T_AUTH \<longrightarrow>
       field_value frame (m_body m) (unat (m_body_len m)) tag = map_of ts tag) \<and>
    (\<exists>pre us post. carries frame m pre (ts @ us) post \<and> fst ` set us = {BWP_T_COUNTER, BWP_T_AUTH})"
proof -
  let ?w0 = "bwp_begin buf cap dst src mtyp seq"
  let ?ts = "signed_tlvs key nonce counter (hdr dst src mtyp seq) ts"
  let ?n = "length (tlvs_enc ts) + 26"
  have cap22: "22 \<le> cap" using cap by simp
  note w0 = begin_built [OF l cap(1) cap22, of mtyp seq]
  have w1: "built (bwp_puts ts ?w0) (hdr dst src mtyp seq 0 @ tlvs_enc ts)"
    using puts_built(1) [OF w0(1), of ts] fits w0(2) l by simp
  have c1: "48 + length (tlvs_enc ts) \<le> w_cap (bwp_puts ts ?w0)" using fits w0(2) by simp
  obtain w where w: "bwp_sign key nonce counter (bwp_puts ts ?w0) = Some w" "w_cap w = min cap BWP_MAX_FRAME"
      "built w (hdr dst src mtyp seq ?n @ tlvs_enc ?ts)"
    using sign_built(1) [OF w1 l c1, of key nonce counter] w0(2) by auto
  have ln: "length (tlvs_enc ?ts) = ?n" by (rule length_signed)
  have mc: "BWP_MIN_FRAME \<le> w_cap w" using w(2) cap by (simp add: bwp_consts)
  obtain rest where fin: "bwp_finish w = (hdr dst src mtyp seq ?n @ tlvs_enc ?ts @ rest, max BWP_MIN_FRAME (22 + ?n))"
      and lr: "max BWP_MIN_FRAME (22 + ?n) \<le> 22 + ?n + length rest"
    using finish_built [OF w(3) l mc] unfolding ln by blast
  let ?f = "hdr dst src mtyp seq ?n @ tlvs_enc ?ts @ rest"
  let ?N = "max BWP_MIN_FRAME (22 + ?n)"
  let ?m = "\<lparr>m_dst = 0, m_src = 6, m_version = BWP_VERSION, m_type = mtyp, m_seq = seq, m_body = 22,
      m_body_len = of_nat ?n\<rparr>"
  have ok: "tlvs_ok ?ts" using built_fits [OF w(3)] .
  have small: "?n \<le> 0xFFFF" using fits by (simp add: BWP_MAX_FRAME_def)
  have parse: "bwp_parse ?f ?N out = (BWP_PARSE_OK, ?m)"
    using parse_hdr [OF l ok, of ?N mtyp seq rest out] small unfolding ln by simp
  have un: "unat (m_body_len ?m) = length (tlvs_enc ?ts)" using unat_len16 [OF small] ln by simp
  have lh: "length (hdr dst src mtyp seq ?n) = 22" using l by simp
  have ne: "BWP_T_COUNTER \<noteq> BWP_T_AUTH" by (simp add: BWP_T_COUNTER_def BWP_T_AUTH_def)
  have mo: "map_of ?ts tag = map_of ts tag" if "tag \<noteq> BWP_T_COUNTER" "tag \<noteq> BWP_T_AUTH" for tag
    using that by (simp add: signed_tlvs_def Let_def map_of_append map_add_def split: option.split)
  have "map_of ts BWP_T_COUNTER = None" using tags(1) by (simp add: map_of_eq_None_iff)
  then have cnt: "tlv_u32 ?ts BWP_T_COUNTER = Some counter"
    using ne by (simp add: signed_tlvs_def Let_def tlv_u32_def map_of_append map_add_def get_put_be32)
  have verify: "bwp_verify ?f ?m key nonce = Some (BWP_VERIFY_OK, Some counter)"
  proof -
    have "\<exists>us. ?ts = us @ [(BWP_T_AUTH, mac_over key nonce (hdr dst src mtyp seq ?n) us)] \<and> BWP_T_AUTH \<notin> fst ` set us"
      using tags ne by (intro exI [of _ "ts @ [(BWP_T_COUNTER, put_be32 counter)]"])
        (auto simp: signed_tlvs_def Let_def add.commute)
    then show ?thesis
      using verify_ok_iff [OF ok lh _ un, of rest key nonce "Some counter"] cnt by auto
  qed
  have find: "field_value ?f (m_body ?m) (unat (m_body_len ?m)) tag = map_of ts tag"
    if "tag \<noteq> BWP_T_COUNTER" "tag \<noteq> BWP_T_AUTH" for tag
    using map_of_find [OF ok lh, of rest tag] mo [OF that] unfolding un by simp
  have "?N \<le> cap" using fits cap by (simp add: BWP_MIN_FRAME_def)
  moreover have "60 \<le> ?N" by (simp add: BWP_MIN_FRAME_def)
  moreover have "?N \<le> length ?f" using lr ln lh by simp
  moreover have "take 12 ?f = dst @ src" using l by (simp add: hdr_def)
  moreover have "\<exists>pre us post. carries ?f ?m pre (ts @ us) post \<and> fst ` set us = {BWP_T_COUNTER, BWP_T_AUTH}"
  proof -
    define us where "us = drop (length ts) ?ts"
    have "?ts = ts @ us" by (simp add: us_def signed_tlvs_def Let_def)
    moreover have "fst ` set us = {BWP_T_COUNTER, BWP_T_AUTH}" by (simp add: us_def signed_tlvs_def Let_def)
    ultimately show ?thesis using ok lh un unfolding carries_def by (metis bwp_msg_t.select_convs(6))
  qed
  ultimately show ?thesis
    using w(1) fin parse verify find by (intro exI [of _ w] exI [of _ ?f] exI [of _ ?N] exI [of _ ?m]) simp
qed

text \<open>
  C25. What is signed verifies, and a request that does not fit is never sent: for any fields and any
  old contents of the buffer, building and signing returns length 0 exactly if the message does not
  fit the buffer or an Ethernet frame; otherwise the frame is at least 60 bytes long, fits, parses to
  its type and sequence number, is accepted by \<open>bwp_verify\<close> under the same key and nonce with its
  counter, and gives back every field.
\<close>

theorem bwp_sign_verify:
  assumes "length dst = 6" "length src = 6" "cap \<le> length buf" "60 \<le> cap"
    and "BWP_T_COUNTER \<notin> fst ` set ts" "BWP_T_AUTH \<notin> fst ` set ts"
  shows "\<exists>w frame n m. bwp_sign key nonce counter (bwp_puts ts (bwp_begin buf cap dst src mtyp seq)) = Some w \<and>
    bwp_finish w = (frame, n) \<and>
    (if min cap BWP_MAX_FRAME < 48 + length (tlvs_enc ts) then n = 0
     else 60 \<le> n \<and> n \<le> cap \<and> n \<le> length frame \<and>
       bwp_parse frame n out = (BWP_PARSE_OK, m) \<and> m_type m = mtyp \<and> m_seq m = seq \<and> take 12 frame = dst @ src \<and>
       bwp_verify frame m key nonce = Some (BWP_VERIFY_OK, Some counter) \<and>
       (\<forall>tag. tag \<noteq> BWP_T_COUNTER \<longrightarrow> tag \<noteq> BWP_T_AUTH \<longrightarrow>
          field_value frame (m_body m) (unat (m_body_len m)) tag = map_of ts tag))"
proof (cases "min cap BWP_MAX_FRAME < 48 + length (tlvs_enc ts)")
  case False
  then have "48 + length (tlvs_enc ts) \<le> min cap BWP_MAX_FRAME" unfolding not_less .
  from signed_frame [OF assms this, of key nonce counter mtyp seq out] False show ?thesis
    by (metis (no_types, lifting))
next
  case True
  let ?w0 = "bwp_begin buf cap dst src mtyp seq"
  have "22 \<le> cap" using assms(4) by simp
  note w0 = begin_built [OF assms(1-3) this, of mtyp seq]
  have "\<exists>w. bwp_sign key nonce counter (bwp_puts ts ?w0) = Some w \<and> w_overflow w"
  proof (cases "22 + length (tlvs_enc ts) \<le> min cap BWP_MAX_FRAME")
    case fits: True
    have w1: "built (bwp_puts ts ?w0) (hdr dst src mtyp seq 0 @ tlvs_enc ts)"
      using puts_built(1) [OF w0(1), of ts] fits w0(2) assms(1,2) by simp
    show ?thesis using sign_built(2) [OF w1 assms(1,2)] True w0(2) by simp
  next
    case False
    then have "w_cap ?w0 < length (hdr dst src mtyp seq 0) + length (tlvs_enc ts)"
      unfolding w0(2) not_le using assms(1,2) by simp
    then have "w_overflow (bwp_puts ts ?w0)" by (rule puts_built(2) [OF w0(1)])
    then show ?thesis by (simp add: bwp_sign_def bwp_put_u32_def Let_def put_overflow)
  qed
  then obtain w where "bwp_sign key nonce counter (bwp_puts ts ?w0) = Some w" "bwp_finish w = (w_buf w, 0)"
    by (auto simp: bwp_finish_def)
  then show ?thesis using True by auto
qed

definition demo_mac :: bytes where "demo_mac = [2, 0, 0, 0, 0, 1]"

theorem bwp_sign_verify_witness:
  "\<exists>w frame n m. bwp_sign [7] [1, 2] 5 (bwp_puts [(8, [65, 66])] (bwp_begin (replicate 100 9) 100 demo_mac demo_mac 4 77)) = Some w \<and>
    bwp_finish w = (frame, n) \<and> 60 \<le> n \<and> n \<le> 100 \<and> bwp_parse frame n no_msg = (BWP_PARSE_OK, m) \<and> m_seq m = 77 \<and>
    bwp_verify frame m [7] [1, 2] = Some (BWP_VERIFY_OK, Some 5)"
  using bwp_sign_verify [of demo_mac demo_mac 100 "replicate 100 9" "[(8, [65, 66])]" "[7]" "[1, 2]" 5 4 77 no_msg]
  by (simp add: demo_mac_def BWP_T_COUNTER_def BWP_T_AUTH_def BWP_MAX_FRAME_def) blast

theorem bwp_verified_is_covered_witness:
  "\<exists>frame m us ctr. bwp_verify frame m [7] [1, 2] = Some (BWP_VERIFY_OK, Some ctr) \<and> tlv_u32 us BWP_T_COUNTER = Some ctr \<and>
    take (unat (m_body_len m)) (drop 22 frame) =
      tlvs_enc (us @ [(BWP_T_AUTH, mac_spec [7] [1, 2] (take (8 + length (tlvs_enc us)) (drop 14 frame)))])"
proof -
  obtain frame n m where f: "n \<le> length frame" "bwp_parse frame n no_msg = (BWP_PARSE_OK, m)"
      "bwp_verify frame m [7] [1, 2] = Some (BWP_VERIFY_OK, Some 5)"
    using signed_frame [of demo_mac demo_mac 100 "replicate 100 9" "[(8, [65, 66])]" "[7]" "[1, 2]" 5 4 77 no_msg]
    by (auto simp: demo_mac_def BWP_T_COUNTER_def BWP_T_AUTH_def BWP_MAX_FRAME_def)
  show ?thesis using bwp_verified_is_covered [OF f(2) f(1) f(3)] f(3) by blast
qed

end
