(* ===== verification/Pairing.thy ===== *)
theory Pairing
  imports BwpAuth
begin

section \<open>Pairing: which requests the bridge accepts\<close>

text \<open>
  The model of \<^verbatim>\<open>wifi-bridge/components/bridge_core/pairing.c\<close>. \<open>pairing_check\<close> returns the
  new state, the verdict and the three outputs \<^verbatim>\<open>*authed\<close>, \<^verbatim>\<open>*counter\<close> and \<^verbatim>\<open>*new_key\<close> (an offset into the
  frame, \<open>None\<close> for NULL); the whole is an option because the MAC is.
\<close>

definition BWP_HELLO :: u8 where "BWP_HELLO = 0x01"
definition BWP_STATUS :: u8 where "BWP_STATUS = 0x02"
definition BWP_SCAN :: u8 where "BWP_SCAN = 0x03"
definition BWP_PAIR :: u8 where "BWP_PAIR = 0x0C"
definition BWP_T_PUBKEY :: u8 where "BWP_T_PUBKEY = 0x18"

datatype bwp_result_t =
    BWP_OK | BWP_E_BAD_REQUEST | BWP_E_UNSUPPORTED | BWP_E_BUSY | BWP_E_STORAGE | BWP_E_OTA_NOT_STARTED
  | BWP_E_OTA_BAD_OFFSET | BWP_E_OTA_VERIFY | BWP_E_OTA_TOO_LARGE | BWP_E_INTERNAL | BWP_E_OTA_WRONG_IMAGE
  | BWP_E_NOT_PAIRED | BWP_E_AUTH | BWP_E_ALREADY_PAIRED

record bwp_pairing_t =
  paired :: bool
  p_key :: bytes
  p_nonce :: bytes
  last_counter :: u32

datatype pair_verdict_t =
    PAIR_ACCEPT | PAIR_STORE_KEY | PAIR_NOT_PAIRED | PAIR_ALREADY_PAIRED | PAIR_AUTH_MISSING
  | PAIR_AUTH_BAD | PAIR_REPLAY | PAIR_BAD_KEY

definition pairing_set_key :: "bytes \<Rightarrow> bwp_pairing_t \<Rightarrow> bwp_pairing_t" where
  "pairing_set_key key p = p\<lparr>p_key := take BWP_KEY_LEN key, paired := True, last_counter := 0\<rparr>"

definition pairing_init :: "bytes \<Rightarrow> bytes option \<Rightarrow> bwp_pairing_t" where
  "pairing_init nonce key =
     (let p = \<lparr>paired = False, p_key = replicate BWP_KEY_LEN 0, p_nonce = take BWP_NONCE_LEN nonce, last_counter = 0\<rparr>
      in case key of None \<Rightarrow> p | Some k \<Rightarrow> pairing_set_key k p)"

definition pairing_forget :: "bwp_pairing_t \<Rightarrow> bwp_pairing_t" where
  "pairing_forget p = p\<lparr>p_key := replicate BWP_KEY_LEN 0, paired := False\<rparr>"

type_synonym pair_out = "pair_verdict_t \<times> bool \<times> u32 \<times> nat option"

text \<open>The end of \<open>pairing_check\<close>: a PAIR must carry the pod's public key.\<close>

definition pair_key :: "bwp_pairing_t \<Rightarrow> bytes \<Rightarrow> bwp_msg_t \<Rightarrow> bool \<Rightarrow> u32 \<Rightarrow> bwp_pairing_t \<times> pair_out" where
  "pair_key p frame m authed counter =
     (if m_type m = BWP_PAIR then
        (case bwp_find frame (m_body m) (unat (m_body_len m)) BWP_T_PUBKEY of
           (True, Some (k, n)) \<Rightarrow>
             if n \<noteq> 32 then (p, PAIR_BAD_KEY, authed, counter, None)
             else (p, PAIR_STORE_KEY, authed, counter, Some k)
         | _ \<Rightarrow> (p, PAIR_BAD_KEY, authed, counter, None))
      else (p, PAIR_ACCEPT, authed, counter, None))"

definition pairing_check :: "bwp_pairing_t \<Rightarrow> bytes \<Rightarrow> bwp_msg_t \<Rightarrow> (bwp_pairing_t \<times> pair_out) option" where
  "pairing_check p frame m =
     (if paired p then
        do { (v, c) \<leftarrow> bwp_verify frame m (p_key p) (p_nonce p);
             let counter = (case c of None \<Rightarrow> 0 | Some x \<Rightarrow> x);
             Some (case v of
                 BWP_VERIFY_MISSING \<Rightarrow>
                   (p, if m_type m = BWP_PAIR then PAIR_ALREADY_PAIRED else PAIR_AUTH_MISSING, False, counter, None)
               | BWP_VERIFY_BAD \<Rightarrow>
                   (p, if m_type m = BWP_PAIR then PAIR_ALREADY_PAIRED else PAIR_AUTH_BAD, False, counter, None)
               | BWP_VERIFY_OK \<Rightarrow>
                   if counter \<le> last_counter p then (p, PAIR_REPLAY, False, counter, None)
                   else pair_key (p\<lparr>last_counter := counter\<rparr>) frame m True counter) }
      else if m_type m \<noteq> BWP_STATUS \<and> m_type m \<noteq> BWP_SCAN \<and> m_type m \<noteq> BWP_PAIR
      then Some (p, PAIR_NOT_PAIRED, False, 0, None)
      else Some (pair_key p frame m False 0))"

fun pairing_result :: "pair_verdict_t \<Rightarrow> bwp_result_t" where
  "pairing_result PAIR_ACCEPT = BWP_OK"
| "pairing_result PAIR_STORE_KEY = BWP_OK"
| "pairing_result PAIR_NOT_PAIRED = BWP_E_NOT_PAIRED"
| "pairing_result PAIR_ALREADY_PAIRED = BWP_E_ALREADY_PAIRED"
| "pairing_result PAIR_BAD_KEY = BWP_E_BAD_REQUEST"
| "pairing_result _ = BWP_E_AUTH"

subsection \<open>Requests between two changes of the key\<close>

fun requests :: "bwp_pairing_t \<Rightarrow> (bytes \<times> bwp_msg_t) list \<Rightarrow> (bwp_pairing_t \<times> pair_out list) option" where
  "requests p [] = Some (p, [])"
| "requests p ((frame, m) # rs) =
     do { (p1, o1) \<leftarrow> pairing_check p frame m; (p2, outs) \<leftarrow> requests p1 rs; Some (p2, o1 # outs) }"

definition accepted :: "pair_out \<Rightarrow> bool" where
  "accepted r \<longleftrightarrow> fst r = PAIR_ACCEPT \<or> fst r = PAIR_STORE_KEY"

definition authed_of :: "pair_out \<Rightarrow> bool" where "authed_of r = fst (snd r)"
definition counter_of :: "pair_out \<Rightarrow> u32" where "counter_of r = fst (snd (snd r))"

lemma pair_key_facts:
  "fst (pair_key p frame m authed counter) = p"
  "authed_of (snd (pair_key p frame m authed counter)) = authed"
  "counter_of (snd (pair_key p frame m authed counter)) = counter"
  "fst (snd (pair_key p frame m authed counter)) \<noteq> PAIR_REPLAY"
  by (auto simp: pair_key_def authed_of_def counter_of_def split: prod.split option.split bool.split)

text \<open>One request of a paired bridge: refused, or authentic with a counter above the last.\<close>

lemma check_paired:
  assumes "paired p" and "pairing_check p frame m = Some (p', r)"
  shows "(\<not> authed_of r \<and> \<not> accepted r \<and> p' = p) \<or>
    (authed_of r \<and> last_counter p < counter_of r \<and> p' = p\<lparr>last_counter := counter_of r\<rparr> \<and>
     bwp_verify frame m (p_key p) (p_nonce p) = Some (BWP_VERIFY_OK, Some (counter_of r)))"
proof -
  obtain v c where vc: "bwp_verify frame m (p_key p) (p_nonce p) = Some (v, c)"
    using assms by (auto simp: pairing_check_def bind_eq_Some_conv)
  show ?thesis
  proof (cases v)
    case BWP_VERIFY_OK
    then obtain x where x: "c = Some x"
      using vc by (cases c) (auto simp: bwp_verify_def bind_eq_Some_conv split: prod.splits option.splits if_splits)
    show ?thesis
    proof (cases "x \<le> last_counter p")
      case True
      then show ?thesis using assms vc BWP_VERIFY_OK x
        by (auto simp: pairing_check_def authed_of_def accepted_def)
    next
      case False
      let ?k = "pair_key (p\<lparr>last_counter := x\<rparr>) frame m True x"
      have "?k = (p', r)" using assms vc BWP_VERIFY_OK x False by (simp add: pairing_check_def)
      then have "p' = p\<lparr>last_counter := x\<rparr>" "authed_of r" "counter_of r = x"
        using pair_key_facts [of "p\<lparr>last_counter := x\<rparr>" frame m True x] by simp_all
      then show ?thesis using False vc BWP_VERIFY_OK x by simp
    qed
  qed (use assms vc in \<open>auto simp: pairing_check_def authed_of_def accepted_def split: if_splits\<close>)
qed

lemma check_unpaired:
  assumes "\<not> paired p" and "pairing_check p frame m = Some (p', r)"
  shows "p' = p \<and> \<not> authed_of r \<and> (accepted r \<longrightarrow> m_type m \<in> {BWP_STATUS, BWP_SCAN, BWP_PAIR})"
proof (cases "m_type m \<noteq> BWP_STATUS \<and> m_type m \<noteq> BWP_SCAN \<and> m_type m \<noteq> BWP_PAIR")
  case True
  then show ?thesis using assms by (auto simp: pairing_check_def accepted_def authed_of_def)
next
  case False
  then have "pair_key p frame m False 0 = (p', r)" using assms by (auto simp: pairing_check_def)
  then show ?thesis using pair_key_facts [of p frame m False 0] False by auto
qed

lemma requests_append:
  "requests p (xs @ ys) = do { (p1, o1) \<leftarrow> requests p xs; (p2, o2) \<leftarrow> requests p1 ys; Some (p2, o1 @ o2) }"
proof (induction xs arbitrary: p)
  case (Cons fm xs)
  obtain frame m where fm: "fm = (frame, m)" by (cases fm)
  show ?case
  proof (cases "pairing_check p frame m")
    case (Some po)
    then show ?thesis
      by (cases po; cases "requests (fst po) xs") (auto simp: fm Cons.IH split: bind_split)
  qed (simp add: fm)
next
  case Nil
  show ?case by (cases "requests p ys") auto
qed

lemma requests_paired:
  "paired p \<Longrightarrow> requests p rs = Some (p', outs) \<Longrightarrow>
   length outs = length rs \<and> p' = p\<lparr>last_counter := last_counter p'\<rparr> \<and> last_counter p \<le> last_counter p' \<and>
   sorted_wrt (<) (last_counter p # map counter_of (filter authed_of outs)) \<and>
   (\<forall>r \<in> set outs. authed_of r \<longrightarrow> counter_of r \<le> last_counter p') \<and>
   (\<forall>i < length rs. accepted (outs ! i) \<longrightarrow> authed_of (outs ! i)) \<and>
   (\<forall>i < length rs. authed_of (outs ! i) \<longrightarrow>
      bwp_verify (fst (rs ! i)) (snd (rs ! i)) (p_key p) (p_nonce p) = Some (BWP_VERIFY_OK, Some (counter_of (outs ! i))))"
proof (induction rs arbitrary: p outs)
  case (Cons fm rs)
  obtain frame m where fm: "fm = (frame, m)" by (cases fm)
  obtain p1 o1 os where s: "pairing_check p frame m = Some (p1, o1)" "requests p1 rs = Some (p', os)" "outs = o1 # os"
    using Cons.prems(2) fm by (auto simp: bind_eq_Some_conv)
  note c = check_paired [OF Cons.prems(1) s(1)]
  have p1: "paired p1" "p_key p1 = p_key p" "p_nonce p1 = p_nonce p" "p1 = p\<lparr>last_counter := last_counter p1\<rparr>"
      "last_counter p \<le> last_counter p1" using c Cons.prems(1) by auto
  note ih = Cons.IH [OF p1(1) s(2)]
  have "sorted_wrt (<) (last_counter p # map counter_of (filter authed_of outs))"
    using ih c p1(5) s(3) by (auto simp: less_trans)
  moreover have "p' = p\<lparr>last_counter := last_counter p'\<rparr>"
    using ih p1(4) by (metis bwp_pairing_t.update_convs(4) bwp_pairing_t.surjective)
  moreover have "last_counter p1 = counter_of o1" if "authed_of o1" using c that by auto
  ultimately show ?case
    using ih c p1 s(3) fm by (auto simp: nth_Cons less_Suc_eq_0_disj all_conj_distrib split: nat.split)
qed simp

text \<open>
  C6. Once a key is set, and until it is changed or forgotten, a paired bridge accepts a request only
  if it is authentic under that key and this boot's nonce, the counters of authentic requests grow
  strictly, the key, the nonce and the paired state stay, and a request that was accepted once is
  refused as a replay whenever it arrives again.
\<close>

theorem pairing_no_replay:
  assumes p: "paired p" and run: "requests p (before @ (frame, m) # between @ [(frame, m)]) = Some (p', outs)"
    and acc: "accepted (outs ! length before)"
  shows "fst (last outs) = PAIR_REPLAY \<and>
    sorted_wrt (<) (last_counter p # map counter_of (filter authed_of outs)) \<and>
    p' = p\<lparr>last_counter := last_counter p'\<rparr> \<and>
    (\<forall>i < length outs. accepted (outs ! i) \<longrightarrow>
       bwp_verify (fst ((before @ (frame, m) # between @ [(frame, m)]) ! i)) (snd ((before @ (frame, m) # between @ [(frame, m)]) ! i))
         (p_key p) (p_nonce p) = Some (BWP_VERIFY_OK, Some (counter_of (outs ! i))))"
proof -
  let ?rs = "before @ (frame, m) # between @ [(frame, m)]"
  let ?first = "before @ (frame, m) # between"
  have "do { (p1, o1) \<leftarrow> requests p ?first; (p2, o2) \<leftarrow> requests p1 [(frame, m)]; Some (p2, o1 @ o2) } = Some (p', outs)"
    using run requests_append [of p ?first "[(frame, m)]"] by simp
  then obtain p1 os1 o2 where s: "requests p ?first = Some (p1, os1)" "pairing_check p1 frame m = Some (p', o2)"
      "outs = os1 @ [o2]"
    by (auto simp: bind_eq_Some_conv)
  note f1 = requests_paired [OF p s(1)] and f = requests_paired [OF p run]
  define o1 where "o1 = outs ! length before"
  have l1: "length before < length os1" using f1 by simp
  then have o1: "o1 = os1 ! length before" "o1 \<in> set os1" using s(3) by (auto simp: o1_def nth_append)
  have a1: "authed_of o1" using acc f1 l1 o1 by (auto simp: o1_def)
  then have v1: "bwp_verify frame m (p_key p) (p_nonce p) = Some (BWP_VERIFY_OK, Some (counter_of o1))"
    using f1 l1 o1 by (auto simp: nth_append dest: spec [of _ "length before"])
  have c1: "counter_of o1 \<le> last_counter p1" using f1 a1 o1(2) by blast
  have p1: "paired p1" "p_key p1 = p_key p" "p_nonce p1 = p_nonce p"
    using f1 p by (metis bwp_pairing_t.select_convs bwp_pairing_t.update_convs(4) bwp_pairing_t.surjective)+
  have "o2 = (PAIR_REPLAY, False, counter_of o1, None)"
    using s(2) v1 c1 p1 by (simp add: pairing_check_def)
  then have "fst (last outs) = PAIR_REPLAY" using s(3) by simp
  then show ?thesis using f by auto
qed

theorem pairing_no_replay_witness:
  "\<exists>frame m p' outs. requests (pairing_init [1, 2] (Some [7])) [(frame, m), (frame, m)] = Some (p', outs) \<and>
     accepted (outs ! 0) \<and> fst (last outs) = PAIR_REPLAY"
proof -
  let ?p = "pairing_init [1, 2] (Some [7])"
  have p: "paired ?p" "p_key ?p = [7]" "p_nonce ?p = [1, 2]" "last_counter ?p = 0"
    by (simp_all add: pairing_init_def pairing_set_key_def BWP_KEY_LEN_def BWP_NONCE_LEN_def)
  obtain frame n m where f: "bwp_parse frame n no_msg = (BWP_PARSE_OK, m)" "m_type m = 4"
      "bwp_verify frame m [7] [1, 2] = Some (BWP_VERIFY_OK, Some 5)"
    using signed_frame [of demo_mac demo_mac 100 "replicate 100 9" "[(8, [65, 66])]" "[7]" "[1, 2]" 5 4 77 no_msg]
    by (auto simp: demo_mac_def BWP_T_COUNTER_def BWP_T_AUTH_def BWP_MAX_FRAME_def)
  have "pairing_check ?p frame m = Some (?p\<lparr>last_counter := 5\<rparr>, PAIR_ACCEPT, True, 5, None)"
    using f p by (simp add: pairing_check_def pair_key_def BWP_PAIR_def word_le_nat_alt)
  moreover have "pairing_check (?p\<lparr>last_counter := 5\<rparr>) frame m = Some (?p\<lparr>last_counter := 5\<rparr>, PAIR_REPLAY, False, 5, None)"
    using f p by (simp add: pairing_check_def)
  ultimately have r: "requests ?p ([] @ (frame, m) # [] @ [(frame, m)]) =
      Some (?p\<lparr>last_counter := 5\<rparr>, [(PAIR_ACCEPT, True, 5, None), (PAIR_REPLAY, False, 5, None)])"
    by simp
  have a: "accepted ([(PAIR_ACCEPT, True, 5, None), (PAIR_REPLAY, False, 5, None)] ! length [])"
    by (simp add: accepted_def)
  have "fst (last [(PAIR_ACCEPT, True, 5, None), (PAIR_REPLAY, False, 5 :: u32, None :: nat option)]) = PAIR_REPLAY"
    using pairing_no_replay [OF p(1) r a] by (rule conjunct1)
  then show ?thesis using r a unfolding append_Nil list.size(3) by blast
qed

end
