(* ===== verification/BwpMsg.thy ===== *)
theory BwpMsg
  imports Pairing
begin

section \<open>The messages of the control protocol\<close>

text \<open>
  The model of the message builders and of the request parsing of
  \<^verbatim>\<open>wifi-bridge/components/bridge_core/bwp.c\<close> and of the sealed passphrase of \<^verbatim>\<open>bwp_crypto.c\<close>.
  Monocypher's keyed BLAKE2b, its stream cipher and X25519 are parameters. Strings in fixed arrays
  are their characters up to the NUL, signed bytes their two's complement.
\<close>

definition BWP_SET_WIFI :: u8 where "BWP_SET_WIFI = 0x04"
definition BWP_RESPONSE :: u8 where "BWP_RESPONSE = 0x80"
definition BWP_SCAN_MAX_APS :: nat where "BWP_SCAN_MAX_APS = 20"
definition BWP_T_RESULT :: u8 where "BWP_T_RESULT = 0x01"
definition BWP_T_MODEL :: u8 where "BWP_T_MODEL = 0x02"
definition BWP_T_FW_VERSION :: u8 where "BWP_T_FW_VERSION = 0x03"
definition BWP_T_HW_REV :: u8 where "BWP_T_HW_REV = 0x04"
definition BWP_T_STATE :: u8 where "BWP_T_STATE = 0x05"
definition BWP_T_BRIDGE_MAC :: u8 where "BWP_T_BRIDGE_MAC = 0x06"
definition BWP_T_POD_MAC :: u8 where "BWP_T_POD_MAC = 0x07"
definition BWP_T_SSID :: u8 where "BWP_T_SSID = 0x08"
definition BWP_T_PASSPHRASE :: u8 where "BWP_T_PASSPHRASE = 0x09"
definition BWP_T_CHANNEL :: u8 where "BWP_T_CHANNEL = 0x0A"
definition BWP_T_RSSI :: u8 where "BWP_T_RSSI = 0x0B"
definition BWP_T_BSSID :: u8 where "BWP_T_BSSID = 0x0C"
definition BWP_T_AUTHMODE :: u8 where "BWP_T_AUTHMODE = 0x0D"
definition BWP_T_AP :: u8 where "BWP_T_AP = 0x0E"
definition BWP_T_UPTIME :: u8 where "BWP_T_UPTIME = 0x12"
definition BWP_T_REASON :: u8 where "BWP_T_REASON = 0x13"
definition BWP_T_COUNTERS :: u8 where "BWP_T_COUNTERS = 0x14"
definition BWP_T_MESSAGE :: u8 where "BWP_T_MESSAGE = 0x15"
definition BWP_T_FLAGS :: u8 where "BWP_T_FLAGS = 0x16"
definition BWP_T_NONCE :: u8 where "BWP_T_NONCE = 0x17"
definition BWP_T_ENC_PASSPHRASE :: u8 where "BWP_T_ENC_PASSPHRASE = 0x1B"
definition BWP_F_POD_KNOWN :: u8 where "BWP_F_POD_KNOWN = 0x08"
definition BWP_F_PAIRED :: u8 where "BWP_F_PAIRED = 0x20"
definition BWP_ST_CONNECTED :: u8 where "BWP_ST_CONNECTED = 3"
definition BWP_PUBKEY_LEN :: nat where "BWP_PUBKEY_LEN = 32"
definition BWP_MODEL :: cstr where "BWP_MODEL = ''benchpod-wifi-bridge''"
definition BCAST :: bytes where "BCAST = [0xff, 0xff, 0xff, 0xff, 0xff, 0xff]"

record bwp_hello_t =
  h_fw_version :: cstr
  h_hw_rev :: cstr
  h_state :: u8
  h_flags :: u8
  h_bridge_mac :: bytes
  h_pod_mac :: bytes
  h_nonce :: bytes
  h_bridge_pub :: bytes

record bwp_counters_t =
  eth_rx :: u32
  wifi_tx :: u32
  wifi_tx_err :: u32
  wifi_rx :: u32
  eth_tx :: u32
  eth_tx_err :: u32
  dropped :: u32

record bwp_status_t =
  st_state :: u8
  st_flags :: u8
  st_ssid :: cstr
  st_channel :: u8
  st_rssi :: u8
  st_bssid :: bytes
  st_reason :: u8
  st_uptime_s :: u32
  st_pod_mac :: bytes
  st_counters :: bwp_counters_t

record bwp_ap_t =
  ap_ssid :: cstr
  ap_rssi :: u8
  ap_channel :: u8
  ap_authmode :: u8
  ap_bssid :: bytes

definition bwp_build_hello :: "bytes \<Rightarrow> nat \<Rightarrow> bytes option \<Rightarrow> bwp_hello_t \<Rightarrow> bytes \<times> nat" where
  "bwp_build_hello buf cap dst h =
     (let w = bwp_begin buf cap (case dst of Some d \<Rightarrow> d | None \<Rightarrow> BCAST) (h_bridge_mac h) BWP_HELLO 0;
          w = bwp_put_str BWP_T_MODEL BWP_MODEL w;
          w = bwp_put_str BWP_T_FW_VERSION (h_fw_version h) w;
          w = bwp_put_str BWP_T_HW_REV (h_hw_rev h) w;
          w = bwp_put_u8 BWP_T_STATE (h_state h) w;
          w = bwp_put_u8 BWP_T_FLAGS (h_flags h) w;
          w = bwp_put BWP_T_BRIDGE_MAC (take 6 (h_bridge_mac h)) w;
          w = (if h_flags h AND BWP_F_POD_KNOWN \<noteq> 0 then bwp_put BWP_T_POD_MAC (take 6 (h_pod_mac h)) w else w);
          w = bwp_put BWP_T_NONCE (take BWP_NONCE_LEN (h_nonce h)) w;
          w = (if h_flags h AND BWP_F_PAIRED \<noteq> 0 then bwp_put BWP_T_PUBKEY (take BWP_PUBKEY_LEN (h_bridge_pub h)) w else w)
      in bwp_finish w)"

definition counter_bytes :: "bwp_counters_t \<Rightarrow> bytes" where
  "counter_bytes c = concat (map put_be32 [eth_rx c, wifi_tx c, wifi_tx_err c, wifi_rx c, eth_tx c, eth_tx_err c, dropped c])"

definition bwp_build_status :: "bytes \<Rightarrow> nat \<Rightarrow> bytes \<Rightarrow> bytes \<Rightarrow> u16 \<Rightarrow> bwp_status_t \<Rightarrow> bytes \<times> nat" where
  "bwp_build_status buf cap dst src seq s =
     (let w = bwp_begin buf cap dst src (BWP_STATUS OR BWP_RESPONSE) seq;
          w = bwp_put_u8 BWP_T_RESULT 0 w;
          w = bwp_put_u8 BWP_T_STATE (st_state s) w;
          w = bwp_put_u8 BWP_T_FLAGS (st_flags s) w;
          w = (if st_ssid s \<noteq> [] then bwp_put_str BWP_T_SSID (st_ssid s) w else w);
          w = (if st_state s = BWP_ST_CONNECTED then
                 bwp_put BWP_T_BSSID (take 6 (st_bssid s))
                   (bwp_put_u8 BWP_T_RSSI (st_rssi s) (bwp_put_u8 BWP_T_CHANNEL (st_channel s) w))
               else w);
          w = (if st_reason s \<noteq> 0 then bwp_put_u8 BWP_T_REASON (st_reason s) w else w);
          w = bwp_put_u32 BWP_T_UPTIME (st_uptime_s s) w;
          w = (if st_flags s AND BWP_F_POD_KNOWN \<noteq> 0 then bwp_put BWP_T_POD_MAC (take 6 (st_pod_mac s)) w else w);
          w = bwp_put BWP_T_COUNTERS (counter_bytes (st_counters s)) w
      in bwp_finish w)"

definition put_ap :: "bwp_ap_t \<Rightarrow> bwp_writer_t \<Rightarrow> bwp_writer_t" where
  "put_ap ap w =
     (let w = bwp_nest_begin BWP_T_AP w;
          w = bwp_put_str BWP_T_SSID (ap_ssid ap) w;
          w = bwp_put_u8 BWP_T_RSSI (ap_rssi ap) w;
          w = bwp_put_u8 BWP_T_CHANNEL (ap_channel ap) w;
          w = bwp_put_u8 BWP_T_AUTHMODE (ap_authmode ap) w;
          w = bwp_put BWP_T_BSSID (take 6 (ap_bssid ap)) w
      in bwp_nest_end w)"

definition bwp_build_scan_result ::
  "bytes \<Rightarrow> nat \<Rightarrow> bytes \<Rightarrow> bytes \<Rightarrow> u16 \<Rightarrow> u8 \<Rightarrow> bwp_ap_t list \<Rightarrow> nat \<Rightarrow> bytes \<times> nat" where
  "bwp_build_scan_result buf cap dst src seq result aps n0 =
     (let w = bwp_begin buf cap dst src (BWP_SCAN OR BWP_RESPONSE) seq;
          w = bwp_put_u8 BWP_T_RESULT result w;
          n = (if n0 > BWP_SCAN_MAX_APS then BWP_SCAN_MAX_APS else n0);
          w = fold put_ap (take n aps) w
      in bwp_finish w)"

definition bwp_build_result ::
  "bytes \<Rightarrow> nat \<Rightarrow> bytes \<Rightarrow> bytes \<Rightarrow> u8 \<Rightarrow> u16 \<Rightarrow> u8 \<Rightarrow> cstr option \<Rightarrow> bytes \<times> nat" where
  "bwp_build_result buf cap dst src mtyp seq result msg =
     (let w = bwp_begin buf cap dst src (mtyp OR BWP_RESPONSE) seq;
          w = bwp_put_u8 BWP_T_RESULT result w;
          w = (case msg of Some t \<Rightarrow> if t \<noteq> [] then bwp_put_str BWP_T_MESSAGE t w else w | None \<Rightarrow> w)
      in bwp_finish w)"

subsection \<open>Names and passphrases\<close>

definition bwp_ssid_valid :: "nat \<Rightarrow> bool" where
  "bwp_ssid_valid len \<longleftrightarrow> len \<ge> 1 \<and> len \<le> 32"

definition is_hex :: "u8 \<Rightarrow> bool" where
  "is_hex c \<longleftrightarrow> (c \<ge> 0x30 \<and> c \<le> 0x39) \<or> (c \<ge> 0x61 \<and> c \<le> 0x66) \<or> (c \<ge> 0x41 \<and> c \<le> 0x46)"

text \<open>A \<^verbatim>\<open>char\<close> above 0x7e is out of range whether the compiler's char is signed or not.\<close>

definition bwp_passphrase_valid :: "bytes \<Rightarrow> nat \<Rightarrow> bool" where
  "bwp_passphrase_valid pass len =
     (if len = 0 then True
      else if len = 64 then list_all is_hex (take len pass)
      else if len < 8 \<or> len > 63 then False
      else list_all (\<lambda>c. \<not> (c < 0x20 \<or> c > 0x7e)) (take len pass))"

subsection \<open>The sealed passphrase (bwp_crypto.c)\<close>

definition BWP_SEAL_NONCE_LEN :: nat where "BWP_SEAL_NONCE_LEN = 24"
definition BWP_PASS_BLOCK :: nat where "BWP_PASS_BLOCK = 65"
definition BWP_SEALED_PASS_LEN :: nat where "BWP_SEALED_PASS_LEN = BWP_SEAL_NONCE_LEN + BWP_PASS_BLOCK"
definition PAIR_LABEL :: cstr where "PAIR_LABEL = ''BWP pairing v1''"
definition PASS_LABEL :: cstr where "PASS_LABEL = ''BWP passphrase v1''"

lemmas seal_consts = BWP_SEAL_NONCE_LEN_def BWP_PASS_BLOCK_def BWP_SEALED_PASS_LEN_def

text \<open>\<open>blake2b n key msg\<close>, \<open>chacha text key nonce\<close>, \<open>x25519 secret public\<close>: Monocypher's.\<close>

type_synonym blake2b_t = "nat \<Rightarrow> bytes \<Rightarrow> bytes \<Rightarrow> bytes"
type_synonym chacha_t = "bytes \<Rightarrow> bytes \<Rightarrow> bytes \<Rightarrow> bytes"

definition bwp_x25519_public :: "(bytes \<Rightarrow> bytes) \<Rightarrow> bytes \<Rightarrow> bytes" where
  "bwp_x25519_public x25519_public_key secret = x25519_public_key secret"

text \<open>The return value 0 comes with the key, -1 with a cleared one.\<close>

definition bwp_pair_key ::
  "(bytes \<Rightarrow> bytes \<Rightarrow> bytes) \<Rightarrow> blake2b_t \<Rightarrow> bytes \<Rightarrow> bytes \<Rightarrow> bytes \<Rightarrow> bytes \<Rightarrow> bytes option" where
  "bwp_pair_key x25519 blake2b my_secret peer_pub pod_pub bridge_pub =
     (let shared = x25519 my_secret peer_pub in
      if shared = replicate 32 0 then None
      else Some (blake2b 32 shared
             (str_bytes PAIR_LABEL @ take BWP_PUBKEY_LEN pod_pub @ take BWP_PUBKEY_LEN bridge_pub)))"

definition pass_key :: "blake2b_t \<Rightarrow> bytes \<Rightarrow> bytes" where
  "pass_key blake2b key = blake2b 32 (take 32 key) (str_bytes PASS_LABEL)"

definition bwp_seal_passphrase :: "blake2b_t \<Rightarrow> chacha_t \<Rightarrow> bytes \<Rightarrow> bytes \<Rightarrow> bytes \<Rightarrow> bytes option" where
  "bwp_seal_passphrase blake2b chacha key nonce pass =
     (let n = length pass in
      if n > BWP_PASS_BLOCK - 1 then None
      else
        let blk = blit ((replicate BWP_PASS_BLOCK 0)[0 := of_nat n]) 1 pass
        in Some (take BWP_SEAL_NONCE_LEN nonce @ chacha blk (pass_key blake2b key) (take BWP_SEAL_NONCE_LEN nonce)))"

definition bwp_open_passphrase :: "blake2b_t \<Rightarrow> chacha_t \<Rightarrow> bytes \<Rightarrow> bytes \<Rightarrow> nat \<Rightarrow> bytes option" where
  "bwp_open_passphrase blake2b chacha key sealed len =
     (if len \<noteq> BWP_SEALED_PASS_LEN then None
      else
        let blk = chacha (take BWP_PASS_BLOCK (drop BWP_SEAL_NONCE_LEN sealed)) (pass_key blake2b key)
                    (take BWP_SEAL_NONCE_LEN sealed);
            n = unat (blk ! 0)
        in if n > BWP_PASS_BLOCK - 1 then None else Some (take n (drop 1 blk)))"

subsection \<open>SET_WIFI\<close>

record bwp_set_wifi_t =
  sw_ssid :: bytes
  sw_passphrase :: bytes

definition no_wifi :: bwp_set_wifi_t where "no_wifi = \<lparr>sw_ssid = [], sw_passphrase = []\<rparr>"

definition bwp_parse_set_wifi ::
  "blake2b_t \<Rightarrow> chacha_t \<Rightarrow> bytes \<Rightarrow> bwp_msg_t \<Rightarrow> bytes option \<Rightarrow> bwp_result_t \<times> bwp_set_wifi_t" where
  "bwp_parse_set_wifi blake2b chacha mem m key =
     (case bwp_find mem (m_body m) (unat (m_body_len m)) BWP_T_SSID of
        (True, Some (v, n)) \<Rightarrow>
          if \<not> bwp_ssid_valid (unat n) then (BWP_E_BAD_REQUEST, no_wifi)
          else
            let out = no_wifi\<lparr>sw_ssid := take (unat n) (drop v mem)\<rparr> in
            if fst (bwp_find mem (m_body m) (unat (m_body_len m)) BWP_T_PASSPHRASE) then (BWP_E_BAD_REQUEST, out)
            else
              (case bwp_find mem (m_body m) (unat (m_body_len m)) BWP_T_ENC_PASSPHRASE of
                 (True, Some (v, n)) \<Rightarrow>
                   (case (case key of None \<Rightarrow> None | Some k \<Rightarrow> bwp_open_passphrase blake2b chacha k (drop v mem) (unat n)) of
                      None \<Rightarrow> (BWP_E_BAD_REQUEST, out)
                    | Some pass \<Rightarrow>
                        if \<not> bwp_passphrase_valid pass (length pass) then (BWP_E_BAD_REQUEST, out)
                        else (BWP_OK, out\<lparr>sw_passphrase := pass\<rparr>))
               | _ \<Rightarrow> (BWP_OK, out))
      | _ \<Rightarrow> (BWP_E_BAD_REQUEST, no_wifi))"

subsection \<open>The writer stays in its buffer\<close>

datatype wop = Put u8 bytes | Nest_begin u8 | Nest_end | Sign bytes bytes u32

fun wop_do :: "wop \<Rightarrow> bwp_writer_t \<Rightarrow> bwp_writer_t option" where
  "wop_do (Put t v) w = Some (bwp_put t v w)"
| "wop_do (Nest_begin t) w = Some (bwp_nest_begin t w)"
| "wop_do Nest_end w = Some (bwp_nest_end w)"
| "wop_do (Sign key nonce ctr) w = bwp_sign key nonce ctr w"

fun wops :: "wop list \<Rightarrow> bwp_writer_t \<Rightarrow> bwp_writer_t option" where
  "wops [] w = Some w"
| "wops (x # xs) w = do { w1 \<leftarrow> wop_do x w; wops xs w1 }"

definition wf_writer :: "bytes \<Rightarrow> nat \<Rightarrow> bwp_writer_t \<Rightarrow> bool" where
  "wf_writer buf cap w \<longleftrightarrow> w_cap w \<le> cap \<and> w_cap w \<le> BWP_MAX_FRAME \<and> w_len w \<le> w_cap w \<and>
     length (w_buf w) = length buf \<and> drop cap (w_buf w) = drop cap buf \<and>
     (\<not> w_overflow w \<longrightarrow> 22 \<le> w_len w) \<and> (w_nest_at w \<noteq> 0 \<longrightarrow> w_nest_at w + 2 \<le> w_len w)"

lemma blit_inside:
  assumes "p + length bs \<le> cap" and "cap \<le> length b"
  shows "length (blit b p bs) = length b" and "drop cap (blit b p bs) = drop cap b"
  using assms by (simp_all add: blit_def)

lemma wf_poke:
  assumes "wf_writer buf cap w" and "p + length bs \<le> w_cap w" and "cap \<le> length buf"
  shows "wf_writer buf cap (poke p bs w)"
proof -
  have "p + length bs \<le> cap" "cap \<le> length (w_buf w)" using assms by (auto simp: wf_writer_def)
  from blit_inside [OF this] show ?thesis using assms(1) by (simp add: wf_writer_def poke_def)
qed

lemma wf_reserve:
  assumes "wf_writer buf cap w" and "reserve w n = (w1, x)"
  shows "wf_writer buf cap w1" and "x = Some p \<Longrightarrow> p + n \<le> w_cap w1 \<and> w_len w1 = p + n \<and> \<not> w_overflow w1"
  using assms by (auto simp: reserve_def wf_writer_def split: if_splits)

lemma wf_put:
  assumes "wf_writer buf cap w" and c: "cap \<le> length buf"
  shows "wf_writer buf cap (bwp_put t v w)"
proof (cases "length v > 0xFFFF")
  case True
  then show ?thesis using assms by (simp add: bwp_put_def wf_writer_def)
next
  case False
  obtain w1 x where r: "reserve w (3 + length v) = (w1, x)" by (cases "reserve w (3 + length v)")
  note f = wf_reserve [OF assms(1) r]
  show ?thesis
  proof (cases x)
    case None
    then show ?thesis using False r f(1) by (simp add: bwp_put_def)
  next
    case (Some p)
    then have "wf_writer buf cap (poke p (t # put_be16 (of_nat (length v)) @ v) w1)"
      using wf_poke [OF f(1) _ c] f(2) by simp
    then show ?thesis using False r Some by (simp add: bwp_put_def)
  qed
qed

lemma wf_nest_begin:
  assumes "wf_writer buf cap w" and c: "cap \<le> length buf"
  shows "wf_writer buf cap (bwp_nest_begin t w)"
proof -
  obtain w1 x where r: "reserve w 3 = (w1, x)" by (cases "reserve w 3")
  note f = wf_reserve [OF assms(1) r]
  show ?thesis
  proof (cases x)
    case None
    then show ?thesis using r f(1) by (simp add: bwp_nest_begin_def)
  next
    case (Some p)
    have "wf_writer buf cap (poke p [t] w1)" using wf_poke [OF f(1) _ c] f(2) [OF Some] by simp
    then show ?thesis using r Some f(2) [OF Some] by (simp add: bwp_nest_begin_def wf_writer_def)
  qed
qed

lemma wf_nest_end:
  assumes "wf_writer buf cap w" and c: "cap \<le> length buf"
  shows "wf_writer buf cap (bwp_nest_end w)"
proof (cases "\<not> w_overflow w \<and> w_nest_at w \<noteq> 0")
  case True
  have "wf_writer buf cap (poke (w_nest_at w) (put_be16 (of_nat (w_len w - w_nest_at w - 2))) w)"
    by (rule wf_poke [OF assms(1) _ c]) (use assms(1) True in \<open>simp add: wf_writer_def\<close>)
  then show ?thesis using True by (simp add: bwp_nest_end_def wf_writer_def)
next
  case False
  then show ?thesis using assms(1) by (auto simp: bwp_nest_end_def wf_writer_def)
qed

lemma wf_sign:
  assumes "wf_writer buf cap w" and c: "cap \<le> length buf"
  shows "\<exists>w'. bwp_sign key nonce ctr w = Some w' \<and> wf_writer buf cap w'"
proof -
  let ?w = "bwp_put_u32 BWP_T_COUNTER ctr w"
  have w: "wf_writer buf cap ?w" using wf_put [OF assms] by (simp add: bwp_put_u32_def)
  show ?thesis
  proof (cases "w_overflow ?w \<or> w_len ?w + 3 + BWP_AUTH_LEN > w_cap ?w")
    case True
    then show ?thesis using w by (auto simp: bwp_sign_def Let_def wf_writer_def)
  next
    case False
    let ?w1 = "poke 20 (put_be16 (of_nat (w_len ?w + 3 + BWP_AUTH_LEN - BWP_ETH_HDR_LEN - BWP_HDR_LEN))) ?w"
    have "wf_writer buf cap ?w1" by (rule wf_poke [OF w _ c]) (use w False in \<open>auto simp: wf_writer_def\<close>)
    then show ?thesis using False wf_put [OF _ c] by (simp add: bwp_sign_def Let_def auth_mac_spec)
  qed
qed

lemma wf_begin:
  assumes "cap \<le> length buf" "length dst = 6" "length src = 6"
  shows "wf_writer buf cap (bwp_begin buf cap dst src mtyp seq)"
proof -
  let ?cap = "if cap > BWP_MAX_FRAME then BWP_MAX_FRAME else cap"
  let ?w = "\<lparr>w_buf = buf, w_cap = ?cap, w_len = 0, w_nest_at = 0, w_overflow = False\<rparr>"
  let ?h = "take 6 dst @ take 6 src @ put_be16 BWP_ETHERTYPE @ [BWP_MAGIC0, BWP_MAGIC1, BWP_VERSION, mtyp] @
      put_be16 seq @ put_be16 0"
  have l: "length ?h = 22" using assms by simp
  show ?thesis
  proof (cases "22 \<le> ?cap")
    case True
    have "wf_writer buf cap (?w\<lparr>w_len := 22\<rparr>)" using True by (simp add: wf_writer_def)
    then have "wf_writer buf cap (poke 0 ?h (?w\<lparr>w_len := 22\<rparr>))"
      by (rule wf_poke) (use True l assms(1) in simp_all)
    then show ?thesis using True by (simp add: bwp_begin_def Let_def reserve_def BWP_ETH_HDR_LEN_def BWP_HDR_LEN_def)
  next
    case False
    then show ?thesis
      by (simp add: bwp_begin_def Let_def reserve_def BWP_ETH_HDR_LEN_def BWP_HDR_LEN_def wf_writer_def)
  qed
qed

lemma wf_wops:
  "wf_writer buf cap w \<Longrightarrow> cap \<le> length buf \<Longrightarrow> \<exists>w'. wops xs w = Some w' \<and> wf_writer buf cap w'"
proof (induction xs arbitrary: w)
  case (Cons x xs)
  have "\<exists>w1. wop_do x w = Some w1 \<and> wf_writer buf cap w1"
    by (cases x) (use Cons.prems wf_put wf_nest_begin wf_nest_end wf_sign in auto)
  then show ?case using Cons by auto
qed simp

lemma wf_finish:
  assumes w: "wf_writer buf cap w" and c: "cap \<le> length buf" and f: "bwp_finish w = (b, n)"
  shows "length b = length buf \<and> drop cap b = drop cap buf \<and> n \<le> cap \<and> n \<le> BWP_MAX_FRAME \<and> (n = 0 \<or> 60 \<le> n)"
proof (cases "w_overflow w")
  case True
  then show ?thesis using w f by (auto simp: bwp_finish_def wf_writer_def)
next
  case False
  let ?w1 = "poke 20 (put_be16 (of_nat (w_len w - BWP_ETH_HDR_LEN - BWP_HDR_LEN))) w"
  have w1: "wf_writer buf cap ?w1" by (rule wf_poke [OF w _ c]) (use w False in \<open>auto simp: wf_writer_def\<close>)
  have "wf_writer buf cap (poke (w_len ?w1) (replicate (BWP_MIN_FRAME - w_len ?w1) 0) ?w1)"
    if "w_len ?w1 < BWP_MIN_FRAME" "\<not> w_cap ?w1 < BWP_MIN_FRAME"
    by (rule wf_poke [OF w1 _ c]) (use that in auto)
  with w1 False f show ?thesis
    by (auto simp: bwp_finish_def Let_def wf_writer_def BWP_MIN_FRAME_def BWP_MAX_FRAME_def poke_def split: if_splits)
qed

text \<open>
  C32. Whatever is written, in any order and nesting and however often it is signed, the writer is
  well formed: no byte at or behind the capacity the caller gave is touched, the buffer keeps its
  length, and the length reported is 0 or at least an Ethernet minimum and at most the capacity and
  the Ethernet maximum.
\<close>

theorem bwp_writer_in_bounds:
  assumes "cap \<le> length buf" "length dst = 6" "length src = 6"
  shows "\<exists>w b n. wops xs (bwp_begin buf cap dst src mtyp seq) = Some w \<and> bwp_finish w = (b, n) \<and>
    length b = length buf \<and> drop cap b = drop cap buf \<and> n \<le> cap \<and> n \<le> BWP_MAX_FRAME \<and> (n = 0 \<or> 60 \<le> n)"
proof -
  obtain w where w: "wops xs (bwp_begin buf cap dst src mtyp seq) = Some w" "wf_writer buf cap w"
    using wf_wops [OF wf_begin [OF assms] assms(1)] by blast
  obtain b n where "bwp_finish w = (b, n)" by (cases "bwp_finish w")
  with w wf_finish [OF w(2) assms(1)] show ?thesis by blast
qed

theorem bwp_writer_in_bounds_witness:
  "\<exists>w b n. wops [Nest_begin 14, Put 8 (replicate 70000 1), Nest_end, Sign [1] [2] 3]
      (bwp_begin [1, 2, 3, 4] 2 demo_mac demo_mac 4 0) = Some w \<and> bwp_finish w = (b, n) \<and>
    length b = 4 \<and> drop 2 b = [3, 4] \<and> n \<le> 2"
proof -
  have "2 \<le> length [1, 2, 3, 4 :: u8]" "length demo_mac = 6" "length demo_mac = 6" "drop 2 [1, 2, 3, 4 :: u8] = [3, 4]"
      "length [1, 2, 3, 4 :: u8] = 4"
    by (simp_all add: demo_mac_def)
  with bwp_writer_in_bounds [OF this(1-3), of "[Nest_begin 14, Put 8 (replicate 70000 1), Nest_end, Sign [1] [2] 3]" 4 0]
  show ?thesis by metis
qed

subsection \<open>Wi-Fi credentials from the pod to the bridge\<close>

lemma find_carried:
  assumes c: "carries frame m pre ts post" and x: "map_of ts tag = Some x"
  shows "\<exists>v. bwp_find frame (m_body m) (unat (m_body_len m)) tag = (True, Some (v, of_nat (length x))) \<and>
    unat (of_nat (length x) :: u16) = length x \<and> (\<exists>rest. drop v frame = x @ rest)"
proof -
  obtain us vs where s: "ts = us @ (tag, x) # vs" "tag \<notin> fst ` set us" using map_of_split [OF x] by blast
  have f: "frame = pre @ tlvs_enc ts @ post" "length pre = 22" "tlvs_ok ts" "m_body m = 22"
      "unat (m_body_len m) = length (tlvs_enc ts)" using c by (simp_all add: carries_def)
  have "bwp_find frame (m_body m) (unat (m_body_len m)) tag =
      (True, Some (length pre + length (tlvs_enc us) + 3, of_nat (length x)))"
    using find_first [of us tag x vs pre post None] f s unfolding bwp_find_def bwp_iter_init_def by simp
  moreover have "drop (length pre + length (tlvs_enc us) + 3) frame = x @ tlvs_enc vs @ post"
    by (simp add: f(1) s(1) tlv_enc_def)
  moreover have "unat (of_nat (length x) :: u16) = length x" using f(3) s(1) by (simp add: unat_len16)
  ultimately show ?thesis by blast
qed

lemma find_absent:
  assumes c: "carries frame m pre ts post" and "tag \<notin> fst ` set ts"
  shows "\<not> fst (bwp_find frame (m_body m) (unat (m_body_len m)) tag)"
  using find_none [of ts tag pre post None] assms
  by (simp add: carries_def bwp_find_def bwp_iter_init_def)

lemma open_prefix:
  assumes "length x = len"
  shows "bwp_open_passphrase blake2b chacha key (x @ rest) len = bwp_open_passphrase blake2b chacha key x len"
proof (cases "len = BWP_SEALED_PASS_LEN")
  case True
  then have t: "take BWP_SEAL_NONCE_LEN (x @ rest) = take BWP_SEAL_NONCE_LEN x"
      "take BWP_PASS_BLOCK (drop BWP_SEAL_NONCE_LEN (x @ rest)) = take BWP_PASS_BLOCK (drop BWP_SEAL_NONCE_LEN x)"
    using assms by (simp_all add: seal_consts)
  show ?thesis unfolding bwp_open_passphrase_def t ..
qed (simp add: bwp_open_passphrase_def)

text \<open>What the code relies on of the stream cipher: encrypting twice gives the text back.\<close>

definition stream_cipher :: "chacha_t \<Rightarrow> bool" where
  "stream_cipher chacha \<longleftrightarrow> (\<forall>x k n. length (chacha x k n) = length x \<and> chacha (chacha x k n) k n = x)"

lemma seal_open:
  assumes ch: "stream_cipher chacha" and n: "length nonce = BWP_SEAL_NONCE_LEN" and p: "length pass \<le> 64"
  shows "\<exists>sealed. bwp_seal_passphrase blake2b chacha key nonce pass = Some sealed \<and>
    length sealed = BWP_SEALED_PASS_LEN \<and>
    bwp_open_passphrase blake2b chacha key sealed BWP_SEALED_PASS_LEN = Some pass"
proof -
  define blk where "blk = blit ((replicate BWP_PASS_BLOCK 0)[0 := of_nat (length pass)]) 1 pass"
  have lb: "length blk = 65" using p by (simp add: blk_def blit_def BWP_PASS_BLOCK_def)
  have b: "blk = of_nat (length pass) # pass @ replicate (64 - length pass) 0"
    using p by (simp add: blk_def blit_def BWP_PASS_BLOCK_def take_Cons' drop_Cons' Suc_diff_le
        replicate_Suc [symmetric] del: replicate_Suc) (simp add: eval_nat_numeral)
  have u: "unat (of_nat (length pass) :: u8) = length pass" using p by (simp add: unat_of_nat take_bit_eq_mod)
  let ?c = "chacha blk (pass_key blake2b key) nonce"
  have seal: "bwp_seal_passphrase blake2b chacha key nonce pass = Some (nonce @ ?c)"
    using p n by (simp add: bwp_seal_passphrase_def Let_def blk_def BWP_PASS_BLOCK_def)
  have lc: "length ?c = 65" using ch lb by (simp add: stream_cipher_def)
  have "chacha ?c (pass_key blake2b key) nonce = blk" using ch by (simp add: stream_cipher_def)
  then have "bwp_open_passphrase blake2b chacha key (nonce @ ?c) BWP_SEALED_PASS_LEN = Some pass"
    using n lc b u p by (simp add: bwp_open_passphrase_def Let_def BWP_PASS_BLOCK_def)
  then show ?thesis using seal n lc by (simp add: seal_consts)
qed

lemma parse_set_wifi_carried:
  assumes c: "carries frame m pre ts post"
    and ssid: "map_of ts BWP_T_SSID = Some ssid" "1 \<le> length ssid" "length ssid \<le> 32"
    and clear: "BWP_T_PASSPHRASE \<notin> fst ` set ts"
    and sealed: "map_of ts BWP_T_ENC_PASSPHRASE = Some sealed"
    and opens: "bwp_open_passphrase blake2b chacha key sealed (length sealed) = Some pass"
    and valid: "bwp_passphrase_valid pass (length pass)"
  shows "bwp_parse_set_wifi blake2b chacha frame m (Some key) = (BWP_OK, \<lparr>sw_ssid = ssid, sw_passphrase = pass\<rparr>)"
proof -
  obtain v1 r1 where f1: "bwp_find frame (m_body m) (unat (m_body_len m)) BWP_T_SSID = (True, Some (v1, of_nat (length ssid)))"
      "unat (of_nat (length ssid) :: u16) = length ssid" "drop v1 frame = ssid @ r1"
    using find_carried [OF c ssid(1)] by blast
  obtain v2 r2 where f2: "bwp_find frame (m_body m) (unat (m_body_len m)) BWP_T_ENC_PASSPHRASE =
        (True, Some (v2, of_nat (length sealed)))"
      "unat (of_nat (length sealed) :: u16) = length sealed" "drop v2 frame = sealed @ r2"
    using find_carried [OF c sealed] by blast
  have f3: "\<not> fst (bwp_find frame (m_body m) (unat (m_body_len m)) BWP_T_PASSPHRASE)"
    by (rule find_absent [OF c clear])
  have o: "bwp_open_passphrase blake2b chacha key (drop v2 frame) (length sealed) = Some pass"
    unfolding f2(3) using open_prefix [of sealed "length sealed"] opens by simp
  show ?thesis
    unfolding bwp_parse_set_wifi_def Let_def f1(1) f2(1)
    using ssid(2) by (simp add: f1(2,3) f2(2) f3 o ssid bwp_ssid_valid_def valid no_wifi_def)
qed

text \<open>
  Wi-Fi credentials get through intact and only to the paired bridge: what the pod sends for a
  name of 1 to 32 bytes and a valid passphrase, sealed and signed under the shared key with a counter
  the bridge has not seen, fits a frame, is accepted by the bridge as an authentic new request, and
  parses there to exactly that name and that passphrase. (The stream cipher is assumed to be its own
  inverse and length-preserving.)
\<close>

theorem set_wifi_end_to_end:
  assumes ch: "stream_cipher chacha" and n: "length nonce24 = BWP_SEAL_NONCE_LEN"
    and ssid: "1 \<le> length ssid" "length ssid \<le> 32"
    and pass: "bwp_passphrase_valid pass (length pass)" "length pass \<le> 64"
    and p: "paired p" "last_counter p < counter"
    and l: "length dst = 6" "length src = 6" "200 \<le> cap" "cap \<le> length buf"
  shows "\<exists>sealed w frame k m p'.
    bwp_seal_passphrase blake2b chacha (p_key p) nonce24 pass = Some sealed \<and>
    bwp_sign (p_key p) (p_nonce p) counter
      (bwp_puts [(BWP_T_SSID, ssid), (BWP_T_ENC_PASSPHRASE, sealed)] (bwp_begin buf cap dst src BWP_SET_WIFI seq)) = Some w \<and>
    bwp_finish w = (frame, k) \<and> k \<noteq> 0 \<and> bwp_parse frame k no_msg = (BWP_PARSE_OK, m) \<and>
    pairing_check p frame m = Some (p', PAIR_ACCEPT, True, counter, None) \<and>
    bwp_parse_set_wifi blake2b chacha frame m (Some (p_key p)) = (BWP_OK, \<lparr>sw_ssid = ssid, sw_passphrase = pass\<rparr>)"
proof -
  obtain sealed where s: "bwp_seal_passphrase blake2b chacha (p_key p) nonce24 pass = Some sealed"
      "length sealed = BWP_SEALED_PASS_LEN" "bwp_open_passphrase blake2b chacha (p_key p) sealed BWP_SEALED_PASS_LEN = Some pass"
    using seal_open [OF ch n pass(2)] by blast
  let ?ts = "[(BWP_T_SSID, ssid), (BWP_T_ENC_PASSPHRASE, sealed)]"
  note tags = BWP_T_COUNTER_def BWP_T_AUTH_def BWP_T_SSID_def BWP_T_ENC_PASSPHRASE_def BWP_T_PASSPHRASE_def
  have t: "BWP_T_COUNTER \<notin> fst ` set ?ts" "BWP_T_AUTH \<notin> fst ` set ?ts" by (simp_all add: tags)
  have lt: "length (tlvs_enc ?ts) = length ssid + 95" using s(2) by (simp add: seal_consts)
  have fits: "48 + length (tlvs_enc ?ts) \<le> min cap BWP_MAX_FRAME" and c60: "60 \<le> cap"
    unfolding lt using ssid(2) l(3) by (simp_all add: BWP_MAX_FRAME_def)
  obtain w frame k m where f: "bwp_sign (p_key p) (p_nonce p) counter
        (bwp_puts ?ts (bwp_begin buf cap dst src BWP_SET_WIFI seq)) = Some w"
      "bwp_finish w = (frame, k)" "60 \<le> k" "bwp_parse frame k no_msg = (BWP_PARSE_OK, m)" "m_type m = BWP_SET_WIFI"
      "bwp_verify frame m (p_key p) (p_nonce p) = Some (BWP_VERIFY_OK, Some counter)"
      "\<exists>pre us post. carries frame m pre (?ts @ us) post \<and> fst ` set us = {BWP_T_COUNTER, BWP_T_AUTH}"
    using signed_frame [OF l(1,2,4) c60 t fits, of "p_key p" "p_nonce p" counter BWP_SET_WIFI seq no_msg] by blast
  obtain pre us post where cu: "carries frame m pre (?ts @ us) post" "fst ` set us = {BWP_T_COUNTER, BWP_T_AUTH}"
    using f(7) by blast
  have "bwp_parse_set_wifi blake2b chacha frame m (Some (p_key p)) = (BWP_OK, \<lparr>sw_ssid = ssid, sw_passphrase = pass\<rparr>)"
  proof (rule parse_set_wifi_carried [OF cu(1) _ ssid])
    show "map_of (?ts @ us) BWP_T_SSID = Some ssid" by simp
    show "BWP_T_PASSPHRASE \<notin> fst ` set (?ts @ us)" using cu(2) by (simp add: image_Un tags)
    show "map_of (?ts @ us) BWP_T_ENC_PASSPHRASE = Some sealed" by (simp add: tags)
    show "bwp_open_passphrase blake2b chacha (p_key p) sealed (length sealed) = Some pass" using s(2,3) by simp
  qed (rule pass(1))
  moreover have "pairing_check p frame m = Some (p\<lparr>last_counter := counter\<rparr>, PAIR_ACCEPT, True, counter, None)"
    using p f(5,6) by (simp add: pairing_check_def pair_key_def BWP_SET_WIFI_def BWP_PAIR_def)
  moreover have "k \<noteq> 0" using f(3) by simp
  ultimately show ?thesis using s(1) f(1,2,4) by blast
qed

definition demo_cipher :: chacha_t where
  "demo_cipher x k n = map (\<lambda>b. b XOR 0x5A) x"

theorem set_wifi_end_to_end_witness:
  "\<exists>frame m. bwp_parse_set_wifi (\<lambda>n k x. replicate n 1) demo_cipher frame m (Some [7]) =
     (BWP_OK, \<lparr>sw_ssid = [65, 66], sw_passphrase = replicate 8 0x61\<rparr>)"
proof -
  have "stream_cipher demo_cipher" by (simp add: stream_cipher_def demo_cipher_def comp_def xor.assoc)
  moreover have "bwp_passphrase_valid (replicate 8 0x61) (length (replicate 8 (0x61 :: u8)))"
    by (simp add: bwp_passphrase_valid_def list_all_iff)
  moreover have "paired (pairing_init [1] (Some [7]))" "last_counter (pairing_init [1] (Some [7])) < 1"
      "p_key (pairing_init [1] (Some [7])) = [7]"
    by (simp_all add: pairing_init_def pairing_set_key_def BWP_KEY_LEN_def)
  ultimately show ?thesis
    using set_wifi_end_to_end [of demo_cipher "replicate 24 1" "[65, 66]" "replicate 8 0x61"
        "pairing_init [1] (Some [7])" 1 demo_mac demo_mac 200 "replicate 200 0" "\<lambda>n k x. replicate n 1" 9]
    by (simp add: BWP_SEAL_NONCE_LEN_def demo_mac_def) blast
qed

end
