(* ===== verification/BridgeOta.thy ===== *)
theory BridgeOta
  imports BwpMsg
begin

section \<open>Updating the bridge's firmware\<close>

text \<open>
  The model of \<^verbatim>\<open>fwsig.c\<close> and the OTA part of \<^verbatim>\<open>bridge_util.c\<close> (in \<^verbatim>\<open>wifi-bridge/components/bridge_core\<close>)
  and of the transfer of \<^verbatim>\<open>wifi-bridge/main/ota.c\<close>. SHA-512 and Ed25519 are parameters (the latter true
  where the C returns 0); what the partition API of ESP-IDF answers is an input of every operation that
  calls it. Between two boots \<^verbatim>\<open>esp_ota_get_next_update_partition(NULL)\<close> is always the same partition, the one of
  \<^verbatim>\<open>ota_0\<close> and \<^verbatim>\<open>ota_1\<close> that is not running: \<open>ota_slot\<close> is what it holds as far as begins and writes determine it,
  and \<open>ota_sel\<close> whether it has been made the boot partition since the boot, so \<open>boot_image\<close>, what the next boot
  starts, is whatever it holds by then. The mutex makes each operation atomic; logs and the rollback timer are
  left out.
\<close>

subsection \<open>The signed manifest (fwsig.c)\<close>

definition FWSIG_LEN :: nat where "FWSIG_LEN = 128"
definition FWSIG_TARGET_BRIDGE :: u8 where "FWSIG_TARGET_BRIDGE = 6"
definition CONTEXT :: bytes where "CONTEXT = str_bytes ''benchpod-fw-sign:v1'' @ [0]"

datatype fwsig_result_t = FWSIG_OK | FWSIG_FORMAT | FWSIG_UNKNOWN_KEY | FWSIG_SIGNATURE | FWSIG_TARGET | FWSIG_IMAGE

record fwsig_t =
  fs_target :: u8
  fs_size :: u32
  fs_sha256 :: bytes
  fs_version :: u32
  fs_release :: u32
  fs_key_id :: bytes

definition le32_at :: "bytes \<Rightarrow> u32" where
  "le32_at p = ucast (p ! 0) OR push_bit 8 (ucast (p ! 1)) OR push_bit 16 (ucast (p ! 2)) OR push_bit 24 (ucast (p ! 3))"

definition manifest_of :: "bytes \<Rightarrow> fwsig_t" where
  "manifest_of sig = \<lparr>fs_target = sig ! 6, fs_size = le32_at (drop 8 sig), fs_sha256 = take 32 (drop 12 sig),
     fs_version = le32_at (drop 44 sig), fs_release = le32_at (drop 48 sig), fs_key_id = take 8 (drop 56 sig)\<rparr>"

definition key_for :: "(bytes \<Rightarrow> bytes) \<Rightarrow> bytes list \<Rightarrow> bytes \<Rightarrow> bytes option" where
  "key_for sha512 keys key_id = find (\<lambda>k. take 8 (sha512 k) = key_id) keys"

text \<open>The result, and what was written to \<^verbatim>\<open>*out\<close>.\<close>

definition fwsig_check ::
  "(bytes \<Rightarrow> bytes) \<Rightarrow> (bytes \<Rightarrow> bytes \<Rightarrow> bytes \<Rightarrow> bool) \<Rightarrow> bytes option \<Rightarrow> nat \<Rightarrow> bytes list \<Rightarrow> u8 \<Rightarrow> u32 \<Rightarrow>
   fwsig_result_t \<times> fwsig_t option" where
  "fwsig_check sha512 ed25519_check sig0 len keys target sz =
     (case sig0 of
        None \<Rightarrow> (FWSIG_FORMAT, None)
      | Some sig \<Rightarrow>
          if len \<noteq> FWSIG_LEN \<or> take 4 sig \<noteq> str_bytes ''BPSG'' \<or>
             (ucast (sig ! 4) OR push_bit 8 (ucast (sig ! 5)) :: u32) \<noteq> 1
          then (FWSIG_FORMAT, None)
          else
            let m = manifest_of sig in
            case key_for sha512 keys (fs_key_id m) of
              None \<Rightarrow> (FWSIG_UNKNOWN_KEY, Some m)
            | Some key \<Rightarrow>
                if \<not> ed25519_check (take 64 (drop 64 sig)) key (CONTEXT @ take 64 sig) then (FWSIG_SIGNATURE, Some m)
                else if fs_target m \<noteq> target then (FWSIG_TARGET, Some m)
                else if fs_size m \<noteq> sz then (FWSIG_IMAGE, Some m)
                else (FWSIG_OK, Some m))"

fun fwsig_result_str :: "fwsig_result_t \<Rightarrow> cstr" where
  "fwsig_result_str FWSIG_OK = ''ok''"
| "fwsig_result_str FWSIG_FORMAT = ''format''"
| "fwsig_result_str FWSIG_UNKNOWN_KEY = ''unknown-key''"
| "fwsig_result_str FWSIG_SIGNATURE = ''signature''"
| "fwsig_result_str FWSIG_TARGET = ''target''"
| "fwsig_result_str FWSIG_IMAGE = ''image''"

subsection \<open>Chunks in order (bridge_util.c)\<close>

record bu_ota_seq_t =
  sq_active :: bool
  sq_size :: u32
  sq_next :: u32
  sq_last_off :: u32
  sq_last_len :: u32

datatype bu_ota_chunk_t = BU_OTA_WRITE | BU_OTA_DUPLICATE | BU_OTA_BAD_OFFSET | BU_OTA_TOO_LARGE | BU_OTA_INACTIVE

definition no_seq :: bu_ota_seq_t where
  "no_seq = \<lparr>sq_active = False, sq_size = 0, sq_next = 0, sq_last_off = 0, sq_last_len = 0\<rparr>"

definition bu_ota_begin :: "u32 \<Rightarrow> bu_ota_seq_t" where
  "bu_ota_begin sz = no_seq\<lparr>sq_active := True, sq_size := sz\<rparr>"

definition bu_ota_check :: "bu_ota_seq_t \<Rightarrow> u32 \<Rightarrow> u32 \<Rightarrow> bu_ota_chunk_t" where
  "bu_ota_check s offset len =
     (if \<not> sq_active s then BU_OTA_INACTIVE
      else if sq_last_len s \<noteq> 0 \<and> offset = sq_last_off s \<and> len = sq_last_len s then BU_OTA_DUPLICATE
      else if offset \<noteq> sq_next s then BU_OTA_BAD_OFFSET
      else if len > sq_size s - sq_next s then BU_OTA_TOO_LARGE
      else BU_OTA_WRITE)"

definition bu_ota_advance :: "bu_ota_seq_t \<Rightarrow> u32 \<Rightarrow> u32 \<Rightarrow> bu_ota_seq_t" where
  "bu_ota_advance s offset len = s\<lparr>sq_last_off := offset, sq_last_len := len, sq_next := offset + len\<rparr>"

definition bu_ota_complete :: "bu_ota_seq_t \<Rightarrow> bool" where
  "bu_ota_complete s \<longleftrightarrow> sq_active s \<and> sq_next s = sq_size s"

definition BU_IMG_DESC_END :: nat where "BU_IMG_DESC_END = 112"
definition IMG_MAGIC :: u8 where "IMG_MAGIC = 0xE9"
definition APP_DESC_MAGIC :: u32 where "APP_DESC_MAGIC = 0xABCD5432"

text \<open>The project and the version, as C strings.\<close>

definition c_str :: "bytes \<Rightarrow> bytes" where "c_str b = takeWhile (\<lambda>x. x \<noteq> 0) b"

definition bu_image_ident :: "bytes \<Rightarrow> nat \<Rightarrow> (bytes \<times> bytes) option" where
  "bu_image_ident img len =
     (if len < BU_IMG_DESC_END \<or> img ! 0 \<noteq> IMG_MAGIC then None
      else if le32_at (drop 32 img) \<noteq> APP_DESC_MAGIC then None
      else Some (c_str (take 32 (drop 80 img)), c_str (take 32 (drop 48 img))))"

subsection \<open>The transfer (ota.c)\<close>

definition BWP_OTA_CHUNK_MAX :: nat where "BWP_OTA_CHUNK_MAX = 1024"
definition OTA_TIMEOUT_US :: int where "OTA_TIMEOUT_US = 60 * 1000000"

record ota =
  s_seq :: bu_ota_seq_t
  s_last_us :: int
  s_sig :: fwsig_t
  s_hash :: sha256_ctx_t
  ota_slot :: bytes
  ota_sel :: bool

text \<open>What the next boot starts, \<open>None\<close> while that is still the running image.\<close>

definition boot_image :: "ota \<Rightarrow> bytes option" where
  "boot_image st = (if ota_sel st then Some (ota_slot st) else None)"

definition ota_boot :: ota where
  "ota_boot = \<lparr>s_seq = no_seq, s_last_us = 0, s_sig = manifest_of (replicate 128 0), s_hash = zero_ctx, ota_slot = [],
     ota_sel = False\<rparr>"

definition ota_active :: "ota \<Rightarrow> bool" where "ota_active st = sq_active (s_seq st)"

definition abort_locked :: "ota \<Rightarrow> ota" where
  "abort_locked st = (if sq_active (s_seq st) then st\<lparr>s_seq := no_seq\<rparr> else st)"

definition ota_abort :: "ota \<Rightarrow> ota" where "ota_abort st = abort_locked st"

definition ota_poll :: "int \<Rightarrow> ota \<Rightarrow> ota" where
  "ota_poll now st = (if sq_active (s_seq st) \<and> now - s_last_us st > OTA_TIMEOUT_US then abort_locked st else st)"

text \<open>
  The environment of a begin: the next partition's size, if any, whether erasing it works, and what it holds
  if that fails.
\<close>

definition ota_begin ::
  "(bytes \<Rightarrow> bytes) \<Rightarrow> (bytes \<Rightarrow> bytes \<Rightarrow> bytes \<Rightarrow> bool) \<Rightarrow> bytes list \<Rightarrow> nat option \<Rightarrow> bool \<Rightarrow> bytes \<Rightarrow> int \<Rightarrow>
   u32 \<Rightarrow> bytes option \<Rightarrow> nat \<Rightarrow> ota \<Rightarrow> ota \<times> bwp_result_t \<times> cstr option" where
  "ota_begin sha512 ed25519_check keys part begin_ok left now sz sig sig_len st0 =
     (let st = abort_locked st0;
          (v, out) = fwsig_check sha512 ed25519_check sig sig_len keys FWSIG_TARGET_BRIDGE sz;
          st1 = (case out of None \<Rightarrow> st | Some m \<Rightarrow> st\<lparr>s_sig := m\<rparr>)
      in if v \<noteq> FWSIG_OK then
           (st1, BWP_E_OTA_VERIFY,
            Some (snprintf 40 (''signature: '' @ (if sig \<noteq> None then fwsig_result_str v else ''none''))))
         else
           case part of
             None \<Rightarrow> (st1, BWP_E_INTERNAL, Some ''no OTA partition'')
           | Some psize \<Rightarrow>
               if unat sz < BU_IMG_DESC_END \<or> unat sz > psize then
                 (st1, BWP_E_OTA_TOO_LARGE, Some ''image size out of range'')
               else if \<not> begin_ok then (st1\<lparr>ota_slot := left\<rparr>, BWP_E_STORAGE, Some ''esp'')
               else (st1\<lparr>s_seq := bu_ota_begin sz, s_hash := sha256_init (s_hash st1), s_last_us := now, ota_slot := []\<rparr>,
                     BWP_OK, None))"

text \<open>Of a data chunk: the name of the running project, and whether the write works.\<close>

definition ota_data ::
  "cstr \<Rightarrow> bool \<Rightarrow> int \<Rightarrow> u32 \<Rightarrow> bytes \<Rightarrow> ota \<Rightarrow> (ota \<times> bwp_result_t \<times> u32 \<times> cstr option) option" where
  "ota_data project_name write_ok now offset data st =
     (if data = [] \<or> length data > BWP_OTA_CHUNK_MAX then Some (st, BWP_E_BAD_REQUEST, sq_next (s_seq st), None)
      else
        do { (st1, r, msg) \<leftarrow>
               (case bu_ota_check (s_seq st) offset (of_nat (length data)) of
                  BU_OTA_INACTIVE \<Rightarrow> Some (st, BWP_E_OTA_NOT_STARTED, None)
                | BU_OTA_DUPLICATE \<Rightarrow> Some (st, BWP_OK, None)
                | BU_OTA_BAD_OFFSET \<Rightarrow> Some (st, BWP_E_OTA_BAD_OFFSET, None)
                | BU_OTA_TOO_LARGE \<Rightarrow> Some (st, BWP_E_OTA_TOO_LARGE, None)
                | BU_OTA_WRITE \<Rightarrow>
                    if offset = 0 \<and>
                       (case bu_image_ident data (length data) of
                          None \<Rightarrow> True | Some (project, version) \<Rightarrow> project \<noteq> str_bytes project_name)
                    then Some (st, BWP_E_OTA_WRONG_IMAGE, Some ''not a benchpod-wifi-bridge image'')
                    else if \<not> write_ok then Some (st, BWP_E_STORAGE, Some ''esp'')
                    else do { hash \<leftarrow> sha256_update (s_hash st) data;
                              Some (st\<lparr>ota_slot := ota_slot st @ data, s_hash := hash,
                                       s_seq := bu_ota_advance (s_seq st) offset (of_nat (length data))\<rparr>, BWP_OK, None) });
             let st2 = (if sq_active (s_seq st1) then st1\<lparr>s_last_us := now\<rparr> else st1);
             Some (st2, r, sq_next (s_seq st2), msg) })"

text \<open>Of an end: whether ESP-IDF accepts the image, and whether it can be made the boot partition.\<close>

datatype end_result = End_ok | End_validate_failed | End_error

definition ota_end :: "end_result \<Rightarrow> bool \<Rightarrow> ota \<Rightarrow> (ota \<times> bwp_result_t \<times> cstr option) option" where
  "ota_end end_res boot_ok st =
     (if \<not> sq_active (s_seq st) then Some (st, BWP_E_OTA_NOT_STARTED, None)
      else if \<not> bu_ota_complete (s_seq st) then Some (st, BWP_E_OTA_BAD_OFFSET, Some ''image incomplete'')
      else
        do { (hash, h) \<leftarrow> sha256_final (s_hash st);
             let st1 = st\<lparr>s_hash := hash, s_seq := no_seq\<rparr>;
             Some (if h \<noteq> fs_sha256 (s_sig st1)
                   then (st1, BWP_E_OTA_VERIFY, Some ''image does not match its signed manifest'')
                   else if end_res = End_validate_failed
                   then (st1, BWP_E_OTA_VERIFY, Some ''image verification failed (hash or signature)'')
                   else if end_res = End_error then (st1, BWP_E_INTERNAL, Some ''esp'')
                   else if \<not> boot_ok then (st1, BWP_E_STORAGE, Some ''esp'')
                   else (st1\<lparr>ota_sel := True\<rparr>, BWP_OK, None)) })"

subsection \<open>Any sequence of operations\<close>

datatype ota_op =
    Begin "nat option" bool bytes int u32 "bytes option" nat
  | Data cstr bool int u32 bytes
  | End end_result bool
  | Abort
  | Poll int

fun ota_do :: "(bytes \<Rightarrow> bytes) \<Rightarrow> (bytes \<Rightarrow> bytes \<Rightarrow> bytes \<Rightarrow> bool) \<Rightarrow> bytes list \<Rightarrow> ota_op \<Rightarrow> ota \<Rightarrow> ota option" where
  "ota_do sha512 ed keys (Begin part ok left now sz sig len) st =
     Some (fst (ota_begin sha512 ed keys part ok left now sz sig len st))"
| "ota_do sha512 ed keys (Data name ok now off data) st = map_option fst (ota_data name ok now off data st)"
| "ota_do sha512 ed keys (End r ok) st = map_option fst (ota_end r ok st)"
| "ota_do sha512 ed keys Abort st = Some (ota_abort st)"
| "ota_do sha512 ed keys (Poll now) st = Some (ota_poll now st)"

fun ota_run :: "(bytes \<Rightarrow> bytes) \<Rightarrow> (bytes \<Rightarrow> bytes \<Rightarrow> bytes \<Rightarrow> bool) \<Rightarrow> bytes list \<Rightarrow> ota_op list \<Rightarrow> ota \<Rightarrow> ota option" where
  "ota_run sha512 ed keys [] st = Some st"
| "ota_run sha512 ed keys (x # xs) st = do { st1 \<leftarrow> ota_do sha512 ed keys x st; ota_run sha512 ed keys xs st1 }"

text \<open>
  An operation that reaches the erase of the partition that boots next. \<open>no_overwrite\<close>: none of the run does.
\<close>

fun overwrites :: "(bytes \<Rightarrow> bytes) \<Rightarrow> (bytes \<Rightarrow> bytes \<Rightarrow> bytes \<Rightarrow> bool) \<Rightarrow> bytes list \<Rightarrow> ota_op \<Rightarrow> ota \<Rightarrow> bool" where
  "overwrites sha512 ed keys (Begin part ok left now sz sig len) st \<longleftrightarrow> ota_sel st \<and>
     fst (snd (ota_begin sha512 ed keys part ok left now sz sig len st)) \<in> {BWP_OK, BWP_E_STORAGE}"
| "overwrites sha512 ed keys _ st \<longleftrightarrow> False"

fun no_overwrite :: "(bytes \<Rightarrow> bytes) \<Rightarrow> (bytes \<Rightarrow> bytes \<Rightarrow> bytes \<Rightarrow> bool) \<Rightarrow> bytes list \<Rightarrow> ota_op list \<Rightarrow> ota \<Rightarrow> bool" where
  "no_overwrite sha512 ed keys [] st \<longleftrightarrow> True"
| "no_overwrite sha512 ed keys (x # xs) st \<longleftrightarrow> \<not> overwrites sha512 ed keys x st \<and>
     (case ota_do sha512 ed keys x st of None \<Rightarrow> True | Some st1 \<Rightarrow> no_overwrite sha512 ed keys xs st1)"

text \<open>A manifest for this image, signed for the bridge by a trusted key and offered by some begin.\<close>

definition offered :: "ota_op list \<Rightarrow> bytes \<Rightarrow> bool" where
  "offered ops sig \<longleftrightarrow> (\<exists>part ok left now sz len. Begin part ok left now sz (Some sig) len \<in> set ops)"






lemma boot_image_simps [simp]:
  "boot_image (st\<lparr>s_seq := q\<rparr>) = boot_image st" "boot_image (st\<lparr>s_sig := m\<rparr>) = boot_image st"
  "boot_image (st\<lparr>s_hash := h\<rparr>) = boot_image st" "boot_image (st\<lparr>s_last_us := t\<rparr>) = boot_image st"
  by (simp_all add: boot_image_def)



lemma abort_inactive [simp]: "\<not> sq_active (s_seq (abort_locked st))"
  by (simp add: abort_locked_def no_seq_def)

lemma abort_sel [simp]: "ota_sel (abort_locked st) = ota_sel st"
  by (simp add: abort_locked_def)








definition demo_img :: bytes where
  "demo_img = 0xE9 # replicate 31 0 @ [0x32, 0x54, 0xCD, 0xAB] @ replicate 76 0"

definition demo_sig :: bytes where
  "demo_sig = str_bytes ''BPSG'' @ [1, 0, 6, 0, 112, 0, 0, 0] @ sha256_spec demo_img @ replicate 84 0"

lemma length_demo_img: "length demo_img = 112" by (simp add: demo_img_def)

lemma length_BPSG: "length (str_bytes ''BPSG'') = 4" by (simp add: str_bytes_def)

lemma demo_sig_parts:
  "take 4 demo_sig = str_bytes ''BPSG''" "demo_sig ! 4 = 1" "demo_sig ! 5 = 0" "demo_sig ! 6 = 6"
  "le32_at (drop 8 demo_sig) = 112" "take 32 (drop 12 demo_sig) = sha256_spec demo_img"
  "take 8 (drop 56 demo_sig) = replicate 8 0"
  by (simp_all add: demo_sig_def nth_append length_BPSG le32_at_def)

lemma demo_ident: "bu_image_ident demo_img 112 = Some ([], [])"
proof -
  have "demo_img ! 0 = 0xE9" by (simp add: demo_img_def)
  moreover have "drop 32 demo_img = [0x32, 0x54, 0xCD, 0xAB] @ replicate 76 0" by (simp add: demo_img_def drop_Cons')
  moreover have "drop 80 demo_img = replicate 32 0" "take 32 (drop 48 demo_img) = replicate 32 0"
    by (simp_all add: demo_img_def drop_Cons')
  moreover have "c_str (replicate 32 0) = []" by (simp add: c_str_def takeWhile_eq_Nil_iff)
  ultimately show ?thesis
    by (simp add: bu_image_ident_def IMG_MAGIC_def BU_IMG_DESC_END_def le32_at_def APP_DESC_MAGIC_def nth_append)
qed

definition demo_begin :: ota_op where
  "demo_begin = Begin (Some 1000) True [] 5 112 (Some demo_sig) 128"

definition demo_ops :: "ota_op list" where
  "demo_ops = [demo_begin, Data [] True 6 0 demo_img, End End_ok True]"

text \<open>The same image with another last byte, which no manifest of these runs covers.\<close>

definition evil_img :: bytes where
  "evil_img = butlast demo_img @ [1]"

lemma evil_facts: "length evil_img = 112" "evil_img \<noteq> []" "evil_img \<noteq> demo_img" "bu_image_ident evil_img 112 = Some ([], [])"
proof -
  have e: "evil_img = 0xE9 # replicate 31 0 @ [0x32, 0x54, 0xCD, 0xAB] @ replicate 75 0 @ [1]"
    using replicate_append_same [of 75 "0 :: u8"] by (simp add: evil_img_def demo_img_def butlast_append butlast_conv_take)
  show "length evil_img = 112" "evil_img \<noteq> []" by (simp_all add: e)
  have "last evil_img = 1" "last demo_img = 0" by (simp_all add: evil_img_def demo_img_def)
  then show "evil_img \<noteq> demo_img" by auto
  have "drop 32 evil_img = [0x32, 0x54, 0xCD, 0xAB] @ replicate 75 0 @ [1]" by (simp add: e drop_Cons')
  moreover have "take 32 (drop 80 evil_img) = replicate 31 0 @ [1]" "take 32 (drop 48 evil_img) = replicate 32 0"
    by (simp_all add: e drop_Cons')
  moreover have "c_str (replicate 31 0 @ [1]) = []" "c_str (replicate 32 0) = []"
    by (simp_all add: c_str_def takeWhile_eq_Nil_iff nth_append hd_append)
  moreover have "evil_img ! 0 = 0xE9" by (simp add: e)
  ultimately show "bu_image_ident evil_img 112 = Some ([], [])"
    by (simp add: bu_image_ident_def IMG_MAGIC_def BU_IMG_DESC_END_def le32_at_def APP_DESC_MAGIC_def nth_append)
qed

text \<open>One begin, one chunk and one end, from any state whose hash context has its buffer.\<close>

abbreviation demo_do :: "ota_op \<Rightarrow> ota \<Rightarrow> ota option" where
  "demo_do \<equiv> ota_do (\<lambda>_. replicate 64 0) (\<lambda>_ _ _. True) [[]]"

definition demo_started :: "ota \<Rightarrow> ota" where
  "demo_started st = (abort_locked st)\<lparr>s_sig := manifest_of demo_sig, s_seq := bu_ota_begin 112,
     s_hash := sha256_init (s_hash (abort_locked st)), s_last_us := 5, ota_slot := []\<rparr>"

lemma demo_begin_do: "demo_do demo_begin st = Some (demo_started st)"
  and demo_begin_result: "fst (snd (ota_begin (\<lambda>_. replicate 64 0) (\<lambda>_ _ _. True) [[]] (Some 1000) True [] 5 112 (Some demo_sig) 128 st)) = BWP_OK"
proof -
  have check: "fwsig_check (\<lambda>_. replicate 64 0) (\<lambda>_ _ _. True) (Some demo_sig) 128 [[]] FWSIG_TARGET_BRIDGE 112 =
      (FWSIG_OK, Some (manifest_of demo_sig))"
    by (simp add: fwsig_check_def Let_def FWSIG_LEN_def demo_sig_parts manifest_of_def key_for_def
        FWSIG_TARGET_BRIDGE_def)
  show "demo_do demo_begin st = Some (demo_started st)"
    "fst (snd (ota_begin (\<lambda>_. replicate 64 0) (\<lambda>_ _ _. True) [[]] (Some 1000) True [] 5 112 (Some demo_sig) 128 st)) = BWP_OK"
    by (simp_all add: demo_begin_def ota_begin_def check Let_def BU_IMG_DESC_END_def demo_started_def)
qed

lemma demo_data_do:
  assumes "length (c_buf (s_hash (abort_locked st))) = 64" and "length img = 112" and "img \<noteq> []"
    and "bu_image_ident img 112 = Some ([], [])"
  shows "\<exists>c. sha256_final c = Some (zero_ctx, sha256_spec img) \<and>
    demo_do (Data [] True 6 0 img) (demo_started st) = Some ((demo_started st)\<lparr>ota_slot := img, s_hash := c,
      s_seq := bu_ota_advance (bu_ota_begin 112) 0 112, s_last_us := 6\<rparr>)"
proof -
  from stream_spec [OF assms(1), of "[img]"]
  obtain c where c: "sha256_update (sha256_init (s_hash (abort_locked st))) img = Some c"
      "sha256_final c = Some (zero_ctx, sha256_spec img)"
    by (auto simp: bind_eq_Some_conv)
  have "demo_do (Data [] True 6 0 img) (demo_started st) = Some ((demo_started st)\<lparr>ota_slot := img, s_hash := c,
      s_seq := bu_ota_advance (bu_ota_begin 112) 0 112, s_last_us := 6\<rparr>)"
    by (simp add: ota_data_def assms(2-4) BWP_OTA_CHUNK_MAX_def bu_ota_check_def bu_ota_begin_def no_seq_def
        str_bytes_def c demo_started_def Let_def bu_ota_advance_def)
  with c(2) show ?thesis by blast
qed

lemma demo_run:
  "\<exists>st. ota_run (\<lambda>_. replicate 64 0) (\<lambda>_ _ _. True) [[]] demo_ops ota_boot = Some st \<and> boot_image st = Some demo_img \<and>
    s_hash st = zero_ctx \<and> \<not> sq_active (s_seq st) \<and>
    no_overwrite (\<lambda>_. replicate 64 0) (\<lambda>_ _ _. True) [[]] demo_ops ota_boot"
proof -
  have z: "length (c_buf (s_hash (abort_locked ota_boot))) = 64" by (simp add: abort_locked_def ota_boot_def no_seq_def zero_ctx_def)
  have ne: "demo_img \<noteq> []" by (simp add: demo_img_def)
  obtain c where c: "sha256_final c = Some (zero_ctx, sha256_spec demo_img)"
      and data: "demo_do (Data [] True 6 0 demo_img) (demo_started ota_boot) = Some ((demo_started ota_boot)\<lparr>ota_slot := demo_img,
        s_hash := c, s_seq := bu_ota_advance (bu_ota_begin 112) 0 112, s_last_us := 6\<rparr>)"
    using demo_data_do [OF z length_demo_img ne demo_ident] by blast
  let ?s2 = "(demo_started ota_boot)\<lparr>ota_slot := demo_img, s_hash := c, s_seq := bu_ota_advance (bu_ota_begin 112) 0 112, s_last_us := 6\<rparr>"
  have fin: "demo_do (End End_ok True) ?s2 = Some (?s2\<lparr>s_hash := zero_ctx, s_seq := no_seq, ota_sel := True\<rparr>)"
    by (simp add: ota_end_def bu_ota_complete_def bu_ota_advance_def bu_ota_begin_def no_seq_def c Let_def
        demo_started_def manifest_of_def demo_sig_parts)
  have free: "\<not> overwrites (\<lambda>_. replicate 64 0) (\<lambda>_ _ _. True) [[]] demo_begin ota_boot"
    by (simp add: demo_begin_def ota_boot_def)
  show ?thesis
    unfolding demo_ops_def ota_run.simps no_overwrite.simps demo_begin_do bind.bind_lunit option.case data fin
    using free by (simp add: boot_image_def no_seq_def)
qed


text \<open>
  The signature check can be passed with one image and another one booted: after the signed image was verified and made
  the boot partition, a begin with the same manifest and a chunk with other bytes replace it there; no end follows, so
  nothing checks them, and the next boot starts them.
\<close>

lemma begin_overwrites_boot_image:
  "\<exists>st. ota_run (\<lambda>_. replicate 64 0) (\<lambda>_ _ _. True) [[]] (demo_ops @ [demo_begin, Data [] True 6 0 evil_img]) ota_boot = Some st \<and>
     boot_image st = Some evil_img \<and> evil_img \<noteq> demo_img \<and>
     (\<forall>sig. offered (demo_ops @ [demo_begin, Data [] True 6 0 evil_img]) sig \<longrightarrow> take 32 (drop 12 sig) = sha256_spec demo_img)"
proof -
  obtain st where st: "ota_run (\<lambda>_. replicate 64 0) (\<lambda>_ _ _. True) [[]] demo_ops ota_boot = Some st" "boot_image st = Some demo_img"
      "s_hash st = zero_ctx" "\<not> sq_active (s_seq st)"
    using demo_run by blast
  have a: "abort_locked st = st" using st(4) by (simp add: abort_locked_def)
  have z: "length (c_buf (s_hash (abort_locked st))) = 64" by (simp add: a st(3) zero_ctx_def)
  obtain c where data: "demo_do (Data [] True 6 0 evil_img) (demo_started st) = Some ((demo_started st)\<lparr>ota_slot := evil_img,
        s_hash := c, s_seq := bu_ota_advance (bu_ota_begin 112) 0 112, s_last_us := 6\<rparr>)"
    using demo_data_do [OF z evil_facts(1,2,4)] by blast
  have run: "ota_run sha ed keys (xs @ ys) s0 = do { s1 \<leftarrow> ota_run sha ed keys xs s0; ota_run sha ed keys ys s1 }" for sha ed keys xs ys s0
    by (induction xs arbitrary: s0) (auto split: bind_split)
  have sel: "ota_sel st" using st(2) by (simp add: boot_image_def split: if_splits)
  have "ota_run (\<lambda>_. replicate 64 0) (\<lambda>_ _ _. True) [[]] (demo_ops @ [demo_begin, Data [] True 6 0 evil_img]) ota_boot =
      Some ((demo_started st)\<lparr>ota_slot := evil_img, s_hash := c, s_seq := bu_ota_advance (bu_ota_begin 112) 0 112, s_last_us := 6\<rparr>)"
    unfolding run st(1) bind.bind_lunit ota_run.simps demo_begin_do data ..
  then show ?thesis
    using sel evil_facts(3) by (auto simp: boot_image_def demo_started_def a offered_def demo_ops_def demo_begin_def demo_sig_parts)
qed

end
