(* ===== verification/BlobStore.thy ===== *)
theory BlobStore
  imports FwSign
begin

section \<open>Images kept in slots of the external flash\<close>

text \<open>
  The model of \<^verbatim>\<open>stm32h563/src/blob_store.c\<close> and of the page and sector commands of
  \<^verbatim>\<open>w25q.c\<close> it writes with. The chip itself is a parameter: \<open>q_do n op\<close> is what the \<open>n\<close>-th command
  does to the cells and whether it is acknowledged (a command stands for the write enable, the operation
  and the poll of the busy bit that the driver makes of it), so that a command may fail, or be cut by a loss of
  power, at any point and leave its own range in any state. A function that fails stops at the first
  failed command, so a run whose \<open>k\<close>-th command fails also is a run cut there.

  Addresses are natural numbers: every sum is below 16 MB, since lengths are checked against the
  capacity of the slot first. The data of a write comes from a caller's function with a state of its
  own; SHA-256 is mbed TLS's and stays a parameter.
\<close>

subsection \<open>The chip\<close>

type_synonym qcells = "nat \<Rightarrow> u8"

datatype w25q_op = Q_Erase nat nat | Q_Program nat "u8 list"

record w25q =
  q_cells :: qcells
  q_n :: nat
  q_do :: "nat \<Rightarrow> w25q_op \<Rightarrow> qcells \<Rightarrow> bool \<times> qcells"
  q_read_ok :: "nat \<Rightarrow> bool"
  q_id :: "u8 list option"

definition W25Q_SECTOR :: nat where "W25Q_SECTOR = 4096"
definition W25Q_BLOCK :: nat where "W25Q_BLOCK = 65536"
definition W25Q_PAGE :: nat where "W25Q_PAGE = 256"

definition w25q_cmd :: "w25q_op \<Rightarrow> w25q \<Rightarrow> bool \<times> w25q" where
  "w25q_cmd op q =
     (let (ok, c) = q_do q (q_n q) op (q_cells q) in (ok, q\<lparr>q_cells := c, q_n := q_n q + 1\<rparr>))"

definition w25q_read_id :: "w25q \<Rightarrow> u8 list option \<times> w25q" where
  "w25q_read_id q = (q_id q, q)"

definition w25q_capacity :: "u8 list \<Rightarrow> nat" where
  "w25q_capacity d =
     (if d ! 0 \<noteq> 0xEF then 0
      else if d ! 2 = 0x17 then 8 * 1024 * 1024
      else if d ! 2 = 0x18 then 16 * 1024 * 1024
      else 0)"

definition w25q_read :: "nat \<Rightarrow> nat \<Rightarrow> w25q \<Rightarrow> u8 list option \<times> w25q" where
  "w25q_read a len q =
     (if len = 0 then (Some [], q)
      else (if q_read_ok q (q_n q) then Some (map (q_cells q) [a..<a + len]) else None,
            q\<lparr>q_n := q_n q + 1\<rparr>))"

definition w25q_erase_sector :: "nat \<Rightarrow> w25q \<Rightarrow> bool \<times> w25q" where
  "w25q_erase_sector a q = w25q_cmd (Q_Erase a W25Q_SECTOR) q"

definition w25q_erase_block :: "nat \<Rightarrow> w25q \<Rightarrow> bool \<times> w25q" where
  "w25q_erase_block a q = w25q_cmd (Q_Erase a W25Q_BLOCK) q"

function w25q_program :: "nat \<Rightarrow> u8 list \<Rightarrow> w25q \<Rightarrow> bool \<times> w25q" where
  "w25q_program a buf q =
     (if buf = [] then (True, q)
      else
        let room = W25Q_PAGE - a mod W25Q_PAGE;
            n = (if length buf < room then length buf else room);
            (ok, q) = w25q_cmd (Q_Program a (take n buf)) q
        in if \<not> ok then (False, q) else w25q_program (a + n) (drop n buf) q)"
  by pat_completeness auto
termination
  by (relation "measure (\<lambda>(a, buf, q). length buf)") (auto simp: W25Q_PAGE_def)

declare w25q_program.simps [simp del]

subsection \<open>Slots and their headers\<close>

type_synonym blob_id_t = nat

definition BLOB_GW0 :: blob_id_t where "BLOB_GW0 = 0"
definition BLOB_GW1 :: blob_id_t where "BLOB_GW1 = 1"
definition BLOB_ESP :: blob_id_t where "BLOB_ESP = 2"
definition BLOB_COUNT :: blob_id_t where "BLOB_COUNT = 3"
definition BLOB_FW :: blob_id_t where "BLOB_FW = BLOB_COUNT"
definition BLOB_CA :: blob_id_t where "BLOB_CA = 4"
definition BLOB_PROXY :: blob_id_t where "BLOB_PROXY = 5"
definition BLOB_BRIDGE :: blob_id_t where "BLOB_BRIDGE = 6"
definition BLOB_SLOT_COUNT :: nat where "BLOB_SLOT_COUNT = 7"

definition BLOB_HDR_SIZE :: nat where "BLOB_HDR_SIZE = 0x1000"
definition BLOB_HDR_MAGIC :: u32 where "BLOB_HDR_MAGIC = 0x4C425042"
definition BLOB_HDR_VERSION :: u16 where "BLOB_HDR_VERSION = 1"
definition BLOB_COMMIT_OFF :: nat where "BLOB_COMMIT_OFF = 0x80"
definition BLOB_COMMIT_MAGIC :: u32 where "BLOB_COMMIT_MAGIC = 0x544D4F43"
definition BLOB_EXTRA_OFF :: nat where "BLOB_EXTRA_OFF = 0x100"
definition BLOB_EXTRA_MAX :: nat where "BLOB_EXTRA_MAX = 0x100"

definition k_slots :: "(cstr \<times> nat \<times> nat) list" where
  "k_slots = [(''gw0'', 0x100000, 0x040000), (''gw1'', 0x140000, 0x040000), (''esp'', 0x200000, 0x400000),
     (''fw'', 0x600000, 0x100000), (''ca'', 0x180000, 0x010000), (''proxy'', 0x190000, 0x002000),
     (''bridge'', 0x700000, 0x100000)]"

definition blob_slot_base :: "blob_id_t \<Rightarrow> nat" where
  "blob_slot_base d = (if d < BLOB_SLOT_COUNT then fst (snd (k_slots ! d)) else 0)"

definition slot_size :: "blob_id_t \<Rightarrow> nat" where
  "slot_size d = snd (snd (k_slots ! d))"

definition blob_slot_capacity :: "blob_id_t \<Rightarrow> nat" where
  "blob_slot_capacity d = (if d < BLOB_SLOT_COUNT then slot_size d - BLOB_HDR_SIZE else 0)"

definition blob_name :: "blob_id_t \<Rightarrow> cstr" where
  "blob_name d = (if d < BLOB_SLOT_COUNT then fst (k_slots ! d) else ''?'')"

text \<open>The header's fields in the order of the C structure, little-endian; 16 reserved bytes end it.\<close>

record blob_hdr_t =
  bh_magic :: u32
  bh_version :: u16
  bh_id :: u16
  bh_len :: u32
  bh_content_version :: u32
  bh_sha256 :: "u8 list"

definition BLOB_HDR_LEN :: nat where "BLOB_HDR_LEN = 64"

definition le16 :: "u16 \<Rightarrow> u8 list" where
  "le16 w = [of_nat (unat w), of_nat (unat w div 256)]"

lemma length_le16 [simp]: "length (le16 w) = 2"
  by (simp add: le16_def)

lemma rd16_le16 [simp]: "rd16 (le16 w @ rest) = w"
proof -
  have "unat w mod 256 + 256 * (unat w div 256 mod 256) = unat w"
    using unat_u16_bound [of w] by (simp add: less_mult_imp_div_less)
  then show ?thesis by (simp add: le16_def unat_of_nat_u8 del: of_nat_unat) simp
qed

definition blob_hdr_bytes :: "blob_hdr_t \<Rightarrow> u8 list" where
  "blob_hdr_bytes hr = le32 (bh_magic hr) @ le16 (bh_version hr) @ le16 (bh_id hr) @ le32 (bh_len hr) @
     le32 (bh_content_version hr) @ bh_sha256 hr @ replicate 16 0"

definition hdr_of :: "u8 list \<Rightarrow> blob_hdr_t" where
  "hdr_of p = \<lparr>bh_magic = rd32 p, bh_version = rd16 (drop 4 p), bh_id = rd16 (drop 6 p), bh_len = rd32 (drop 8 p),
     bh_content_version = rd32 (drop 12 p), bh_sha256 = take 32 (drop 16 p)\<rparr>"

record blob_info_t =
  bi_present :: bool
  bi_len :: nat
  bi_version :: u32
  bi_sha256 :: "u8 list"

definition no_blob :: blob_info_t where
  "no_blob = \<lparr>bi_present = False, bi_len = 0, bi_version = 0, bi_sha256 = replicate 32 0\<rparr>"

record blob_store =
  bs_info :: "blob_info_t list"
  bs_capacity :: nat
  bs_chip :: w25q

definition slot_ok :: "blob_store \<Rightarrow> blob_id_t \<Rightarrow> bool" where
  "slot_ok bs d \<longleftrightarrow>
     d < BLOB_SLOT_COUNT \<and> (d < BLOB_COUNT \<or> blob_slot_base d + slot_size d \<le> bs_capacity bs)"

definition blob_store_info :: "blob_store \<Rightarrow> blob_id_t \<Rightarrow> blob_info_t option" where
  "blob_store_info bs d = (if d < BLOB_SLOT_COUNT then Some (bs_info bs ! d) else None)"

definition blob_store_present :: "blob_store \<Rightarrow> blob_id_t \<Rightarrow> bool" where
  "blob_store_present bs d \<longleftrightarrow> d < BLOB_SLOT_COUNT \<and> bi_present (bs_info bs ! d)"

definition set_info :: "blob_id_t \<Rightarrow> blob_info_t \<Rightarrow> blob_store \<Rightarrow> blob_store" where
  "set_info d i bs = bs\<lparr>bs_info := (bs_info bs)[d := i]\<rparr>"

definition set_chip :: "w25q \<Rightarrow> blob_store \<Rightarrow> blob_store" where
  "set_chip q bs = bs\<lparr>bs_chip := q\<rparr>"

text \<open>The test a header and a commit word must pass for the slot to read as present.\<close>

definition hdr_valid :: "blob_id_t \<Rightarrow> blob_hdr_t \<Rightarrow> u32 \<Rightarrow> bool" where
  "hdr_valid d hr commit \<longleftrightarrow>
     \<not> (bh_magic hr \<noteq> BLOB_HDR_MAGIC \<or> bh_version hr \<noteq> BLOB_HDR_VERSION \<or> bh_id hr \<noteq> of_nat d \<or>
        commit \<noteq> BLOB_COMMIT_MAGIC \<or> bh_len hr = 0 \<or> unat (bh_len hr) > blob_slot_capacity d)"

definition info_of :: "blob_hdr_t \<Rightarrow> blob_info_t" where
  "info_of hr = \<lparr>bi_present = True, bi_len = unat (bh_len hr), bi_version = bh_content_version hr,
     bi_sha256 = bh_sha256 hr\<rparr>"

definition load_slot :: "blob_id_t \<Rightarrow> blob_store \<Rightarrow> blob_store" where
  "load_slot d bs =
     (let bs = set_info d no_blob bs in
      case w25q_read (blob_slot_base d) BLOB_HDR_LEN (bs_chip bs) of
        (None, q) \<Rightarrow> set_chip q bs
      | (Some h, q) \<Rightarrow>
          (case w25q_read (blob_slot_base d + BLOB_COMMIT_OFF) 4 q of
             (None, q) \<Rightarrow> set_chip q bs
           | (Some c, q) \<Rightarrow>
               if \<not> hdr_valid d (hdr_of h) (rd32 c) then set_chip q bs
               else set_info d (info_of (hdr_of h)) (set_chip q bs)))"

definition load_step :: "blob_id_t \<Rightarrow> nat \<times> blob_store \<Rightarrow> nat \<times> blob_store" where
  "load_step d s =
     (let (n, bs) = s in
      if \<not> slot_ok bs d then (n, bs)
      else let bs = load_slot d bs in ((if bi_present (bs_info bs ! d) then n + 1 else n), bs))"

text \<open>The number of slots that hold something, or \<^term>\<open>None\<close> where the C returns -1.\<close>

definition blob_store_load :: "blob_store \<Rightarrow> nat option \<times> blob_store" where
  "blob_store_load bs =
     (let bs = bs\<lparr>bs_info := replicate BLOB_SLOT_COUNT no_blob, bs_capacity := 0\<rparr> in
      case w25q_read_id (bs_chip bs) of
        (None, q) \<Rightarrow> (None, set_chip q bs)
      | (Some jedec, q) \<Rightarrow>
          if w25q_capacity jedec < 0x600000 then (None, set_chip q bs)
          else
            let bs = (set_chip q bs)\<lparr>bs_capacity := w25q_capacity jedec\<rparr>;
                (n, bs) = fold load_step [0..<BLOB_SLOT_COUNT] (0, bs)
            in (Some n, bs))"

subsection \<open>Writing and reading a slot\<close>

function erase_loop :: "nat \<Rightarrow> nat \<Rightarrow> w25q \<Rightarrow> bool \<times> w25q" where
  "erase_loop a stop q =
     (if \<not> a < stop then (True, q)
      else if a mod W25Q_BLOCK = 0 \<and> stop - a \<ge> W25Q_BLOCK then
        (let (ok, q) = w25q_erase_block a q in
         if \<not> ok then (False, q) else erase_loop (a + W25Q_BLOCK) stop q)
      else
        (let (ok, q) = w25q_erase_sector a q in
         if \<not> ok then (False, q) else erase_loop (a + W25Q_SECTOR) stop q))"
  by pat_completeness auto
termination
  by (relation "measure (\<lambda>(a, stop, q). stop - a)") (auto simp: W25Q_BLOCK_def W25Q_SECTOR_def)

declare erase_loop.simps [simp del]

text \<open>\<^verbatim>\<open>x & ~(W25Q_SECTOR - 1)\<close>\<close>

definition sector_floor :: "nat \<Rightarrow> nat" where
  "sector_floor x = x - x mod W25Q_SECTOR"

definition erase_range :: "nat \<Rightarrow> nat \<Rightarrow> w25q \<Rightarrow> bool \<times> w25q" where
  "erase_range a len q = erase_loop (sector_floor a) (sector_floor (a + len + W25Q_SECTOR - 1)) q"

text \<open>The digest's context is the bytes it was given so far.\<close>

function hash_loop :: "nat \<Rightarrow> nat \<Rightarrow> nat \<Rightarrow> u8 list \<Rightarrow> w25q \<Rightarrow> u8 list option \<times> w25q" where
  "hash_loop a len off ctx q =
     (if \<not> off < len then (Some ctx, q)
      else
        let n = (if len - off < W25Q_PAGE then len - off else W25Q_PAGE) in
        case w25q_read (a + off) n q of
          (None, q) \<Rightarrow> (None, q)
        | (Some buf, q) \<Rightarrow> hash_loop a len (off + W25Q_PAGE) (ctx @ buf) q)"
  by pat_completeness auto
termination
  by (relation "measure (\<lambda>(a, len, off, ctx, q). len - off)") (auto simp: W25Q_PAGE_def)

declare hash_loop.simps [simp del]

definition hash_flash :: "(u8 list \<Rightarrow> u8 list) \<Rightarrow> nat \<Rightarrow> nat \<Rightarrow> w25q \<Rightarrow> u8 list option \<times> w25q" where
  "hash_flash sha256 a len q =
     (case hash_loop a len 0 [] q of (r, q) \<Rightarrow> (map_option sha256 r, q))"

function program_loop ::
  "(nat \<Rightarrow> nat \<Rightarrow> 's \<Rightarrow> u8 list option \<times> 's) \<Rightarrow> nat \<Rightarrow> nat \<Rightarrow> nat \<Rightarrow> 's \<Rightarrow> w25q \<Rightarrow> bool \<times> 's \<times> w25q" where
  "program_loop src data len off s q =
     (if \<not> off < len then (True, s, q)
      else
        let n = (if len - off < W25Q_PAGE then len - off else W25Q_PAGE) in
        case src off n s of
          (None, s) \<Rightarrow> (False, s, q)
        | (Some page, s) \<Rightarrow>
            (let (ok, q) = w25q_program (data + off) page q in
             if \<not> ok then (False, s, q) else program_loop src data len (off + W25Q_PAGE) s q))"
  by pat_completeness auto
termination
  by (relation "measure (\<lambda>(src, data, len, off, s, q). len - off)") (auto simp: W25Q_PAGE_def)

declare program_loop.simps [simp del]

text \<open>
  \<open>blob_store_write_ext\<close>: true where the C returns 0. \<open>extra\<close> is the manifest kept in the header
  sector, empty for none.
\<close>

definition write_fail :: "blob_store \<Rightarrow> w25q \<Rightarrow> 's \<Rightarrow> bool \<times> 's \<times> blob_store" where
  "write_fail bs q s = (False, s, set_chip q bs)"

definition blob_new_hdr :: "blob_id_t \<Rightarrow> nat \<Rightarrow> u32 \<Rightarrow> u8 list \<Rightarrow> blob_hdr_t" where
  "blob_new_hdr d len ver digest =
     \<lparr>bh_magic = BLOB_HDR_MAGIC, bh_version = BLOB_HDR_VERSION, bh_id = of_nat d, bh_len = of_nat len,
      bh_content_version = ver, bh_sha256 = digest\<rparr>"

definition blob_commit ::
  "blob_id_t \<Rightarrow> nat \<Rightarrow> u32 \<Rightarrow> u8 list \<Rightarrow> u8 list \<Rightarrow> w25q \<Rightarrow> bool \<times> w25q" where
  "blob_commit d len ver digest extra q =
     (let base = blob_slot_base d;
          (ok, q) = (if extra = [] then (True, q) else w25q_program (base + BLOB_EXTRA_OFF) extra q)
      in if \<not> ok then (False, q)
         else
           let (ok, q) = w25q_program base (blob_hdr_bytes (blob_new_hdr d len ver digest)) q
           in if \<not> ok then (False, q)
              else w25q_program (base + BLOB_COMMIT_OFF) (le32 BLOB_COMMIT_MAGIC) q)"

definition blob_store_write_ext ::
  "(u8 list \<Rightarrow> u8 list) \<Rightarrow> (nat \<Rightarrow> nat \<Rightarrow> 's \<Rightarrow> u8 list option \<times> 's) \<Rightarrow> blob_id_t \<Rightarrow> nat \<Rightarrow> u32 \<Rightarrow>
   u8 list \<Rightarrow> u8 list \<Rightarrow> 's \<Rightarrow> blob_store \<Rightarrow> bool \<times> 's \<times> blob_store" where
  "blob_store_write_ext sha256 src d len ver digest extra s bs =
     (if \<not> slot_ok bs d \<or> len = 0 \<or> len > blob_slot_capacity d \<or> length extra > BLOB_EXTRA_MAX then (False, s, bs)
      else
        let base = blob_slot_base d; data = base + BLOB_HDR_SIZE;
            bs = set_info d no_blob bs;
            (ok, q) = erase_range base (BLOB_HDR_SIZE + len) (bs_chip bs)
        in if \<not> ok then write_fail bs q s
           else
             let (ok, s, q) = program_loop src data len 0 s q
             in if \<not> ok then write_fail bs q s
                else
                  let (got, q) = hash_flash sha256 data len q
                  in if got \<noteq> Some digest then write_fail bs q s
                     else
                       let (ok, q) = blob_commit d len ver digest extra q
                       in if \<not> ok then write_fail bs q s
                          else
                            let bs = load_slot d (set_chip q bs)
                            in (bi_present (bs_info bs ! d), s, bs))"

definition blob_store_write ::
  "(u8 list \<Rightarrow> u8 list) \<Rightarrow> (nat \<Rightarrow> nat \<Rightarrow> 's \<Rightarrow> u8 list option \<times> 's) \<Rightarrow> blob_id_t \<Rightarrow> nat \<Rightarrow> u32 \<Rightarrow>
   u8 list \<Rightarrow> 's \<Rightarrow> blob_store \<Rightarrow> bool \<times> 's \<times> blob_store" where
  "blob_store_write sha256 src d len ver digest s bs =
     blob_store_write_ext sha256 src d len ver digest [] s bs"

definition blob_store_read_extra :: "blob_id_t \<Rightarrow> nat \<Rightarrow> blob_store \<Rightarrow> u8 list option \<times> blob_store" where
  "blob_store_read_extra d len bs =
     (if \<not> blob_store_present bs d \<or> len > BLOB_EXTRA_MAX then (None, bs)
      else case w25q_read (blob_slot_base d + BLOB_EXTRA_OFF) len (bs_chip bs) of
             (r, q) \<Rightarrow> (r, set_chip q bs))"

definition blob_store_clear :: "blob_id_t \<Rightarrow> blob_store \<Rightarrow> bool \<times> blob_store" where
  "blob_store_clear d bs =
     (if \<not> slot_ok bs d then (False, bs)
      else
        let bs = set_info d no_blob bs; (ok, q) = w25q_erase_sector (blob_slot_base d) (bs_chip bs)
        in if \<not> ok then (False, set_chip q bs)
           else
             let bs = load_slot d (set_chip q bs)
             in (\<not> bi_present (bs_info bs ! d), bs))"

definition blob_store_read :: "blob_id_t \<Rightarrow> nat \<Rightarrow> nat \<Rightarrow> blob_store \<Rightarrow> u8 list option \<times> blob_store" where
  "blob_store_read d off n bs =
     (if d \<ge> BLOB_SLOT_COUNT \<or> \<not> bi_present (bs_info bs ! d) \<or> off > bi_len (bs_info bs ! d) \<or>
         n > bi_len (bs_info bs ! d) - off
      then (None, bs)
      else case w25q_read (blob_slot_base d + BLOB_HDR_SIZE + off) n (bs_chip bs) of
             (r, q) \<Rightarrow> (r, set_chip q bs))"

definition blob_store_verify :: "(u8 list \<Rightarrow> u8 list) \<Rightarrow> blob_id_t \<Rightarrow> blob_store \<Rightarrow> bool \<times> blob_store" where
  "blob_store_verify sha256 d bs =
     (if \<not> blob_store_present bs d then (False, bs)
      else case hash_flash sha256 (blob_slot_base d + BLOB_HDR_SIZE) (bi_len (bs_info bs ! d)) (bs_chip bs) of
             (got, q) \<Rightarrow> (got = Some (bi_sha256 (bs_info bs ! d)), set_chip q bs))"

subsection \<open>The release a slot is compared with\<close>

datatype blob_state_t = BLOB_STATE_UNKNOWN | BLOB_STATE_OK | BLOB_STATE_OUTDATED | BLOB_STATE_MISSING

record blob_manifest_t =
  bm_len :: nat
  bm_version :: u32
  bm_sha256 :: "u8 list"

definition blob_state_of :: "blob_info_t option \<Rightarrow> blob_manifest_t option \<Rightarrow> blob_state_t" where
  "blob_state_of cur want =
     (let some_want = (case want of Some w \<Rightarrow> bm_len w \<noteq> 0 | None \<Rightarrow> False) in
      case cur of
        None \<Rightarrow> if some_want then BLOB_STATE_MISSING else BLOB_STATE_UNKNOWN
      | Some i \<Rightarrow>
          if \<not> bi_present i then (if some_want then BLOB_STATE_MISSING else BLOB_STATE_UNKNOWN)
          else (case want of
                  None \<Rightarrow> BLOB_STATE_UNKNOWN
                | Some w \<Rightarrow>
                    if bm_len w = 0 then BLOB_STATE_UNKNOWN
                    else if bi_len i = bm_len w \<and> bi_sha256 i = bm_sha256 w then BLOB_STATE_OK
                    else BLOB_STATE_OUTDATED))"

definition blob_state :: "(blob_id_t \<Rightarrow> blob_manifest_t option) \<Rightarrow> blob_store \<Rightarrow> blob_id_t \<Rightarrow> blob_state_t" where
  "blob_state blob_manifest bs d =
     (if d \<ge> BLOB_COUNT then BLOB_STATE_UNKNOWN
      else blob_state_of (Some (bs_info bs ! d)) (blob_manifest d))"

fun blob_state_str :: "blob_state_t \<Rightarrow> cstr" where
  "blob_state_str BLOB_STATE_OK = ''ok''"
| "blob_state_str BLOB_STATE_OUTDATED = ''outdated''"
| "blob_state_str BLOB_STATE_MISSING = ''missing''"
| "blob_state_str BLOB_STATE_UNKNOWN = ''unknown''"

subsection \<open>What the chip does\<close>

text \<open>
  The commands the data sheet defines: an erase of an aligned sector or block, a program inside one
  page. Such a command changes only its own range, whether it is acknowledged or not; an
  acknowledged erase sets its range to 0xFF and an acknowledged program clears the bits that are 0 in
  its data.
\<close>

fun op_legal :: "w25q_op \<Rightarrow> bool" where
  "op_legal (Q_Erase a n) \<longleftrightarrow> (n = W25Q_SECTOR \<or> n = W25Q_BLOCK) \<and> a mod n = 0 \<and> a + n \<le> 0x1000000"
| "op_legal (Q_Program a bs) \<longleftrightarrow> a mod W25Q_PAGE + length bs \<le> W25Q_PAGE \<and> a + length bs \<le> 0x1000000"

fun op_cells :: "w25q_op \<Rightarrow> nat set" where
  "op_cells (Q_Erase a n) = {a..<a + n}"
| "op_cells (Q_Program a bs) = {a..<a + length bs}"

fun op_done :: "w25q_op \<Rightarrow> qcells \<Rightarrow> qcells \<Rightarrow> bool" where
  "op_done (Q_Erase a n) c c' \<longleftrightarrow> (\<forall>x \<in> {a..<a + n}. c' x = 0xFF)"
| "op_done (Q_Program a bs) c c' \<longleftrightarrow> (\<forall>i < length bs. c' (a + i) = c (a + i) AND bs ! i)"

definition chip_ok :: "w25q \<Rightarrow> bool" where
  "chip_ok q \<longleftrightarrow>
     (\<forall>n op c. op_legal op \<longrightarrow>
        (\<forall>x. x \<notin> op_cells op \<longrightarrow> snd (q_do q n op c) x = c x) \<and>
        (fst (q_do q n op c) \<longrightarrow> op_done op c (snd (q_do q n op c))))"

text \<open>A run of commands that changes only the cells of \<open>A\<close>.\<close>

definition frame :: "nat set \<Rightarrow> w25q \<Rightarrow> w25q \<Rightarrow> bool" where
  "frame A q q' \<longleftrightarrow>
     q_do q' = q_do q \<and> q_read_ok q' = q_read_ok q \<and> q_id q' = q_id q \<and>
     (\<forall>x. x \<notin> A \<longrightarrow> q_cells q' x = q_cells q x)"

lemma frame_refl [simp, intro]: "frame A q q"
  by (simp add: frame_def)

lemma frame_trans: "frame A q q' \<Longrightarrow> frame B q' q'' \<Longrightarrow> A \<subseteq> C \<Longrightarrow> B \<subseteq> C \<Longrightarrow> frame C q q''"
  unfolding frame_def by (metis subsetD)

lemma frame_mono: "frame A q q' \<Longrightarrow> A \<subseteq> B \<Longrightarrow> frame B q q'"
  unfolding frame_def by blast

lemma frame_chip_ok: "frame A q q' \<Longrightarrow> chip_ok q' \<longleftrightarrow> chip_ok q"
  by (simp add: frame_def chip_ok_def)

lemma frame_cell: "frame A q q' \<Longrightarrow> x \<notin> A \<Longrightarrow> q_cells q' x = q_cells q x"
  by (simp add: frame_def)

lemma cmd_effect:
  assumes "chip_ok q" and "op_legal op" and "w25q_cmd op q = (ok, q')"
  shows "frame (op_cells op) q q' \<and> (ok \<longrightarrow> op_done op (q_cells q) (q_cells q'))"
proof -
  obtain c where c: "q_do q (q_n q) op (q_cells q) = (ok, c)" and q': "q' = q\<lparr>q_cells := c, q_n := q_n q + 1\<rparr>"
    using assms(3) by (auto simp: w25q_cmd_def Let_def split: prod.splits)
  have "(\<forall>x. x \<notin> op_cells op \<longrightarrow> snd (q_do q (q_n q) op (q_cells q)) x = q_cells q x) \<and>
      (fst (q_do q (q_n q) op (q_cells q)) \<longrightarrow> op_done op (q_cells q) (snd (q_do q (q_n q) op (q_cells q))))"
    using assms(1,2) unfolding chip_ok_def by blast
  then show ?thesis by (simp add: c q' frame_def)
qed

lemma read_effect:
  assumes "w25q_read a n q = (r, q')"
  shows "frame {} q q' \<and> (r = None \<or> r = Some (map (q_cells q) [a..<a + n]))"
  using assms by (auto simp: w25q_read_def frame_def split: if_splits)

lemma program_effect:
  assumes "chip_ok q" and "a + length buf \<le> 0x1000000" and "w25q_program a buf q = (ok, q')"
  shows "frame {a..<a + length buf} q q' \<and>
    (ok \<longrightarrow> (\<forall>i < length buf. q_cells q' (a + i) = q_cells q (a + i) AND buf ! i))"
  using assms
proof (induction a buf q arbitrary: ok q' rule: w25q_program.induct)
  case (1 a buf q)
  show ?case
  proof (cases "buf = []")
    case True
    with 1(4) show ?thesis by (auto simp: w25q_program.simps [of a "[]" q])
  next
    case False
    define n where "n = (if length buf < W25Q_PAGE - a mod W25Q_PAGE then length buf else W25Q_PAGE - a mod W25Q_PAGE)"
    have pg: "a mod W25Q_PAGE < W25Q_PAGE" by (simp add: W25Q_PAGE_def)
    have n: "n \<le> length buf" "a mod W25Q_PAGE + n \<le> W25Q_PAGE"
      using pg by (auto simp: n_def)
    obtain ok1 q1 where c: "w25q_cmd (Q_Program a (take n buf)) q = (ok1, q1)" by force
    have leg: "op_legal (Q_Program a (take n buf))" using n 1(3) by simp
    have e1: "frame {a..<a + n} q q1" and d1: "ok1 \<Longrightarrow> \<forall>i < n. q_cells q1 (a + i) = q_cells q (a + i) AND buf ! i"
      using cmd_effect [OF 1(2) leg c] n by auto
    have step: "w25q_program a buf q = (if \<not> ok1 then (False, q1) else w25q_program (a + n) (drop n buf) q1)"
      using False c by (subst w25q_program.simps) (simp add: n_def [symmetric] Let_def)
    show ?thesis
    proof (cases ok1)
      case False
      then show ?thesis using step 1(4) frame_mono [OF e1] n by auto
    next
      case True
      then have rec: "w25q_program (a + n) (drop n buf) q1 = (ok, q')" using step 1(4) by simp
      have "frame {a + n..<a + n + length (drop n buf)} q1 q' \<and>
          (ok \<longrightarrow> (\<forall>i < length (drop n buf). q_cells q' (a + n + i) = q_cells q1 (a + n + i) AND drop n buf ! i))"
        using 1(1) [OF False refl n_def refl c [symmetric] _ _ _ rec] True frame_chip_ok [OF e1] 1(2,3) n by simp
      then have fr: "frame {a + n..<a + length buf} q1 q'"
        and ih: "ok \<Longrightarrow> \<forall>i < length buf - n. q_cells q' (a + n + i) = q_cells q1 (a + n + i) AND buf ! (n + i)"
        using n by auto
      have "q_cells q' (a + i) = q_cells q (a + i) AND buf ! i" if "ok" "i < length buf" for i
      proof (cases "i < n")
        case True
        then have "q_cells q' (a + i) = q_cells q1 (a + i)" by (intro frame_cell [OF fr]) simp
        with True d1 \<open>ok1\<close> show ?thesis by simp
      next
        case False
        with that(2) obtain j where j: "i = n + j" "j < length buf - n" by (intro that [of "i - n"]) simp_all
        with ih that have "q_cells q' (a + i) = q_cells q1 (a + i) AND buf ! i" by (simp add: add.assoc)
        moreover have "q_cells q1 (a + i) = q_cells q (a + i)" using False by (intro frame_cell [OF e1]) simp
        ultimately show ?thesis using False by simp
      qed
      with frame_trans [OF e1 fr, of "{a..<a + length buf}"] n show ?thesis by auto
    qed
  qed
qed

text \<open>Erasing from an aligned address: the first command covers the first sector.\<close>

definition first_erase :: "nat \<Rightarrow> nat \<Rightarrow> w25q_op" where
  "first_erase a stop =
     Q_Erase a (if a mod W25Q_BLOCK = 0 \<and> stop - a \<ge> W25Q_BLOCK then W25Q_BLOCK else W25Q_SECTOR)"

lemma sector_block: "W25Q_BLOCK = 16 * W25Q_SECTOR"
  by (simp add: W25Q_BLOCK_def W25Q_SECTOR_def)

lemma aligned_gap:
  assumes "a mod W25Q_SECTOR = 0" and "stop mod W25Q_SECTOR = 0" and "(a :: nat) < stop"
  shows "a + W25Q_SECTOR \<le> stop"
proof -
  from assms(1,2) obtain i j where "a = W25Q_SECTOR * i" "stop = W25Q_SECTOR * j" by fastforce
  moreover from this assms(3) have "i < j" by (simp add: W25Q_SECTOR_def)
  then have "W25Q_SECTOR * (i + 1) \<le> W25Q_SECTOR * j" by (intro mult_le_mono2) simp
  ultimately show ?thesis by (simp add: algebra_simps)
qed

lemma first_erase_legal:
  assumes "a mod W25Q_SECTOR = 0" and "stop mod W25Q_SECTOR = 0" and "a < stop" and "stop \<le> 0x1000000"
    and "first_erase a stop = Q_Erase a n"
  shows "op_legal (Q_Erase a n) \<and> W25Q_SECTOR \<le> n \<and> a + n \<le> stop \<and> (a + n) mod W25Q_SECTOR = 0"
  using assms aligned_gap [OF assms(1-3)]
  by (auto simp: first_erase_def sector_block mod_add_eq mod_mult_self4 split: if_splits)

lemma erase_loop_step:
  assumes "a < stop" and "first_erase a stop = Q_Erase a n"
  shows "erase_loop a stop q =
    (let (ok, q) = w25q_cmd (Q_Erase a n) q in if \<not> ok then (False, q) else erase_loop (a + n) stop q)"
  using assms
  by (subst erase_loop.simps) (auto simp: first_erase_def w25q_erase_block_def w25q_erase_sector_def)

lemma erase_loop_effect:
  assumes "chip_ok q" and "a mod W25Q_SECTOR = 0" and "stop mod W25Q_SECTOR = 0" and "stop \<le> 0x1000000"
    and "erase_loop a stop q = (ok, q')"
  shows "frame {a..<stop} q q' \<and> (ok \<longrightarrow> (\<forall>x \<in> {a..<stop}. q_cells q' x = 0xFF))"
  using assms
proof (induction "stop - a" arbitrary: a q rule: less_induct)
  case less
  show ?case
  proof (cases "a < stop")
    case False
    with less(6) have "ok" and "q' = q" by (simp_all add: erase_loop.simps [of a stop q])
    with False show ?thesis by simp
  next
    case True
    obtain n where fe: "first_erase a stop = Q_Erase a n" by (simp add: first_erase_def)
    note leg = first_erase_legal [OF less(3,4) True less(5) fe]
    obtain ok1 q1 where c: "w25q_cmd (Q_Erase a n) q = (ok1, q1)" by force
    have e1: "frame {a..<a + n} q q1" and d1: "ok1 \<Longrightarrow> \<forall>x \<in> {a..<a + n}. q_cells q1 x = 0xFF"
      using cmd_effect [OF less(2) _ c] leg by auto
    have step: "(if \<not> ok1 then (False, q1) else erase_loop (a + n) stop q1) = (ok, q')"
      using erase_loop_step [OF True fe, of q] c less(6) by simp
    show ?thesis
    proof (cases ok1)
      case False
      with step frame_mono [OF e1, of "{a..<stop}"] leg show ?thesis by auto
    next
      case okay: True
      have "0 < n" using leg by (auto simp: W25Q_SECTOR_def)
      then have dec: "stop - (a + n) < stop - a" using True by simp
      have ck: "chip_ok q1" using less(2) frame_chip_ok [OF e1] by simp
      have al: "(a + n) mod W25Q_SECTOR = 0" using leg by simp
      have rec: "erase_loop (a + n) stop q1 = (ok, q')" using step okay by simp
      note ih = less(1) [OF dec ck al less(4,5) rec]
      then have "q_cells q' x = 0xFF" if "ok" "x \<in> {a..<stop}" for x
        using that d1 [OF okay] frame_cell [of "{a + n..<stop}" q1 q' x] by (cases "x < a + n") auto
      with frame_trans [OF e1, of "{a + n..<stop}" q' "{a..<stop}"] ih leg show ?thesis by auto
    qed
  qed
qed

text \<open>Once the first erase is acknowledged, the first sector stays erased whatever follows.\<close>

lemma erase_loop_first:
  assumes "chip_ok q" and "a mod W25Q_SECTOR = 0" and "stop mod W25Q_SECTOR = 0" and "stop \<le> 0x1000000"
    and "a < stop" and "erase_loop a stop q = (ok, q')" and "fst (w25q_cmd (first_erase a stop) q)"
    and "x \<in> {a..<a + W25Q_SECTOR}"
  shows "q_cells q' x = 0xFF"
proof -
  obtain n where fe: "first_erase a stop = Q_Erase a n" by (simp add: first_erase_def)
  note leg = first_erase_legal [OF assms(2,3,5,4) fe]
  obtain q1 where c: "w25q_cmd (Q_Erase a n) q = (True, q1)"
    using assms(7) unfolding fe by (cases "w25q_cmd (Q_Erase a n) q") simp
  have e1: "frame {a..<a + n} q q1" and d1: "\<forall>x \<in> {a..<a + n}. q_cells q1 x = 0xFF"
    using cmd_effect [OF assms(1) _ c] leg by auto
  have "erase_loop (a + n) stop q1 = (ok, q')"
    using erase_loop_step [OF assms(5) fe, of q] c assms(6) by simp
  moreover have "chip_ok q1" using assms(1) frame_chip_ok [OF e1] by simp
  moreover have "(a + n) mod W25Q_SECTOR = 0" using leg by simp
  ultimately have "frame {a + n..<stop} q1 q'"
    using erase_loop_effect [of q1 "a + n" stop ok q'] assms(3,4) by simp
  then have "q_cells q' x = q_cells q1 x" using assms(8) leg by (intro frame_cell) auto
  with d1 assms(8) leg show ?thesis by auto
qed

text \<open>The loops over pages.\<close>

lemma upt_join: "a \<le> b \<Longrightarrow> b \<le> c \<Longrightarrow> [a..<b] @ [b..<c] = [a..<c]"
  using upt_add_eq_append [of a b "c - b"] by simp

lemma program_loop_effect:
  assumes "chip_ok q" and "data + len \<le> 0x1000000" and "\<And>off n s p s'. off + n \<le> len \<Longrightarrow> src off n s = (Some p, s') \<Longrightarrow> length p = n"
    and "program_loop src data len off s q = (ok, s', q')"
  shows "frame {data + off..<data + len} q q'"
  using assms
proof (induction src data len off s q arbitrary: ok s' q' rule: program_loop.induct)
  case (1 src data len off s q)
  show ?case
  proof (cases "off < len")
    case False
    with 1(5) show ?thesis by (simp add: program_loop.simps [of src data len off])
  next
    case True
    define n where "n = (if len - off < W25Q_PAGE then len - off else W25Q_PAGE)"
    have n: "off + n \<le> len" "n \<le> W25Q_PAGE" using True by (auto simp: n_def)
    obtain r s1 where r: "src off n s = (r, s1)" by force
    show ?thesis
    proof (cases r)
      case None
      with 1(5) True r show ?thesis
        by (subst (asm) program_loop.simps) (simp add: n_def [symmetric] Let_def)
    next
      case (Some page)
      obtain ok1 q1 where p: "w25q_program (data + off) page q = (ok1, q1)" by force
      have e1: "frame {data + off..<data + off + n} q q1"
        using program_effect [OF 1(2) _ p] 1(3) 1(4) [OF n(1)] r Some n by auto
      have step: "(if \<not> ok1 then (False, s1, q1) else program_loop src data len (off + W25Q_PAGE) s1 q1) = (ok, s', q')"
        using 1(5) True r Some p by (subst (asm) program_loop.simps) (simp add: n_def [symmetric] Let_def)
      show ?thesis
      proof (cases ok1)
        case False
        with step frame_mono [OF e1, of "{data + off..<data + len}"] n show ?thesis by auto
      next
        case okay: True
        have ck: "chip_ok q1" using 1(2) frame_chip_ok [OF e1] by simp
        have rec: "program_loop src data len (off + W25Q_PAGE) s1 q1 = (ok, s', q')" using step okay by simp
        have "frame {data + (off + W25Q_PAGE)..<data + len} q1 q'"
          using 1(1) [OF _ n_def r [symmetric] Some p [symmetric] refl _ ck 1(3,4) rec] True okay by simp
        from frame_trans [OF e1 this, of "{data + off..<data + len}"] n show ?thesis by auto
      qed
    qed
  qed
qed

lemma hash_loop_effect:
  assumes "hash_loop a len off ctx q = (r, q')"
  shows "frame {} q q' \<and> (r = None \<or> r = Some (ctx @ map (q_cells q) [a + off..<a + len]))"
  using assms
proof (induction a len off ctx q arbitrary: r q' rule: hash_loop.induct)
  case (1 a len off ctx q)
  show ?case
  proof (cases "off < len")
    case False
    with 1(2) show ?thesis by (auto simp: hash_loop.simps [of a len off])
  next
    case True
    define n where "n = (if len - off < W25Q_PAGE then len - off else W25Q_PAGE)"
    have n: "off + n \<le> len" using True by (auto simp: n_def)
    obtain b q1 where b: "w25q_read (a + off) n q = (b, q1)" by force
    note rd = read_effect [OF b]
    show ?thesis
    proof (cases b)
      case None
      with 1(2) True b rd show ?thesis
        by (subst (asm) hash_loop.simps) (simp add: n_def [symmetric] Let_def)
    next
      case (Some buf)
      have rec: "hash_loop a len (off + W25Q_PAGE) (ctx @ buf) q1 = (r, q')"
        using 1(2) True b Some by (subst (asm) hash_loop.simps) (simp add: n_def [symmetric] Let_def)
      have buf: "buf = map (q_cells q) [a + off..<a + off + n]" and c1: "q_cells q1 = q_cells q"
        using rd Some by (auto simp: frame_def)
      have ih: "frame {} q1 q' \<and> (r = None \<or> r = Some ((ctx @ buf) @ map (q_cells q1) [a + (off + W25Q_PAGE)..<a + len]))"
        using 1(1) [OF _ n_def b [symmetric] Some rec] True by simp
      have pages: "[a + off..<a + off + n] @ [a + (off + W25Q_PAGE)..<a + len] = [a + off..<a + len]"
        using True n upt_join [of "a + off" "a + off + n" "a + len"] by (auto simp: n_def add.assoc)
      have whole: "buf @ map (q_cells q1) [a + (off + W25Q_PAGE)..<a + len] = map (q_cells q) [a + off..<a + len]"
        unfolding buf c1 map_append [symmetric] pages ..
      then show ?thesis using ih rd frame_trans [of "{}" q q1 "{}" q' "{}"] by auto
    qed
  qed
qed

lemma hash_flash_effect:
  assumes "hash_flash sha256 a len q = (r, q')"
  shows "frame {} q q' \<and> (r = None \<or> r = Some (sha256 (map (q_cells q) [a..<a + len])))"
proof -
  obtain r0 where h: "hash_loop a len 0 [] q = (r0, q')" and r: "r = map_option sha256 r0"
    using assms by (auto simp: hash_flash_def split: prod.splits)
  from hash_loop_effect [OF h] r show ?thesis by auto
qed

subsection \<open>What the cells of a slot say\<close>

definition cells_at :: "qcells \<Rightarrow> nat \<Rightarrow> nat \<Rightarrow> u8 list" where
  "cells_at c a n = map c [a..<a + n]"

definition slot_cells :: "blob_id_t \<Rightarrow> nat set" where
  "slot_cells d = {blob_slot_base d..<blob_slot_base d + slot_size d}"

definition slot_view :: "qcells \<Rightarrow> blob_id_t \<Rightarrow> blob_info_t" where
  "slot_view c d =
     (let hr = hdr_of (cells_at c (blob_slot_base d) BLOB_HDR_LEN) in
      if hdr_valid d hr (rd32 (cells_at c (blob_slot_base d + BLOB_COMMIT_OFF) 4)) then info_of hr else no_blob)"

definition slot_data :: "qcells \<Rightarrow> blob_id_t \<Rightarrow> nat \<Rightarrow> u8 list" where
  "slot_data c d len = cells_at c (blob_slot_base d + BLOB_HDR_SIZE) len"

definition slot_extra :: "qcells \<Rightarrow> blob_id_t \<Rightarrow> nat \<Rightarrow> u8 list" where
  "slot_extra c d n = cells_at c (blob_slot_base d + BLOB_EXTRA_OFF) n"

text \<open>A whole image: a committed header, data with the digest it announces, and the extra bytes.\<close>

definition slot_holds ::
  "(u8 list \<Rightarrow> u8 list) \<Rightarrow> qcells \<Rightarrow> blob_id_t \<Rightarrow> nat \<Rightarrow> u32 \<Rightarrow> u8 list \<Rightarrow> u8 list \<Rightarrow> bool" where
  "slot_holds sha256 c d len ver digest extra \<longleftrightarrow>
     slot_view c d = \<lparr>bi_present = True, bi_len = len, bi_version = ver, bi_sha256 = digest\<rparr> \<and>
     sha256 (slot_data c d len) = digest \<and> slot_extra c d (length extra) = extra"

lemmas slot_geometry = blob_slot_base_def slot_size_def BLOB_SLOT_COUNT_def k_slots_def blob_slot_capacity_def
  BLOB_HDR_SIZE_def

lemma slot_cases: "d < BLOB_SLOT_COUNT \<Longrightarrow> d = 0 \<or> d = 1 \<or> d = 2 \<or> d = 3 \<or> d = 4 \<or> d = 5 \<or> d = 6"
  by (auto simp: BLOB_SLOT_COUNT_def)

lemma slot_bounds:
  assumes "d < BLOB_SLOT_COUNT"
  shows "blob_slot_base d mod W25Q_SECTOR = 0" "slot_size d mod W25Q_SECTOR = 0"
    "BLOB_HDR_SIZE \<le> slot_size d" "blob_slot_base d + slot_size d \<le> 0x1000000"
    "blob_slot_capacity d = slot_size d - BLOB_HDR_SIZE" "blob_slot_base d mod W25Q_PAGE = 0"
  using slot_cases [OF assms] assms by (auto simp: slot_geometry W25Q_SECTOR_def W25Q_PAGE_def)

lemma slots_disjoint:
  assumes "d < BLOB_SLOT_COUNT" and "e < BLOB_SLOT_COUNT" and "d \<noteq> e"
  shows "slot_cells d \<inter> slot_cells e = {}"
proof -
  have "blob_slot_base d + slot_size d \<le> blob_slot_base e \<or> blob_slot_base e + slot_size e \<le> blob_slot_base d"
    using slot_cases [OF assms(1)] slot_cases [OF assms(2)] assms(3) by (elim disjE) (simp_all add: slot_geometry)
  then show ?thesis by (auto simp: slot_cells_def)
qed

lemma cells_at_cong: "(\<And>x. a \<le> x \<Longrightarrow> x < a + n \<Longrightarrow> c' x = c x) \<Longrightarrow> cells_at c' a n = cells_at c a n"
  by (simp add: cells_at_def)

lemma cells_at_eqI:
  "(\<And>i. i < length xs \<Longrightarrow> c (a + i) = xs ! i) \<Longrightarrow> cells_at c a (length xs) = xs"
  unfolding cells_at_def by (rule nth_equalityI) simp_all

text \<open>What a slot says depends on its own cells only.\<close>

lemma slot_view_cong:
  assumes "d < BLOB_SLOT_COUNT" and "\<And>x. x \<in> slot_cells d \<Longrightarrow> c' x = c x"
  shows "slot_view c' d = slot_view c d"
proof -
  have "BLOB_HDR_LEN \<le> slot_size d" "BLOB_COMMIT_OFF + 4 \<le> slot_size d"
    using slot_bounds(3) [OF assms(1)] by (simp_all add: BLOB_HDR_LEN_def BLOB_COMMIT_OFF_def BLOB_HDR_SIZE_def)
  then have in_slot: "x \<in> slot_cells d" if "blob_slot_base d \<le> x" "x < blob_slot_base d + BLOB_HDR_LEN \<or> x < blob_slot_base d + BLOB_COMMIT_OFF + 4" for x
    using that unfolding slot_cells_def atLeastLessThan_iff by linarith
  have "cells_at c' (blob_slot_base d) BLOB_HDR_LEN = cells_at c (blob_slot_base d) BLOB_HDR_LEN"
    by (rule cells_at_cong) (rule assms(2), rule in_slot, simp_all)
  moreover have "cells_at c' (blob_slot_base d + BLOB_COMMIT_OFF) 4 = cells_at c (blob_slot_base d + BLOB_COMMIT_OFF) 4"
    by (rule cells_at_cong) (rule assms(2), rule in_slot, simp_all)
  ultimately show ?thesis by (simp add: slot_view_def)
qed

lemma load_slot_effect:
  assumes "d < length (bs_info bs)"
  shows "frame {} (bs_chip bs) (bs_chip (load_slot d bs)) \<and> bs_capacity (load_slot d bs) = bs_capacity bs \<and>
    (bs_info (load_slot d bs) = (bs_info bs)[d := no_blob] \<or>
     bs_info (load_slot d bs) = (bs_info bs)[d := slot_view (q_cells (bs_chip bs)) d])"
proof -
  obtain r1 q1 where r1: "w25q_read (blob_slot_base d) BLOB_HDR_LEN (bs_chip bs) = (r1, q1)" by force
  obtain r2 q2 where r2: "w25q_read (blob_slot_base d + BLOB_COMMIT_OFF) 4 q1 = (r2, q2)" by force
  note e1 = read_effect [OF r1] and e2 = read_effect [OF r2]
  have c1: "q_cells q1 = q_cells (bs_chip bs)" using e1 by (auto simp: frame_def)
  have f1: "frame {} (bs_chip bs) q1" using e1 by simp
  have f2: "frame {} (bs_chip bs) q2" by (rule frame_trans [OF f1 conjunct1 [OF e2]]) simp_all
  note bs_simps = set_info_def set_chip_def blob_store.simps
  show ?thesis
  proof (cases r1)
    case None
    then show ?thesis using f1 by (simp add: load_slot_def bs_simps r1)
  next
    case (Some h)
    show ?thesis
    proof (cases r2)
      case None
      then show ?thesis using f2 Some by (simp add: load_slot_def bs_simps r1 r2)
    next
      case r2': (Some w)
      have h: "h = cells_at (q_cells (bs_chip bs)) (blob_slot_base d) BLOB_HDR_LEN"
        and w: "w = cells_at (q_cells (bs_chip bs)) (blob_slot_base d + BLOB_COMMIT_OFF) 4"
        using e1 e2 c1 Some r2' by (simp_all add: cells_at_def)
      have "load_slot d bs = set_info d (slot_view (q_cells (bs_chip bs)) d) (set_chip q2 bs)"
        using Some r2' by (simp add: load_slot_def bs_simps r1 r2 slot_view_def Let_def h [symmetric] w [symmetric])
      then show ?thesis using f2 by (simp add: bs_simps)
    qed
  qed
qed

lemma load_slot_reads:
  assumes "\<And>n. q_read_ok (bs_chip bs) n"
  shows "bs_info (load_slot d bs) = (bs_info bs)[d := slot_view (q_cells (bs_chip bs)) d]"
  using assms by (simp add: load_slot_def w25q_read_def BLOB_HDR_LEN_def set_info_def set_chip_def slot_view_def
      Let_def cells_at_def)

lemma ff_and: "(0xFF :: u8) AND b = b"
proof -
  have "(0xFF :: u8) = - 1" by simp
  then show ?thesis by (simp only: and.left_neutral)
qed

lemma blob_hdr_of_bytes:
  assumes "length (bh_sha256 hr) = 32"
  shows "hdr_of (blob_hdr_bytes hr) = hr"
proof -
  have "rd32 (le32 w @ rest) = w" for w rest by (simp add: rd32_def)
  then show ?thesis using assms by (simp add: hdr_of_def blob_hdr_bytes_def)
qed

lemma length_blob_hdr_bytes: "length (bh_sha256 hr) = 32 \<Longrightarrow> length (blob_hdr_bytes hr) = BLOB_HDR_LEN"
  by (simp add: blob_hdr_bytes_def BLOB_HDR_LEN_def)

text \<open>An erased header sector reads as an empty slot.\<close>

lemma erased_no_blob:
  assumes "\<And>x. x \<in> {blob_slot_base d + BLOB_COMMIT_OFF..<blob_slot_base d + BLOB_COMMIT_OFF + 4} \<Longrightarrow> c x = 0xFF"
  shows "slot_view c d = no_blob"
proof -
  have "cells_at c (blob_slot_base d + BLOB_COMMIT_OFF) 4 = replicate 4 0xFF"
    using assms cells_at_eqI [of "replicate 4 0xFF" c "blob_slot_base d + BLOB_COMMIT_OFF"] by simp
  moreover have four: "replicate 4 x = [x, x, x, x]" for x :: u8
    by (simp add: numeral_eq_Suc)
  moreover have "rd32 [0xFF, 0xFF, 0xFF, 0xFF] \<noteq> BLOB_COMMIT_MAGIC"
    by (simp add: rd32_def BLOB_COMMIT_MAGIC_def)
  ultimately show ?thesis by (simp add: slot_view_def hdr_valid_def Let_def)
qed

lemma program_erased:
  assumes "chip_ok q" and "a + length buf \<le> 0x1000000" and "w25q_program a buf q = (ok, q')"
    and "\<And>x. a \<le> x \<Longrightarrow> x < a + length buf \<Longrightarrow> q_cells q x = 0xFF"
  shows "frame {a..<a + length buf} q q' \<and> (ok \<longrightarrow> cells_at (q_cells q') a (length buf) = buf)"
proof -
  have "q_cells q (a + i) = 0xFF" if "i < length buf" for i using assms(4) [of "a + i"] that by simp
  with program_effect [OF assms(1-3)] show ?thesis by (auto intro!: cells_at_eqI simp: ff_and)
qed

lemma unat_slot_len:
  assumes "d < BLOB_SLOT_COUNT" and "len \<le> blob_slot_capacity d"
  shows "unat (of_nat len :: u32) = len"
  using assms slot_bounds(4,5) [OF assms(1)] by (simp add: unat_of_nat)

definition image_info :: "nat \<Rightarrow> u32 \<Rightarrow> u8 list \<Rightarrow> blob_info_t" where
  "image_info len ver digest = \<lparr>bi_present = True, bi_len = len, bi_version = ver, bi_sha256 = digest\<rparr>"

text \<open>With the new header in place, the slot reads as the new image once the commit word is there.\<close>

lemma slot_view_new:
  assumes "d < BLOB_SLOT_COUNT" and "0 < len" and "len \<le> blob_slot_capacity d" and "length digest = 32"
    and "cells_at c (blob_slot_base d) BLOB_HDR_LEN = blob_hdr_bytes (blob_new_hdr d len ver digest)"
  shows "slot_view c d =
    (if rd32 (cells_at c (blob_slot_base d + BLOB_COMMIT_OFF) 4) = BLOB_COMMIT_MAGIC then image_info len ver digest
     else no_blob)"
proof -
  have hdr: "hdr_of (blob_hdr_bytes (blob_new_hdr d len ver digest)) = blob_new_hdr d len ver digest"
    using assms(4) by (intro blob_hdr_of_bytes) (simp add: blob_new_hdr_def)
  have nz: "(of_nat len :: u32) \<noteq> 0"
    using unat_slot_len [OF assms(1,3)] assms(2) by (metis less_irrefl unat_0)
  show ?thesis
    using unat_slot_len [OF assms(1,3)] nz assms(3)
    unfolding slot_view_def Let_def assms(5) hdr
    by (simp add: hdr_valid_def blob_new_hdr_def info_of_def image_info_def)
qed

lemma blob_commit_effect:
  assumes ck: "chip_ok q" and d: "d < BLOB_SLOT_COUNT" and len: "0 < len" "len \<le> blob_slot_capacity d"
    and dg: "length digest = 32" and ex: "length extra \<le> BLOB_EXTRA_MAX"
    and er: "\<And>x. x \<in> {blob_slot_base d..<blob_slot_base d + BLOB_HDR_SIZE} \<Longrightarrow> q_cells q x = 0xFF"
    and w: "blob_commit d len ver digest extra q = (ok, q')"
  shows "frame {blob_slot_base d..<blob_slot_base d + BLOB_HDR_SIZE} q q' \<and>
    (slot_view (q_cells q') d = no_blob \<or>
     slot_view (q_cells q') d = image_info len ver digest \<and> slot_extra (q_cells q') d (length extra) = extra) \<and>
    (ok \<longrightarrow> slot_view (q_cells q') d = image_info len ver digest)"
proof -
  let ?b = "blob_slot_base d" and ?hdr = "blob_hdr_bytes (blob_new_hdr d len ver digest)"
  let ?x = "{?b + 0x100..<?b + 0x100 + length extra}" and ?H = "{?b..<?b + 64}" and ?C = "{?b + 0x80..<?b + 0x80 + 4}"
  have lim: "?b + 0x1000 \<le> 0x1000000" using slot_bounds(3,4) [OF d] by (simp add: BLOB_HDR_SIZE_def)
  have ex256: "length extra \<le> 0x100" using ex by (simp add: BLOB_EXTRA_MAX_def)
  have ff: "q_cells q x = 0xFF" if "?b \<le> x" "x < ?b + 0x1000" for x using er that by (simp add: BLOB_HDR_SIZE_def)
  have lh: "length ?hdr = 64" using length_blob_hdr_bytes [of "blob_new_hdr d len ver digest"] dg
    by (simp add: blob_new_hdr_def BLOB_HDR_LEN_def)
  obtain okA qa where A: "(if extra = [] then (True, q) else w25q_program (?b + BLOB_EXTRA_OFF) extra q) = (okA, qa)"
    by force
  have fA: "frame ?x q qa" and cA: "okA \<Longrightarrow> cells_at (q_cells qa) (?b + 0x100) (length extra) = extra"
    using A program_erased [OF ck, of "?b + 0x100" extra okA qa] ff lim ex256
    by (auto simp: BLOB_EXTRA_OFF_def cells_at_def split: if_splits)
  obtain okB qb where B: "w25q_program ?b ?hdr qa = (okB, qb)" by force
  have ckA: "chip_ok qa" using ck frame_chip_ok [OF fA] by simp
  have ffA: "q_cells qa x = 0xFF" if "?b \<le> x" "x < ?b + 0x100" for x
    using frame_cell [OF fA, of x] ff [of x] that by simp
  have fB: "frame ?H qa qb" and cB: "okB \<Longrightarrow> cells_at (q_cells qb) ?b 64 = ?hdr"
    using program_erased [OF ckA _ B] ffA lim by (simp_all add: lh)
  obtain okC qc where C: "w25q_program (?b + BLOB_COMMIT_OFF) (le32 BLOB_COMMIT_MAGIC) qb = (okC, qc)" by force
  have ckB: "chip_ok qb" using ckA frame_chip_ok [OF fB] by simp
  have ffB: "q_cells qb x = 0xFF" if "?b + 64 \<le> x" "x < ?b + 0x100" for x
    using frame_cell [OF fB, of x] ffA [of x] that by simp
  have fC: "frame ?C qb qc" and cC: "okC \<Longrightarrow> cells_at (q_cells qc) (?b + 0x80) 4 = le32 BLOB_COMMIT_MAGIC"
    using program_erased [OF ckB _ C] ffB lim by (simp_all add: BLOB_COMMIT_OFF_def)
  have w': "(ok, q') = (if \<not> okA then (False, qa) else if \<not> okB then (False, qb) else (okC, qc))"
    using w by (cases okA; cases okB) (simp_all add: blob_commit_def Let_def A B C)
  have noneI: "slot_view c d = no_blob" if "\<And>x. x \<in> ?C \<Longrightarrow> c x = 0xFF" for c
    using that by (intro erased_no_blob) (simp add: BLOB_COMMIT_OFF_def)
  let ?S = "{?b..<?b + BLOB_HDR_SIZE}"
  have sub: "?x \<subseteq> ?S" "?H \<subseteq> ?S" "?C \<subseteq> ?S" using ex256 by (auto simp: BLOB_HDR_SIZE_def)
  have frB: "frame ?S q qb" using frame_trans [OF fA fB] sub by simp
  have frC: "frame ?S q qc" using frame_trans [OF frB fC] sub by simp
  show ?thesis
  proof (cases "okA \<and> okB")
    case False
    have "slot_view (q_cells q') d = no_blob"
      using w' False ffA ffB by (intro noneI) (auto split: if_splits)
    then show ?thesis using w' False frame_mono [OF fA sub(1)] frB by (auto split: if_splits)
  next
    case True
    then have q': "ok = okC" "q' = qc" using w' by simp_all
    have "cells_at (q_cells qc) ?b BLOB_HDR_LEN = cells_at (q_cells qb) ?b 64"
      unfolding BLOB_HDR_LEN_def by (rule cells_at_cong) (rule frame_cell [OF fC], simp)
    then have hdr: "cells_at (q_cells qc) ?b BLOB_HDR_LEN = ?hdr" using cB True by simp
    have "cells_at (q_cells qc) (?b + 0x100) (length extra) = cells_at (q_cells qa) (?b + 0x100) (length extra)"
      by (rule cells_at_cong) (simp add: frame_cell [OF fC] frame_cell [OF fB])
    then have extra: "slot_extra (q_cells qc) d (length extra) = extra"
      using cA True by (simp add: slot_extra_def BLOB_EXTRA_OFF_def)
    have "rd32 (le32 BLOB_COMMIT_MAGIC) = BLOB_COMMIT_MAGIC"
      using of_le32_le32 [of BLOB_COMMIT_MAGIC "[]"] by (simp add: rd32_def)
    then show ?thesis
      using slot_view_new [OF d len dg hdr] extra frC cC by (auto simp: q' BLOB_COMMIT_OFF_def)
  qed
qed

subsection \<open>A write is all or nothing\<close>

text \<open>The first command of a write: the erase that takes the old header away.\<close>

definition header_erase :: "blob_id_t \<Rightarrow> nat \<Rightarrow> w25q_op" where
  "header_erase d len =
     first_erase (blob_slot_base d) (sector_floor (blob_slot_base d + (BLOB_HDR_SIZE + len) + W25Q_SECTOR - 1))"

text \<open>The caller's function fills the buffer it is asked to fill.\<close>

definition src_ok :: "(nat \<Rightarrow> nat \<Rightarrow> 's \<Rightarrow> u8 list option \<times> 's) \<Rightarrow> nat \<Rightarrow> bool" where
  "src_ok src len \<longleftrightarrow> (\<forall>off n s p s'. off + n \<le> len \<longrightarrow> src off n s = (Some p, s') \<longrightarrow> length p = n)"

definition write_args_ok :: "blob_store \<Rightarrow> blob_id_t \<Rightarrow> nat \<Rightarrow> u8 list \<Rightarrow> u8 list \<Rightarrow> bool" where
  "write_args_ok bs d len digest extra \<longleftrightarrow>
     chip_ok (bs_chip bs) \<and> slot_ok bs d \<and> length (bs_info bs) = BLOB_SLOT_COUNT \<and> 0 < len \<and>
     len \<le> blob_slot_capacity d \<and> length digest = 32 \<and> length extra \<le> BLOB_EXTRA_MAX"

lemma sector_floor_mod [simp]: "sector_floor x mod W25Q_SECTOR = 0"
  by (simp add: sector_floor_def minus_mod_eq_mult_div)

lemma sector_floor_aligned: "x mod W25Q_SECTOR = 0 \<Longrightarrow> sector_floor x = x"
  by (simp add: sector_floor_def)

lemma sector_ceil:
  fixes x top :: nat
  assumes "x \<le> top" and "top mod W25Q_SECTOR = 0"
  shows "x \<le> sector_floor (x + W25Q_SECTOR - 1) \<and> sector_floor (x + W25Q_SECTOR - 1) \<le> top"
proof -
  let ?y = "x + W25Q_SECTOR - 1"
  have pos: "0 < W25Q_SECTOR" by (simp add: W25Q_SECTOR_def)
  have "?y mod W25Q_SECTOR < W25Q_SECTOR" using pos by simp
  then have lo: "x \<le> sector_floor ?y" using pos unfolding sector_floor_def by linarith
  obtain k where k: "top = W25Q_SECTOR * k" using assms(2) by auto
  have "?y div W25Q_SECTOR \<le> (W25Q_SECTOR * k + (W25Q_SECTOR - 1)) div W25Q_SECTOR"
    using assms(1) k pos by (intro div_le_mono) simp
  also have "\<dots> = k" by (simp add: W25Q_SECTOR_def)
  finally have "W25Q_SECTOR * (?y div W25Q_SECTOR) \<le> top" unfolding k by simp
  moreover have "sector_floor ?y = W25Q_SECTOR * (?y div W25Q_SECTOR)"
    by (simp add: sector_floor_def minus_mod_eq_mult_div)
  ultimately show ?thesis using lo by simp
qed

lemma slot_span:
  assumes "d < BLOB_SLOT_COUNT" and "len \<le> blob_slot_capacity d"
  shows "let b = blob_slot_base d; stop = sector_floor (b + (BLOB_HDR_SIZE + len) + W25Q_SECTOR - 1) in
    b + BLOB_HDR_SIZE + len \<le> stop \<and> stop \<le> b + slot_size d \<and> sector_floor b = b"
proof -
  note b = slot_bounds [OF assms(1)]
  have "blob_slot_base d + (BLOB_HDR_SIZE + len) \<le> blob_slot_base d + slot_size d"
    using assms(2) b(3,5) by simp
  moreover have "(blob_slot_base d + slot_size d) mod W25Q_SECTOR = 0" using b(1,2) by (simp add: mod_add_eq [symmetric])
  ultimately show ?thesis
    using sector_ceil sector_floor_aligned [OF b(1)] unfolding Let_def by (metis add.assoc)
qed

lemma erase_slot_effect:
  assumes "chip_ok q" and "d < BLOB_SLOT_COUNT" and "len \<le> blob_slot_capacity d"
    and "erase_range (blob_slot_base d) (BLOB_HDR_SIZE + len) q = (ok, q')"
  shows "frame (slot_cells d) q q' \<and>
    (ok \<or> fst (w25q_cmd (header_erase d len) q) \<longrightarrow>
      (\<forall>x \<in> {blob_slot_base d..<blob_slot_base d + BLOB_HDR_SIZE}. q_cells q' x = 0xFF))"
proof -
  let ?b = "blob_slot_base d"
  define stop where "stop = sector_floor (?b + (BLOB_HDR_SIZE + len) + W25Q_SECTOR - 1)"
  have span: "?b + BLOB_HDR_SIZE + len \<le> stop" "stop \<le> ?b + slot_size d" "sector_floor ?b = ?b"
    using slot_span [OF assms(2,3)] unfolding Let_def stop_def by simp_all
  note b = slot_bounds [OF assms(2)]
  have run: "erase_loop ?b stop q = (ok, q')"
    using assms(4) span(3) by (simp add: erase_range_def stop_def)
  have al: "stop mod W25Q_SECTOR = 0" by (simp add: stop_def)
  have lim: "stop \<le> 0x1000000" using span b(4) by simp
  have lt: "?b < stop" using span(1) by (simp add: BLOB_HDR_SIZE_def)
  note e = erase_loop_effect [OF assms(1) b(1) al lim run]
  have "q_cells q' x = 0xFF" if "fst (w25q_cmd (header_erase d len) q)" "x \<in> {?b..<?b + BLOB_HDR_SIZE}" for x
    using erase_loop_first [OF assms(1) b(1) al lim lt run] that
    by (simp add: header_erase_def stop_def BLOB_HDR_SIZE_def W25Q_SECTOR_def)
  then show ?thesis
    using e span(1) frame_mono [of "{?b..<stop}" q q' "slot_cells d"] span(2) by (auto simp: slot_cells_def)
qed

lemma blob_write_outcome:
  assumes args: "write_args_ok bs d len digest extra" and src: "src_ok src len"
    and w: "blob_store_write_ext sha256 src d len ver digest extra s bs = (ok, s', bs')"
  shows "frame (slot_cells d) (bs_chip bs) (bs_chip bs') \<and> bs_capacity bs' = bs_capacity bs \<and>
    (\<exists>i. bs_info bs' = (bs_info bs)[d := i] \<and> (if ok then i = image_info len ver digest else i = no_blob)) \<and>
    (ok \<longrightarrow> slot_holds sha256 (q_cells (bs_chip bs')) d len ver digest extra) \<and>
    (fst (w25q_cmd (header_erase d len) (bs_chip bs)) \<longrightarrow>
       slot_view (q_cells (bs_chip bs')) d = no_blob \<or>
       slot_holds sha256 (q_cells (bs_chip bs')) d len ver digest extra)"
proof -
  let ?b = "blob_slot_base d" and ?q = "bs_chip bs" and ?bs = "set_info d no_blob bs"
  let ?img = "image_info len ver digest"
  let ?hdr_cells = "{?b..<?b + BLOB_HDR_SIZE}"
  have ck: "chip_ok ?q" and so: "slot_ok bs d" and li: "length (bs_info bs) = BLOB_SLOT_COUNT"
    and len: "0 < len" "len \<le> blob_slot_capacity d" and dg: "length digest = 32" and ex: "length extra \<le> BLOB_EXTRA_MAX"
    using args by (simp_all add: write_args_ok_def)
  have d: "d < BLOB_SLOT_COUNT" using so by (simp add: slot_ok_def)
  note bd = slot_bounds [OF d]
  obtain ok1 q1 where E: "erase_range ?b (BLOB_HDR_SIZE + len) ?q = (ok1, q1)" by force
  obtain ok2 s2 q2 where P: "program_loop src (?b + BLOB_HDR_SIZE) len 0 s q1 = (ok2, s2, q2)"
    by (cases "program_loop src (?b + BLOB_HDR_SIZE) len 0 s q1") auto
  obtain got q3 where H: "hash_flash sha256 (?b + BLOB_HDR_SIZE) len q2 = (got, q3)" by force
  obtain ok4 q4 where C: "blob_commit d len ver digest extra q3 = (ok4, q4)" by force
  define bs4 where "bs4 = load_slot d (set_chip q4 ?bs)"
  let ?erased = "fst (w25q_cmd (header_erase d len) ?q)"
  note eE = erase_slot_effect [OF ck d len(2) E]
  have fE: "frame (slot_cells d) ?q q1" using eE by simp
  have ck1: "chip_ok q1" using ck frame_chip_ok [OF fE] by simp
  have top: "?b + BLOB_HDR_SIZE + len \<le> 0x1000000" using bd(3,4,5) len(2) by simp
  have hsrc: "length p = n" if "off + n \<le> len" "src off n t = (Some p, t')" for off n t p t'
    using src that unfolding src_ok_def by blast
  have fP: "frame {?b + BLOB_HDR_SIZE..<?b + BLOB_HDR_SIZE + len} q1 q2"
    using program_loop_effect [OF ck1 top hsrc P] by simp
  note eH = hash_flash_effect [OF H]
  have fH: "frame {} q2 q3" and cH: "q_cells q3 = q_cells q2" using eH by (simp_all add: frame_def fun_eq_iff)
  have subD: "{?b + BLOB_HDR_SIZE..<?b + BLOB_HDR_SIZE + len} \<subseteq> slot_cells d" and subH: "?hdr_cells \<subseteq> slot_cells d"
    using bd(3,5) len(2) by (auto simp: slot_cells_def)
  have f2: "frame (slot_cells d) ?q q2" by (rule frame_trans [OF fE fP _ subD]) simp
  have f3: "frame (slot_cells d) ?q q3" by (rule frame_trans [OF f2 fH]) simp_all
  have ck3: "chip_ok q3" using ck frame_chip_ok [OF f3] by simp
  have ff: "q_cells q1 x = 0xFF \<and> q_cells q3 x = 0xFF" if "ok1 \<or> ?erased" "x \<in> ?hdr_cells" for x
    using eE that frame_cell [OF fP, of x] cH by auto
  have empty: "slot_view c d = no_blob" if "\<And>x. x \<in> ?hdr_cells \<Longrightarrow> c x = 0xFF" for c
    using that by (intro erased_no_blob) (simp add: BLOB_COMMIT_OFF_def BLOB_HDR_SIZE_def)
  have none: "slot_view (q_cells q1) d = no_blob" "slot_view (q_cells q3) d = no_blob"
    if "ok1 \<or> ?erased" using ff [OF that] by (auto intro!: empty)
  have w': "(ok, s', bs') =
      (if \<not> ok1 then write_fail ?bs q1 s else if \<not> ok2 then write_fail ?bs q2 s2
       else if got \<noteq> Some digest then write_fail ?bs q3 s2 else if \<not> ok4 then write_fail ?bs q4 s2
       else (bi_present (bs_info bs4 ! d), s2, bs4))"
    using w so len ex E P H C
    by (cases ok1; cases ok2; cases "got = Some digest"; cases ok4)
      (simp_all add: blob_store_write_ext_def Let_def bs4_def set_info_def)
  have fail: ?thesis if "(ok, s', bs') = write_fail ?bs q' s0" "frame (slot_cells d) ?q q'"
      "?erased \<longrightarrow> slot_view (q_cells q') d = no_blob \<or> slot_holds sha256 (q_cells q') d len ver digest extra" for q' s0
    using that by (simp add: write_fail_def set_info_def set_chip_def)
  show ?thesis
  proof (cases "ok1 \<and> ok2 \<and> got = Some digest")
    case False
    then show ?thesis
      using w' none fail [of q1 s] fail [of q2 s2] fail [of q3 s2] fE f2 f3 cH by (auto split: if_splits)
  next
    case True
    have er3: "q_cells q3 x = 0xFF" if "x \<in> ?hdr_cells" for x using ff that True by blast
    note eC = blob_commit_effect [OF ck3 d len dg ex er3 C]
    have fC: "frame ?hdr_cells q3 q4" using eC by simp
    have f4: "frame (slot_cells d) ?q q4" by (rule frame_trans [OF f3 fC _ subH]) simp
    have "slot_data (q_cells q4) d len = slot_data (q_cells q3) d len"
      unfolding slot_data_def by (rule cells_at_cong) (rule frame_cell [OF fC], simp)
    moreover have "sha256 (slot_data (q_cells q3) d len) = digest"
      using eH True cH by (simp add: slot_data_def cells_at_def)
    ultimately have holds: "slot_view (q_cells q4) d = no_blob \<or> slot_holds sha256 (q_cells q4) d len ver digest extra"
      using eC by (auto simp: slot_holds_def image_info_def)
    show ?thesis
    proof (cases ok4)
      case False
      then show ?thesis using w' True holds f4 fail [of q4 s2] by simp
    next
      case ok4: True
      have view: "slot_view (q_cells q4) d = ?img" using eC ok4 by simp
      have wr: "ok = bi_present (bs_info bs4 ! d)" "bs' = bs4" using w' True ok4 by simp_all
      have "d < length (bs_info (set_chip q4 ?bs))" using d li by (simp add: set_info_def set_chip_def)
      note ld = load_slot_effect [OF this, folded bs4_def]
      have f5: "frame {} q4 (bs_chip bs4)" using ld by (simp add: set_chip_def)
      have c5: "q_cells (bs_chip bs4) = q_cells q4" using f5 by (simp add: frame_def fun_eq_iff)
      have info: "bs_info bs4 = (bs_info bs)[d := no_blob] \<or> bs_info bs4 = (bs_info bs)[d := ?img]"
        using ld view by (simp add: set_info_def set_chip_def)
      have fr: "frame (slot_cells d) ?q (bs_chip bs4)" by (rule frame_trans [OF f4 f5]) simp_all
      have "slot_view (q_cells q4) d \<noteq> no_blob" using view by (simp add: image_info_def no_blob_def)
      then have "slot_holds sha256 (q_cells q4) d len ver digest extra" using holds by simp
      then have holds: "slot_holds sha256 (q_cells (bs_chip bs')) d len ver digest extra" by (simp add: wr c5)
      have cap: "bs_capacity bs' = bs_capacity bs" using ld by (simp add: wr set_info_def set_chip_def)
      have fr': "frame (slot_cells d) ?q (bs_chip bs')" using fr by (simp add: wr)
      have "\<exists>i. bs_info bs' = (bs_info bs)[d := i] \<and> (if ok then i = ?img else i = no_blob)"
        using info
      proof
        assume i: "bs_info bs4 = (bs_info bs)[d := no_blob]"
        then have "\<not> ok" using d li by (simp add: wr(1) no_blob_def)
        with i wr show ?thesis by auto
      next
        assume i: "bs_info bs4 = (bs_info bs)[d := ?img]"
        then have "ok" using d li by (simp add: wr(1) image_info_def)
        with i wr show ?thesis by auto
      qed
      with holds cap fr' show ?thesis by blast
    qed
  qed
qed

subsection \<open>A write succeeds when the chip answers\<close>

definition chip_live :: "w25q \<Rightarrow> bool" where
  "chip_live q \<longleftrightarrow> (\<forall>n op c. op_legal op \<longrightarrow> fst (q_do q n op c)) \<and> (\<forall>n. q_read_ok q n)"

lemma frame_live: "frame A q q' \<Longrightarrow> chip_live q' \<longleftrightarrow> chip_live q"
  by (simp add: frame_def chip_live_def)

lemma cmd_live: "chip_live q \<Longrightarrow> op_legal op \<Longrightarrow> fst (w25q_cmd op q)"
  unfolding chip_live_def w25q_cmd_def Let_def by (simp add: case_prod_unfold)

lemma program_live:
  assumes "chip_ok q" and "chip_live q" and "a + length buf \<le> 0x1000000"
  shows "fst (w25q_program a buf q)"
  using assms
proof (induction a buf q rule: w25q_program.induct)
  case (1 a buf q)
  show ?case
  proof (cases "buf = []")
    case True
    then show ?thesis by (simp add: w25q_program.simps [of a "[]"])
  next
    case False
    define n where "n = (if length buf < W25Q_PAGE - a mod W25Q_PAGE then length buf else W25Q_PAGE - a mod W25Q_PAGE)"
    have "a mod W25Q_PAGE < W25Q_PAGE" by (simp add: W25Q_PAGE_def)
    then have n: "n \<le> length buf" "a mod W25Q_PAGE + n \<le> W25Q_PAGE" by (auto simp: n_def)
    have leg: "op_legal (Q_Program a (take n buf))" using n 1(4) by simp
    obtain q1 where c: "w25q_cmd (Q_Program a (take n buf)) q = (True, q1)"
      using cmd_live [OF 1(3) leg] by (metis prod.collapse)
    have fr: "frame (op_cells (Q_Program a (take n buf))) q q1" using cmd_effect [OF 1(2) leg c] by simp
    have "fst (w25q_program (a + n) (drop n buf) q1)"
      using 1(1) [OF False refl n_def refl c [symmetric]] 1(2-4) frame_chip_ok [OF fr] frame_live [OF fr] n by simp
    then show ?thesis using False c by (subst w25q_program.simps) (simp add: n_def [symmetric] Let_def)
  qed
qed

lemma erase_loop_live:
  assumes "chip_ok q" and "chip_live q" and "a mod W25Q_SECTOR = 0" and "stop mod W25Q_SECTOR = 0"
    and "stop \<le> 0x1000000"
  shows "fst (erase_loop a stop q)"
  using assms
proof (induction "stop - a" arbitrary: a q rule: less_induct)
  case less
  show ?case
  proof (cases "a < stop")
    case False
    then show ?thesis by (simp add: erase_loop.simps [of a stop])
  next
    case True
    obtain n where fe: "first_erase a stop = Q_Erase a n" by (simp add: first_erase_def)
    note leg = first_erase_legal [OF less(4,5) True less(6) fe]
    obtain q1 where c: "w25q_cmd (Q_Erase a n) q = (True, q1)"
      using cmd_live [OF less(3)] leg by (metis prod.collapse)
    have fr: "frame (op_cells (Q_Erase a n)) q q1" using cmd_effect [OF less(2) _ c] leg by simp
    have "0 < n" using leg by (auto simp: W25Q_SECTOR_def)
    then have dec: "stop - (a + n) < stop - a" using True by simp
    have al: "(a + n) mod W25Q_SECTOR = 0" using leg by simp
    have "chip_ok q1" "chip_live q1" using less(2,3) frame_chip_ok [OF fr] frame_live [OF fr] by simp_all
    from less(1) [OF dec this al less(5,6)] show ?thesis
      using erase_loop_step [OF True fe, of q] c by simp
  qed
qed

text \<open>A source that hands out \<open>img\<close> piece by piece, from the states that satisfy \<open>I\<close>.\<close>

definition serves :: "(nat \<Rightarrow> nat \<Rightarrow> 's \<Rightarrow> u8 list option \<times> 's) \<Rightarrow> ('s \<Rightarrow> bool) \<Rightarrow> u8 list \<Rightarrow> bool" where
  "serves src I img \<longleftrightarrow>
     (\<forall>off n s. I s \<longrightarrow> off + n \<le> length img \<longrightarrow>
        fst (src off n s) = Some (take n (drop off img)) \<and> I (snd (src off n s)))"

lemma program_loop_live:
  assumes "chip_ok q" and "chip_live q" and "data + length img \<le> 0x1000000" and "serves src I img" and "src_ok src (length img)" and "I s"
    and "off \<le> length img"
    and "\<And>x. data + off \<le> x \<Longrightarrow> x < data + length img \<Longrightarrow> q_cells q x = 0xFF"
  shows "\<exists>s' q'. program_loop src data (length img) off s q = (True, s', q') \<and>
    (\<forall>i. off \<le> i \<and> i < length img \<longrightarrow> q_cells q' (data + i) = img ! i)"
  using assms
proof (induction "length img - off" arbitrary: off s q rule: less_induct)
  case less
  show ?case
  proof (cases "off < length img")
    case False
    then show ?thesis by (subst program_loop.simps) auto
  next
    case True
    define n where "n = (if length img - off < W25Q_PAGE then length img - off else W25Q_PAGE)"
    have n: "off + n \<le> length img" using True by (auto simp: n_def)
    define page where "page = take n (drop off img)"
    have lp: "length page = n" using n by (simp add: page_def)
    obtain s1 where r: "src off n s = (Some page, s1)" and I1: "I s1"
      using less(5,7) n unfolding serves_def page_def by (metis prod.collapse)
    have lim: "data + off + length page \<le> 0x1000000" using less(4) n lp by simp
    obtain q1 where p: "w25q_program (data + off) page q = (True, q1)"
      using program_live [OF less(2,3) lim] by (metis prod.collapse)
    have ff: "q_cells q x = 0xFF" if "data + off \<le> x" "x < data + off + length page" for x
      using less(9) [of x] that n lp by simp
    note pe = program_erased [OF less(2) lim p ff]
    then have fr: "frame {data + off..<data + off + n} q q1" and
      cells: "cells_at (q_cells q1) (data + off) n = page" by (simp_all add: lp)
    have step: "program_loop src data (length img) off s q =
        program_loop src data (length img) (off + W25Q_PAGE) s1 q1"
      using True r p by (subst program_loop.simps) (simp add: n_def [symmetric] Let_def)
    have written: "q_cells q1 (data + i) = img ! i" if "off \<le> i" "i < off + n" for i
    proof -
      have "cells_at (q_cells q1) (data + off) n ! (i - off) = q_cells q1 (data + off + (i - off))"
        using that by (simp add: cells_at_def)
      moreover have "page ! (i - off) = img ! i" using that n by (simp add: page_def)
      ultimately show ?thesis using cells that by simp
    qed
    show ?thesis
    proof (cases "off + W25Q_PAGE \<le> length img")
      case False
      then have n': "n = length img - off" by (auto simp: n_def)
      have "program_loop src data (length img) (off + W25Q_PAGE) s1 q1 = (True, s1, q1)"
        using False by (subst program_loop.simps) simp
      then show ?thesis using step written n' True by auto
    next
      case more_pages: True
      then have n': "n = W25Q_PAGE" by (simp add: n_def)
      have dec: "length img - (off + W25Q_PAGE) < length img - off" using True by (simp add: W25Q_PAGE_def)
      have "chip_ok q1" "chip_live q1" using less(2,3) frame_chip_ok [OF fr] frame_live [OF fr] by simp_all
      moreover have ff': "q_cells q1 x = 0xFF" if "data + (off + W25Q_PAGE) \<le> x" "x < data + length img" for x
        using frame_cell [OF fr, of x] less(9) [of x] that n' by simp
      ultimately obtain s' q' where rec: "program_loop src data (length img) (off + W25Q_PAGE) s1 q1 = (True, s', q')"
        and rest: "\<And>i. off + W25Q_PAGE \<le> i \<Longrightarrow> i < length img \<Longrightarrow> q_cells q' (data + i) = img ! i"
        using less(1) [OF dec _ _ less(4,5,6) I1 more_pages] by blast
      have hs: "length t = m" if "o' + m \<le> length img" "src o' m u = (Some t, u')" for o' m u t u'
        using less(6) that unfolding src_ok_def by blast
      have fr2: "frame {data + (off + W25Q_PAGE)..<data + length img} q1 q'"
        using program_loop_effect [OF \<open>chip_ok q1\<close> less(4) hs rec] by simp
      have "q_cells q' (data + i) = img ! i" if "off \<le> i" "i < length img" for i
      proof (cases "i < off + n")
        case True
        then have "q_cells q' (data + i) = q_cells q1 (data + i)" using n' by (intro frame_cell [OF fr2]) simp
        with written True that show ?thesis by simp
      next
        case False
        with rest that n' show ?thesis by simp
      qed
      with step rec show ?thesis by auto
    qed
  qed
qed

lemma hash_loop_live:
  assumes "chip_live q"
  shows "fst (hash_loop a len off ctx q) \<noteq> None"
  using assms
proof (induction a len off ctx q rule: hash_loop.induct)
  case (1 a len off ctx q)
  show ?case
  proof (cases "off < len")
    case False
    then show ?thesis by (simp add: hash_loop.simps [of a len off])
  next
    case True
    define n where "n = (if len - off < W25Q_PAGE then len - off else W25Q_PAGE)"
    obtain buf q1 where b: "w25q_read (a + off) n q = (Some buf, q1)"
      using 1(2) by (cases "n = 0") (simp_all add: w25q_read_def chip_live_def)
    have "chip_live q1" using 1(2) read_effect [OF b] frame_live by blast
    then have "fst (hash_loop a len (off + W25Q_PAGE) (ctx @ buf) q1) \<noteq> None"
      using 1(1) [OF _ n_def b [symmetric] refl] True by simp
    then show ?thesis using True b by (subst hash_loop.simps) (simp add: n_def [symmetric] Let_def)
  qed
qed

lemma blob_commit_live:
  assumes "chip_ok q" and "chip_live q" and "d < BLOB_SLOT_COUNT" and "length digest = 32"
    and "length extra \<le> BLOB_EXTRA_MAX"
  shows "fst (blob_commit d len ver digest extra q)"
proof -
  let ?b = "blob_slot_base d" and ?hdr = "blob_hdr_bytes (blob_new_hdr d len ver digest)"
  have lim: "?b + 0x1000 \<le> 0x1000000" using slot_bounds(3,4) [OF assms(3)] by (simp add: BLOB_HDR_SIZE_def)
  have lh: "length ?hdr = 64" using length_blob_hdr_bytes [of "blob_new_hdr d len ver digest"] assms(4)
    by (simp add: blob_new_hdr_def BLOB_HDR_LEN_def)
  have keep: "chip_ok q2 \<and> chip_live q2"
    if "w25q_program a buf q1 = (ok, q2)" "chip_ok q1" "chip_live q1" "a + length buf \<le> 0x1000000" for a buf q1 q2 ok
    using program_effect [OF that(2,4,1)] frame_chip_ok frame_live that(2,3) by blast
  have la: "?b + BLOB_EXTRA_OFF + length extra \<le> 0x1000000"
    using lim assms(5) by (simp add: BLOB_EXTRA_OFF_def BLOB_EXTRA_MAX_def)
  obtain qa where A: "(if extra = [] then (True, q) else w25q_program (?b + BLOB_EXTRA_OFF) extra q) = (True, qa)"
      "chip_ok qa \<and> chip_live qa"
    using program_live [OF assms(1,2) la] keep [OF _ assms(1,2) la] assms(1,2)
    by (cases "extra = []"; cases "w25q_program (?b + BLOB_EXTRA_OFF) extra q") auto
  have lb: "?b + length ?hdr \<le> 0x1000000" using lim lh by simp
  obtain qb where B: "w25q_program ?b ?hdr qa = (True, qb)" "chip_ok qb \<and> chip_live qb"
    using program_live [OF _ _ lb] keep [OF _ _ _ lb] A(2) by (cases "w25q_program ?b ?hdr qa") fastforce
  have "fst (w25q_program (?b + BLOB_COMMIT_OFF) (le32 BLOB_COMMIT_MAGIC) qb)"
    using B(2) lim by (intro program_live) (simp_all add: BLOB_COMMIT_OFF_def)
  then show ?thesis by (simp add: blob_commit_def Let_def A(1) B(1))
qed

lemma blob_write_live:
  assumes args: "write_args_ok bs d (length img) digest extra" and live: "chip_live (bs_chip bs)"
    and src: "serves src I img" "src_ok src (length img)" "I s" and sha: "sha256 img = digest"
  shows "\<exists>s' bs'. blob_store_write_ext sha256 src d (length img) ver digest extra s bs = (True, s', bs') \<and>
    slot_data (q_cells (bs_chip bs')) d (length img) = img"
proof -
  let ?b = "blob_slot_base d" and ?q = "bs_chip bs" and ?bs = "set_info d no_blob bs" and ?len = "length img"
  have ck: "chip_ok ?q" and so: "slot_ok bs d" and li: "length (bs_info bs) = BLOB_SLOT_COUNT"
    and len: "0 < ?len" "?len \<le> blob_slot_capacity d" and dg: "length digest = 32" and ex: "length extra \<le> BLOB_EXTRA_MAX"
    using args by (simp_all add: write_args_ok_def)
  have d: "d < BLOB_SLOT_COUNT" using so by (simp add: slot_ok_def)
  note bd = slot_bounds [OF d]
  have span: "let stop = sector_floor (?b + (BLOB_HDR_SIZE + ?len) + W25Q_SECTOR - 1) in
      ?b + BLOB_HDR_SIZE + ?len \<le> stop \<and> stop \<le> 0x1000000 \<and> sector_floor ?b = ?b"
    using slot_span [OF d len(2)] bd(4) by (simp add: Let_def)
  then have stop: "sector_floor (?b + (BLOB_HDR_SIZE + ?len) + W25Q_SECTOR - 1) \<le> 0x1000000"
    "?b + BLOB_HDR_SIZE + ?len \<le> sector_floor (?b + (BLOB_HDR_SIZE + ?len) + W25Q_SECTOR - 1)"
    and fl: "sector_floor ?b = ?b" by (simp_all add: Let_def)
  obtain q1 where E: "erase_range ?b (BLOB_HDR_SIZE + ?len) ?q = (True, q1)"
    using erase_loop_live [OF ck live bd(1) sector_floor_mod stop(1)] fl
    unfolding erase_range_def by (metis prod.collapse)
  have run: "erase_loop ?b (sector_floor (?b + (BLOB_HDR_SIZE + ?len) + W25Q_SECTOR - 1)) ?q = (True, q1)"
    using E fl by (simp add: erase_range_def)
  note eE = erase_loop_effect [OF ck bd(1) sector_floor_mod stop(1) run]
  have k1: "chip_ok q1" "chip_live q1" using eE ck live frame_chip_ok frame_live by blast+
  have ff1: "q_cells q1 x = 0xFF" if "?b \<le> x" "x < ?b + BLOB_HDR_SIZE + ?len" for x
    using eE stop(2) that by simp
  have top: "?b + BLOB_HDR_SIZE + ?len \<le> 0x1000000" using stop by simp
  obtain s2 q2 where P: "program_loop src (?b + BLOB_HDR_SIZE) ?len 0 s q1 = (True, s2, q2)"
      and content: "\<And>i. i < ?len \<Longrightarrow> q_cells q2 (?b + BLOB_HDR_SIZE + i) = img ! i"
    using program_loop_live [OF k1 top src, of 0] ff1 by auto
  have hs: "length t = m" if "o' + m \<le> ?len" "src o' m u = (Some t, u')" for o' m u t u'
    using src(2) that unfolding src_ok_def by blast
  have fP: "frame {?b + BLOB_HDR_SIZE..<?b + BLOB_HDR_SIZE + ?len} q1 q2"
    using program_loop_effect [OF k1(1) top hs P] by simp
  have k2: "chip_ok q2" "chip_live q2" using fP k1 frame_chip_ok frame_live by blast+
  obtain got q3 where H: "hash_flash sha256 (?b + BLOB_HDR_SIZE) ?len q2 = (got, q3)" by force
  have "got \<noteq> None"
    using hash_loop_live [OF k2(2), of "?b + BLOB_HDR_SIZE" ?len 0 "[]"] H by (auto simp: hash_flash_def split: prod.splits)
  moreover have "map (q_cells q2) [?b + BLOB_HDR_SIZE..<?b + BLOB_HDR_SIZE + ?len] = img"
    by (rule nth_equalityI) (simp_all add: content)
  ultimately have got: "got = Some digest" and fH: "frame {} q2 q3" using hash_flash_effect [OF H] sha by auto
  have k3: "chip_ok q3" "chip_live q3" using fH k2 frame_chip_ok frame_live by blast+
  obtain q4 where C: "blob_commit d ?len ver digest extra q3 = (True, q4)"
    using blob_commit_live [OF k3 d dg ex] by (metis prod.collapse)
  have er3: "q_cells q3 x = 0xFF" if "x \<in> {?b..<?b + BLOB_HDR_SIZE}" for x
    using that ff1 [of x] frame_cell [OF fP, of x] frame_cell [OF fH, of x] by simp
  note eC = blob_commit_effect [OF k3(1) d len dg ex er3 C]
  have k4: "chip_live q4" using eC k3 frame_live by blast
  define bs4 where "bs4 = load_slot d (set_chip q4 ?bs)"
  have "bs_info bs4 = (bs_info bs)[d := slot_view (q_cells q4) d]"
    unfolding bs4_def using k4 by (subst load_slot_reads) (simp_all add: chip_live_def set_chip_def set_info_def)
  then have pr: "bi_present (bs_info bs4 ! d)" using eC d li by (simp add: image_info_def)
  have "d < length (bs_info (set_chip q4 ?bs))" using d li by (simp add: set_info_def set_chip_def)
  from load_slot_effect [OF this] have "frame {} q4 (bs_chip bs4)" by (simp add: bs4_def set_chip_def)
  then have c4: "q_cells (bs_chip bs4) = q_cells q4" by (simp add: frame_def fun_eq_iff)
  have fC: "frame {?b..<?b + BLOB_HDR_SIZE} q3 q4" using eC by simp
  have "slot_data (q_cells q4) d ?len = img"
    unfolding slot_data_def
    by (rule cells_at_eqI) (simp add: frame_cell [OF fC] frame_cell [OF fH] content)
  moreover have "bs_chip ?bs = ?q" by (simp add: set_info_def)
  ultimately show ?thesis
    using so len ex E P H got C pr c4
    by (simp add: blob_store_write_ext_def Let_def bs4_def [symmetric])
qed

subsection \<open>Reading the slots after a boot\<close>

lemma load_step_effect:
  assumes "e < length (bs_info bs)" and "chip_live (bs_chip bs)" and "load_step e (n, bs) = (n', bs')"
  shows "frame {} (bs_chip bs) (bs_chip bs') \<and> bs_capacity bs' = bs_capacity bs \<and>
    bs_info bs' = (if slot_ok bs e then (bs_info bs)[e := slot_view (q_cells (bs_chip bs)) e] else bs_info bs)"
  using load_slot_effect [OF assms(1)] load_slot_reads [of bs e] assms(2,3)
  by (auto simp: load_step_def Let_def chip_live_def split: if_splits)

lemma load_steps_effect:
  assumes "distinct ds" and "\<forall>e \<in> set ds. e < length (bs_info bs)" and "chip_live (bs_chip bs)"
    and "fold load_step ds (n, bs) = (n', bs')"
  shows "frame {} (bs_chip bs) (bs_chip bs') \<and> bs_capacity bs' = bs_capacity bs \<and>
    length (bs_info bs') = length (bs_info bs) \<and>
    (\<forall>e < length (bs_info bs). bs_info bs' ! e =
       (if e \<in> set ds \<and> slot_ok bs e then slot_view (q_cells (bs_chip bs)) e else bs_info bs ! e))"
  using assms
proof (induction ds arbitrary: n bs)
  case Nil
  then show ?case by simp
next
  case (Cons d ds)
  obtain n1 bs1 where s1: "load_step d (n, bs) = (n1, bs1)" by force
  have e1: "frame {} (bs_chip bs) (bs_chip bs1) \<and> bs_capacity bs1 = bs_capacity bs \<and>
      bs_info bs1 = (if slot_ok bs d then (bs_info bs)[d := slot_view (q_cells (bs_chip bs)) d] else bs_info bs)"
    using load_step_effect [OF _ _ s1] Cons.prems by simp
  have ok: "slot_ok bs1 e = slot_ok bs e" for e using e1 by (simp add: slot_ok_def)
  have c1: "q_cells (bs_chip bs1) = q_cells (bs_chip bs)" using e1 by (simp add: frame_def fun_eq_iff)
  have l1: "length (bs_info bs1) = length (bs_info bs)" using e1 by simp
  have live: "chip_live (bs_chip bs1)" using e1 Cons.prems(3) frame_live by blast
  have rec: "fold load_step ds (n1, bs1) = (n', bs')" using Cons.prems(4) s1 by simp
  have ih: "frame {} (bs_chip bs1) (bs_chip bs') \<and> bs_capacity bs' = bs_capacity bs1 \<and>
      length (bs_info bs') = length (bs_info bs1) \<and>
      (\<forall>e < length (bs_info bs1). bs_info bs' ! e =
         (if e \<in> set ds \<and> slot_ok bs1 e then slot_view (q_cells (bs_chip bs1)) e else bs_info bs1 ! e))"
    using Cons.IH [OF _ _ live rec] Cons.prems(1,2) l1 by simp
  have "frame {} (bs_chip bs) (bs_chip bs')"
    by (rule frame_trans [OF conjunct1 [OF e1] conjunct1 [OF ih]]) simp_all
  moreover have "bs_info bs' ! e =
      (if e \<in> set (d # ds) \<and> slot_ok bs e then slot_view (q_cells (bs_chip bs)) e else bs_info bs ! e)"
    if "e < length (bs_info bs)" for e
    using ih that e1 Cons.prems(1) unfolding ok c1 l1 by (cases "e = d") auto
  ultimately show ?case using ih e1 by simp
qed

lemma blob_store_load_views:
  assumes "q_id (bs_chip bs) = Some jedec" and "0x600000 \<le> w25q_capacity jedec" and "chip_live (bs_chip bs)"
    and "blob_store_load bs = (n, bs')"
  shows "n \<noteq> None \<and> frame {} (bs_chip bs) (bs_chip bs') \<and> bs_capacity bs' = w25q_capacity jedec \<and>
    length (bs_info bs') = BLOB_SLOT_COUNT \<and>
    (\<forall>d. slot_ok bs' d \<longrightarrow> bs_info bs' ! d = slot_view (q_cells (bs_chip bs)) d)"
proof -
  let ?b0 = "bs\<lparr>bs_info := replicate BLOB_SLOT_COUNT no_blob, bs_capacity := w25q_capacity jedec\<rparr>"
  obtain m b1 where f: "fold load_step [0..<BLOB_SLOT_COUNT] (0, ?b0) = (m, b1)" by force
  have "n = Some m \<and> bs' = b1"
    using assms(1,2,4) f by (simp add: blob_store_load_def w25q_read_id_def set_chip_def Let_def)
  moreover have "slot_ok b1 d = slot_ok ?b0 d" if "bs_capacity b1 = bs_capacity ?b0" for d
    using that by (simp add: slot_ok_def)
  ultimately show ?thesis
    using load_steps_effect [OF _ _ _ f] assms(3) by (auto simp: slot_ok_def)
qed

lemma read_live: "chip_live q \<Longrightarrow> fst (w25q_read a n q) = Some (cells_at (q_cells q) a n)"
  by (simp add: w25q_read_def chip_live_def cells_at_def)

lemma cells_at_slice: "off + k \<le> n \<Longrightarrow> cells_at c (a + off) k = take k (drop off (cells_at c a n))"
  unfolding cells_at_def by (rule nth_equalityI) (simp_all add: add.assoc)

text \<open>What a slot that holds an image answers once its header is in the cache.\<close>

lemma cached_reads:
  assumes d: "d < BLOB_SLOT_COUNT" and live: "chip_live (bs_chip b)"
    and info: "bs_info b ! d = image_info (length img) ver digest"
    and data: "slot_data (q_cells (bs_chip b)) d (length img) = img" and sha: "sha256 img = digest"
  shows "off + k \<le> length img \<Longrightarrow> fst (blob_store_read d off k b) = Some (take k (drop off img))"
    and "k \<le> BLOB_EXTRA_MAX \<Longrightarrow> fst (blob_store_read_extra d k b) = Some (slot_extra (q_cells (bs_chip b)) d k)"
    and "fst (blob_store_verify sha256 d b)"
proof -
  have pr: "blob_store_present b d" using d info by (simp add: blob_store_present_def image_info_def)
  show "fst (blob_store_read d off k b) = Some (take k (drop off img))" if "off + k \<le> length img"
    using d info that data read_live [OF live, of "blob_slot_base d + BLOB_HDR_SIZE + off" k]
      cells_at_slice [OF that, of "q_cells (bs_chip b)" "blob_slot_base d + BLOB_HDR_SIZE"]
    by (simp add: blob_store_read_def image_info_def slot_data_def case_prod_unfold)
  show "fst (blob_store_read_extra d k b) = Some (slot_extra (q_cells (bs_chip b)) d k)" if "k \<le> BLOB_EXTRA_MAX"
    using pr that read_live [OF live] by (simp add: blob_store_read_extra_def slot_extra_def case_prod_unfold)
  obtain got q' where H: "hash_flash sha256 (blob_slot_base d + BLOB_HDR_SIZE) (length img) (bs_chip b) = (got, q')"
    by force
  have "got \<noteq> None"
    using hash_loop_live [OF live, of "blob_slot_base d + BLOB_HDR_SIZE" "length img" 0 "[]"] H
    by (auto simp: hash_flash_def split: prod.splits)
  then have "got = Some digest"
    using hash_flash_effect [OF H] data sha by (auto simp: slot_data_def cells_at_def)
  then show "fst (blob_store_verify sha256 d b)"
    using pr H info by (simp add: blob_store_verify_def image_info_def)
qed

subsection \<open>A concrete chip\<close>

fun ideal_q :: "nat \<Rightarrow> w25q_op \<Rightarrow> qcells \<Rightarrow> bool \<times> qcells" where
  "ideal_q n (Q_Erase a k) c = (True, \<lambda>x. if x \<in> {a..<a + k} then 0xFF else c x)"
| "ideal_q n (Q_Program a bs) c = (True, \<lambda>x. if x \<in> {a..<a + length bs} then c x AND bs ! (x - a) else c x)"

definition sample_store :: blob_store where
  "sample_store = \<lparr>bs_info = replicate BLOB_SLOT_COUNT no_blob, bs_capacity = 8 * 1024 * 1024,
     bs_chip = \<lparr>q_cells = (\<lambda>_. 0), q_n = 0, q_do = ideal_q, q_read_ok = (\<lambda>_. True), q_id = Some [0xEF, 0x40, 0x17]\<rparr>\<rparr>"

definition sample_digest :: "u8 list \<Rightarrow> u8 list" where
  "sample_digest bs = replicate 32 (sum_list bs)"

definition sample_src :: "u8 list \<Rightarrow> nat \<Rightarrow> nat \<Rightarrow> unit \<Rightarrow> u8 list option \<times> unit" where
  "sample_src img off n s = (Some (take n (drop off img)), s)"

lemma sample_chip_ok: "chip_ok (bs_chip sample_store)" "chip_live (bs_chip sample_store)"
proof -
  have "(\<forall>x. x \<notin> op_cells op \<longrightarrow> snd (ideal_q n op c) x = c x) \<and> op_done op c (snd (ideal_q n op c)) \<and> fst (ideal_q n op c)"
    for n op c by (cases op) auto
  then show "chip_ok (bs_chip sample_store)" "chip_live (bs_chip sample_store)"
    by (simp_all add: chip_ok_def chip_live_def sample_store_def)
qed

lemma sample_args: "write_args_ok sample_store BLOB_CA 3 (sample_digest [1, 2, 3]) [9]"
  using sample_chip_ok
  by (simp add: write_args_ok_def slot_ok_def sample_store_def slot_geometry BLOB_CA_def BLOB_COUNT_def
      BLOB_EXTRA_MAX_def sample_digest_def)

lemma sample_args': "write_args_ok sample_store BLOB_CA (length [1, 2, 3 :: u8]) (sample_digest [1, 2, 3]) [9]"
  using sample_args by (simp add: numeral_3_eq_3)

lemma sample_serves: "serves (sample_src img) (\<lambda>_. True) img" "src_ok (sample_src img) (length img)"
  by (auto simp: serves_def src_ok_def sample_src_def)

subsection \<open>Properties\<close>

text \<open>
  C4. A write of an image leaves every other slot as it was, and, once the erase of the old header was
  acknowledged, it leaves its own slot either empty or holding the whole new image: a committed header
  with the given length, version and digest, data that hashes to that digest, and the extra bytes. This
  holds at whichever command the chip fails or power is lost, whatever the interrupted command left in
  its own range. The write returns 0 exactly when the cache says the new image is there, and then it is.
\<close>

theorem blob_write_all_or_nothing:
  assumes "write_args_ok bs d len digest extra" and "src_ok src len"
    and "blob_store_write_ext sha256 src d len ver digest extra s bs = (ok, s', bs')"
  shows "(\<forall>x. x \<notin> slot_cells d \<longrightarrow> q_cells (bs_chip bs') x = q_cells (bs_chip bs) x) \<and>
    (\<forall>e < BLOB_SLOT_COUNT. e \<noteq> d \<longrightarrow>
       slot_view (q_cells (bs_chip bs')) e = slot_view (q_cells (bs_chip bs)) e \<and> bs_info bs' ! e = bs_info bs ! e) \<and>
    (fst (w25q_cmd (header_erase d len) (bs_chip bs)) \<longrightarrow>
       slot_view (q_cells (bs_chip bs')) d = no_blob \<or>
       slot_holds sha256 (q_cells (bs_chip bs')) d len ver digest extra) \<and>
    (ok \<longleftrightarrow> blob_store_present bs' d) \<and>
    (ok \<longrightarrow> slot_holds sha256 (q_cells (bs_chip bs')) d len ver digest extra)"
proof -
  have d: "d < BLOB_SLOT_COUNT" "length (bs_info bs) = BLOB_SLOT_COUNT"
    using assms(1) by (simp_all add: write_args_ok_def slot_ok_def)
  note out = blob_write_outcome [OF assms]
  then have fr: "frame (slot_cells d) (bs_chip bs) (bs_chip bs')" by blast
  have "slot_view (q_cells (bs_chip bs')) e = slot_view (q_cells (bs_chip bs)) e"
    if "e < BLOB_SLOT_COUNT" "e \<noteq> d" for e
    using that d slots_disjoint [of e d] by (intro slot_view_cong frame_cell [OF fr]) auto
  moreover obtain i where i: "bs_info bs' = (bs_info bs)[d := i]" "if ok then i = image_info len ver digest else i = no_blob"
    using out by blast
  moreover from i d have "ok \<longleftrightarrow> blob_store_present bs' d"
    by (auto simp: blob_store_present_def image_info_def no_blob_def split: if_splits)
  ultimately show ?thesis using out frame_cell [OF fr] by simp
qed

theorem blob_write_all_or_nothing_witness:
  "\<exists>bs'. blob_store_write_ext sample_digest (sample_src [1, 2, 3]) BLOB_CA 3 7 (sample_digest [1, 2, 3]) [9] () sample_store =
      (True, (), bs') \<and>
    slot_holds sample_digest (q_cells (bs_chip bs')) BLOB_CA 3 7 (sample_digest [1, 2, 3]) [9]"
proof -
  obtain bs' where w: "blob_store_write_ext sample_digest (sample_src [1, 2, 3]) BLOB_CA 3 7 (sample_digest [1, 2, 3]) [9] ()
      sample_store = (True, (), bs')"
    using blob_write_live [where ?sha256.0 = sample_digest and ver = 7 and s = "()",
        OF sample_args' sample_chip_ok(2) sample_serves TrueI refl] by (auto simp: numeral_3_eq_3)
  have "src_ok (sample_src [1, 2, 3]) 3" using sample_serves(2) [of "[1, 2, 3]"] by (simp add: numeral_3_eq_3)
  from w blob_write_all_or_nothing [OF sample_args this w] show ?thesis by blast
qed

text \<open>
  On a chip that answers, writing an image whose digest is the one announced succeeds, and after a
  reboot the slot is found again: any piece of the image and the extra bytes read back as they were
  written, and the stored data passes the check against its header.
\<close>

theorem blob_roundtrip:
  assumes "write_args_ok bs d (length img) digest extra" and "chip_live (bs_chip bs)" and "serves src I img"
    and "src_ok src (length img)" and "I s" and "sha256 img = digest" and "q_id (bs_chip bs) = Some jedec" and "bs_capacity bs = w25q_capacity jedec"
    and "0x600000 \<le> w25q_capacity jedec"
  shows "\<exists>s' bs' n b.
    blob_store_write_ext sha256 src d (length img) ver digest extra s bs = (True, s', bs') \<and>
    blob_store_load bs' = (Some n, b) \<and>
    (\<forall>off k. off + k \<le> length img \<longrightarrow> fst (blob_store_read d off k b) = Some (take k (drop off img))) \<and>
    fst (blob_store_read_extra d (length extra) b) = Some extra \<and> fst (blob_store_verify sha256 d b)"
proof -
  obtain s' bs' where w: "blob_store_write_ext sha256 src d (length img) ver digest extra s bs = (True, s', bs')"
      and data: "slot_data (q_cells (bs_chip bs')) d (length img) = img"
    using blob_write_live [where ?sha256.0 = sha256, OF assms(1-6)] by blast
  have out: "frame (slot_cells d) (bs_chip bs) (bs_chip bs')" "bs_capacity bs' = bs_capacity bs"
      "slot_holds sha256 (q_cells (bs_chip bs')) d (length img) ver digest extra"
    using blob_write_outcome [OF assms(1,4) w] by simp_all
  have live: "chip_live (bs_chip bs')" using out(1) assms(2) frame_live by blast
  have id: "q_id (bs_chip bs') = Some jedec" using out(1) assms(7) by (simp add: frame_def)
  obtain n0 b where l0: "blob_store_load bs' = (n0, b)" by force
  note ld = blob_store_load_views [OF id assms(9) live l0]
  then obtain n where l: "blob_store_load bs' = (Some n, b)" using l0 by auto
  have cb: "q_cells (bs_chip b) = q_cells (bs_chip bs')" using ld by (simp add: frame_def fun_eq_iff)
  have lb: "chip_live (bs_chip b)" using ld live frame_live by blast
  have so: "slot_ok b d" and d: "d < BLOB_SLOT_COUNT" and ex: "length extra \<le> BLOB_EXTRA_MAX"
    using assms(1,8) ld by (auto simp: write_args_ok_def slot_ok_def)
  have info: "bs_info b ! d = image_info (length img) ver digest"
    using ld so out(3) by (simp add: slot_holds_def image_info_def)
  have "slot_extra (q_cells (bs_chip b)) d (length extra) = extra" using out(3) by (simp add: slot_holds_def cb)
  with cached_reads [where ?sha256.0 = sha256, OF d lb info _ assms(6)] data ex w l show ?thesis
    unfolding cb by fastforce
qed

theorem blob_roundtrip_witness:
  "\<exists>bs' n b. blob_store_write_ext sample_digest (sample_src [1, 2, 3]) BLOB_CA 3 7 (sample_digest [1, 2, 3]) [9] () sample_store =
      (True, (), bs') \<and>
    blob_store_load bs' = (Some n, b) \<and> fst (blob_store_read BLOB_CA 1 2 b) = Some [2, 3]"
proof -
  have "\<exists>s' bs' n b.
    blob_store_write_ext sample_digest (sample_src [1, 2, 3]) BLOB_CA (length [1, 2, 3 :: u8]) 7 (sample_digest [1, 2, 3]) [9] ()
      sample_store = (True, s', bs') \<and> blob_store_load bs' = (Some n, b) \<and>
    (\<forall>off k. off + k \<le> length [1, 2, 3 :: u8] \<longrightarrow> fst (blob_store_read BLOB_CA off k b) = Some (take k (drop off [1, 2, 3]))) \<and>
    fst (blob_store_read_extra BLOB_CA (length [9 :: u8]) b) = Some [9] \<and> fst (blob_store_verify sample_digest BLOB_CA b)"
    by (rule blob_roundtrip [where ?sha256.0 = sample_digest and jedec = "[0xEF, 0x40, 0x17]",
          OF sample_args' sample_chip_ok(2) sample_serves TrueI refl])
      (simp_all add: sample_store_def w25q_capacity_def)
  then obtain bs' n b where "blob_store_write_ext sample_digest (sample_src [1, 2, 3]) BLOB_CA 3 7 (sample_digest [1, 2, 3]) [9] ()
      sample_store = (True, (), bs')" "blob_store_load bs' = (Some n, b)"
    "\<forall>off k. off + k \<le> 3 \<longrightarrow> fst (blob_store_read BLOB_CA off k b) = Some (take k (drop off [1, 2, 3]))"
    by (auto simp: numeral_3_eq_3)
  moreover from this(3) have "fst (blob_store_read BLOB_CA 1 2 b) = Some [2, 3]"
    by (simp add: numeral_2_eq_2)
  ultimately show ?thesis by blast
qed

end
