(* ===== verification/PodOta.thy ===== *)
theory PodOta
  imports BlobStore B64url
begin

section \<open>The update session of the pod\<close>

text \<open>
  The model of \<^verbatim>\<open>stm32h563/src/ota.c\<close> and \<^verbatim>\<open>fw_info.c\<close>: one update at a time is staged in the PSRAM,
  checked, and installed. The statics are one record, together with the PSRAM, the image slots and the
  signature policy in force, which another file changes while the pod runs. What is not this file's is an
  input: SHA-256 and SHA-512, Ed25519 and the trusted keys, the checks and the installer of configuration
  blobs (weak symbols another file defines; the installer writes the pod's own flash), and the PSRAM's
  answers, which may fail at any access and leave the range written in any state. Where the C returns 0 the model returns true. Texts that are only printed are left out.
\<close>

subsection \<open>The PSRAM\<close>

record psram =
  r_cells :: qcells
  r_n :: nat
  r_do :: "nat \<Rightarrow> nat \<Rightarrow> u8 list \<Rightarrow> qcells \<Rightarrow> bool \<times> qcells"
  r_read_ok :: "nat \<Rightarrow> bool"

definition psram_write :: "nat \<Rightarrow> u8 list \<Rightarrow> psram \<Rightarrow> bool \<times> psram" where
  "psram_write a buf r =
     (let (ok, c) = r_do r (r_n r) a buf (r_cells r) in (ok, r\<lparr>r_cells := c, r_n := r_n r + 1\<rparr>))"

definition psram_read :: "nat \<Rightarrow> nat \<Rightarrow> psram \<Rightarrow> u8 list option \<times> psram" where
  "psram_read a n r =
     ((if r_read_ok r (r_n r) then Some (map (r_cells r) [a..<a + n]) else None), r\<lparr>r_n := r_n r + 1\<rparr>)"

subsection \<open>Types and state\<close>

datatype ota_state_t = OTA_IDLE | OTA_RECEIVING | OTA_VERIFIED | OTA_ERROR | OTA_INSTALLED

type_synonym ota_target_t = nat

definition OTA_TARGET_FIRMWARE :: ota_target_t where "OTA_TARGET_FIRMWARE = 0"
definition OTA_TARGET_GW0 :: ota_target_t where "OTA_TARGET_GW0 = 1"
definition OTA_TARGET_GW1 :: ota_target_t where "OTA_TARGET_GW1 = 2"
definition OTA_TARGET_ESP :: ota_target_t where "OTA_TARGET_ESP = 3"
definition OTA_TARGET_CA :: ota_target_t where "OTA_TARGET_CA = 4"
definition OTA_TARGET_TLS :: ota_target_t where "OTA_TARGET_TLS = 5"
definition OTA_TARGET_BRIDGE :: ota_target_t where "OTA_TARGET_BRIDGE = 6"

lemmas ota_targets = OTA_TARGET_FIRMWARE_def OTA_TARGET_GW0_def OTA_TARGET_GW1_def OTA_TARGET_ESP_def
  OTA_TARGET_CA_def OTA_TARGET_TLS_def OTA_TARGET_BRIDGE_def

type_synonym ota_owner_t = int

definition OTA_OWNER_NONE :: ota_owner_t where "OTA_OWNER_NONE = 0"
definition OTA_OWNER_CLOUD :: ota_owner_t where "OTA_OWNER_CLOUD = 1"
definition OTA_OWNER_USB :: ota_owner_t where "OTA_OWNER_USB = 2"
definition OTA_OWNER_LAN :: "int \<Rightarrow> ota_owner_t" where "OTA_OWNER_LAN conn = 16 + conn"
definition OTA_TAKEOVER_IDLE_MS :: u32 where "OTA_TAKEOVER_IDLE_MS = 30000"

lemmas ota_owners = OTA_OWNER_NONE_def OTA_OWNER_CLOUD_def OTA_OWNER_USB_def OTA_OWNER_LAN_def

definition OTA_PSRAM_BASE :: nat where "OTA_PSRAM_BASE = 0"
definition OTA_CHUNK :: nat where "OTA_CHUNK = 4096"
definition OTA_STAGE_IDLE_MS :: u32 where "OTA_STAGE_IDLE_MS = 120000"
definition OTA_VERIFIED_HOLD_MS :: u32 where "OTA_VERIFIED_HOLD_MS = 600000"

record ota_session =
  s_state :: ota_state_t
  s_size :: u32
  s_received :: u32
  s_expect :: "u8 list"
  s_target :: ota_target_t
  s_version :: u32
  s_err :: cstr
  s_sig :: fw_sig_result_t
  s_sig_key :: cstr
  s_sig_copy :: "u8 list"
  s_wd_seen :: u32
  s_wd_mark_ms :: u32
  s_verified_mark_ms :: u32
  s_owner :: ota_owner_t
  s_orphan :: bool
  s_activity_ms :: u32

text \<open>
  The session, and beside it the refusals shown to one owner, the clock, and what the session works on:
  \<open>o_int\<close> is the internal flash as the installer of certificates sees it.
\<close>

record pod_ota =
  o_session :: ota_session
  o_clock_ms :: u32
  o_ref_owner :: ota_owner_t
  o_ref_err :: cstr
  o_ref_seq :: u32
  o_ram :: psram
  o_blobs :: blob_store
  o_int :: "nat \<Rightarrow> u8"
  o_policy :: fw_sig_policy_t

record ota_env =
  v_sha256 :: "u8 list \<Rightarrow> u8 list"
  v_sha512 :: "u8 list \<Rightarrow> u8 list"
  v_ed25519 :: "u8 list \<Rightarrow> u8 list \<Rightarrow> u8 list \<Rightarrow> bool"
  v_keys :: "u8 list list"
  v_bridge :: bool
  v_flash :: flash
  v_validate :: "ota_target_t \<Rightarrow> u32 \<Rightarrow> psram \<Rightarrow> cstr option \<times> psram"
  v_install_config :: "ota_target_t \<Rightarrow> u32 \<Rightarrow> psram \<Rightarrow> (nat \<Rightarrow> u8) \<Rightarrow> cstr option \<times> psram \<times> (nat \<Rightarrow> u8)"

definition upd_session :: "(ota_session \<Rightarrow> ota_session) \<Rightarrow> pod_ota \<Rightarrow> pod_ota" where
  "upd_session f p = p\<lparr>o_session := f (o_session p)\<rparr>"

definition set_ram :: "psram \<Rightarrow> pod_ota \<Rightarrow> pod_ota" where
  "set_ram r p = p\<lparr>o_ram := r\<rparr>"

definition set_blobs :: "blob_store \<Rightarrow> pod_ota \<Rightarrow> pod_ota" where
  "set_blobs b p = p\<lparr>o_blobs := b\<rparr>"

definition set_int :: "(nat \<Rightarrow> u8) \<Rightarrow> pod_ota \<Rightarrow> pod_ota" where
  "set_int c p = p\<lparr>o_int := c\<rparr>"

subsection \<open>Names, digests, targets\<close>

definition hex_nibble :: "char \<Rightarrow> nat option" where
  "hex_nibble c =
     (let v = of_char c :: nat in
      if 48 \<le> v \<and> v \<le> 57 then Some (v - 48)
      else if 97 \<le> v \<and> v \<le> 102 then Some (v - 97 + 10)
      else if 65 \<le> v \<and> v \<le> 70 then Some (v - 65 + 10)
      else None)"

fun hex_bytes :: "nat \<Rightarrow> cstr \<Rightarrow> (u8 list \<times> cstr) option" where
  "hex_bytes 0 s = Some ([], s)"
| "hex_bytes (Suc n) (a # b # s) =
     (case (hex_nibble a, hex_nibble b) of
        (Some hi, Some lo) \<Rightarrow>
          (case hex_bytes n s of None \<Rightarrow> None | Some (bs, rest) \<Rightarrow> Some (of_nat (16 * hi + lo) # bs, rest))
      | _ \<Rightarrow> None)"
| "hex_bytes (Suc n) s = None"

text \<open>Exactly 64 hex characters; \<^term>\<open>None\<close> is the NULL pointer of the argument, and failure of the result.\<close>

definition parse_sha256_hex :: "cstr option \<Rightarrow> u8 list option" where
  "parse_sha256_hex hex =
     (case hex of
        None \<Rightarrow> None
      | Some s \<Rightarrow> (case hex_bytes 32 s of None \<Rightarrow> None | Some (bs, rest) \<Rightarrow> if rest = [] then Some bs else None))"

definition ota_max_size :: "ota_env \<Rightarrow> nat" where
  "ota_max_size e = flash_layout_store_off (v_flash e) FLASH_LAYOUT_STORE_BASE"

definition k_target_names :: "cstr list" where
  "k_target_names = [''firmware'', ''gw0'', ''gw1'', ''esp'', ''ca'', ''tls'', ''bridge'']"

definition target_known :: "ota_env \<Rightarrow> ota_target_t \<Rightarrow> bool" where
  "target_known e t = (if v_bridge e then t \<le> OTA_TARGET_BRIDGE else t \<le> OTA_TARGET_TLS)"

fun first_target :: "cstr list \<Rightarrow> nat \<Rightarrow> cstr \<Rightarrow> nat option" where
  "first_target [] i name = None"
| "first_target (n # ns) i name = (if name = n then Some i else first_target ns (i + 1) name)"

definition ota_target_from_name :: "ota_env \<Rightarrow> cstr option \<Rightarrow> ota_target_t option" where
  "ota_target_from_name e name =
     (case name of
        None \<Rightarrow> Some OTA_TARGET_FIRMWARE
      | Some s \<Rightarrow>
          if s = [] then Some OTA_TARGET_FIRMWARE
          else (case first_target k_target_names 0 s of
                  None \<Rightarrow> None
                | Some i \<Rightarrow> if target_known e i then Some i else None))"

definition ota_target_name :: "ota_target_t \<Rightarrow> cstr" where
  "ota_target_name t = (if t < length k_target_names then k_target_names ! t else ''?'')"

definition target_blob :: "ota_target_t \<Rightarrow> blob_id_t" where
  "target_blob t =
     (if t = OTA_TARGET_BRIDGE then BLOB_BRIDGE else if t = OTA_TARGET_CA then BLOB_CA else t - OTA_TARGET_GW0)"

definition LAN_TLS_RECORD_MAX :: nat where "LAN_TLS_RECORD_MAX = 7680"
definition LAN_TLS_UPLOAD_MAX :: nat where "LAN_TLS_UPLOAD_MAX = LAN_TLS_RECORD_MAX - 16"

definition target_max_size :: "ota_env \<Rightarrow> ota_target_t \<Rightarrow> nat" where
  "target_max_size e t =
     (if t = OTA_TARGET_TLS then LAN_TLS_UPLOAD_MAX
      else if t = OTA_TARGET_FIRMWARE then ota_max_size e
      else blob_slot_capacity (target_blob t))"

definition target_is_config :: "ota_target_t \<Rightarrow> bool" where
  "target_is_config t \<longleftrightarrow> t = OTA_TARGET_CA \<or> t = OTA_TARGET_TLS"

definition set_err :: "cstr \<Rightarrow> pod_ota \<Rightarrow> pod_ota" where
  "set_err e = upd_session (\<lambda>s. s\<lparr>s_err := snprintf 64 e, s_state := OTA_ERROR\<rparr>)"

definition fail :: "cstr \<Rightarrow> pod_ota \<Rightarrow> bool \<times> pod_ota" where
  "fail e p = (False, set_err e p)"

text \<open>The manifest as the transports carry it: length 0 for none, \<^term>\<open>None\<close> where the C returns -1.\<close>

definition ota_sig_decode :: "cstr option \<Rightarrow> u8 list option" where
  "ota_sig_decode b64 =
     (case b64 of
        None \<Rightarrow> Some []
      | Some s \<Rightarrow>
          if s = [] then Some []
          else if length s > 172 then None
          else (case b64url_decode s 132 of
                  None \<Rightarrow> None
                | Some bs \<Rightarrow> if length bs \<noteq> FW_SIGN_MANIFEST_LEN then None else Some bs))"

subsection \<open>The block an image carries\<close>

definition FW_INFO_OFFSET :: nat where "FW_INFO_OFFSET = 0x400"
definition FW_INFO_MAGIC :: u32 where "FW_INFO_MAGIC = 0x57465042"
definition FW_INFO_FLAG_ENFORCES_SIG :: u32 where "FW_INFO_FLAG_ENFORCES_SIG = 1"

definition FW_INFO_LEN :: nat where "FW_INFO_LEN = 16"

record fw_info_t =
  fi_magic :: u32
  fi_layout :: u16
  fi_min_flash_kb :: u16
  fi_reserved0 :: u32
  fi_reserved1 :: u32

definition fw_info_of :: "u8 list \<Rightarrow> fw_info_t" where
  "fw_info_of p = \<lparr>fi_magic = rd32 p, fi_layout = rd16 (drop 4 p), fi_min_flash_kb = rd16 (drop 6 p),
     fi_reserved0 = rd32 (drop 8 p), fi_reserved1 = rd32 (drop 12 p)\<rparr>"

definition fw_info_required_kb :: "u8 list option \<Rightarrow> u32" where
  "fw_info_required_kb at_offset =
     (case at_offset of
        None \<Rightarrow> 2048
      | Some p \<Rightarrow>
          if length p < FW_INFO_LEN then 2048
          else if fi_magic (fw_info_of p) \<noteq> FW_INFO_MAGIC \<or> fi_min_flash_kb (fw_info_of p) = 0 then 2048
          else ucast (fi_min_flash_kb (fw_info_of p)))"

definition fw_info_flags :: "u8 list option \<Rightarrow> u32" where
  "fw_info_flags at_offset =
     (case at_offset of
        None \<Rightarrow> 0
      | Some p \<Rightarrow>
          if length p < FW_INFO_LEN then 0
          else if fi_magic (fw_info_of p) = FW_INFO_MAGIC then fi_reserved0 (fw_info_of p) else 0)"

subsection \<open>Beginning a session\<close>

text \<open>The check of the manifest; the key id is kept as hex when the manifest could be read.\<close>

definition key_hex_digit :: "nat \<Rightarrow> char" where
  "key_hex_digit n = char_of (if n < 10 then 48 + n else 87 + n)"

definition hex_of_bytes :: "u8 list \<Rightarrow> cstr" where
  "hex_of_bytes bs = concat (map (\<lambda>b. [key_hex_digit (unat b div 16), key_hex_digit (unat b mod 16)]) bs)"

definition check_signature :: "ota_env \<Rightarrow> u8 list option \<Rightarrow> u8 list \<Rightarrow> pod_ota \<Rightarrow> bool \<times> pod_ota" where
  "check_signature e sig expect p =
     (let t = s_target (o_session p);
          (r, m) = fw_sign_check_keys (v_sha512 e) (v_ed25519 e) sig (of_nat t) (s_size (o_session p)) expect (v_keys e);
          p = upd_session (\<lambda>s. s\<lparr>s_sig := r, s_sig_key := (case m of None \<Rightarrow> [] | Some m \<Rightarrow> hex_of_bytes (m_key_id m))\<rparr>) p
      in if (if t = OTA_TARGET_BRIDGE then r = FW_SIG_OK else fw_sign_accept r (o_policy p)) then
           (True, if t = OTA_TARGET_BRIDGE
                  then upd_session (\<lambda>s. s\<lparr>s_sig_copy := (case sig of Some sg \<Rightarrow> take FW_SIGN_MANIFEST_LEN sg | None \<Rightarrow> [])\<rparr>) p
                  else p)
         else fail (''signature: '' @ fw_sign_result_name r) p)"

definition begin_signed ::
  "ota_env \<Rightarrow> u32 \<Rightarrow> cstr option \<Rightarrow> ota_target_t \<Rightarrow> u32 \<Rightarrow> u8 list option \<Rightarrow> pod_ota \<Rightarrow> bool \<times> pod_ota" where
  "begin_signed e sz sha256_hex target ver sig p =
     (let p = upd_session (\<lambda>s. s\<lparr>s_sig := FW_SIG_NONE, s_sig_key := []\<rparr>) p in
      if \<not> target_known e target then fail ''bad target'' p
      else
        let p = upd_session (\<lambda>s. s\<lparr>s_target := target, s_version := ver\<rparr>) p in
        if sz = 0 \<or> unat sz > target_max_size e target then fail ''bad size'' p
        else
          (case parse_sha256_hex sha256_hex of
             None \<Rightarrow> fail ''bad sha256'' p
           | Some expect \<Rightarrow>
               let p = upd_session (\<lambda>s. s\<lparr>s_size := sz\<rparr>) p;
                   (ok, p) = (if target_is_config target then (True, p) else check_signature e sig expect p)
               in if \<not> ok then (False, p)
                  else (True, upd_session (\<lambda>s. s\<lparr>s_expect := expect, s_size := sz, s_received := 0, s_err := [],
                          s_state := OTA_RECEIVING, s_wd_seen := 0, s_wd_mark_ms := 0, s_verified_mark_ms := 0\<rparr>) p)))"

subsection \<open>Data and end\<close>

definition pod_ota_data :: "u32 \<Rightarrow> u8 list \<Rightarrow> pod_ota \<Rightarrow> bool \<times> pod_ota" where
  "pod_ota_data offset buf p =
     (if s_state (o_session p) \<noteq> OTA_RECEIVING then fail ''not receiving'' p
      else
        let p = upd_session (\<lambda>s. s\<lparr>s_activity_ms := o_clock_ms p\<rparr>) p; len = of_nat (length buf) :: u32 in
        if len = 0 then (True, p)
        else if offset > s_size (o_session p) \<or> len > s_size (o_session p) - offset then fail ''chunk out of range'' p
        else
          let (ok, r) = psram_write (OTA_PSRAM_BASE + unat offset) buf (o_ram p); p = set_ram r p in
          if \<not> ok then fail ''psram write failed'' p
          else
            let stop = offset + len in
            (True, upd_session (\<lambda>s. if stop > s_received s then s\<lparr>s_received := stop\<rparr> else s) p))"

text \<open>The bytes read back so far are the digest's context; \<^term>\<open>None\<close> when a read failed.\<close>

function staged_loop :: "nat \<Rightarrow> nat \<Rightarrow> u8 list \<Rightarrow> psram \<Rightarrow> u8 list option \<times> psram" where
  "staged_loop sz off ctx r =
     (if \<not> off < sz then (Some ctx, r)
      else
        let n = (if sz - off > OTA_CHUNK then OTA_CHUNK else sz - off) in
        case psram_read (OTA_PSRAM_BASE + off) n r of
          (None, r) \<Rightarrow> (None, r)
        | (Some chunk, r) \<Rightarrow> staged_loop sz (off + n) (ctx @ chunk) r)"
  by pat_completeness auto
termination
  by (relation "measure (\<lambda>(sz, off, ctx, r). sz - off)") (auto simp: OTA_CHUNK_def)

declare staged_loop.simps [simp del]

text \<open>0 is a match, 1 a mismatch, \<^term>\<open>None\<close> a failed read (-1 in C).\<close>

definition staged_hash_check :: "ota_env \<Rightarrow> pod_ota \<Rightarrow> nat option \<times> pod_ota" where
  "staged_hash_check e p =
     (case staged_loop (unat (s_size (o_session p))) 0 [] (o_ram p) of
        (None, r) \<Rightarrow> (None, set_err ''psram read failed'' (set_ram r p))
      | (Some ctx, r) \<Rightarrow> (Some (if v_sha256 e ctx \<noteq> s_expect (o_session p) then 1 else 0), set_ram r p))"

definition staged_fits_this_flash :: "ota_env \<Rightarrow> pod_ota \<Rightarrow> bool \<times> pod_ota" where
  "staged_fits_this_flash e p =
     (let (info, r) =
        (if unat (s_size (o_session p)) \<ge> FW_INFO_OFFSET + FW_INFO_LEN
         then (case psram_read (OTA_PSRAM_BASE + FW_INFO_OFFSET) FW_INFO_LEN (o_ram p) of (b, r) \<Rightarrow> (map_option Some b, r))
         else (Some None, o_ram p));
        p = set_ram r p
      in case info of
           None \<Rightarrow> fail ''psram read failed'' p
         | Some at_offset \<Rightarrow>
             let need_kb = unat (fw_info_required_kb at_offset); have_kb = flash_layout_size (v_flash e) div 1024 in
             if need_kb > have_kb
             then fail (''image needs '' @ dec_digits need_kb @ '' KB flash, this pod has '' @ dec_digits have_kb @ '' KB'') p
             else (True, p))"

definition staged_keeps_enforcement :: "pod_ota \<Rightarrow> bool \<times> pod_ota" where
  "staged_keeps_enforcement p =
     (if o_policy p \<noteq> FW_SIG_POLICY_REQUIRED then (True, p)
      else
        let (info, r) =
          (if unat (s_size (o_session p)) \<ge> FW_INFO_OFFSET + FW_INFO_LEN
           then (case psram_read (OTA_PSRAM_BASE + FW_INFO_OFFSET) FW_INFO_LEN (o_ram p) of (b, r) \<Rightarrow> (map_option Some b, r))
           else (Some None, o_ram p));
          p = set_ram r p
        in case info of
             None \<Rightarrow> fail ''psram read failed'' p
           | Some at_offset \<Rightarrow>
               if fw_info_flags at_offset AND FW_INFO_FLAG_ENFORCES_SIG \<noteq> 0 then (True, p)
               else fail ''image cannot enforce signatures (policy required)'' p)"

definition pod_ota_end :: "ota_env \<Rightarrow> pod_ota \<Rightarrow> bool \<times> pod_ota" where
  "pod_ota_end e p =
     (if s_state (o_session p) \<noteq> OTA_RECEIVING then fail ''not receiving'' p
      else if s_received (o_session p) < s_size (o_session p) then fail ''incomplete image'' p
      else
        case staged_hash_check e p of
          (None, p) \<Rightarrow> (False, p)
        | (Some rc, p) \<Rightarrow>
            if rc > 0 then fail ''sha256 mismatch'' p
            else
              let t = s_target (o_session p);
                  (ok, p) = (if t = OTA_TARGET_FIRMWARE then staged_fits_this_flash e p else (True, p))
              in if \<not> ok then (False, p)
                 else
                   let (ok, p) = (if t = OTA_TARGET_FIRMWARE then staged_keeps_enforcement p else (True, p))
                   in if \<not> ok then (False, p)
                      else
                        let (why, p) =
                          (if target_is_config t
                           then (case v_validate e t (s_size (o_session p)) (o_ram p) of (w, r) \<Rightarrow> (w, set_ram r p))
                           else (None, p))
                        in case why of
                             Some w \<Rightarrow> fail (if w \<noteq> [] then w else ''invalid'') p
                           | None \<Rightarrow> (True, upd_session (\<lambda>s. s\<lparr>s_state := OTA_VERIFIED\<rparr>) p))"

definition ota_reverify_held :: "ota_env \<Rightarrow> pod_ota \<Rightarrow> bool \<times> pod_ota" where
  "ota_reverify_held e p =
     (if s_state (o_session p) \<noteq> OTA_VERIFIED then (False, p)
      else
        case staged_hash_check e p of
          (None, p) \<Rightarrow> (False, p)
        | (Some rc, p) \<Rightarrow>
            if rc > 0 then fail ''staged image changed after verify (sha256 mismatch)'' p else (True, p))"

definition pod_ota_abort :: "pod_ota \<Rightarrow> pod_ota" where
  "pod_ota_abort = upd_session (\<lambda>s. s\<lparr>s_owner := OTA_OWNER_NONE, s_orphan := False, s_state := OTA_IDLE,
     s_target := OTA_TARGET_FIRMWARE, s_size := 0, s_received := 0, s_err := []\<rparr>)"

text \<open>A clock that reads 0 is kept as 1: 0 stands for no mark.\<close>

definition mark_of :: "u32 \<Rightarrow> u32" where
  "mark_of now_ms = (if now_ms \<noteq> 0 then now_ms else 1)"

definition ota_watchdog :: "u32 \<Rightarrow> pod_ota \<Rightarrow> pod_ota" where
  "ota_watchdog now_ms p0 =
     (let p = p0\<lparr>o_clock_ms := now_ms\<rparr>; s = o_session p in
      if s_state s = OTA_VERIFIED then
        (if s_verified_mark_ms s = 0 then upd_session (\<lambda>s. s\<lparr>s_verified_mark_ms := mark_of now_ms\<rparr>) p
         else if now_ms - s_verified_mark_ms s < OTA_VERIFIED_HOLD_MS then p
         else pod_ota_abort p)
      else
        let p = upd_session (\<lambda>s. s\<lparr>s_verified_mark_ms := 0\<rparr>) p in
        if s_state s \<noteq> OTA_RECEIVING then upd_session (\<lambda>s. s\<lparr>s_wd_mark_ms := now_ms\<rparr>) p
        else if s_received s \<noteq> s_wd_seen s \<or> s_wd_mark_ms s = 0
        then upd_session (\<lambda>s. s\<lparr>s_wd_seen := s_received s, s_wd_mark_ms := mark_of now_ms\<rparr>) p
        else if now_ms - s_wd_mark_ms s < OTA_STAGE_IDLE_MS then p
        else pod_ota_abort p)"

fun ota_state_name :: "ota_state_t \<Rightarrow> cstr" where
  "ota_state_name OTA_IDLE = ''idle''"
| "ota_state_name OTA_RECEIVING = ''receiving''"
| "ota_state_name OTA_VERIFIED = ''verified''"
| "ota_state_name OTA_ERROR = ''error''"
| "ota_state_name OTA_INSTALLED = ''installed''"

subsection \<open>The owner of the session\<close>

definition session_active :: "pod_ota \<Rightarrow> bool" where
  "session_active p \<longleftrightarrow> s_state (o_session p) = OTA_RECEIVING \<or> s_state (o_session p) = OTA_VERIFIED"

definition is_lan :: "ota_owner_t \<Rightarrow> bool" where
  "is_lan who \<longleftrightarrow> who \<ge> OTA_OWNER_LAN 0"

definition may_adopt :: "pod_ota \<Rightarrow> ota_owner_t \<Rightarrow> bool" where
  "may_adopt p who \<longleftrightarrow> s_orphan (o_session p) \<and> is_lan who \<and> is_lan (s_owner (o_session p))"

definition may_act :: "pod_ota \<Rightarrow> ota_owner_t \<Rightarrow> bool" where
  "may_act p who \<longleftrightarrow>
     \<not> session_active p \<or> s_owner (o_session p) = OTA_OWNER_NONE \<or> s_owner (o_session p) = who \<or> may_adopt p who"

definition abandoned :: "pod_ota \<Rightarrow> bool" where
  "abandoned p \<longleftrightarrow> o_clock_ms p - s_activity_ms (o_session p) \<ge> OTA_TAKEOVER_IDLE_MS"

definition adopt :: "ota_owner_t \<Rightarrow> pod_ota \<Rightarrow> pod_ota" where
  "adopt who p =
     (let p = (if session_active p \<and> s_owner (o_session p) \<noteq> who \<and> may_adopt p who
               then upd_session (\<lambda>s. s\<lparr>s_owner := who\<rparr>) p else p)
      in if s_owner (o_session p) = who then upd_session (\<lambda>s. s\<lparr>s_orphan := False\<rparr>) p else p)"

definition may_replace :: "pod_ota \<Rightarrow> ota_owner_t \<Rightarrow> bool" where
  "may_replace p who \<longleftrightarrow> may_act p who \<or> s_owner (o_session p) = who \<or> abandoned p"

definition ota_owner :: "pod_ota \<Rightarrow> ota_owner_t" where
  "ota_owner p = (if session_active p then s_owner (o_session p) else OTA_OWNER_NONE)"

definition dec_int :: "int \<Rightarrow> cstr" where
  "dec_int i = (if i < 0 then ''-'' @ dec_digits (nat (- i)) else dec_digits (nat i))"

definition ota_owner_tag :: "ota_owner_t \<Rightarrow> nat \<Rightarrow> cstr" where
  "ota_owner_tag who cap =
     (if who = OTA_OWNER_CLOUD then snprintf cap ''cloud''
      else if who = OTA_OWNER_USB then snprintf cap ''usb''
      else if who \<ge> OTA_OWNER_LAN 0 then snprintf cap (''lan:'' @ dec_int (who - OTA_OWNER_LAN 0))
      else [])"

definition holder_name :: "pod_ota \<Rightarrow> cstr" where
  "holder_name p =
     (let w = s_owner (o_session p) in
      snprintf 32 (if w = OTA_OWNER_CLOUD then ''the cloud''
        else if w = OTA_OWNER_USB then ''the USB console''
        else ''LAN connection '' @ dec_int (w - OTA_OWNER_LAN 0)))"

definition busy_msg :: "pod_ota \<Rightarrow> cstr" where
  "busy_msg p = snprintf 96 (''busy: '' @ ota_target_name (s_target (o_session p)) @ '' update from '' @
     holder_name p @ '' is in progress'')"

definition ota_busy_for :: "ota_owner_t \<Rightarrow> pod_ota \<Rightarrow> cstr option \<times> pod_ota" where
  "ota_busy_for who p = (if \<not> may_act p who then (Some (busy_msg p), p) else (None, adopt who p))"

definition ota_busy_replace_for :: "ota_owner_t \<Rightarrow> pod_ota \<Rightarrow> cstr option" where
  "ota_busy_replace_for who p = (if may_replace p who then None else Some (busy_msg p))"

definition clear_refusal :: "ota_owner_t \<Rightarrow> pod_ota \<Rightarrow> pod_ota" where
  "clear_refusal who p =
     (if o_ref_owner p = who then p\<lparr>o_ref_owner := OTA_OWNER_NONE, o_ref_err := []\<rparr> else p)"

definition refuse :: "ota_owner_t \<Rightarrow> cstr option \<Rightarrow> bool \<Rightarrow> pod_ota \<Rightarrow> pod_ota" where
  "refuse who why fresh p =
     (let txt = (case why of Some w \<Rightarrow> w | None \<Rightarrow> []) in
      if may_replace p who then
        (let p = clear_refusal who p;
             p = (if fresh then p\<lparr>o_ref_seq := o_ref_seq p + 1\<rparr> else p)
         in upd_session (\<lambda>s. s\<lparr>s_owner := who, s_orphan := False\<rparr>) (set_err txt p))
      else
        (let same = (o_ref_owner p = who \<and> take 95 (o_ref_err p) = take 95 txt) in
         if same \<and> \<not> fresh then p
         else p\<lparr>o_ref_owner := who, o_ref_err := snprintf 96 txt, o_ref_seq := o_ref_seq p + 1\<rparr>))"

definition ota_refuse_for :: "ota_owner_t \<Rightarrow> cstr option \<Rightarrow> pod_ota \<Rightarrow> pod_ota" where
  "ota_refuse_for who why p = refuse who why True p"

definition ota_begin_owned ::
  "ota_env \<Rightarrow> ota_owner_t \<Rightarrow> u32 \<Rightarrow> cstr option \<Rightarrow> ota_target_t \<Rightarrow> u32 \<Rightarrow> u8 list option \<Rightarrow> pod_ota \<Rightarrow> bool \<times> pod_ota" where
  "ota_begin_owned e who sz sha256_hex target ver sig p =
     (case ota_busy_replace_for who p of
        Some busy \<Rightarrow> (False, ota_refuse_for who (Some busy) p)
      | None \<Rightarrow>
          let p = upd_session (\<lambda>s. s\<lparr>s_owner := who, s_orphan := False\<rparr>) (clear_refusal who p);
              (ok, p) = begin_signed e sz sha256_hex target ver sig p
          in (ok, upd_session (\<lambda>s. s\<lparr>s_activity_ms := o_clock_ms p\<rparr>) p))"

definition ota_begin_signed ::
  "ota_env \<Rightarrow> u32 \<Rightarrow> cstr option \<Rightarrow> ota_target_t \<Rightarrow> u32 \<Rightarrow> u8 list option \<Rightarrow> pod_ota \<Rightarrow> bool \<times> pod_ota" where
  "ota_begin_signed e sz sha256_hex target ver sig p = ota_begin_owned e OTA_OWNER_NONE sz sha256_hex target ver sig p"

text \<open>An undecodable manifest is passed on as one byte, which the check reports as malformed.\<close>

definition ota_begin_owned_b64 ::
  "ota_env \<Rightarrow> ota_owner_t \<Rightarrow> u32 \<Rightarrow> cstr option \<Rightarrow> ota_target_t \<Rightarrow> u32 \<Rightarrow> cstr option \<Rightarrow> u8 \<Rightarrow> pod_ota \<Rightarrow> bool \<times> pod_ota" where
  "ota_begin_owned_b64 e who sz sha256_hex target ver sig_b64 garbage p =
     ota_begin_owned e who sz sha256_hex target ver
       (case ota_sig_decode sig_b64 of None \<Rightarrow> Some [garbage] | Some sig \<Rightarrow> Some sig) p"

definition ota_data_by :: "ota_owner_t \<Rightarrow> u32 \<Rightarrow> u8 list \<Rightarrow> pod_ota \<Rightarrow> bool \<times> pod_ota" where
  "ota_data_by who offset buf p =
     (case ota_busy_for who p of
        (Some busy, p) \<Rightarrow> (False, refuse who (Some busy) False p)
      | (None, p) \<Rightarrow> pod_ota_data offset buf p)"

definition ota_end_by :: "ota_env \<Rightarrow> ota_owner_t \<Rightarrow> pod_ota \<Rightarrow> bool \<times> pod_ota" where
  "ota_end_by e who p =
     (case ota_busy_for who p of
        (Some busy, p) \<Rightarrow> (False, refuse who (Some busy) False p)
      | (None, p) \<Rightarrow>
          let (ok, p) = pod_ota_end e p in (ok, upd_session (\<lambda>s. s\<lparr>s_activity_ms := o_clock_ms p\<rparr>) p))"

definition ota_abort_by :: "ota_owner_t \<Rightarrow> pod_ota \<Rightarrow> bool \<times> pod_ota" where
  "ota_abort_by who p =
     (if \<not> may_replace p who then (False, p) else (True, pod_ota_abort (clear_refusal who p)))"

definition ota_owner_gone :: "ota_owner_t \<Rightarrow> pod_ota \<Rightarrow> pod_ota" where
  "ota_owner_gone who p =
     (if session_active p \<and> s_owner (o_session p) = who \<and> is_lan who
      then upd_session (\<lambda>s. s\<lparr>s_orphan := True\<rparr>) p else p)"

record ota_view_t =
  w_state :: ota_state_t
  w_received :: u32
  w_size :: u32
  w_error :: cstr
  w_refusals :: u32

definition ota_view_for :: "ota_owner_t \<Rightarrow> pod_ota \<Rightarrow> ota_view_t" where
  "ota_view_for who p =
     (if who \<noteq> OTA_OWNER_NONE \<and> o_ref_owner p = who
      then \<lparr>w_state = OTA_ERROR, w_received = 0, w_size = 0, w_error = o_ref_err p, w_refusals = o_ref_seq p\<rparr>
      else \<lparr>w_state = s_state (o_session p), w_received = s_received (o_session p), w_size = s_size (o_session p),
            w_error = s_err (o_session p), w_refusals = o_ref_seq p\<rparr>)"

subsection \<open>Installing\<close>

definition staged_src :: "nat \<Rightarrow> nat \<Rightarrow> psram \<Rightarrow> u8 list option \<times> psram" where
  "staged_src off n r = psram_read (OTA_PSRAM_BASE + off) n r"

definition ota_install_blob :: "ota_env \<Rightarrow> pod_ota \<Rightarrow> bool \<times> pod_ota" where
  "ota_install_blob e p =
     (let s = o_session p; t = s_target s in
      if s_state s \<noteq> OTA_VERIFIED then fail ''no verified image staged'' p
      else if t = OTA_TARGET_FIRMWARE then fail ''not a blob'' p
      else if t = OTA_TARGET_TLS then
        (case v_install_config e t (s_size s) (o_ram p) (o_int p) of
           (Some why, r, c) \<Rightarrow> fail (if why \<noteq> [] then why else ''install failed'') (set_int c (set_ram r p))
         | (None, r, c) \<Rightarrow> (True, upd_session (\<lambda>s. s\<lparr>s_state := OTA_INSTALLED\<rparr>) (set_int c (set_ram r p))))
      else
        let d = target_blob t;
            (ok, r, b) =
              (if d = BLOB_BRIDGE
               then blob_store_write_ext (v_sha256 e) staged_src d (unat (s_size s)) (s_version s) (s_expect s)
                      (s_sig_copy s) (o_ram p) (o_blobs p)
               else blob_store_write (v_sha256 e) staged_src d (unat (s_size s)) (s_version s) (s_expect s)
                      (o_ram p) (o_blobs p));
            p = set_blobs b (set_ram r p)
        in if \<not> ok then fail ''blob write failed'' p
           else (True, upd_session (\<lambda>s. s\<lparr>s_state := OTA_INSTALLED\<rparr>) p))"

definition ota_store_fw_copy :: "ota_env \<Rightarrow> pod_ota \<Rightarrow> bool \<times> pod_ota" where
  "ota_store_fw_copy e p =
     (let s = o_session p in
      if s_state s \<noteq> OTA_VERIFIED \<or> s_target s \<noteq> OTA_TARGET_FIRMWARE then (False, p)
      else
        let (ok, r, b) = blob_store_write (v_sha256 e) staged_src BLOB_FW (unat (s_size s)) 0 (s_expect s)
              (o_ram p) (o_blobs p)
        in (ok, set_blobs b (set_ram r p)))"

subsection \<open>Runs\<close>

text \<open>
  What can happen to the session: the owned and the unowned operations, the watchdog, and, outside this
  file, anything that writes the PSRAM, the image slots or the internal flash, and a change of the
  signature policy, which \<^verbatim>\<open>pod_policy_set_sig\<close> hands to \<^verbatim>\<open>fw_sign_set_policy\<close> at any time.
\<close>

datatype pod_ota_op =
    Op_begin ota_owner_t u32 "cstr option" ota_target_t u32 "u8 list option"
  | Op_begin_b64 ota_owner_t u32 "cstr option" ota_target_t u32 "cstr option" u8
  | Op_data ota_owner_t u32 "u8 list"
  | Op_data_unowned u32 "u8 list"
  | Op_end ota_owner_t
  | Op_end_unowned
  | Op_abort ota_owner_t
  | Op_abort_unowned
  | Op_refuse ota_owner_t "cstr option"
  | Op_busy ota_owner_t
  | Op_gone ota_owner_t
  | Op_watchdog u32
  | Op_reverify
  | Op_install
  | Op_fw_copy
  | Op_ram psram
  | Op_blobs blob_store
  | Op_int "nat \<Rightarrow> u8"
  | Op_policy fw_sig_policy_t

fun ota_step :: "ota_env \<Rightarrow> pod_ota_op \<Rightarrow> pod_ota \<Rightarrow> pod_ota" where
  "ota_step e (Op_begin who sz hex t ver sig) p = snd (ota_begin_owned e who sz hex t ver sig p)"
| "ota_step e (Op_begin_b64 who sz hex t ver sig g) p = snd (ota_begin_owned_b64 e who sz hex t ver sig g p)"
| "ota_step e (Op_data who off buf) p = snd (ota_data_by who off buf p)"
| "ota_step e (Op_data_unowned off buf) p = snd (pod_ota_data off buf p)"
| "ota_step e (Op_end who) p = snd (ota_end_by e who p)"
| "ota_step e Op_end_unowned p = snd (pod_ota_end e p)"
| "ota_step e (Op_abort who) p = snd (ota_abort_by who p)"
| "ota_step e Op_abort_unowned p = pod_ota_abort p"
| "ota_step e (Op_refuse who why) p = ota_refuse_for who why p"
| "ota_step e (Op_busy who) p = snd (ota_busy_for who p)"
| "ota_step e (Op_gone who) p = ota_owner_gone who p"
| "ota_step e (Op_watchdog now) p = ota_watchdog now p"
| "ota_step e Op_reverify p = snd (ota_reverify_held e p)"
| "ota_step e Op_install p = snd (ota_install_blob e p)"
| "ota_step e Op_fw_copy p = snd (ota_store_fw_copy e p)"
| "ota_step e (Op_ram r) p = set_ram r p"
| "ota_step e (Op_blobs b) p = set_blobs b p"
| "ota_step e (Op_int c) p = set_int c p"
| "ota_step e (Op_policy pol) p = p\<lparr>o_policy := pol\<rparr>"

definition pod_ota_run :: "ota_env \<Rightarrow> pod_ota_op list \<Rightarrow> pod_ota \<Rightarrow> pod_ota" where
  "pod_ota_run e ops p = fold (ota_step e) ops p"

definition session_boot :: ota_session where
  "session_boot = \<lparr>s_state = OTA_IDLE, s_size = 0, s_received = 0, s_expect = replicate 32 0,
     s_target = OTA_TARGET_FIRMWARE, s_version = 0, s_err = [], s_sig = FW_SIG_NONE, s_sig_key = [],
     s_sig_copy = replicate FW_SIGN_MANIFEST_LEN 0, s_wd_seen = 0, s_wd_mark_ms = 0, s_verified_mark_ms = 0,
     s_owner = OTA_OWNER_NONE, s_orphan = False, s_activity_ms = 0\<rparr>"

definition pod_ota_boot :: "psram \<Rightarrow> blob_store \<Rightarrow> (nat \<Rightarrow> u8) \<Rightarrow> fw_sig_policy_t \<Rightarrow> pod_ota" where
  "pod_ota_boot r b c pol = \<lparr>o_session = session_boot, o_clock_ms = 0, o_ref_owner = OTA_OWNER_NONE, o_ref_err = [],
     o_ref_seq = 0, o_ram = r, o_blobs = b, o_int = c, o_policy = pol\<rparr>"

subsection \<open>The invariant of the session\<close>

definition signed_for :: "ota_env \<Rightarrow> ota_target_t \<Rightarrow> u32 \<Rightarrow> u8 list \<Rightarrow> u8 list \<Rightarrow> bool" where
  "signed_for e t sz digest sig \<longleftrightarrow>
     fst (fw_sign_check_keys (v_sha512 e) (v_ed25519 e) (Some sig) (of_nat t) sz digest (v_keys e)) = FW_SIG_OK"

definition staging :: "ota_state_t \<Rightarrow> bool" where
  "staging st \<longleftrightarrow> st = OTA_RECEIVING \<or> st = OTA_VERIFIED \<or> st = OTA_INSTALLED"

text \<open>
  While an image is staged its target is one this build takes, its size is within the target's limit,
  no more than that was received, and, where a signature is needed, a manifest for exactly this target,
  size and digest was accepted. \<open>req\<close> says that the policy has required signatures since before the
  session began.
\<close>

definition session_ok :: "ota_env \<Rightarrow> bool \<Rightarrow> ota_session \<Rightarrow> bool" where
  "session_ok e req s \<longleftrightarrow>
     length (s_sig_copy s) = FW_SIGN_MANIFEST_LEN \<and>
     (staging (s_state s) \<longrightarrow>
        target_known e (s_target s) \<and> s_size s \<noteq> 0 \<and> unat (s_size s) \<le> target_max_size e (s_target s) \<and>
        length (s_expect s) = 32 \<and> s_received s \<le> s_size s \<and>
        (\<not> target_is_config (s_target s) \<and> (req \<or> s_target s = OTA_TARGET_BRIDGE) \<longrightarrow>
           (\<exists>sig. signed_for e (s_target s) (s_size s) (s_expect s) sig \<and>
                  (s_target s = OTA_TARGET_BRIDGE \<longrightarrow> s_sig_copy s = sig))))"

abbreviation ota_ok :: "ota_env \<Rightarrow> bool \<Rightarrow> pod_ota \<Rightarrow> bool" where
  "ota_ok e req p \<equiv> session_ok e req (o_session p)"

lemmas ota_simps = upd_session_def set_err_def fail_def set_ram_def set_blobs_def set_int_def clear_refusal_def

lemma ota_ok_idle:
  "length (s_sig_copy s) = FW_SIGN_MANIFEST_LEN \<Longrightarrow> \<not> staging (s_state s) \<Longrightarrow> session_ok e req s"
  by (simp add: session_ok_def)

lemma set_err_ok: "length (s_sig_copy (o_session p)) = FW_SIGN_MANIFEST_LEN \<Longrightarrow> ota_ok e req (set_err w p)"
  by (simp add: ota_simps session_ok_def staging_def)

lemma hex_bytes_length: "hex_bytes n s = Some (bs, rest) \<Longrightarrow> length bs = n"
  by (induction n s arbitrary: bs rest rule: hex_bytes.induct) (auto split: option.splits)

lemma parse_sha256_hex_length: "parse_sha256_hex hex = Some bs \<Longrightarrow> length bs = 32"
  by (auto simp: parse_sha256_hex_def hex_bytes_length split: option.splits if_splits)

text \<open>The result of an accepted signature check.\<close>

lemma good_sig_length:
  "fst (fw_sign_check_keys sha512 chk sig t sz digest keys) = FW_SIG_OK \<Longrightarrow>
    \<exists>sg. sig = Some sg \<and> length sg = FW_SIGN_MANIFEST_LEN"
  by (auto simp: bad_format_def elim: fw_sign_check_OK_D)

lemma check_signature_effect:
  assumes "check_signature e sig expect p = (ok, p')" and "length (s_sig_copy (o_session p)) = FW_SIGN_MANIFEST_LEN"
  shows "o_policy p' = o_policy p \<and> length (s_sig_copy (o_session p')) = FW_SIGN_MANIFEST_LEN \<and>
    (if ok then s_target (o_session p') = s_target (o_session p) \<and> s_size (o_session p') = s_size (o_session p) \<and>
       (o_policy p = FW_SIG_POLICY_REQUIRED \<or> s_target (o_session p) = OTA_TARGET_BRIDGE \<longrightarrow>
         (\<exists>sg. signed_for e (s_target (o_session p)) (s_size (o_session p)) expect sg \<and>
               (s_target (o_session p) = OTA_TARGET_BRIDGE \<longrightarrow> s_sig_copy (o_session p') = sg)))
     else s_state (o_session p') = OTA_ERROR)"
proof -
  let ?t = "s_target (o_session p)"
  obtain r m where c: "fw_sign_check_keys (v_sha512 e) (v_ed25519 e) sig (of_nat ?t) (s_size (o_session p)) expect (v_keys e) = (r, m)"
    by force
  have good: "\<exists>sg. sig = Some sg \<and> length sg = FW_SIGN_MANIFEST_LEN \<and> signed_for e ?t (s_size (o_session p)) expect sg"
    if "r = FW_SIG_OK"
    using good_sig_length [of "v_sha512 e" "v_ed25519 e" sig "of_nat ?t" "s_size (o_session p)" expect "v_keys e"] c that
    by (auto simp: signed_for_def)
  show ?thesis
  proof (cases "if ?t = OTA_TARGET_BRIDGE then r = FW_SIG_OK else fw_sign_accept r (o_policy p)")
    case False
    then show ?thesis using assms c by (auto simp: check_signature_def ota_simps split: if_splits)
  next
    case True
    show ?thesis
    proof (cases "r = FW_SIG_OK")
      case ok: True
      then obtain sg where sg: "sig = Some sg" "length sg = FW_SIGN_MANIFEST_LEN"
          "signed_for e ?t (s_size (o_session p)) expect sg" using good by blast
      show ?thesis
        using assms c True sg by (cases "?t = OTA_TARGET_BRIDGE") (auto simp: check_signature_def ota_simps)
    next
      case False
      then show ?thesis
        using assms c True by (auto simp: check_signature_def ota_simps fw_sign_accept_required split: if_splits)
    qed
  qed
qed

lemma begin_signed_ok:
  assumes "begin_signed e sz hex t ver sig p = (ok, p')" and "length (s_sig_copy (o_session p)) = FW_SIGN_MANIFEST_LEN"
    and req: "req \<Longrightarrow> o_policy p = FW_SIG_POLICY_REQUIRED"
  shows "o_policy p' = o_policy p \<and> ota_ok e req p'"
proof (cases "target_known e t \<and> \<not> (sz = 0 \<or> unat sz > target_max_size e t)")
  case False
  then show ?thesis using assms(1,2) by (auto simp: begin_signed_def ota_simps Let_def session_ok_def staging_def split: if_splits)
next
  case True
  then show ?thesis
  proof (cases "parse_sha256_hex hex")
    case None
    then show ?thesis using True assms(1,2) by (auto simp: begin_signed_def ota_simps Let_def session_ok_def staging_def)
  next
    case (Some expect)
    let ?p1 = "upd_session (\<lambda>s. s\<lparr>s_size := sz\<rparr>) (upd_session (\<lambda>s. s\<lparr>s_target := t, s_version := ver\<rparr>)
        (upd_session (\<lambda>s. s\<lparr>s_sig := FW_SIG_NONE, s_sig_key := []\<rparr>) p))"
    obtain ok1 p2 where c: "(if target_is_config t then (True, ?p1) else check_signature e sig expect ?p1) = (ok1, p2)"
      by force
    have len: "length (s_sig_copy (o_session ?p1)) = FW_SIGN_MANIFEST_LEN" using assms(2) by (simp add: upd_session_def)
    have pol1: "o_policy ?p1 = o_policy p" by (simp add: upd_session_def)
    have fields: "s_target (o_session ?p1) = t" "s_size (o_session ?p1) = sz" by (simp_all add: upd_session_def)
    have eff: "o_policy p2 = o_policy p \<and> length (s_sig_copy (o_session p2)) = FW_SIGN_MANIFEST_LEN \<and>
        (if ok1 then s_target (o_session p2) = t \<and>
           (\<not> target_is_config t \<and> (o_policy p = FW_SIG_POLICY_REQUIRED \<or> t = OTA_TARGET_BRIDGE) \<longrightarrow>
             (\<exists>sg. signed_for e t sz expect sg \<and> (t = OTA_TARGET_BRIDGE \<longrightarrow> s_sig_copy (o_session p2) = sg)))
         else s_state (o_session p2) = OTA_ERROR)"
    proof (cases "target_is_config t")
      case True
      then have "ok1" "p2 = ?p1" using c by simp_all
      with len pol1 fields True show ?thesis by simp
    next
      case False
      then have "check_signature e sig expect ?p1 = (ok1, p2)" using c by simp
      from check_signature_effect [OF this len] show ?thesis unfolding fields pol1 by auto
    qed
    have res: "(ok, p') = (if \<not> ok1 then (False, p2)
        else (True, upd_session (\<lambda>s. s\<lparr>s_expect := expect, s_size := sz, s_received := 0, s_err := [],
               s_state := OTA_RECEIVING, s_wd_seen := 0, s_wd_mark_ms := 0, s_verified_mark_ms := 0\<rparr>) p2))"
      using assms(1) True Some c by (simp add: begin_signed_def Let_def)
    have l32: "length expect = 32" using Some by (rule parse_sha256_hex_length)
    show ?thesis
    proof (cases ok1)
      case False
      then show ?thesis using res eff by (simp add: session_ok_def staging_def)
    next
      case ok1: True
      have e2: "s_target (o_session p2) = t" "length (s_sig_copy (o_session p2)) = FW_SIGN_MANIFEST_LEN"
        "o_policy p2 = o_policy p"
        and sg: "\<not> target_is_config t \<and> (o_policy p = FW_SIG_POLICY_REQUIRED \<or> t = OTA_TARGET_BRIDGE) \<longrightarrow>
             (\<exists>sg. signed_for e t sz expect sg \<and> (t = OTA_TARGET_BRIDGE \<longrightarrow> s_sig_copy (o_session p2) = sg))"
        using eff ok1 by simp_all
      have p': "p' = upd_session (\<lambda>s. s\<lparr>s_expect := expect, s_size := sz, s_received := 0, s_err := [],
               s_state := OTA_RECEIVING, s_wd_seen := 0, s_wd_mark_ms := 0, s_verified_mark_ms := 0\<rparr>) p2"
        using res ok1 by simp
      have "unat sz \<le> target_max_size e t" "sz \<noteq> 0" "target_known e t" using True by simp_all
      then show ?thesis using sg req l32 e2 unfolding p' by (auto simp: session_ok_def upd_session_def)
    qed
  qed
qed

text \<open>A chunk inside the image does not wrap.\<close>

lemma chunk_in_range:
  assumes "offset \<le> sz" and "(len :: u32) \<le> sz - offset"
  shows "offset + len \<le> sz" and "unat (offset + len) = unat offset + unat len"
proof -
  have d: "unat (sz - offset) = unat sz - unat offset" using assms(1) by (simp add: unat_sub)
  have le: "unat offset + unat len \<le> unat sz"
    using assms d by (simp add: word_le_nat_alt)
  then have "unat offset + unat len < 2 ^ LENGTH(32)" using unat_u32_bound [of sz] by simp
  then show eq: "unat (offset + len) = unat offset + unat len" by (simp add: unat_add_lem [THEN iffD1])
  with le show "offset + len \<le> sz" by (simp add: word_le_nat_alt)
qed

text \<open>An operation of the session keeps the policy and the invariant.\<close>

definition keeps_ok :: "ota_env \<Rightarrow> bool \<Rightarrow> pod_ota \<Rightarrow> pod_ota \<Rightarrow> bool" where
  "keeps_ok e req p p' \<longleftrightarrow>
     ((req \<longrightarrow> o_policy p = FW_SIG_POLICY_REQUIRED) \<and> ota_ok e req p \<longrightarrow> o_policy p' = o_policy p \<and> ota_ok e req p')"

lemma keeps_refl [simp]: "keeps_ok e req p p"
  by (simp add: keeps_ok_def)

lemma keeps_trans: "keeps_ok e req p p' \<Longrightarrow> keeps_ok e req p' p'' \<Longrightarrow> keeps_ok e req p p''"
  unfolding keeps_ok_def by metis

lemma session_ok_len: "session_ok e req s \<Longrightarrow> length (s_sig_copy s) = FW_SIGN_MANIFEST_LEN"
  by (simp add: session_ok_def)

lemma keeps_begin:
  assumes "begin_signed e sz hex t ver sig p = (ok, p')"
  shows "keeps_ok e req p p'"
  using begin_signed_ok [OF assms] session_ok_len unfolding keeps_ok_def by blast

text \<open>Steps that change nothing the invariant speaks of, except for going to a state without an image.\<close>

lemma keeps_session:
  assumes "o_policy p' = o_policy p" and "s_sig_copy (o_session p') = s_sig_copy (o_session p)"
    and "staging (s_state (o_session p')) \<Longrightarrow> staging (s_state (o_session p)) \<and>
      s_target (o_session p') = s_target (o_session p) \<and> s_size (o_session p') = s_size (o_session p) \<and>
      s_received (o_session p') = s_received (o_session p) \<and> s_expect (o_session p') = s_expect (o_session p)"
  shows "keeps_ok e req p p'"
  using assms unfolding keeps_ok_def session_ok_def by (cases "staging (s_state (o_session p'))") auto

lemma keeps_fail: "keeps_ok e req p (set_err w p)" "keeps_ok e req p (snd (fail w p))"
  by (rule keeps_session; simp add: ota_simps staging_def)+

lemma keeps_set_ram [simp]: "keeps_ok e req p (set_ram r p)"
  by (rule keeps_session) (simp_all add: ota_simps)

lemma keeps_owner:
  "keeps_ok e req p (upd_session (\<lambda>s. s\<lparr>s_owner := w, s_orphan := b\<rparr>) p)"
  "keeps_ok e req p (upd_session (\<lambda>s. s\<lparr>s_owner := w\<rparr>) p)"
  "keeps_ok e req p (upd_session (\<lambda>s. s\<lparr>s_orphan := b\<rparr>) p)"
  "keeps_ok e req p (upd_session (\<lambda>s. s\<lparr>s_activity_ms := a\<rparr>) p)"
  "keeps_ok e req p (clear_refusal w p)"
  by (rule keeps_session; auto simp: ota_simps split: if_splits)+

lemma keeps_adopt: "keeps_ok e req p (adopt who p)"
  by (rule keeps_session) (auto simp: adopt_def ota_simps Let_def split: if_splits)

lemma keeps_busy: "ota_busy_for who p = (b, p') \<Longrightarrow> keeps_ok e req p p'"
  using keeps_adopt by (auto simp: ota_busy_for_def split: if_splits)

lemma keeps_refuse: "keeps_ok e req p (refuse who why fresh p)"
  by (rule keeps_session) (auto simp: refuse_def ota_simps Let_def staging_def split: if_splits)

lemma keeps_abort: "keeps_ok e req p (pod_ota_abort p)"
  by (rule keeps_session) (simp_all add: pod_ota_abort_def ota_simps staging_def)

lemma keeps_watchdog: "keeps_ok e req p (ota_watchdog now p)"
  by (rule keeps_session) (auto simp: ota_watchdog_def pod_ota_abort_def ota_simps Let_def staging_def split: if_splits)

lemma keeps_begin_owned: "keeps_ok e req p (snd (ota_begin_owned e who sz hex t ver sig p))"
proof (cases "ota_busy_replace_for who p")
  case (Some busy)
  then show ?thesis by (simp add: ota_begin_owned_def ota_refuse_for_def keeps_refuse)
next
  case None
  define p1 where "p1 = upd_session (\<lambda>s. s\<lparr>s_owner := who, s_orphan := False\<rparr>) (clear_refusal who p)"
  obtain ok p2 where b: "begin_signed e sz hex t ver sig p1 = (ok, p2)" by force
  have "keeps_ok e req p p1" unfolding p1_def by (rule keeps_trans [OF keeps_owner(5) keeps_owner(1)])
  from keeps_trans [OF this keeps_begin [OF b]] have "keeps_ok e req p p2" .
  then show ?thesis
    using None b keeps_trans [OF _ keeps_owner(4)]
    by (simp add: ota_begin_owned_def Let_def p1_def [symmetric])
qed

lemma keeps_data: "keeps_ok e req p (snd (pod_ota_data offset buf p))"
proof (cases "s_state (o_session p) = OTA_RECEIVING")
  case False
  then show ?thesis by (simp add: pod_ota_data_def keeps_fail)
next
  case recv: True
  define p1 where "p1 = upd_session (\<lambda>s. s\<lparr>s_activity_ms := o_clock_ms p\<rparr>) p"
  let ?len = "of_nat (length buf) :: u32"
  have k1: "keeps_ok e req p p1" by (simp add: p1_def keeps_owner)
  show ?thesis
  proof (cases "?len = 0 \<or> offset > s_size (o_session p1) \<or> ?len > s_size (o_session p1) - offset")
    case True
    then show ?thesis
      using recv k1 keeps_trans [OF k1 keeps_fail(2)] by (auto simp: pod_ota_data_def Let_def p1_def [symmetric])
  next
    case False
    obtain ok r where w: "psram_write (OTA_PSRAM_BASE + unat offset) buf (o_ram p1) = (ok, r)" by force
    have k2: "keeps_ok e req p (set_ram r p1)" using keeps_trans [OF k1] by simp
    have le: "offset + ?len \<le> s_size (o_session p1)" using False by (intro chunk_in_range) auto
    have "keeps_ok e req (set_ram r p1) (upd_session (\<lambda>s. if offset + ?len > s_received s then s\<lparr>s_received := offset + ?len\<rparr> else s) (set_ram r p1))"
      using le by (auto simp: keeps_ok_def session_ok_def ota_simps)
    from keeps_trans [OF k2 this] keeps_trans [OF k2 keeps_fail(2)] show ?thesis
      using recv False w by (simp add: pod_ota_data_def Let_def p1_def [symmetric])
  qed
qed

lemma keeps_hash_check: "staged_hash_check e p = (rc, p') \<Longrightarrow> keeps_ok e req p p'"
  using keeps_trans [OF keeps_set_ram keeps_fail(1)]
  by (auto simp: staged_hash_check_def split: prod.splits option.splits)

lemma keeps_fits: "staged_fits_this_flash e p = (ok, p') \<Longrightarrow> keeps_ok e req p p'"
  by (rule keeps_session) (auto simp: staged_fits_this_flash_def ota_simps Let_def staging_def split: prod.splits option.splits if_splits)

lemma keeps_enforcement: "staged_keeps_enforcement p = (ok, p') \<Longrightarrow> keeps_ok e req p p'"
  by (rule keeps_session) (auto simp: staged_keeps_enforcement_def ota_simps Let_def staging_def split: prod.splits option.splits if_splits)

text \<open>Going from receiving to verified, or from verified to installed, keeps what the invariant says.\<close>

lemma keeps_advance:
  "staging (s_state (o_session p)) \<Longrightarrow> keeps_ok e req p (upd_session (\<lambda>s. s\<lparr>s_state := st\<rparr>) p)"
  by (simp add: keeps_ok_def session_ok_def ota_simps)

text \<open>The checks of the staged image leave the session alone when they pass.\<close>

lemma staged_hash_check_Some:
  "staged_hash_check e p = (Some rc, p') \<Longrightarrow> o_session p' = o_session p"
  by (auto simp: staged_hash_check_def ota_simps split: prod.splits option.splits)

lemma staged_fits_True: "staged_fits_this_flash e p = (True, p') \<Longrightarrow> o_session p' = o_session p"
  by (auto simp: staged_fits_this_flash_def ota_simps Let_def split: prod.splits option.splits if_splits)

lemma staged_keeps_enforcement_True: "staged_keeps_enforcement p = (True, p') \<Longrightarrow> o_session p' = o_session p"
  by (auto simp: staged_keeps_enforcement_def ota_simps Let_def split: prod.splits option.splits if_splits)

lemma ota_end_effect:
  assumes "pod_ota_end e p = (ok, p')"
  shows "keeps_ok e req p p' \<and>
    (ok \<longrightarrow> (\<exists>r. fst (staged_loop (unat (s_size (o_session p))) 0 [] (o_ram p)) = Some r \<and>
                  v_sha256 e r = s_expect (o_session p)) \<and>
       s_state (o_session p) = OTA_RECEIVING \<and> \<not> s_received (o_session p) < s_size (o_session p) \<and>
       o_session p' = (o_session p)\<lparr>s_state := OTA_VERIFIED\<rparr>) \<and>
    (\<not> ok \<longrightarrow> s_state (o_session p') = OTA_ERROR)"
proof -
  consider (bad) "s_state (o_session p) \<noteq> OTA_RECEIVING \<or> s_received (o_session p) < s_size (o_session p)"
    | (good) "s_state (o_session p) = OTA_RECEIVING" "\<not> s_received (o_session p) < s_size (o_session p)" by blast
  then show ?thesis
  proof cases
    case bad
    then have "\<exists>w. fail w p = (ok, p')"
      using assms unfolding pod_ota_end_def by (cases "s_state (o_session p) \<noteq> OTA_RECEIVING") auto
    then obtain w where "\<not> ok" "p' = set_err w p" by (auto simp: fail_def)
    then show ?thesis using keeps_fail(1) by (simp add: set_err_def upd_session_def)
  next
    case good
    obtain rc p1 where h: "staged_hash_check e p = (rc, p1)" by force
    note k1 = keeps_hash_check [OF h]
    show ?thesis
    proof (cases rc)
      case None
      moreover from None h have "s_state (o_session p1) = OTA_ERROR"
        by (auto simp: staged_hash_check_def ota_simps split: prod.splits option.splits)
      ultimately show ?thesis using assms good h k1 by (auto simp: pod_ota_end_def)
    next
      case (Some n)
      note s1 = staged_hash_check_Some [OF h [unfolded Some]]
      show ?thesis
      proof (cases "n > 0")
        case True
        then show ?thesis using assms good h Some keeps_trans [OF k1 keeps_fail(1)] by (auto simp: pod_ota_end_def fail_def ota_simps)
      next
        case False
        let ?t = "s_target (o_session p1)"
        have hash: "\<exists>r. fst (staged_loop (unat (s_size (o_session p))) 0 [] (o_ram p)) = Some r \<and> v_sha256 e r = s_expect (o_session p)"
          using h Some False by (auto simp: staged_hash_check_def split: prod.splits option.splits if_splits)
        obtain ok2 p2 where f: "(if ?t = OTA_TARGET_FIRMWARE then staged_fits_this_flash e p1 else (True, p1)) = (ok2, p2)" by force
        have k2: "keeps_ok e req p1 p2" using f keeps_fits by (auto split: if_splits)
        have st2: "\<not> ok2 \<Longrightarrow> s_state (o_session p2) = OTA_ERROR"
          using f by (auto simp: staged_fits_this_flash_def ota_simps Let_def split: prod.splits option.splits if_splits)
        have s2: "ok2 \<Longrightarrow> o_session p2 = o_session p1" using f staged_fits_True by (auto split: if_splits)
        obtain ok3 p3 where g: "(if ?t = OTA_TARGET_FIRMWARE then staged_keeps_enforcement p2 else (True, p2)) = (ok3, p3)" by force
        have k3: "keeps_ok e req p2 p3" using g keeps_enforcement by (auto split: if_splits)
        have st3: "\<not> ok3 \<Longrightarrow> s_state (o_session p3) = OTA_ERROR"
          using g by (auto simp: staged_keeps_enforcement_def ota_simps Let_def split: prod.splits option.splits if_splits)
        have s3: "ok3 \<Longrightarrow> o_session p3 = o_session p2" using g staged_keeps_enforcement_True by (auto split: if_splits)
        obtain why p4 where v: "(if target_is_config ?t
            then (case v_validate e ?t (s_size (o_session p3)) (o_ram p3) of (w, r) \<Rightarrow> (w, set_ram r p3)) else (None, p3)) = (why, p4)" by force
        have k4: "keeps_ok e req p3 p4" and s4: "o_session p4 = o_session p3"
          using v by (auto simp: set_ram_def keeps_set_ram [unfolded set_ram_def] split: if_splits prod.splits)
        have k13: "keeps_ok e req p p2" "keeps_ok e req p p3" "keeps_ok e req p p4"
          using k1 k2 k3 k4 keeps_trans by blast+
        have res: "(ok, p') = (if \<not> ok2 then (False, p2) else if \<not> ok3 then (False, p3)
            else case why of Some w \<Rightarrow> fail (if w \<noteq> [] then w else ''invalid'') p4
                 | None \<Rightarrow> (True, upd_session (\<lambda>s. s\<lparr>s_state := OTA_VERIFIED\<rparr>) p4))"
          using assms good h Some False f g v by (cases ok2; cases ok3) (simp_all add: pod_ota_end_def Let_def)
        show ?thesis
        proof (cases "ok2 \<and> ok3 \<and> why = None")
          case True
          then have se: "o_session p4 = o_session p" using s1 s2 s3 s4 by simp
          have r: "ok" "p' = upd_session (\<lambda>s. s\<lparr>s_state := OTA_VERIFIED\<rparr>) p4" using res True by simp_all
          have "keeps_ok e req p4 p'" unfolding r using se good by (intro keeps_advance) (simp add: staging_def)
          with k13(3) have "keeps_ok e req p p'" by (rule keeps_trans)
          with hash good se r show ?thesis by (simp add: upd_session_def)
        next
          case False
          then show ?thesis using res k13 st2 st3 keeps_trans [OF k13(3) keeps_fail(1)]
            by (auto simp: fail_def ota_simps split: option.splits if_splits)
        qed
      qed
    qed
  qed
qed

lemma keeps_install: "keeps_ok e req p (snd (ota_install_blob e p))"
proof -
  have "keeps_ok e req p (set_blobs b (set_ram r p))" for b r by (rule keeps_session) (simp_all add: ota_simps)
  moreover have "keeps_ok e req p (set_err w (set_blobs b (set_ram r p)))" for b r w
    by (rule keeps_session) (simp_all add: ota_simps staging_def)
  moreover have "keeps_ok e req p (set_err w (set_int c (set_ram r p)))" "keeps_ok e req p (set_err w p)" for r w c
    by (rule keeps_session; simp add: ota_simps staging_def)+
  moreover have "keeps_ok e req p (upd_session (\<lambda>s. s\<lparr>s_state := OTA_INSTALLED\<rparr>) (set_blobs b (set_ram r p)))"
    "keeps_ok e req p (upd_session (\<lambda>s. s\<lparr>s_state := OTA_INSTALLED\<rparr>) (set_int c (set_ram r p)))"
    if "s_state (o_session p) = OTA_VERIFIED" for b r c
    using that by (simp_all add: keeps_ok_def session_ok_def ota_simps staging_def)
  ultimately show ?thesis
    by (auto simp: ota_install_blob_def fail_def Let_def split: prod.splits option.splits)
qed

lemma keeps_step:
  assumes "\<And>pol. op \<noteq> Op_policy pol"
  shows "keeps_ok e req p (ota_step e op p)"
proof -
  have bt: "keeps_ok e req p p'" if "keeps_ok e req p p1" "keeps_ok e req p1 p'" for p1 p' using that by (rule keeps_trans)
  have blobs: "keeps_ok e req p (set_blobs b p)" for b by (rule keeps_session) (simp_all add: ota_simps)
  have int: "keeps_ok e req p (set_int c p)" for c by (rule keeps_session) (simp_all add: ota_simps)
  have act: "keeps_ok e req p (upd_session (\<lambda>s. s\<lparr>s_activity_ms := a\<rparr>) p1)" if "keeps_ok e req p p1" for p1 a
    using that keeps_owner(4) by (rule keeps_trans)
  have data: "keeps_ok e req p (snd (ota_data_by who off buf p))" for who off buf
    using keeps_trans [OF keeps_busy keeps_refuse] keeps_trans [OF keeps_busy keeps_data]
    by (auto simp: ota_data_by_def split: prod.splits option.splits)
  have fin: "keeps_ok e req p (snd (ota_end_by e who p))" for who
  proof -
    obtain b p1 where b: "ota_busy_for who p = (b, p1)" by force
    obtain ok p2 where n: "pod_ota_end e p1 = (ok, p2)" by force
    have "keeps_ok e req p p2" using keeps_busy [OF b] conjunct1 [OF ota_end_effect [OF n]] by (rule keeps_trans)
    then show ?thesis
      using b n act keeps_trans [OF keeps_busy [OF b] keeps_refuse]
      by (auto simp: ota_end_by_def Let_def split: option.splits)
  qed
  have rev: "keeps_ok e req p (snd (ota_reverify_held e p))"
    using keeps_hash_check [of e p] keeps_trans [OF keeps_hash_check keeps_fail(2)]
    by (auto simp: ota_reverify_held_def split: prod.splits option.splits)
  have copy: "keeps_ok e req p (snd (ota_store_fw_copy e p))"
    by (rule keeps_session) (auto simp: ota_store_fw_copy_def ota_simps Let_def split: prod.splits)
  have endu: "keeps_ok e req p (snd (pod_ota_end e p))" using ota_end_effect [of e p] by (metis prod.collapse)
  show ?thesis
    using assms by (cases op) (auto simp: keeps_begin_owned ota_begin_owned_b64_def data fin rev copy endu blobs int keeps_data
        keeps_refuse ota_refuse_for_def keeps_abort keeps_watchdog keeps_install keeps_owner ota_owner_gone_def
        keeps_adopt ota_busy_for_def ota_abort_by_def keeps_trans [OF keeps_owner(5) keeps_abort])
qed

text \<open>A change of the policy that leaves it at \<open>required\<close>.\<close>

fun keeps_required :: "pod_ota_op \<Rightarrow> bool" where
  "keeps_required (Op_policy pol) = (pol = FW_SIG_POLICY_REQUIRED)"
| "keeps_required _ = True"

definition pod_run_inv :: "ota_env \<Rightarrow> bool \<Rightarrow> pod_ota \<Rightarrow> bool" where
  "pod_run_inv e req p \<longleftrightarrow> (req \<longrightarrow> o_policy p = FW_SIG_POLICY_REQUIRED) \<and> ota_ok e req p"

lemma step_inv:
  assumes "pod_run_inv e req p" and "req \<Longrightarrow> keeps_required op"
  shows "pod_run_inv e req (ota_step e op p)"
proof (cases "\<exists>pol. op = Op_policy pol")
  case True
  then show ?thesis using assms by (auto simp: pod_run_inv_def)
next
  case False
  then have "keeps_ok e req p (ota_step e op p)" by (intro keeps_step) blast
  then show ?thesis using assms(1) by (simp add: keeps_ok_def pod_run_inv_def)
qed

lemma run_keeps_inv:
  "pod_run_inv e req p \<Longrightarrow> (req \<Longrightarrow> list_all keeps_required ops) \<Longrightarrow> pod_run_inv e req (pod_ota_run e ops p)"
proof (induction ops arbitrary: p)
  case (Cons op ops)
  have "pod_run_inv e req (ota_step e op p)" using Cons.prems by (intro step_inv) auto
  from Cons.IH [OF this] Cons.prems show ?case by (simp add: pod_ota_run_def)
qed (simp add: pod_ota_run_def)

lemma boot_inv: "pod_run_inv e False (pod_ota_boot r b c pol)"
  by (simp add: pod_run_inv_def pod_ota_boot_def session_boot_def session_ok_def staging_def)

text \<open>The policy requires signatures since a moment at which no image was staged, and was not loosened since.\<close>

definition required_since :: "pod_ota \<Rightarrow> pod_ota_op list \<Rightarrow> bool" where
  "required_since p0 ops \<longleftrightarrow> o_policy p0 = FW_SIG_POLICY_REQUIRED \<and> \<not> staging (s_state (o_session p0)) \<and>
     list_all keeps_required ops"

lemma required_inv:
  "required_since (pod_ota_run e ops0 (pod_ota_boot r b c pol)) ops \<Longrightarrow>
    pod_run_inv e True (pod_ota_run e ops0 (pod_ota_boot r b c pol))"
  using run_keeps_inv [OF boot_inv [of e r b c pol], of ops0]
  by (simp add: pod_run_inv_def required_since_def session_ok_def)

lemma run_ok:
  assumes "p0 = pod_ota_run e ops0 (pod_ota_boot r b c pol)" and "p = pod_ota_run e ops p0"
  shows "ota_ok e False p"
    and "required_since p0 ops \<Longrightarrow> ota_ok e True p \<and> o_policy p = FW_SIG_POLICY_REQUIRED"
proof -
  have p: "p = pod_ota_run e (ops0 @ ops) (pod_ota_boot r b c pol)" by (simp add: assms pod_ota_run_def)
  from run_keeps_inv [OF boot_inv [of e r b c pol], of "ops0 @ ops"] show "ota_ok e False p"
    by (simp add: p pod_run_inv_def)
  assume since: "required_since p0 ops"
  have "pod_run_inv e True p"
    unfolding assms(2) by (rule run_keeps_inv) (use since required_inv assms(1) in \<open>auto simp: required_since_def\<close>)
  then show "ota_ok e True p \<and> o_policy p = FW_SIG_POLICY_REQUIRED" by (simp add: pod_run_inv_def)
qed

subsection \<open>What gets installed\<close>

lemma signed_forD:
  assumes "signed_for e t sz digest sig"
  shows "\<exists>pub \<in> set (v_keys e).
    v_ed25519 e (take 64 (drop SIGNED_LEN sig)) pub (FW_SIGN_CONTEXT @ take SIGNED_LEN sig) \<and>
    length sig = FW_SIGN_MANIFEST_LEN \<and> m_target (parse_manifest (take SIGNED_LEN sig)) = of_nat t \<and>
    m_size (parse_manifest (take SIGNED_LEN sig)) = sz \<and> m_sha256 (parse_manifest (take SIGNED_LEN sig)) = digest"
  using fw_sign_check_OK_D [OF assms [unfolded signed_for_def]]
  by (fastforce simp: parse_manifest_signed bad_format_def)

lemma staged_src_ok: "src_ok staged_src len"
  by (auto simp: src_ok_def staged_src_def psram_read_def split: if_splits)

lemma target_blob_capacity:
  assumes "target_known e t" and "\<not> target_is_config t" and "t \<noteq> OTA_TARGET_FIRMWARE"
  shows "target_max_size e t = blob_slot_capacity (target_blob t)"
  using assms by (auto simp: target_max_size_def target_is_config_def)

lemma install_not_verified:
  "s_state (o_session p) \<noteq> OTA_VERIFIED \<Longrightarrow> ota_install_blob e p = fail ''no verified image staged'' p"
  by (simp add: ota_install_blob_def Let_def)

lemma install_firmware:
  "s_state (o_session p) = OTA_VERIFIED \<Longrightarrow> s_target (o_session p) = OTA_TARGET_FIRMWARE \<Longrightarrow>
    ota_install_blob e p = fail ''not a blob'' p"
  by (simp add: ota_install_blob_def Let_def)

text \<open>A blob install that succeeds was a slot write that succeeded, with arguments in range.\<close>

lemma install_writes:
  assumes inst: "ota_install_blob e p = (True, p')" and ok: "ota_ok e req p"
    and t: "\<not> target_is_config (s_target (o_session p))"
    and chip: "chip_ok (bs_chip (o_blobs p))" "length (bs_info (o_blobs p)) = BLOB_SLOT_COUNT"
  shows "s_state (o_session p) = OTA_VERIFIED \<and> s_target (o_session p) \<noteq> OTA_TARGET_FIRMWARE \<and>
    slot_holds (v_sha256 e) (q_cells (bs_chip (o_blobs p'))) (target_blob (s_target (o_session p)))
      (unat (s_size (o_session p))) (s_version (o_session p)) (s_expect (o_session p))
      (if s_target (o_session p) = OTA_TARGET_BRIDGE then s_sig_copy (o_session p) else [])"
proof -
  let ?s = "o_session p" and ?d = "target_blob (s_target (o_session p))"
  let ?x = "if s_target (o_session p) = OTA_TARGET_BRIDGE then s_sig_copy (o_session p) else []"
  have st: "s_state ?s = OTA_VERIFIED" "s_target ?s \<noteq> OTA_TARGET_FIRMWARE"
    using inst install_not_verified [of p e] install_firmware [of p e] by (auto simp: fail_def)
  have inv: "target_known e (s_target ?s)" "s_size ?s \<noteq> 0" "unat (s_size ?s) \<le> target_max_size e (s_target ?s)"
    "length (s_expect ?s) = 32" "length (s_sig_copy ?s) = FW_SIGN_MANIFEST_LEN"
    using ok st by (simp_all add: session_ok_def staging_def)
  have cap: "unat (s_size ?s) \<le> blob_slot_capacity ?d" using inv(1,3) target_blob_capacity [OF _ t st(2)] by simp
  have le6: "s_target ?s \<le> OTA_TARGET_BRIDGE" using inv(1) by (auto simp: target_known_def ota_targets split: if_splits)
  have br: "?d = BLOB_BRIDGE \<longleftrightarrow> s_target ?s = OTA_TARGET_BRIDGE"
    using t st(2) le6 by (auto simp: target_blob_def target_is_config_def ota_targets BLOB_BRIDGE_def BLOB_CA_def)
  have ne: "s_target ?s \<noteq> OTA_TARGET_TLS" using t by (simp add: target_is_config_def)
  obtain ok1 r b where w: "blob_store_write_ext (v_sha256 e) staged_src ?d (unat (s_size ?s)) (s_version ?s) (s_expect ?s) ?x
      (o_ram p) (o_blobs p) = (ok1, r, b)"
    by (cases "blob_store_write_ext (v_sha256 e) staged_src ?d (unat (s_size ?s)) (s_version ?s) (s_expect ?s) ?x
      (o_ram p) (o_blobs p)") auto
  have res: "ok1" "o_blobs p' = b"
    using inst st ne w br
    by (auto simp: ota_install_blob_def Let_def blob_store_write_def ota_simps split: if_splits)
  have so: "slot_ok (o_blobs p) ?d"
    by (rule ccontr) (use w res(1) in \<open>simp add: blob_store_write_ext_def\<close>)
  have "write_args_ok (o_blobs p) ?d (unat (s_size ?s)) (s_expect ?s) ?x"
    using so chip cap inv by (auto simp: write_args_ok_def unat_gt_0 BLOB_EXTRA_MAX_def FW_SIGN_MANIFEST_LEN_def)
  from blob_write_outcome [OF this staged_src_ok w] st res show ?thesis by simp
qed

subsection \<open>A concrete session\<close>

lemma hex_digit_nibble: "n < 16 \<Longrightarrow> hex_nibble (key_hex_digit n) = Some n"
  by (auto simp: hex_nibble_def key_hex_digit_def Let_def)

lemma hex_bytes_of_bytes: "hex_bytes (length bs) (hex_of_bytes bs @ rest) = Some (bs, rest)"
proof (induction bs)
  case (Cons b bs)
  have d: "unat b div 16 < 16" using unat_u8_bound [of b] by simp
  have "16 * (unat b div 16) + unat b mod 16 = unat b" by simp
  then have "(of_nat (16 * (unat b div 16) + unat b mod 16) :: u8) = b" by simp
  with Cons show ?case
    by (simp add: hex_of_bytes_def hex_digit_nibble d del: of_nat_add of_nat_mult)
qed (simp add: hex_of_bytes_def)

lemma parse_sha256_hex_of_bytes: "length bs = 32 \<Longrightarrow> parse_sha256_hex (Some (hex_of_bytes bs)) = Some bs"
  using hex_bytes_of_bytes [of bs "[]"] by (simp add: parse_sha256_hex_def)

definition gw_manifest :: "u8 list" where
  "gw_manifest = map of_char ''BPSG'' @ [1, 0, 1, 0] @ le32 3 @ sample_digest [1, 2, 3] @ replicate 12 0 @
     replicate 8 7 @ replicate 64 1"

definition gw_check :: "u8 list \<Rightarrow> u8 list \<Rightarrow> u8 list \<Rightarrow> bool" where
  "gw_check sg pub msg \<longleftrightarrow> pub = sample_pub \<and> msg = FW_SIGN_CONTEXT @ take 64 gw_manifest"

definition gw_env :: ota_env where
  "gw_env = \<lparr>v_sha256 = sample_digest, v_sha512 = sample_sha512, v_ed25519 = gw_check, v_keys = [sample_pub],
     v_bridge = True, v_flash = blank_flash, v_validate = (\<lambda>_ _ r. (None, r)), v_install_config = (\<lambda>_ _ r c. (None, r, c))\<rparr>"

definition ideal_ram :: "nat \<Rightarrow> nat \<Rightarrow> u8 list \<Rightarrow> qcells \<Rightarrow> bool \<times> qcells" where
  "ideal_ram n a bs c = (True, \<lambda>x. if x \<in> {a..<a + length bs} then bs ! (x - a) else c x)"

definition blank_ram :: psram where
  "blank_ram = \<lparr>r_cells = (\<lambda>_. 0), r_n = 0, r_do = ideal_ram, r_read_ok = (\<lambda>_. True)\<rparr>"

definition blank_int :: "nat \<Rightarrow> u8" where
  "blank_int = (\<lambda>_. 0xFF)"

definition gw_ops :: "pod_ota_op list" where
  "gw_ops = [Op_begin OTA_OWNER_CLOUD 3 (Some (hex_of_bytes (sample_digest [1, 2, 3]))) OTA_TARGET_GW0 7 (Some gw_manifest),
     Op_data OTA_OWNER_CLOUD 0 [1, 2, 3], Op_end OTA_OWNER_CLOUD]"

definition gw_run :: pod_ota where
  "gw_run = pod_ota_run gw_env gw_ops (pod_ota_boot blank_ram sample_store blank_int FW_SIG_POLICY_REQUIRED)"

lemma gw_manifest_check:
  "fw_sign_check_keys sample_sha512 gw_check (Some gw_manifest) 1 3 (sample_digest [1, 2, 3]) [sample_pub] =
     (FW_SIG_OK, Some (parse_manifest gw_manifest))"
proof -
  have ok: "\<not> bad_format gw_manifest"
    by (simp add: bad_format_def gw_manifest_def FW_SIGN_MANIFEST_LEN_def sample_digest_def)
  have m: "m_target (parse_manifest gw_manifest) = 1" "m_size (parse_manifest gw_manifest) = 3"
    "m_sha256 (parse_manifest gw_manifest) = sample_digest [1, 2, 3]" "m_key_id (parse_manifest gw_manifest) = replicate 8 7"
    by (simp_all add: parse_manifest_def gw_manifest_def rd32_def FW_SIGN_KEY_ID_LEN_def sample_digest_def)
  have "key_id_of sample_sha512 sample_pub = replicate 8 7"
    by (simp add: key_id_of_def sample_sha512_def sample_pub_def FW_SIGN_KEY_ID_LEN_def min_def hd_append)
  moreover have "gw_manifest \<noteq> []" by (simp add: gw_manifest_def)
  ultimately show ?thesis by (simp add: fw_sign_check_keys_def Let_def ok m gw_check_def SIGNED_LEN_def)
qed

definition gw_session :: "ota_state_t \<Rightarrow> u32 \<Rightarrow> ota_session" where
  "gw_session st recv = \<lparr>s_state = st, s_size = 3, s_received = recv, s_expect = sample_digest [1, 2, 3],
     s_target = OTA_TARGET_GW0, s_version = 7, s_err = [], s_sig = FW_SIG_OK,
     s_sig_key = hex_of_bytes (m_key_id (parse_manifest gw_manifest)), s_sig_copy = replicate FW_SIGN_MANIFEST_LEN 0,
     s_wd_seen = 0, s_wd_mark_ms = 0, s_verified_mark_ms = 0, s_owner = OTA_OWNER_CLOUD, s_orphan = False,
     s_activity_ms = 0\<rparr>"

definition gw_pod :: "ota_state_t \<Rightarrow> u32 \<Rightarrow> psram \<Rightarrow> pod_ota" where
  "gw_pod st recv r = \<lparr>o_session = gw_session st recv, o_clock_ms = 0, o_ref_owner = OTA_OWNER_NONE, o_ref_err = [],
     o_ref_seq = 0, o_ram = r, o_blobs = sample_store, o_int = blank_int, o_policy = FW_SIG_POLICY_REQUIRED\<rparr>"

definition gw_ram :: psram where
  "gw_ram = blank_ram\<lparr>r_cells := (\<lambda>x. if x \<in> {0..<3} then [1, 2, 3] ! x else 0), r_n := 1\<rparr>"

lemmas ota_eval = upd_session_def pod_ota_boot_def session_boot_def clear_refusal_def Let_def ota_targets ota_owners

lemma gw_begin:
  "ota_begin_owned gw_env OTA_OWNER_CLOUD 3 (Some (hex_of_bytes (sample_digest [1, 2, 3]))) OTA_TARGET_GW0 7 (Some gw_manifest)
     (pod_ota_boot blank_ram sample_store blank_int FW_SIG_POLICY_REQUIRED) = (True, gw_pod OTA_RECEIVING 0 blank_ram)"
proof -
  have hex: "parse_sha256_hex (Some (hex_of_bytes (sample_digest [1, 2, 3]))) = Some (sample_digest [1, 2, 3])"
    by (rule parse_sha256_hex_of_bytes) (simp add: sample_digest_def)
  have max: "3 \<le> target_max_size gw_env 1"
    by (simp add: target_max_size_def target_blob_def slot_geometry ota_targets BLOB_BRIDGE_def BLOB_CA_def)
  show ?thesis
    using max
    by (simp add: ota_begin_owned_def ota_busy_replace_for_def may_replace_def may_act_def session_active_def begin_signed_def
        hex target_known_def gw_env_def target_is_config_def check_signature_def gw_manifest_check fw_sign_accept_def
        sig_policy_consts gw_pod_def gw_session_def ota_eval)
qed

lemma gw_act: "ota_busy_for OTA_OWNER_CLOUD (gw_pod st n r) = (None, gw_pod st n r)"
  by (simp add: ota_busy_for_def may_act_def adopt_def gw_pod_def gw_session_def upd_session_def Let_def)

lemma gw_data: "ota_data_by OTA_OWNER_CLOUD 0 [1, 2, 3] (gw_pod OTA_RECEIVING 0 blank_ram) = (True, gw_pod OTA_RECEIVING 3 gw_ram)"
proof -
  have w: "psram_write 0 [1, 2, 3] blank_ram = (True, gw_ram)"
    by (simp add: psram_write_def blank_ram_def gw_ram_def ideal_ram_def fun_eq_iff)
  show ?thesis
    unfolding ota_data_by_def gw_act
    by (simp add: pod_ota_data_def gw_pod_def gw_session_def upd_session_def set_ram_def Let_def OTA_PSRAM_BASE_def w)
qed

lemma gw_ram_reads: "psram_read a n r = (Some (map (r_cells gw_ram) [a..<a + n]), r\<lparr>r_n := r_n r + 1\<rparr>)"
  if "r_read_ok r = (\<lambda>_. True)" "r_cells r = r_cells gw_ram" for r
  using that by (simp add: psram_read_def)

lemma gw_cells: "map (r_cells gw_ram) [0..<3] = [1, 2, 3]"
  by (simp add: gw_ram_def upt_rec)

lemma gw_end: "ota_end_by gw_env OTA_OWNER_CLOUD (gw_pod OTA_RECEIVING 3 gw_ram) =
  (True, gw_pod OTA_VERIFIED 3 (gw_ram\<lparr>r_n := 2\<rparr>))"
proof -
  have r: "psram_read 0 3 gw_ram = (Some [1, 2, 3], gw_ram\<lparr>r_n := 2\<rparr>)"
    using gw_ram_reads [of gw_ram 0 3] by (simp add: gw_cells) (simp add: gw_ram_def blank_ram_def)
  have l: "staged_loop 3 0 [] gw_ram = (Some [1, 2, 3], gw_ram\<lparr>r_n := 2\<rparr>)"
    by (subst staged_loop.simps, simp add: OTA_CHUNK_def OTA_PSRAM_BASE_def r) (subst staged_loop.simps, simp)
  show ?thesis
    unfolding ota_end_by_def gw_act
    by (simp add: pod_ota_end_def staged_hash_check_def gw_pod_def gw_session_def upd_session_def
        set_ram_def Let_def l gw_env_def ota_targets target_is_config_def)
qed

lemma gw_run_state: "gw_run = gw_pod OTA_VERIFIED 3 (gw_ram\<lparr>r_n := 2\<rparr>)"
  by (simp add: gw_run_def pod_ota_run_def gw_ops_def gw_begin gw_data gw_end)

lemma gw_serves: "serves staged_src (\<lambda>r. r_read_ok r = (\<lambda>_. True) \<and> r_cells r = r_cells gw_ram) [1, 2, 3]"
proof -
  have "map (r_cells gw_ram) [off..<off + n] = take n (drop off [1, 2, 3])" if "off + n \<le> 3" for off n
  proof -
    have "map (r_cells gw_ram) [off..<off + n] = take n (drop off (map (r_cells gw_ram) [0..<3]))"
      using that by (simp add: take_map drop_map take_upt)
    then show ?thesis by (simp add: gw_cells)
  qed
  then show ?thesis by (auto simp: serves_def staged_src_def psram_read_def OTA_PSRAM_BASE_def numeral_3_eq_3)
qed

lemma gw_install: "\<exists>p'. ota_install_blob gw_env gw_run = (True, p')"
proof -
  have a: "write_args_ok sample_store BLOB_GW0 (length [1, 2, 3 :: u8]) (sample_digest [1, 2, 3]) []"
    using sample_chip_ok
    by (simp add: write_args_ok_def slot_ok_def sample_store_def slot_geometry BLOB_GW0_def BLOB_COUNT_def
        BLOB_EXTRA_MAX_def sample_digest_def)
  have I: "r_read_ok (gw_ram\<lparr>r_n := 2\<rparr>) = (\<lambda>_. True) \<and> r_cells (gw_ram\<lparr>r_n := 2\<rparr>) = r_cells gw_ram"
    by (simp add: gw_ram_def blank_ram_def)
  obtain r b where w: "blob_store_write_ext sample_digest staged_src BLOB_GW0 3 7 (sample_digest [1, 2, 3]) []
      (gw_ram\<lparr>r_n := 2\<rparr>) sample_store = (True, r, b)"
    using blob_write_live [where ?sha256.0 = sample_digest and ver = 7,
        OF a sample_chip_ok(2) gw_serves staged_src_ok I refl] by (auto simp: numeral_3_eq_3)
  have st: "o_session gw_run = gw_session OTA_VERIFIED 3" "o_ram gw_run = gw_ram\<lparr>r_n := 2\<rparr>" "o_blobs gw_run = sample_store"
    by (simp_all add: gw_run_state gw_pod_def)
  have d: "target_blob OTA_TARGET_GW0 = BLOB_GW0" "BLOB_GW0 \<noteq> BLOB_BRIDGE" "OTA_TARGET_GW0 \<noteq> OTA_TARGET_FIRMWARE"
    "OTA_TARGET_GW0 \<noteq> OTA_TARGET_TLS"
    by (simp_all add: target_blob_def ota_targets BLOB_GW0_def BLOB_BRIDGE_def BLOB_CA_def)
  show ?thesis
    using w by (simp add: ota_install_blob_def st gw_session_def d blob_store_write_def Let_def gw_env_def)
qed

text \<open>
  C1. Whatever the transports, the watchdog and the other users of the PSRAM do, and whatever the memories
  answer: an install of gateware, of the ESP image or of the bridge's image that returns 0 has left in the
  target's slot an image whose SHA-256, size and target are those of a manifest that the holder of a trusted
  key signed. For the bridge's image, whose manifest is stored beside it, this holds under every policy; for
  the others, when the policy has required signatures since before the session began (\<open>p0\<close> is any moment
  of the run at which no image was staged): the policy is read when a session begins and not again at the
  install, see \<open>install_ignores_policy\<close>. CA and TLS files are configuration, which the code neither signs nor
  checks by this policy; they are left out here. The assumptions are that the Ed25519 check accepts a message
  only when that key's holder signed it, and that the flash chip behaves as its data sheet says, failures
  included.
\<close>

theorem installed_image_signed:
  assumes unforgeable: "\<And>sg pub msg. v_ed25519 e sg pub msg \<Longrightarrow> msg \<in> signed_by pub"
    and run: "p0 = pod_ota_run e ops0 (pod_ota_boot r b c0 pol)" "p = pod_ota_run e ops p0"
    and code: "\<not> target_is_config (s_target (o_session p))"
    and need: "required_since p0 ops \<or> s_target (o_session p) = OTA_TARGET_BRIDGE"
    and chip: "chip_ok (bs_chip (o_blobs p))" "length (bs_info (o_blobs p)) = BLOB_SLOT_COUNT"
    and inst: "ota_install_blob e p = (True, p')"
  shows "\<exists>pub \<in> set (v_keys e). \<exists>m.
    let t = s_target (o_session p); c = q_cells (bs_chip (o_blobs p')); d = target_blob t in
    FW_SIGN_CONTEXT @ m \<in> signed_by pub \<and> length m = SIGNED_LEN \<and> m_target (parse_manifest m) = of_nat t \<and>
    bi_present (slot_view c d) \<and> unat (m_size (parse_manifest m)) = bi_len (slot_view c d) \<and>
    m_sha256 (parse_manifest m) = v_sha256 e (slot_data c d (bi_len (slot_view c d))) \<and>
    (t = OTA_TARGET_BRIDGE \<longrightarrow> take SIGNED_LEN (slot_extra c d FW_SIGN_MANIFEST_LEN) = m)"
proof -
  let ?s = "o_session p"
  have ok: "session_ok e (required_since p0 ops) ?s"
    using run_ok [OF run] by (cases "required_since p0 ops") simp_all
  note w = install_writes [OF inst ok code chip]
  obtain sig where sig: "signed_for e (s_target ?s) (s_size ?s) (s_expect ?s) sig"
      "s_target ?s = OTA_TARGET_BRIDGE \<longrightarrow> s_sig_copy ?s = sig"
    using ok w code need by (auto simp: session_ok_def staging_def)
  from signed_forD [OF sig(1)] obtain pub where pub: "pub \<in> set (v_keys e)"
      "v_ed25519 e (take 64 (drop SIGNED_LEN sig)) pub (FW_SIGN_CONTEXT @ take SIGNED_LEN sig)"
      "length sig = FW_SIGN_MANIFEST_LEN" "m_target (parse_manifest (take SIGNED_LEN sig)) = of_nat (s_target ?s)"
      "m_size (parse_manifest (take SIGNED_LEN sig)) = s_size ?s"
      "m_sha256 (parse_manifest (take SIGNED_LEN sig)) = s_expect ?s"
    by blast
  show ?thesis
    using pub unforgeable [OF pub(2)] w sig(2) unfolding Let_def
    by (intro bexI [of _ pub] exI [of _ "take SIGNED_LEN sig"])
      (auto simp: slot_holds_def FW_SIGN_MANIFEST_LEN_def SIGNED_LEN_def)
qed


theorem installed_image_signed_witness:
  "\<exists>p' m. ota_install_blob gw_env gw_run = (True, p') \<and> m_target (parse_manifest m) = 1 \<and>
     m_sha256 (parse_manifest m) =
       sample_digest (slot_data (q_cells (bs_chip (o_blobs p'))) BLOB_GW0 (bi_len (slot_view (q_cells (bs_chip (o_blobs p'))) BLOB_GW0)))"
proof -
  define signed where "signed pub = (if pub = sample_pub then {FW_SIGN_CONTEXT @ take 64 gw_manifest} else {})" for pub
  obtain p' where p': "ota_install_blob gw_env gw_run = (True, p')" using gw_install by blast
  have u: "msg \<in> signed pub" if "v_ed25519 gw_env sg pub msg" for sg pub msg
    using that by (simp add: gw_env_def gw_check_def signed_def)
  have t: "s_target (o_session gw_run) = OTA_TARGET_GW0" "o_blobs gw_run = sample_store"
    by (simp_all add: gw_run_state gw_pod_def gw_session_def)
  have c: "\<not> target_is_config (s_target (o_session gw_run))" by (simp add: t target_is_config_def ota_targets)
  have chip: "chip_ok (bs_chip (o_blobs gw_run))" "length (bs_info (o_blobs gw_run)) = BLOB_SLOT_COUNT"
    using sample_chip_ok(1) by (simp_all add: t) (simp add: sample_store_def)
  have d: "target_blob OTA_TARGET_GW0 = BLOB_GW0" "v_sha256 gw_env = sample_digest"
    by (simp_all add: target_blob_def ota_targets BLOB_GW0_def gw_env_def)
  let ?p0 = "pod_ota_boot blank_ram sample_store blank_int FW_SIG_POLICY_REQUIRED"
  have start: "?p0 = pod_ota_run gw_env [] ?p0" by (simp add: pod_ota_run_def)
  have since: "required_since ?p0 gw_ops"
    by (simp add: required_since_def pod_ota_boot_def session_boot_def staging_def gw_ops_def)
  have "\<exists>pub \<in> set (v_keys gw_env). \<exists>m.
    let t = s_target (o_session gw_run); c = q_cells (bs_chip (o_blobs p')); d = target_blob t in
    FW_SIGN_CONTEXT @ m \<in> signed pub \<and> length m = SIGNED_LEN \<and> m_target (parse_manifest m) = of_nat t \<and>
    bi_present (slot_view c d) \<and> unat (m_size (parse_manifest m)) = bi_len (slot_view c d) \<and>
    m_sha256 (parse_manifest m) = v_sha256 gw_env (slot_data c d (bi_len (slot_view c d))) \<and>
    (t = OTA_TARGET_BRIDGE \<longrightarrow> take SIGNED_LEN (slot_extra c d FW_SIGN_MANIFEST_LEN) = m)"
    by (rule installed_image_signed [where signed_by = signed, OF _ start gw_run_def c disjI1 [OF since] chip p']) (rule u)
  from this [unfolded Let_def t d] show ?thesis using p' by (auto simp: OTA_TARGET_GW0_def)
qed

text \<open>
  The install itself never looks at the signature policy: what was begun under \<open>audit\<close> is installed just the
  same after the policy was raised to \<open>required\<close>.
\<close>

lemma install_ignores_policy:
  "ota_install_blob e (p\<lparr>o_policy := pol\<rparr>) = (case ota_install_blob e p of (ok, p') \<Rightarrow> (ok, p'\<lparr>o_policy := pol\<rparr>))"
  by (simp add: ota_install_blob_def Let_def ota_simps split: prod.split option.split)

subsection \<open>Owners do not disturb each other\<close>

text \<open>On whose behalf an operation is asked for.\<close>

fun requested_by :: "pod_ota_op \<Rightarrow> ota_owner_t option" where
  "requested_by (Op_begin who sz hex t ver sig) = Some who"
| "requested_by (Op_begin_b64 who sz hex t ver sig g) = Some who"
| "requested_by (Op_data who off buf) = Some who"
| "requested_by (Op_end who) = Some who"
| "requested_by (Op_abort who) = Some who"
| "requested_by (Op_refuse who why) = Some who"
| "requested_by (Op_busy who) = Some who"
| "requested_by _ = None"

text \<open>The operations that carry out or refuse something of the session by name of its holder.\<close>

fun answers_busy :: "pod_ota_op \<Rightarrow> bool" where
  "answers_busy (Op_begin who sz hex t ver sig) = True"
| "answers_busy (Op_begin_b64 who sz hex t ver sig g) = True"
| "answers_busy (Op_data who off buf) = True"
| "answers_busy (Op_end who) = True"
| "answers_busy _ = False"

definition same_but_refusal :: "pod_ota \<Rightarrow> pod_ota \<Rightarrow> bool" where
  "same_but_refusal p p' \<longleftrightarrow>
     o_session p' = o_session p \<and> o_clock_ms p' = o_clock_ms p \<and> o_ram p' = o_ram p \<and> o_blobs p' = o_blobs p \<and>
     o_int p' = o_int p \<and> o_policy p' = o_policy p"

lemma refuse_other:
  assumes "\<not> may_replace p who"
  shows "same_but_refusal p (refuse who why fresh p) \<and> o_ref_owner (refuse who why fresh p) = who \<and>
    take 95 (o_ref_err (refuse who why fresh p)) = take 95 (case why of Some w \<Rightarrow> w | None \<Rightarrow> [])"
  using assms by (auto simp: refuse_def same_but_refusal_def Let_def snprintf_def)

lemma not_replaced:
  assumes "s_state (o_session p) = OTA_RECEIVING \<or> s_state (o_session p) = OTA_VERIFIED"
    and "s_owner (o_session p) \<noteq> OTA_OWNER_NONE" and "s_owner (o_session p) \<noteq> who"
    and "unat (o_clock_ms p - s_activity_ms (o_session p)) < 30000"
    and "\<not> (s_orphan (o_session p) \<and> who \<ge> 16 \<and> s_owner (o_session p) \<ge> 16)"
  shows "\<not> may_replace p who"
  using assms by (auto simp: may_replace_def may_act_def may_adopt_def abandoned_def session_active_def is_lan_def
      OTA_OWNER_LAN_def OTA_TAKEOVER_IDLE_MS_def word_le_nat_alt)

lemma busy_for_other: "\<not> may_replace p who \<Longrightarrow> ota_busy_for who p = (Some (busy_msg p), p)"
  by (simp add: ota_busy_for_def may_replace_def)

lemma step_of_other:
  assumes "\<not> may_replace p who" and "requested_by op = Some who"
  shows "same_but_refusal p (ota_step e op p) \<and>
    (o_ref_owner (ota_step e op p) = who \<or>
     o_ref_owner (ota_step e op p) = o_ref_owner p \<and> o_ref_err (ota_step e op p) = o_ref_err p) \<and>
    (answers_busy op \<longrightarrow> o_ref_owner (ota_step e op p) = who \<and>
       take 95 (o_ref_err (ota_step e op p)) = busy_msg p)"
proof -
  have "take 95 (snprintf 96 x) = snprintf 96 x" for x by (simp add: snprintf_def)
  then have msg: "take 95 (busy_msg p) = busy_msg p" unfolding busy_msg_def .
  show ?thesis
    using assms(2) refuse_other [OF assms(1)] busy_for_other [OF assms(1)] assms(1) msg
    by (cases op) (auto simp: ota_begin_owned_b64_def ota_begin_owned_def ota_busy_replace_for_def ota_refuse_for_def
        ota_data_by_def ota_end_by_def ota_abort_by_def same_but_refusal_def)
qed

text \<open>
  C17. While one transport has a live session, nothing that another one asks for touches it, as long as the
  owner was heard less than 30 s ago and not both are LAN connections of which the owner's has closed (those
  are the two ways in that the code leaves open): a begin, data, an end, an abort, a refusal or a busy check
  leaves the session, the staged image, the slots and the policy as they were. The one who asked sees its
  begin, data or end refused with the holder named; everyone else sees the session as before, except one to
  whom an earlier refusal of its own was shown until now.
\<close>

theorem others_cannot_disturb:
  assumes "s_state (o_session p) = OTA_RECEIVING \<or> s_state (o_session p) = OTA_VERIFIED"
    and "s_owner (o_session p) \<noteq> OTA_OWNER_NONE" and "s_owner (o_session p) \<noteq> who"
    and "unat (o_clock_ms p - s_activity_ms (o_session p)) < 30000"
    and "\<not> (s_orphan (o_session p) \<and> who \<ge> 16 \<and> s_owner (o_session p) \<ge> 16)"
    and "requested_by op = Some who"
  shows "let p' = ota_step e op p in
    same_but_refusal p p' \<and>
    (answers_busy op \<and> who \<noteq> OTA_OWNER_NONE \<longrightarrow>
       w_state (ota_view_for who p') = OTA_ERROR \<and> take 95 (w_error (ota_view_for who p')) = busy_msg p) \<and>
    (\<forall>w. w \<noteq> who \<and> w \<noteq> o_ref_owner p \<longrightarrow>
       ota_view_for w p' = (ota_view_for w p)\<lparr>w_refusals := o_ref_seq p'\<rparr> \<and>
       w_state (ota_view_for w p') = s_state (o_session p))"
  using step_of_other [OF not_replaced [OF assms(1-5)] assms(6), of e]
  by (auto simp: Let_def ota_view_for_def same_but_refusal_def)

theorem others_cannot_disturb_witness:
  "let p = gw_pod OTA_RECEIVING 0 blank_ram; p' = ota_step gw_env (Op_data OTA_OWNER_USB 0 [9]) p in
    o_session p' = o_session p \<and> o_ram p' = o_ram p \<and> w_state (ota_view_for OTA_OWNER_USB p') = OTA_ERROR \<and>
    w_state (ota_view_for OTA_OWNER_CLOUD p') = OTA_RECEIVING"
proof -
  let ?p = "gw_pod OTA_RECEIVING 0 blank_ram"
  have live: "s_state (o_session ?p) = OTA_RECEIVING \<or> s_state (o_session ?p) = OTA_VERIFIED"
    "s_owner (o_session ?p) \<noteq> OTA_OWNER_NONE" "s_owner (o_session ?p) \<noteq> OTA_OWNER_USB"
    "unat (o_clock_ms ?p - s_activity_ms (o_session ?p)) < 30000"
    "\<not> (s_orphan (o_session ?p) \<and> OTA_OWNER_USB \<ge> 16 \<and> s_owner (o_session ?p) \<ge> 16)"
    by (simp_all add: gw_pod_def gw_session_def ota_owners)
  have w: "OTA_OWNER_CLOUD \<noteq> OTA_OWNER_USB" "OTA_OWNER_CLOUD \<noteq> o_ref_owner ?p" "s_state (o_session ?p) = OTA_RECEIVING"
    "OTA_OWNER_USB \<noteq> OTA_OWNER_NONE"
    by (simp_all add: ota_owners gw_pod_def gw_session_def)
  have "requested_by (Op_data OTA_OWNER_USB 0 [9]) = Some OTA_OWNER_USB" by simp
  from others_cannot_disturb [OF live this, of gw_env] w show ?thesis
    unfolding Let_def same_but_refusal_def by (auto simp del: ota_step.simps)
qed

subsection \<open>The watchdog\<close>

definition polls :: "nat list \<Rightarrow> pod_ota \<Rightarrow> pod_ota" where
  "polls ts p = fold (\<lambda>t. ota_watchdog (of_nat t)) ts p"

text \<open>
  What the first poll at \<open>a\<close> leaves: no session, or one whose mark is less than the limit before \<open>a\<close>,
  or the mark 1 that stands for a clock of 0.
\<close>

definition marked :: "nat \<Rightarrow> pod_ota \<Rightarrow> bool" where
  "marked a p \<longleftrightarrow>
     (let s = o_session p; r = of_nat a - s_wd_mark_ms s; v = of_nat a - s_verified_mark_ms s in
      s_state s = OTA_IDLE \<or>
      (s_state s = OTA_RECEIVING \<and> s_received s = s_wd_seen s \<and> s_wd_mark_ms s \<noteq> 0 \<and> (r < OTA_STAGE_IDLE_MS \<or> r = - 1)) \<or>
      (s_state s = OTA_VERIFIED \<and> s_verified_mark_ms s \<noteq> 0 \<and> (v < OTA_VERIFIED_HOLD_MS \<or> v = - 1)))"

lemma mark_of_nz: "mark_of w \<noteq> 0" "w - mark_of w = 0 \<or> w - mark_of w = - 1"
  by (auto simp: mark_of_def)

lemmas watchdog_simps = ota_watchdog_def pod_ota_abort_def upd_session_def Let_def

lemma watchdog_marks:
  assumes "session_active p"
  shows "marked a (ota_watchdog (of_nat a) p)"
proof -
  have "(0 :: u32) < OTA_STAGE_IDLE_MS" "(0 :: u32) < OTA_VERIFIED_HOLD_MS"
    by (simp_all add: OTA_STAGE_IDLE_MS_def OTA_VERIFIED_HOLD_MS_def)
  then show ?thesis
    using assms mark_of_nz [of "of_nat a"] by (auto simp: session_active_def marked_def watchdog_simps)
qed

lemma watchdog_keeps_marked: "marked a p \<Longrightarrow> marked a (ota_watchdog t p)"
  by (auto simp: marked_def watchdog_simps)

lemma elapsed_since_mark:
  assumes "a \<le> b" and "b - a < 2 ^ 31" and "unat (limit :: u32) < b - a" and "limit \<le> 600000"
    and "of_nat a - m < limit \<or> of_nat a - m = (- 1 :: u32)"
  shows "\<not> of_nat b - m < limit"
proof -
  define d where "d = (of_nat a - m :: u32)"
  have "of_nat b - m = of_nat (b - a) + d" using assms(1) by (simp add: d_def of_nat_diff)
  moreover have "unat (of_nat (b - a) :: u32) = b - a" using assms(2) by (simp add: unat_of_nat)
  moreover have lim: "unat limit \<le> 600000" using assms(4) by (simp add: word_le_nat_alt)
  ultimately show ?thesis
  proof (cases "d = - 1")
    case True
    have "1 \<le> b - a" using assms(3) by simp
    then have "(of_nat (b - a) :: u32) + - 1 = of_nat (b - a - 1)" by (simp add: of_nat_diff [of 1 "b - a"])
    then have eq: "of_nat b - m = of_nat (b - a - 1)"
      using \<open>of_nat b - m = of_nat (b - a) + d\<close> True by simp
    have "unat (of_nat (b - a - 1) :: u32) = b - a - 1" using assms(2) by (simp add: unat_of_nat)
    then show ?thesis unfolding eq using assms(3) by (simp add: word_less_nat_alt del: of_nat_diff)
  next
    case False
    then have "unat d < unat limit" using assms(5) by (simp add: d_def word_less_nat_alt)
    then have "unat (of_nat (b - a) :: u32) + unat d < 2 ^ LENGTH(32)"
      using lim assms(2) \<open>unat (of_nat (b - a)) = b - a\<close> by simp
    then have "unat (of_nat b - m) = b - a + unat d"
      using \<open>of_nat b - m = of_nat (b - a) + d\<close> \<open>unat (of_nat (b - a)) = b - a\<close>
      by (simp add: unat_add_lem [THEN iffD1])
    then show ?thesis using assms(3) by (simp add: word_less_nat_alt)
  qed
qed

lemma watchdog_ends_marked:
  assumes "marked a p" and "a \<le> b" and "b - a < 2 ^ 31"
    and "(if s_state (o_session p) = OTA_VERIFIED then 600000 else 120000) < b - a"
  shows "s_state (o_session (ota_watchdog (of_nat b) p)) = OTA_IDLE"
proof -
  let ?s = "o_session p"
  have r: "\<not> of_nat b - s_wd_mark_ms ?s < OTA_STAGE_IDLE_MS"
    if "s_state ?s = OTA_RECEIVING" "of_nat a - s_wd_mark_ms ?s < OTA_STAGE_IDLE_MS \<or> of_nat a - s_wd_mark_ms ?s = - 1"
    using assms(4) that by (intro elapsed_since_mark [OF assms(2,3)]) (simp_all add: OTA_STAGE_IDLE_MS_def)
  have v: "\<not> of_nat b - s_verified_mark_ms ?s < OTA_VERIFIED_HOLD_MS"
    if "s_state ?s = OTA_VERIFIED" "of_nat a - s_verified_mark_ms ?s < OTA_VERIFIED_HOLD_MS \<or> of_nat a - s_verified_mark_ms ?s = - 1"
    using assms(4) that by (intro elapsed_since_mark [OF assms(2,3)]) (simp_all add: OTA_VERIFIED_HOLD_MS_def)
  show ?thesis using assms(1) r v by (auto simp: marked_def watchdog_simps)
qed

text \<open>
  C29. A session that stops ends. When the watchdog polls an active session at time \<open>a\<close> and again at
  \<open>b\<close>, with any polls between them and nothing else happening, then after the second poll there is no
  session, if more than 120 s lie between them, or more than 600 s for an image that was verified and never
  committed. Times are real milliseconds; the 32-bit clock may wrap between them.
\<close>

theorem stalled_session_ends:
  assumes "session_active p" and "a \<le> b" and "b - a < 2 ^ 31"
    and "(if s_state (o_session p) = OTA_VERIFIED then 600000 else 120000) < b - a"
  shows "s_state (o_session (polls (a # ts @ [b]) p)) = OTA_IDLE"
proof -
  have st: "s_state (o_session (ota_watchdog t q)) = OTA_VERIFIED \<Longrightarrow> s_state (o_session q) = OTA_VERIFIED" for t q
    by (auto simp: watchdog_simps split: if_splits)
  have m: "marked a (polls ts q) \<and> (s_state (o_session (polls ts q)) = OTA_VERIFIED \<longrightarrow> s_state (o_session q) = OTA_VERIFIED)"
    if "marked a q" for q
    using that
  proof (induction ts arbitrary: q)
    case (Cons t ts)
    from Cons.IH [OF watchdog_keeps_marked [OF Cons.prems]] st show ?case by (auto simp: polls_def)
  qed (simp add: polls_def)
  let ?q = "ota_watchdog (of_nat a) p"
  have mid: "marked a (polls ts ?q)" "s_state (o_session (polls ts ?q)) = OTA_VERIFIED \<Longrightarrow> s_state (o_session p) = OTA_VERIFIED"
    using m [OF watchdog_marks [OF assms(1)]] st by blast+
  have "polls (a # ts @ [b]) p = ota_watchdog (of_nat b) (polls ts ?q)" by (simp add: polls_def)
  moreover have "(if s_state (o_session (polls ts ?q)) = OTA_VERIFIED then 600000 else 120000) < b - a"
    using assms(4) mid(2) by (auto split: if_splits)
  ultimately show ?thesis using watchdog_ends_marked [OF mid(1) assms(2,3)] by simp
qed

theorem stalled_session_ends_witness:
  "s_state (o_session (polls [4294900000, 4294967296, 4295020001] (gw_pod OTA_RECEIVING 0 blank_ram))) = OTA_IDLE"
proof -
  have "session_active (gw_pod OTA_RECEIVING 0 blank_ram)" by (simp add: session_active_def gw_pod_def gw_session_def)
  moreover have "(if s_state (o_session (gw_pod OTA_RECEIVING 0 blank_ram)) = OTA_VERIFIED then 600000 else 120000)
      < (4295020001 :: nat) - 4294900000"
    by (simp add: gw_pod_def gw_session_def)
  ultimately show ?thesis
    using stalled_session_ends [of "gw_pod OTA_RECEIVING 0 blank_ram" 4294900000 4295020001 "[4294967296]"] by simp
qed

text \<open>
  C39. A clock of 0 is kept as the mark 1, which is in its future: two polls of a session at the millisecond
  where the clock reads 0 abandon it, although nothing stalled; at any other time two polls in the same
  millisecond leave the session alone.
\<close>

theorem watchdog_clock_zero:
  assumes "s_state (o_session p) = OTA_RECEIVING" and "s_wd_mark_ms (o_session p) = 0"
  shows "s_state (o_session (ota_watchdog t (ota_watchdog t p))) = (if t = 0 then OTA_IDLE else OTA_RECEIVING)"
  using assms by (auto simp: watchdog_simps mark_of_def OTA_STAGE_IDLE_MS_def)

theorem watchdog_clock_zero_witness:
  "s_state (o_session (ota_watchdog 0 (ota_watchdog 0 (gw_pod OTA_RECEIVING 0 blank_ram)))) = OTA_IDLE \<and>
   s_state (o_session (ota_watchdog 5 (ota_watchdog 5 (gw_pod OTA_RECEIVING 0 blank_ram)))) = OTA_RECEIVING"
  using watchdog_clock_zero [of "gw_pod OTA_RECEIVING 0 blank_ram" 0]
    watchdog_clock_zero [of "gw_pod OTA_RECEIVING 0 blank_ram" 5]
  by (simp add: gw_pod_def gw_session_def)

subsection \<open>What a verified firmware image is\<close>

lemma psram_read_cells:
  "psram_read a n r = (b, r') \<Longrightarrow> r_cells r' = r_cells r \<and> (b = None \<or> b = Some (map (r_cells r) [a..<a + n]))"
  by (auto simp: psram_read_def split: if_splits)

lemma staged_loop_cells:
  assumes "staged_loop sz off ctx r = (x, r')"
  shows "r_cells r' = r_cells r \<and> (x = None \<or> x = Some (ctx @ map (r_cells r) [off..<sz]))"
  using assms
proof (induction sz off ctx r arbitrary: x r' rule: staged_loop.induct)
  case (1 sz off ctx r)
  show ?case
  proof (cases "off < sz")
    case False
    with 1(2) show ?thesis by (subst (asm) staged_loop.simps) auto
  next
    case True
    define n where "n = (if sz - off > OTA_CHUNK then OTA_CHUNK else sz - off)"
    have n: "off + n \<le> sz" using True by (auto simp: n_def)
    obtain b r1 where rd: "psram_read (OTA_PSRAM_BASE + off) n r = (b, r1)" by force
    note c = psram_read_cells [OF rd]
    show ?thesis
    proof (cases b)
      case None
      with 1(2) True rd c show ?thesis
        by (subst (asm) staged_loop.simps) (simp add: n_def [symmetric] Let_def)
    next
      case (Some chunk)
      have rec: "staged_loop sz (off + n) (ctx @ chunk) r1 = (x, r')"
        using 1(2) True rd Some by (subst (asm) staged_loop.simps) (simp add: n_def [symmetric] Let_def)
      have ih: "r_cells r' = r_cells r1 \<and> (x = None \<or> x = Some ((ctx @ chunk) @ map (r_cells r1) [off + n..<sz]))"
        using 1(1) [OF _ n_def rd [symmetric] Some rec] True by simp
      have chunk: "chunk = map (r_cells r) [off..<off + n]" and c1: "r_cells r1 = r_cells r"
        using c Some by (simp_all add: OTA_PSRAM_BASE_def)
      have "chunk @ map (r_cells r1) [off + n..<sz] = map (r_cells r) [off..<sz]"
        unfolding chunk c1 map_append [symmetric] using upt_join [of off "off + n" sz] n by simp
      then show ?thesis using ih c1 by auto
    qed
  qed
qed

definition staged_image :: "pod_ota \<Rightarrow> u8 list" where
  "staged_image p = map (r_cells (o_ram p)) [0..<unat (s_size (o_session p))]"

text \<open>The block at its offset, when the image is long enough to have one.\<close>

definition image_block :: "u8 list \<Rightarrow> u8 list option" where
  "image_block img =
     (if length img \<ge> FW_INFO_OFFSET + FW_INFO_LEN then Some (take FW_INFO_LEN (drop FW_INFO_OFFSET img)) else None)"

lemma image_block_staged:
  "image_block (staged_image p) =
     (if unat (s_size (o_session p)) \<ge> FW_INFO_OFFSET + FW_INFO_LEN
      then Some (map (r_cells (o_ram p)) [FW_INFO_OFFSET..<FW_INFO_OFFSET + FW_INFO_LEN]) else None)"
  by (simp add: image_block_def staged_image_def drop_map take_map take_upt)

lemma staged_fits_block:
  assumes "staged_fits_this_flash e p = (True, p')"
  shows "r_cells (o_ram p') = r_cells (o_ram p) \<and>
    unat (fw_info_required_kb (image_block (staged_image p))) \<le> flash_layout_size (v_flash e) div 1024"
proof (cases "unat (s_size (o_session p)) \<ge> FW_INFO_OFFSET + FW_INFO_LEN")
  case False
  then show ?thesis
    using assms by (auto simp: staged_fits_this_flash_def image_block_staged ota_simps Let_def split: if_splits)
next
  case True
  obtain b r where rd: "psram_read (OTA_PSRAM_BASE + FW_INFO_OFFSET) FW_INFO_LEN (o_ram p) = (b, r)" by force
  show ?thesis
    using assms True rd psram_read_cells [OF rd]
    by (cases b) (auto simp: staged_fits_this_flash_def image_block_staged ota_simps Let_def OTA_PSRAM_BASE_def split: if_splits)
qed

lemma staged_enforcement_block:
  assumes "staged_keeps_enforcement p = (True, p')" and "o_policy p = FW_SIG_POLICY_REQUIRED"
  shows "fw_info_flags (image_block (staged_image p)) AND FW_INFO_FLAG_ENFORCES_SIG \<noteq> 0"
proof (cases "unat (s_size (o_session p)) \<ge> FW_INFO_OFFSET + FW_INFO_LEN")
  case False
  then show ?thesis
    using assms by (auto simp: staged_keeps_enforcement_def image_block_staged ota_simps Let_def split: if_splits)
next
  case True
  obtain b r where rd: "psram_read (OTA_PSRAM_BASE + FW_INFO_OFFSET) FW_INFO_LEN (o_ram p) = (b, r)" by force
  show ?thesis
    using assms True rd psram_read_cells [OF rd]
    by (cases b) (auto simp: staged_keeps_enforcement_def image_block_staged ota_simps Let_def OTA_PSRAM_BASE_def split: if_splits)
qed

lemma ota_end_firmware:
  assumes "pod_ota_end e p = (True, p')" and "s_target (o_session p) = OTA_TARGET_FIRMWARE"
  shows "v_sha256 e (staged_image p) = s_expect (o_session p) \<and>
    unat (fw_info_required_kb (image_block (staged_image p))) \<le> flash_layout_size (v_flash e) div 1024 \<and>
    (o_policy p = FW_SIG_POLICY_REQUIRED \<longrightarrow>
       fw_info_flags (image_block (staged_image p)) AND FW_INFO_FLAG_ENFORCES_SIG \<noteq> 0)"
proof -
  have good: "s_state (o_session p) = OTA_RECEIVING" "\<not> s_received (o_session p) < s_size (o_session p)"
    using ota_end_effect [OF assms(1)] by simp_all
  obtain ctx r where l: "staged_loop (unat (s_size (o_session p))) 0 [] (o_ram p) = (Some ctx, r)"
      and sha: "v_sha256 e ctx = s_expect (o_session p)"
    using ota_end_effect [OF assms(1)] by (metis fst_conv surj_pair)
  have lc: "r_cells r = r_cells (o_ram p)" "ctx = staged_image p"
    using staged_loop_cells [OF l] by (simp_all add: staged_image_def)
  have h: "staged_hash_check e p = (Some 0, set_ram r p)" using l sha by (simp add: staged_hash_check_def)
  let ?p1 = "set_ram r p"
  have s1: "o_session ?p1 = o_session p" "o_policy ?p1 = o_policy p" "staged_image ?p1 = staged_image p"
    using lc(1) by (simp_all add: set_ram_def staged_image_def)
  obtain ok2 p2 where f: "staged_fits_this_flash e ?p1 = (ok2, p2)" by force
  have ok2: "ok2" using assms good h f s1 by (cases ok2) (simp_all add: pod_ota_end_def Let_def)
  note b2 = staged_fits_block [OF f [unfolded eqTrueI [OF ok2]]]
  have s2: "o_session p2 = o_session p" "staged_image p2 = staged_image p"
    using staged_fits_True [OF f [unfolded eqTrueI [OF ok2]]] b2 s1 by (simp_all add: staged_image_def set_ram_def)
  have pol2: "o_policy p2 = o_policy p"
    using f ok2 s1 by (auto simp: staged_fits_this_flash_def ota_simps Let_def split: prod.splits option.splits if_splits)
  obtain ok3 p3 where g: "staged_keeps_enforcement p2 = (ok3, p3)" by force
  have ok3: "ok3" using assms good h f ok2 g s1 by (cases ok3) (simp_all add: pod_ota_end_def Let_def)
  note b3 = staged_enforcement_block [OF g [unfolded eqTrueI [OF ok3]]]
  show ?thesis using sha lc(2) b2 b3 s1 s2 pol2 by simp
qed

text \<open>
  C18. When \<open>pod_ota_end\<close> accepts a firmware image, the bytes staged at that moment hash to the digest announced
  at the beginning, the image was built for a flash no larger than this pod's and is no longer than the code
  area. If the policy requires signatures at that moment, the image carries the flag of firmware that itself
  can enforce them; and if it has required them since before the session began (\<open>p0\<close> is any moment of the run
  at which no image was staged), target, size and digest are those of an accepted manifest.
\<close>

theorem verified_firmware:
  assumes run: "p0 = pod_ota_run e ops0 (pod_ota_boot r b c pol)" "p = pod_ota_run e ops p0"
    and fin: "pod_ota_end e p = (True, p')" and fw: "s_target (o_session p) = OTA_TARGET_FIRMWARE"
  shows "s_state (o_session p') = OTA_VERIFIED \<and> v_sha256 e (staged_image p) = s_expect (o_session p) \<and>
    length (staged_image p) \<le> ota_max_size e \<and>
    unat (fw_info_required_kb (image_block (staged_image p))) \<le> flash_layout_size (v_flash e) div 1024 \<and>
    (o_policy p = FW_SIG_POLICY_REQUIRED \<longrightarrow>
       fw_info_flags (image_block (staged_image p)) AND FW_INFO_FLAG_ENFORCES_SIG \<noteq> 0) \<and>
    (required_since p0 ops \<longrightarrow>
       (\<exists>sig. signed_for e OTA_TARGET_FIRMWARE (s_size (o_session p)) (v_sha256 e (staged_image p)) sig))"
proof -
  have ok: "session_ok e (required_since p0 ops) (o_session p)"
    using run_ok [OF run] by (cases "required_since p0 ops") simp_all
  have st: "s_state (o_session p) = OTA_RECEIVING" "o_session p' = (o_session p)\<lparr>s_state := OTA_VERIFIED\<rparr>"
    using ota_end_effect [OF fin] by simp_all
  show ?thesis
    using ota_end_firmware [OF fin fw] ok st fw
    by (simp add: session_ok_def staging_def staged_image_def target_max_size_def target_is_config_def ota_targets)
qed

definition fw_ops :: "pod_ota_op list" where
  "fw_ops = [Op_begin OTA_OWNER_NONE 3 (Some (hex_of_bytes (sample_digest [1, 2, 3]))) OTA_TARGET_FIRMWARE 0 None,
     Op_data_unowned 0 [1, 2, 3]]"

definition fw_run :: pod_ota where
  "fw_run = pod_ota_run gw_env fw_ops (pod_ota_boot blank_ram sample_store blank_int FW_SIG_POLICY_AUDIT)"

lemma fw_run_state:
  "o_session fw_run = session_boot\<lparr>s_state := OTA_RECEIVING, s_size := 3, s_received := 3, s_expect := sample_digest [1, 2, 3]\<rparr>"
  "o_ram fw_run = gw_ram" "o_policy fw_run = FW_SIG_POLICY_AUDIT"
proof -
  have hex: "parse_sha256_hex (Some (hex_of_bytes (sample_digest [1, 2, 3]))) = Some (sample_digest [1, 2, 3])"
    by (rule parse_sha256_hex_of_bytes) (simp add: sample_digest_def)
  have max: "3 \<le> target_max_size gw_env 0"
    by (simp add: target_max_size_def ota_targets ota_max_size_def gw_env_def flash_layout_store_off_def flash_layout_map_def
        blank_flash_def flash_consts)
  have w: "psram_write 0 [1, 2, 3] blank_ram = (True, gw_ram)"
    by (simp add: psram_write_def blank_ram_def gw_ram_def ideal_ram_def fun_eq_iff)
  have b: "ota_begin_owned gw_env OTA_OWNER_NONE 3 (Some (hex_of_bytes (sample_digest [1, 2, 3]))) OTA_TARGET_FIRMWARE 0 None
      (pod_ota_boot blank_ram sample_store blank_int FW_SIG_POLICY_AUDIT) =
      (True, (pod_ota_boot blank_ram sample_store blank_int FW_SIG_POLICY_AUDIT)\<lparr>o_session :=
        session_boot\<lparr>s_state := OTA_RECEIVING, s_size := 3, s_expect := sample_digest [1, 2, 3]\<rparr>\<rparr>)"
    using max
    by (simp add: ota_begin_owned_def ota_busy_replace_for_def may_replace_def may_act_def session_active_def begin_signed_def
        hex target_known_def target_is_config_def check_signature_def fw_sign_check_keys_def fw_sign_accept_def
        sig_policy_consts ota_eval)
  show "o_session fw_run = session_boot\<lparr>s_state := OTA_RECEIVING, s_size := 3, s_received := 3, s_expect := sample_digest [1, 2, 3]\<rparr>"
    "o_ram fw_run = gw_ram" "o_policy fw_run = FW_SIG_POLICY_AUDIT"
    unfolding fw_run_def pod_ota_run_def fw_ops_def fold_Cons fold_Nil o_apply id_apply ota_step.simps b snd_conv
    by (simp_all add: pod_ota_data_def upd_session_def set_ram_def pod_ota_boot_def session_boot_def Let_def OTA_PSRAM_BASE_def w)
qed

lemma fw_end: "\<exists>p'. pod_ota_end gw_env fw_run = (True, p')"
proof -
  have r: "psram_read 0 3 gw_ram = (Some [1, 2, 3], gw_ram\<lparr>r_n := 2\<rparr>)"
    using gw_ram_reads [of gw_ram 0 3] by (simp add: gw_cells) (simp add: gw_ram_def blank_ram_def)
  have l: "staged_loop 3 0 [] gw_ram = (Some [1, 2, 3], gw_ram\<lparr>r_n := 2\<rparr>)"
    by (subst staged_loop.simps, simp add: OTA_CHUNK_def OTA_PSRAM_BASE_def r) (subst staged_loop.simps, simp)
  have k: "unat (fw_info_required_kb None) \<le> flash_layout_size (v_flash gw_env) div 1024"
    by (simp add: fw_info_required_kb_def gw_env_def blank_flash_def flash_consts)
  show ?thesis
    using k by (simp add: pod_ota_end_def fw_run_state session_boot_def staged_hash_check_def l Let_def set_ram_def
        staged_fits_this_flash_def staged_keeps_enforcement_def FW_INFO_OFFSET_def FW_INFO_LEN_def sig_policy_consts
        ota_targets target_is_config_def gw_env_def)
qed

theorem verified_firmware_witness:
  "\<exists>p'. pod_ota_end gw_env fw_run = (True, p') \<and> s_state (o_session p') = OTA_VERIFIED \<and>
     sample_digest (staged_image fw_run) = sample_digest [1, 2, 3]"
proof -
  obtain p' where p': "pod_ota_end gw_env fw_run = (True, p')" using fw_end by blast
  have t: "s_target (o_session fw_run) = OTA_TARGET_FIRMWARE" "s_expect (o_session fw_run) = sample_digest [1, 2, 3]"
    "v_sha256 gw_env = sample_digest"
    by (simp_all add: fw_run_state session_boot_def gw_env_def)
  let ?p0 = "pod_ota_boot blank_ram sample_store blank_int FW_SIG_POLICY_AUDIT"
  have start: "?p0 = pod_ota_run gw_env [] ?p0" by (simp add: pod_ota_run_def)
  from verified_firmware [OF start fw_run_def p' t(1)] p' show ?thesis by (simp add: t)
qed

end
