(* ===== verification/OtaCommit.thy ===== *)
theory OtaCommit
  imports PodOta Sha256
begin

text \<open>
  Installing verified firmware in place (\<^verbatim>\<open>stm32h563/src/ota_commit.c\<close>). The hardware is a parameter: \<open>w_burst\<close> is
  what each raw PSRAM read gives, \<open>w_flash\<close> what each erase or program does to the flash and whether it raises an
  error flag; both may depend on how often the hardware was used before. Flash offsets count from \<open>FLASH_BASE_ADDR\<close>;
  a read-back is taken to see the cells (the code turns the ICACHE off first). Console output, the watchdog kick and
  the clock enables are left out.
\<close>

subsection \<open>Constants and state\<close>

definition FLASH_SECTOR_BYTES :: nat where "FLASH_SECTOR_BYTES = 0x2000"
definition OTA_RD_BURST :: nat where "OTA_RD_BURST = 128"
definition OTA_MAX_SECTORS :: nat where "OTA_MAX_SECTORS = 128"
definition OTA_READ_TRIES :: nat where "OTA_READ_TRIES = 3"
definition OTA_SECTOR_TRIES :: nat where "OTA_SECTOR_TRIES = 3"

type_synonym mcells = "nat \<Rightarrow> u8"

record commit_hw =
  w_burst :: "nat \<Rightarrow> nat \<Rightarrow> nat \<Rightarrow> u8 list"
  w_flash :: "nat \<Rightarrow> hal_op \<Rightarrow> mcells \<Rightarrow> mcells \<times> bool"

text \<open>\<open>m_bad\<close> counts the checked reads and sector writes whose failure the second pass ignores.\<close>

record commit_t =
  m_cells :: mcells
  m_err :: bool
  m_tick :: nat
  m_buf :: "u8 list"
  m_bank :: nat
  m_irq :: bool
  m_bus :: bool
  m_planned :: bool
  m_bad :: nat

subsection \<open>Primitives\<close>

text \<open>The CRC unit: polynomial 0x04C11DB7, start value 0xFFFFFFFF, words most significant bit first.\<close>

definition crc_unit_bit :: "u32 \<Rightarrow> u32" where
  "crc_unit_bit c = (if bit c 31 then push_bit 1 c XOR 0x04C11DB7 else push_bit 1 c)"

definition crc_unit_word :: "u32 \<Rightarrow> u32 \<Rightarrow> u32" where
  "crc_unit_word c w = (crc_unit_bit ^^ 32) (c XOR w)"

definition ram_crc32 :: "u8 list \<Rightarrow> nat \<Rightarrow> u32" where
  "ram_crc32 buf len = foldl crc_unit_word 0xFFFFFFFF (map (\<lambda>i. rd32 (take 4 (drop (4 * i) buf))) [0..<len div 4])"

definition ram_psram_read_burst :: "commit_hw \<Rightarrow> nat \<Rightarrow> nat \<Rightarrow> nat \<Rightarrow> commit_t \<Rightarrow> commit_t" where
  "ram_psram_read_burst hw a off n m =
     m\<lparr>m_buf := blit (m_buf m) off (w_burst hw (m_tick m) a n), m_tick := m_tick m + 1\<rparr>"

function read_bursts :: "commit_hw \<Rightarrow> nat \<Rightarrow> nat \<Rightarrow> nat \<Rightarrow> commit_t \<Rightarrow> commit_t" where
  "read_bursts hw psram_addr len off m =
     (if off < len then
        let n = (if len - off > OTA_RD_BURST then OTA_RD_BURST else len - off)
        in read_bursts hw psram_addr len (off + OTA_RD_BURST) (ram_psram_read_burst hw (psram_addr + off) off n m)
      else m)"
  by pat_completeness auto
termination by (relation "measure (\<lambda>(hw, a, len, off, m). len - off)") (auto simp: OTA_RD_BURST_def)

declare read_bursts.simps [simp del]

definition fill_tail :: "nat \<Rightarrow> commit_t \<Rightarrow> commit_t" where
  "fill_tail len m = m\<lparr>m_buf := take len (m_buf m) @ replicate (FLASH_SECTOR_BYTES - len) 0xFF\<rparr>"

primrec read_tries :: "commit_hw \<Rightarrow> nat \<Rightarrow> nat \<Rightarrow> u32 \<Rightarrow> nat \<Rightarrow> commit_t \<Rightarrow> bool \<times> commit_t" where
  "read_tries hw psram_addr len crc 0 m = (False, m)"
| "read_tries hw psram_addr len crc (Suc t) m =
     (let m = read_bursts hw psram_addr len 0 (fill_tail len m)
      in if ram_crc32 (m_buf m) FLASH_SECTOR_BYTES = crc then (True, m) else read_tries hw psram_addr len crc t m)"

definition ram_read_checked :: "commit_hw \<Rightarrow> nat \<Rightarrow> nat \<Rightarrow> u32 \<Rightarrow> commit_t \<Rightarrow> bool \<times> commit_t" where
  "ram_read_checked hw psram_addr len crc m = read_tries hw psram_addr len crc OTA_READ_TRIES m"

definition flash_op :: "commit_hw \<Rightarrow> hal_op \<Rightarrow> commit_t \<Rightarrow> commit_t" where
  "flash_op hw op m =
     (case w_flash hw (m_tick m) op (m_cells m) of
        (c, err) \<Rightarrow> m\<lparr>m_cells := c, m_err := m_err m \<or> err, m_tick := m_tick m + 1\<rparr>)"

definition ram_flash_erase :: "commit_hw \<Rightarrow> nat \<Rightarrow> commit_t \<Rightarrow> commit_t" where
  "ram_flash_erase hw off m =
     (let (sector, bksel) = (if off < m_bank m then (off div FLASH_SECTOR_BYTES, False)
                             else ((off - m_bank m) div FLASH_SECTOR_BYTES, True))
      in flash_op hw (HAL_Erase ((if bksel then m_bank m else 0) + sector * FLASH_SECTOR_BYTES)) m)"

definition ram_flash_program :: "commit_hw \<Rightarrow> nat \<Rightarrow> u8 list \<Rightarrow> nat \<Rightarrow> commit_t \<Rightarrow> commit_t" where
  "ram_flash_program hw a src len m =
     fold (\<lambda>q. flash_op hw (HAL_Program (a + 16 * q) (take 16 (drop (16 * q) src)))) [0..<(len + 15) div 16] m"

definition ram_flash_take_errors :: "commit_t \<Rightarrow> bool \<times> commit_t" where
  "ram_flash_take_errors m = (m_err m, m\<lparr>m_err := False\<rparr>)"

primrec sector_tries :: "commit_hw \<Rightarrow> nat \<Rightarrow> u8 list \<Rightarrow> nat \<Rightarrow> commit_t \<Rightarrow> bool \<times> commit_t" where
  "sector_tries hw a buf 0 m = (False, m)"
| "sector_tries hw a buf (Suc t) m =
     (let (_, m) = ram_flash_take_errors m;
          m = ram_flash_erase hw a m;
          (e1, m) = ram_flash_take_errors m;
          m = ram_flash_program hw a buf FLASH_SECTOR_BYTES m;
          (e2, m) = ram_flash_take_errors m
      in if e1 \<or> e2 then sector_tries hw a buf t m
         else if map (m_cells m) [a..<a + FLASH_SECTOR_BYTES] = buf then (True, m)
         else sector_tries hw a buf t m)"

definition ram_flash_sector :: "commit_hw \<Rightarrow> nat \<Rightarrow> u8 list \<Rightarrow> commit_t \<Rightarrow> bool \<times> commit_t" where
  "ram_flash_sector hw a buf m = sector_tries hw a buf OTA_SECTOR_TRIES m"

subsection \<open>The commit from RAM\<close>

definition sector_len :: "nat \<Rightarrow> nat \<Rightarrow> nat" where
  "sector_len sz base = (if sz - base > FLASH_SECTOR_BYTES then FLASH_SECTOR_BYTES else sz - base)"

fun pre_pass :: "commit_hw \<Rightarrow> nat \<Rightarrow> u32 list \<Rightarrow> nat list \<Rightarrow> commit_t \<Rightarrow> bool \<times> commit_t" where
  "pre_pass hw sz crcs [] m = (True, m)"
| "pre_pass hw sz crcs (s # ss) m =
     (let base = s * FLASH_SECTOR_BYTES;
          (ok, m) = ram_read_checked hw (OTA_PSRAM_BASE + base) (sector_len sz base) (crcs ! s) m
      in if \<not> ok then (False, m) else pre_pass hw sz crcs ss m)"

fun write_pass :: "commit_hw \<Rightarrow> nat \<Rightarrow> u32 list \<Rightarrow> nat list \<Rightarrow> commit_t \<Rightarrow> commit_t" where
  "write_pass hw sz crcs [] m = m"
| "write_pass hw sz crcs (s # ss) m =
     (let base = s * FLASH_SECTOR_BYTES;
          (ok1, m) = ram_read_checked hw (OTA_PSRAM_BASE + base) (sector_len sz base) (crcs ! s) m;
          (ok2, m) = ram_flash_sector hw base (m_buf m) m;
          m = m\<lparr>m_bad := m_bad m + (if ok1 then 0 else 1) + (if ok2 then 0 else 1)\<rparr>
      in write_pass hw sz crcs ss m)"

text \<open>It returns (with \<open>-1\<close>) or the chip resets.\<close>

datatype commit_end = Returns int | Resets

definition ram_commit_all :: "commit_hw \<Rightarrow> nat \<Rightarrow> nat \<Rightarrow> u32 list \<Rightarrow> commit_t \<Rightarrow> commit_end \<times> commit_t" where
  "ram_commit_all hw nsectors sz crcs m =
     (case pre_pass hw sz crcs [0..<nsectors] (m\<lparr>m_irq := False\<rparr>) of
        (False, m) \<Rightarrow> (Returns (-1), m\<lparr>m_irq := True\<rparr>)
      | (True, m) \<Rightarrow> (Resets, write_pass hw sz crcs [0..<nsectors] m))"

subsection \<open>Entry point\<close>

text \<open>The CRCs of the sectors as the HAL reads them; \<open>None\<close> when a read failed.\<close>

fun crc_table :: "nat \<Rightarrow> nat list \<Rightarrow> psram \<Rightarrow> u8 list \<Rightarrow> u32 list option \<times> psram \<times> u8 list" where
  "crc_table sz [] r buf = (Some [], r, buf)"
| "crc_table sz (s # ss) r buf =
     (let base = s * FLASH_SECTOR_BYTES; len = sector_len sz base in
      case psram_read (OTA_PSRAM_BASE + base) len r of
        (None, r) \<Rightarrow> (None, r, replicate FLASH_SECTOR_BYTES 0xFF)
      | (Some d, r) \<Rightarrow>
          let buf = blit (replicate FLASH_SECTOR_BYTES 0xFF) 0 d;
              crc = ram_crc32 buf FLASH_SECTOR_BYTES
          in case crc_table sz ss r buf of (t, r, buf) \<Rightarrow> (map_option (\<lambda>cs. crc # cs) t, r, buf))"

definition commit_held :: "commit_hw \<Rightarrow> ota_env \<Rightarrow> nat \<Rightarrow> nat \<Rightarrow> pod_ota \<Rightarrow> commit_t \<Rightarrow> commit_end \<times> pod_ota \<times> commit_t" where
  "commit_held hw e sz nsectors p m =
     (case ota_reverify_held e p of
        (False, p) \<Rightarrow> (Returns (-1), p, m\<lparr>m_bus := False\<rparr>)
      | (True, p) \<Rightarrow>
          if nsectors > OTA_MAX_SECTORS then (Returns (-1), p, m\<lparr>m_bus := False\<rparr>)
          else
            case crc_table sz [0..<nsectors] (o_ram p) (m_buf m) of
              (None, r, buf) \<Rightarrow> (Returns (-1), set_ram r p, m\<lparr>m_buf := buf, m_bus := False\<rparr>)
            | (Some crcs, r, buf) \<Rightarrow>
                let m = m\<lparr>m_buf := buf, m_bank := flash_layout_bank_size (v_flash e), m_planned := True\<rparr>
                in case ram_commit_all hw nsectors sz crcs m of
                     (Resets, m) \<Rightarrow> (Resets, set_ram r p, m)
                   | (Returns x, m) \<Rightarrow> (Returns (-1), set_ram r p, m\<lparr>m_planned := False, m_bus := False\<rparr>))"

text \<open>Any other verified image is installed where it belongs; the installer of certificates works on these cells too.\<close>

definition ota_commit :: "commit_hw \<Rightarrow> ota_env \<Rightarrow> pod_ota \<Rightarrow> commit_t \<Rightarrow> commit_end \<times> pod_ota \<times> commit_t" where
  "ota_commit hw e p m =
     (if s_state (o_session p) \<noteq> OTA_VERIFIED then (Returns (-1), p, m)
      else if s_target (o_session p) \<noteq> OTA_TARGET_FIRMWARE then
        (case ota_install_blob e (set_int (m_cells m) p) of
           (ok, p) \<Rightarrow> (Returns (if ok then 0 else -1), p, m\<lparr>m_cells := o_int p\<rparr>))
      else
        let sz = s_size (o_session p);
            nsectors = (sz + (of_nat FLASH_SECTOR_BYTES - 1)) div of_nat FLASH_SECTOR_BYTES;
            p = snd (ota_store_fw_copy e p)
        in commit_held hw e (unat sz) (unat nsectors) p (m\<lparr>m_bus := True\<rparr>))"

subsection \<open>What each part leaves alone\<close>

definition same_dev :: "commit_t \<Rightarrow> commit_t \<Rightarrow> bool" where
  "same_dev m m' \<longleftrightarrow> m_cells m' = m_cells m \<and> m_bank m' = m_bank m \<and> m_irq m' = m_irq m \<and> m_bus m' = m_bus m \<and>
     m_planned m' = m_planned m \<and> m_bad m' = m_bad m"

lemma same_dev_refl [simp]: "same_dev m m" by (simp add: same_dev_def)
lemma same_dev_trans: "same_dev a b \<Longrightarrow> same_dev b c \<Longrightarrow> same_dev a c" by (simp add: same_dev_def)

lemma read_bursts_same: "same_dev m (read_bursts hw a len off m)"
proof (induction hw a len off m rule: read_bursts.induct)
  case (1 hw a len off m)
  have b: "same_dev m (ram_psram_read_burst hw x off n m)" for x n by (simp add: same_dev_def ram_psram_read_burst_def)
  show ?case using 1 same_dev_trans [OF b]
    by (subst read_bursts.simps) (auto simp: Let_def)
qed

lemma read_tries_same: "same_dev m (snd (read_tries hw a len crc t m))"
proof (induction t arbitrary: m)
  case (Suc t)
  have "same_dev m (fill_tail len m)" by (simp add: same_dev_def fill_tail_def)
  then have "same_dev m (read_bursts hw a len 0 (fill_tail len m))" using read_bursts_same same_dev_trans by blast
  then show ?case using Suc same_dev_trans by (auto simp: Let_def)
qed simp

lemma read_checked_same: "ram_read_checked hw a len crc m = (ok, m') \<Longrightarrow> same_dev m m'"
  using read_tries_same [of m hw a len crc OTA_READ_TRIES] by (simp add: ram_read_checked_def)

lemma read_tries_crc: "read_tries hw a len crc t m = (True, m') \<Longrightarrow> ram_crc32 (m_buf m') FLASH_SECTOR_BYTES = crc"
  by (induction t arbitrary: m) (auto simp: Let_def split: if_splits)

lemma pre_pass_same: "pre_pass hw sz crcs ss m = (ok, m') \<Longrightarrow> same_dev m m'"
proof (induction ss arbitrary: m)
  case (Cons s ss)
  obtain ok1 m1 where r: "ram_read_checked hw (OTA_PSRAM_BASE + s * FLASH_SECTOR_BYTES)
      (sector_len sz (s * FLASH_SECTOR_BYTES)) (crcs ! s) m = (ok1, m1)" by force
  show ?case using Cons.prems Cons.IH [of m1] r read_checked_same [OF r] same_dev_trans
    by (auto simp: Let_def split: if_splits)
qed simp

text \<open>
  C30. A firmware commit that comes back has left the pod's flash alone: whatever the state of the PSRAM and the hardware,
  when \<open>ota_commit\<close> returns to its caller with firmware staged, or with nothing verified, no cell of the internal flash has
  changed, interrupts are as they were, the next reset is not announced as planned and the PSRAM bus is free again. Only
  a commit that resets the chip erases anything there. This is not said of the external flash, where the copy of the
  image may have been written by then, nor of the other targets: installing a certificate writes the internal flash.
\<close>

theorem commit_refused_harmless:
  assumes "ota_commit hw e p m = (Returns x, p', m')" and "m_irq m" and "\<not> m_bus m" and "\<not> m_planned m"
    and "s_state (o_session p) = OTA_VERIFIED \<Longrightarrow> s_target (o_session p) = OTA_TARGET_FIRMWARE"
  shows "m_cells m' = m_cells m \<and> m_irq m' \<and> \<not> m_bus m' \<and> \<not> m_planned m' \<and> m_bad m' = m_bad m"
proof -
  have held: "m_cells m' = m_cells m1 \<and> m_irq m' \<and> \<not> m_bus m' \<and> \<not> m_planned m' \<and> m_bad m' = m_bad m1"
    if "commit_held hw e sz n q m1 = (Returns x, p', m')" "m_irq m1" "\<not> m_planned m1" for sz n q m1
  proof -
    have all: "m_cells m' = m_cells m2 \<and> m_irq m' \<and> m_bad m' = m_bad m2"
      if "ram_commit_all hw n sz crcs m2 = (Returns y, m')" for crcs m2 y m'
    proof -
      obtain ok m3 where "pre_pass hw sz crcs [0..<n] (m2\<lparr>m_irq := False\<rparr>) = (ok, m3)" by force
      with pre_pass_same [OF this] that show ?thesis by (cases ok) (auto simp: ram_commit_all_def same_dev_def)
    qed
    show ?thesis
      using that all
      by (auto simp: commit_held_def Let_def split: prod.splits bool.splits if_splits option.splits commit_end.splits)
  qed
  show ?thesis
    using assms held [of "unat (s_size (o_session p))" _ _ "m\<lparr>m_bus := True\<rparr>"]
    by (auto simp: ota_commit_def Let_def split: if_splits prod.splits)
qed

subsection \<open>One sector read\<close>

text \<open>A sector of the image as it goes into the flash.\<close>

definition image_sector :: "qcells \<Rightarrow> nat \<Rightarrow> nat \<Rightarrow> u8 list" where
  "image_sector c sz s =
     (let base = s * FLASH_SECTOR_BYTES; len = sector_len sz base
      in map c [base..<base + len] @ replicate (FLASH_SECTOR_BYTES - len) 0xFF)"

lemma sector_len_le: "sector_len sz base \<le> FLASH_SECTOR_BYTES" by (simp add: sector_len_def)

lemma length_image_sector [simp]: "length (image_sector c sz s) = FLASH_SECTOR_BYTES"
  using sector_len_le by (simp add: image_sector_def Let_def)

lemma crc_table_image:
  "crc_table sz ss r buf = (Some crcs, r', buf') \<Longrightarrow> r_cells r' = r_cells r \<and>
     crcs = map (\<lambda>s. ram_crc32 (image_sector (r_cells r) sz s) FLASH_SECTOR_BYTES) ss \<and>
     length buf' = (if ss = [] then length buf else FLASH_SECTOR_BYTES)"
proof (induction ss arbitrary: r buf crcs r' buf')
  case (Cons s ss)
  let ?b = "s * FLASH_SECTOR_BYTES" and ?l = "sector_len sz (s * FLASH_SECTOR_BYTES)"
  obtain d r1 where rd: "psram_read (OTA_PSRAM_BASE + ?b) ?l r = (Some d, r1)"
    using Cons.prems by (auto simp: Let_def split: prod.splits option.splits)
  note pr = psram_read_cells [OF rd]
  have d: "blit (replicate FLASH_SECTOR_BYTES 0xFF) 0 d = image_sector (r_cells r) sz s"
    using pr by (simp add: blit_def image_sector_def Let_def OTA_PSRAM_BASE_def)
  obtain t r2 buf2 where t: "crc_table sz ss r1 (image_sector (r_cells r) sz s) = (Some t, r2, buf2)" "r' = r2" "buf' = buf2"
      "crcs = ram_crc32 (image_sector (r_cells r) sz s) FLASH_SECTOR_BYTES # t"
    using Cons.prems rd d by (auto simp: Let_def split: prod.splits)
  show ?case using Cons.IH [OF t(1)] t(2-4) pr by simp
qed simp

definition raw_reads :: "commit_hw \<Rightarrow> qcells \<Rightarrow> bool" where
  "raw_reads hw c \<longleftrightarrow> (\<forall>k a n. w_burst hw k a n = map c [a..<a + n])"

lemma upt_join_add: "[a..<a + x] @ [a + x..<a + x + y] = [a..<a + (x + y)]"
  using upt_add_eq_append [of a "a + x" y] by (simp only: add.assoc le_add1)

lemma bursts_faithful:
  assumes "raw_reads hw c" and "len \<le> FLASH_SECTOR_BYTES"
  shows "m_buf m = map c [a..<a + min off len] @ rest \<Longrightarrow> length rest = FLASH_SECTOR_BYTES - min off len \<Longrightarrow>
    drop (len - min off len) rest = replicate (FLASH_SECTOR_BYTES - len) 0xFF \<Longrightarrow>
    m_buf (read_bursts hw a len off m) = map c [a..<a + len] @ replicate (FLASH_SECTOR_BYTES - len) 0xFF"
proof (induction "len - off" arbitrary: off m rest rule: less_induct)
  case less
  show ?case
  proof (cases "off < len")
    case False
    then show ?thesis using less.prems by (subst read_bursts.simps) simp
  next
    case True
    let ?n = "if len - off > OTA_RD_BURST then OTA_RD_BURST else len - off"
    let ?m = "ram_psram_read_burst hw (a + off) off ?n m"
    have off: "min off len = off" "off + ?n = min (off + OTA_RD_BURST) len" using True by auto
    have n: "?n \<le> len - off" by simp
    have b: "m_buf ?m = map c [a..<a + min (off + OTA_RD_BURST) len] @ drop ?n rest"
    proof -
      have "m_buf ?m = map c [a..<a + off] @ map c [a + off..<a + off + ?n] @ drop ?n rest"
        using less.prems(1) assms(1) unfolding off(1) by (simp add: ram_psram_read_burst_def blit_def raw_reads_def)
      also have "\<dots> = map c [a..<a + (off + ?n)] @ drop ?n rest"
        unfolding append_assoc [symmetric] map_append [symmetric] upt_join_add ..
      finally show ?thesis unfolding off(2) .
    qed
    have l: "length (drop ?n rest) = FLASH_SECTOR_BYTES - min (off + OTA_RD_BURST) len"
      using less.prems(2) unfolding off(2) [symmetric] off(1) by simp
    have d: "drop (len - min (off + OTA_RD_BURST) len) (drop ?n rest) = replicate (FLASH_SECTOR_BYTES - len) 0xFF"
      using less.prems(3) n True unfolding off(2) [symmetric] off(1) by (simp add: add.commute)
    have lt: "len - (off + OTA_RD_BURST) < len - off" using True by (simp add: OTA_RD_BURST_def)
    show ?thesis using less.hyps [OF lt b l d] True by (subst read_bursts.simps) (simp add: Let_def)
  qed
qed

lemma read_faithful:
  assumes "raw_reads hw c" and "length (m_buf m) = FLASH_SECTOR_BYTES"
  shows "m_buf (read_bursts hw (OTA_PSRAM_BASE + s * FLASH_SECTOR_BYTES) (sector_len sz (s * FLASH_SECTOR_BYTES)) 0
    (fill_tail (sector_len sz (s * FLASH_SECTOR_BYTES)) m)) = image_sector c sz s"
proof -
  let ?l = "sector_len sz (s * FLASH_SECTOR_BYTES)"
  show ?thesis
    using bursts_faithful [OF assms(1) sector_len_le, of "fill_tail ?l m" "s * FLASH_SECTOR_BYTES" 0 sz "s * FLASH_SECTOR_BYTES"
        "m_buf (fill_tail ?l m)"] assms(2) sector_len_le [of sz "s * FLASH_SECTOR_BYTES"]
    by (simp add: image_sector_def Let_def OTA_PSRAM_BASE_def fill_tail_def)
qed

lemma read_tries_faithful:
  assumes "raw_reads hw c"
  shows "length (m_buf m) = FLASH_SECTOR_BYTES \<Longrightarrow> 0 < t \<Longrightarrow>
    read_tries hw (OTA_PSRAM_BASE + s * FLASH_SECTOR_BYTES) (sector_len sz (s * FLASH_SECTOR_BYTES)) crc t m = (ok, m') \<Longrightarrow>
    m_buf m' = image_sector c sz s \<and> (crc = ram_crc32 (image_sector c sz s) FLASH_SECTOR_BYTES \<longrightarrow> ok)"
proof (induction t arbitrary: m)
  case (Suc t)
  note rf = read_faithful [OF assms Suc.prems(1), of s sz]
  show ?case
  proof (cases "t = 0 \<or> ram_crc32 (image_sector c sz s) FLASH_SECTOR_BYTES = crc")
    case True
    then show ?thesis using Suc.prems rf by (auto simp: Let_def split: if_splits)
  next
    case False
    then show ?thesis using Suc.prems rf Suc.IH
      [of "read_bursts hw (OTA_PSRAM_BASE + s * FLASH_SECTOR_BYTES) (sector_len sz (s * FLASH_SECTOR_BYTES)) 0
        (fill_tail (sector_len sz (s * FLASH_SECTOR_BYTES)) m)"] by (auto simp: Let_def)
  qed
qed simp

subsection \<open>One sector written\<close>

definition hw_confined :: "commit_hw \<Rightarrow> bool" where
  "hw_confined hw \<longleftrightarrow> (\<forall>k op c x. \<not> in_range (op_start op) (op_size op) x \<longrightarrow> fst (w_flash hw k op c) x = c x)"

definition outside_same :: "nat \<Rightarrow> commit_t \<Rightarrow> commit_t \<Rightarrow> bool" where
  "outside_same a m m' \<longleftrightarrow> m_bank m' = m_bank m \<and> m_bad m' = m_bad m \<and> m_buf m' = m_buf m \<and>
     (\<forall>x. \<not> in_range a FLASH_SECTOR_BYTES x \<longrightarrow> m_cells m' x = m_cells m x)"

lemma outside_trans: "outside_same a x y \<Longrightarrow> outside_same a y z \<Longrightarrow> outside_same a x z"
  by (simp add: outside_same_def)

lemma flash_op_outside:
  assumes "hw_confined hw" and "a \<le> op_start op" and "op_start op + op_size op \<le> a + FLASH_SECTOR_BYTES"
  shows "outside_same a m (flash_op hw op m)"
proof -
  obtain c err where w: "w_flash hw (m_tick m) op (m_cells m) = (c, err)" by force
  have "c x = m_cells m x" if "\<not> in_range a FLASH_SECTOR_BYTES x" for x
  proof -
    have "\<not> in_range (op_start op) (op_size op) x" using that assms(2,3) by (auto simp: in_range_def)
    then show ?thesis using assms(1) w by (metis fst_conv hw_confined_def)
  qed
  then show ?thesis by (simp add: flash_op_def w outside_same_def)
qed

lemma erase_aligned:
  assumes "a mod FLASH_SECTOR_BYTES = 0" "m_bank m mod FLASH_SECTOR_BYTES = 0"
  shows "ram_flash_erase hw a m = flash_op hw (HAL_Erase a) m"
proof -
  have "(a - m_bank m) mod FLASH_SECTOR_BYTES = 0" using assms by (metis mod_0_imp_dvd dvd_diff_nat dvd_imp_mod_0)
  then have "m_bank m + (a - m_bank m) div FLASH_SECTOR_BYTES * FLASH_SECTOR_BYTES = a" if "\<not> a < m_bank m"
    using that by (metis add.commute add_0_right div_mult_mod_eq le_add_diff_inverse not_less)
  moreover have "a div FLASH_SECTOR_BYTES * FLASH_SECTOR_BYTES = a" using assms(1) by (metis add_0_right div_mult_mod_eq)
  ultimately show ?thesis by (simp add: ram_flash_erase_def)
qed

lemma program_fold_outside:
  assumes "hw_confined hw" and "\<forall>q \<in> set qs. 16 * q + 16 \<le> FLASH_SECTOR_BYTES"
  shows "outside_same a m (fold (\<lambda>q. flash_op hw (HAL_Program (a + 16 * q) (take 16 (drop (16 * q) src)))) qs m)"
  using assms(2)
proof (induction qs arbitrary: m)
  case (Cons q qs)
  let ?m = "flash_op hw (HAL_Program (a + 16 * q) (take 16 (drop (16 * q) src))) m"
  have "outside_same a m ?m"
    by (rule flash_op_outside [OF assms(1)]) (use Cons.prems in simp_all)
  from outside_trans [OF this Cons.IH [of ?m]] show ?case using Cons.prems by simp
qed (simp add: outside_same_def)

lemma program_outside:
  assumes "hw_confined hw"
  shows "outside_same a m (ram_flash_program hw a src FLASH_SECTOR_BYTES m)"
  unfolding ram_flash_program_def
  by (rule program_fold_outside [OF assms]) (simp add: FLASH_SECTOR_BYTES_def)

lemma errors_outside: "outside_same a m (m\<lparr>m_err := x\<rparr>)" by (simp add: outside_same_def)

lemma sector_tries_effect:
  assumes "hw_confined hw" and "a mod FLASH_SECTOR_BYTES = 0"
  shows "m_bank m mod FLASH_SECTOR_BYTES = 0 \<Longrightarrow> sector_tries hw a buf t m = (ok, m') \<Longrightarrow>
    outside_same a m m' \<and> (ok \<longrightarrow> map (m_cells m') [a..<a + FLASH_SECTOR_BYTES] = buf)"
proof (induction t arbitrary: m)
  case (Suc t)
  let ?m1 = "ram_flash_erase hw a (m\<lparr>m_err := False\<rparr>)"
  let ?m2 = "ram_flash_program hw a buf FLASH_SECTOR_BYTES (?m1\<lparr>m_err := False\<rparr>)"
  let ?m3 = "?m2\<lparr>m_err := False\<rparr>"
  have e: "?m1 = flash_op hw (HAL_Erase a) (m\<lparr>m_err := False\<rparr>)" by (rule erase_aligned) (use assms Suc.prems in simp_all)
  have "outside_same a (m\<lparr>m_err := False\<rparr>) ?m1"
    unfolding e by (rule flash_op_outside [OF assms(1)]) (simp_all add: FLASH_SECTOR_BYTES_def H5_SECTOR_SIZE_def)
  then have o: "outside_same a m ?m3"
    using errors_outside program_outside [OF assms(1)] outside_trans by meson
  define m3 where "m3 = ?m3"
  define bad where "bad \<longleftrightarrow> m_err ?m1 \<or> m_err ?m2"
  have st: "sector_tries hw a buf (Suc t) m =
      (if bad then sector_tries hw a buf t m3
       else if map (m_cells m3) [a..<a + FLASH_SECTOR_BYTES] = buf then (True, m3) else sector_tries hw a buf t m3)"
    by (simp add: ram_flash_take_errors_def Let_def m3_def bad_def)
  note o = o [folded m3_def]
  have bk: "m_bank m3 mod FLASH_SECTOR_BYTES = 0" using o Suc.prems(1) by (simp add: outside_same_def)
  show ?case
    using Suc.prems(2) Suc.IH [OF bk] o outside_trans [OF o] unfolding st by (auto split: if_splits)
qed (simp add: outside_same_def)

subsection \<open>The whole image written\<close>

definition sector_of :: "mcells \<Rightarrow> nat \<Rightarrow> u8 list" where
  "sector_of c s = map c [s * FLASH_SECTOR_BYTES..<s * FLASH_SECTOR_BYTES + FLASH_SECTOR_BYTES]"

lemma sectors_disjoint: "in_range (s * FLASH_SECTOR_BYTES) FLASH_SECTOR_BYTES x \<longleftrightarrow> x div FLASH_SECTOR_BYTES = s"
proof
  assume "in_range (s * FLASH_SECTOR_BYTES) FLASH_SECTOR_BYTES x"
  then show "x div FLASH_SECTOR_BYTES = s" by (intro div_nat_eqI) (simp_all add: in_range_def mult.commute add.commute)
next
  assume "x div FLASH_SECTOR_BYTES = s"
  then have "x = s * FLASH_SECTOR_BYTES + x mod FLASH_SECTOR_BYTES" using div_mult_mod_eq [of x FLASH_SECTOR_BYTES] by simp
  moreover have "x mod FLASH_SECTOR_BYTES < FLASH_SECTOR_BYTES" by (simp add: FLASH_SECTOR_BYTES_def)
  ultimately show "in_range (s * FLASH_SECTOR_BYTES) FLASH_SECTOR_BYTES x" unfolding in_range_def by linarith
qed

lemma sector_of_cong: "(\<And>x. x div FLASH_SECTOR_BYTES = s \<Longrightarrow> c' x = c x) \<Longrightarrow> sector_of c' s = sector_of c s"
  unfolding sectors_disjoint [symmetric] by (auto simp: sector_of_def in_range_def)

lemma write_pass_effect:
  assumes "hw_confined hw"
  shows "m_bank m mod FLASH_SECTOR_BYTES = 0 \<Longrightarrow> distinct ss \<Longrightarrow>
    m_bad m \<le> m_bad (write_pass hw sz crcs ss m) \<and>
    (\<forall>x. x div FLASH_SECTOR_BYTES \<notin> set ss \<longrightarrow> m_cells (write_pass hw sz crcs ss m) x = m_cells m x) \<and>
    (m_bad (write_pass hw sz crcs ss m) = m_bad m \<longrightarrow> (\<forall>s \<in> set ss.
       ram_crc32 (sector_of (m_cells (write_pass hw sz crcs ss m)) s) FLASH_SECTOR_BYTES = crcs ! s \<and>
       (\<forall>c. raw_reads hw c \<longrightarrow> length (m_buf m) = FLASH_SECTOR_BYTES \<longrightarrow>
          sector_of (m_cells (write_pass hw sz crcs ss m)) s = image_sector c sz s)))"
proof (induction ss arbitrary: m)
  case (Cons s ss)
  let ?b = "s * FLASH_SECTOR_BYTES"
  obtain ok1 m1 where r: "ram_read_checked hw (OTA_PSRAM_BASE + ?b) (sector_len sz ?b) (crcs ! s) m = (ok1, m1)" by force
  obtain ok2 m2 where w: "ram_flash_sector hw ?b (m_buf m1) m1 = (ok2, m2)" by force
  define m3 where "m3 = m2\<lparr>m_bad := m_bad m2 + (if ok1 then 0 else 1) + (if ok2 then 0 else 1)\<rparr>"
  let ?f = "write_pass hw sz crcs ss m3"
  have f: "write_pass hw sz crcs (s # ss) m = ?f" using r w by (simp add: Let_def m3_def)
  note sd = read_checked_same [OF r]
  have bk: "m_bank m1 mod FLASH_SECTOR_BYTES = 0" using sd Cons.prems(1) by (simp add: same_dev_def)
  have al: "?b mod FLASH_SECTOR_BYTES = 0" by simp
  note ef = sector_tries_effect [OF assms al bk w [unfolded ram_flash_sector_def]]
  have m3: "m_bank m3 mod FLASH_SECTOR_BYTES = 0" "m_cells m3 = m_cells m2" "m_buf m3 = m_buf m1"
      "m_bad m3 = m_bad m + (if ok1 then 0 else 1) + (if ok2 then 0 else 1)"
    using ef bk sd by (simp_all add: m3_def outside_same_def same_dev_def)
  have out: "m_cells m3 x = m_cells m x" if "x div FLASH_SECTOR_BYTES \<noteq> s" for x
    using ef sd that m3(2) by (simp add: outside_same_def same_dev_def sectors_disjoint)
  have dist: "distinct ss" "s \<notin> set ss" using Cons.prems(2) by simp_all
  note ih = Cons.IH [OF m3(1) dist(1)]
  have own: "sector_of (m_cells ?f) s = sector_of (m_cells m3) s" by (rule sector_of_cong) (use ih dist(2) in blast)
  have good: "ok1" "ok2" "m_bad ?f = m_bad m3" if "m_bad ?f = m_bad m"
    using ih m3(4) that by (auto split: if_splits)
  have sec: "sector_of (m_cells m3) s = m_buf m1" if "m_bad ?f = m_bad m"
    using ef good(2) [OF that] m3(2) by (simp add: sector_of_def)
  have crc: "ram_crc32 (m_buf m1) FLASH_SECTOR_BYTES = crcs ! s" if "m_bad ?f = m_bad m"
  proof (rule read_tries_crc)
    show "read_tries hw (OTA_PSRAM_BASE + ?b) (sector_len sz ?b) (crcs ! s) OTA_READ_TRIES m = (True, m1)"
      using r good(1) [OF that] by (simp add: ram_read_checked_def)
  qed
  have img: "m_buf m1 = image_sector c sz s" if "raw_reads hw c" "length (m_buf m) = FLASH_SECTOR_BYTES" for c
    using read_tries_faithful [OF that, of OTA_READ_TRIES s sz "crcs ! s"] r by (simp add: ram_read_checked_def OTA_READ_TRIES_def)
  have len: "length (m_buf m3) = FLASH_SECTOR_BYTES" if "raw_reads hw c" "length (m_buf m) = FLASH_SECTOR_BYTES" for c
    using img [OF that] m3(3) by simp
  show ?case unfolding f
  proof (intro conjI impI allI ballI)
    show "m_bad m \<le> m_bad ?f" using ih m3(4) by linarith
    show "m_cells ?f x = m_cells m x" if "x div FLASH_SECTOR_BYTES \<notin> set (s # ss)" for x using ih out that by simp
    fix t assume b: "m_bad ?f = m_bad m" and t: "t \<in> set (s # ss)"
    show "ram_crc32 (sector_of (m_cells ?f) t) FLASH_SECTOR_BYTES = crcs ! t"
      using t own sec [OF b] crc [OF b] ih good(3) [OF b] by (cases "t = s") auto
    show "sector_of (m_cells ?f) t = image_sector c sz t" if "raw_reads hw c" "length (m_buf m) = FLASH_SECTOR_BYTES" for c
      using t own sec [OF b] img [OF that] len [OF that] ih good(3) [OF b] that(1) by (cases "t = s") auto
  qed
qed simp

lemma pre_pass_length:
  assumes "raw_reads hw c"
  shows "length (m_buf m) = FLASH_SECTOR_BYTES \<Longrightarrow> pre_pass hw sz crcs ss m = (ok, m') \<Longrightarrow>
    length (m_buf m') = FLASH_SECTOR_BYTES"
proof (induction ss arbitrary: m)
  case (Cons s ss)
  obtain ok1 m1 where r: "ram_read_checked hw (OTA_PSRAM_BASE + s * FLASH_SECTOR_BYTES)
      (sector_len sz (s * FLASH_SECTOR_BYTES)) (crcs ! s) m = (ok1, m1)" by force
  have "m_buf m1 = image_sector c sz s"
    using read_tries_faithful [OF assms Cons.prems(1), of OTA_READ_TRIES s sz "crcs ! s"] r
    by (simp add: ram_read_checked_def OTA_READ_TRIES_def)
  then show ?case using Cons.prems(2) Cons.IH [of m1] r by (auto simp: Let_def split: if_splits)
qed simp

lemma sectors_image:
  assumes "\<forall>s < (sz + (FLASH_SECTOR_BYTES - 1)) div FLASH_SECTOR_BYTES. sector_of c s = image_sector r sz s"
  shows "map c [0..<sz] = map r [0..<sz]"
proof (rule map_cong [OF refl])
  fix x assume "x \<in> set [0..<sz]"
  then have x: "x < sz" by simp
  define q i where "q = x div FLASH_SECTOR_BYTES" and "i = x mod FLASH_SECTOR_BYTES"
  have i: "i < FLASH_SECTOR_BYTES" "x = q * FLASH_SECTOR_BYTES + i" by (simp_all add: q_def i_def FLASH_SECTOR_BYTES_def)
  have "q < (sz + (FLASH_SECTOR_BYTES - 1)) div FLASH_SECTOR_BYTES" using x by (simp add: q_def FLASH_SECTOR_BYTES_def)
  then have e: "sector_of c q ! i = image_sector r sz q ! i" using assms by simp
  have "sector_of c q ! i = c x" using i by (simp add: sector_of_def)
  moreover have "i < sector_len sz (q * FLASH_SECTOR_BYTES)" using x i by (auto simp: sector_len_def)
  then have "image_sector r sz q ! i = r x" using i by (simp add: image_sector_def Let_def nth_append)
  ultimately show "c x = r x" using e by simp
qed

lemma store_copy_session: "o_session (snd (ota_store_fw_copy e p)) = o_session p"
  by (simp add: ota_store_fw_copy_def Let_def set_blobs_def set_ram_def split: prod.split)

lemma reverify_True:
  assumes "ota_reverify_held e p = (True, p')"
  shows "o_session p' = o_session p" and "v_sha256 e (staged_image p') = s_expect (o_session p)"
proof -
  obtain ctx r where l: "staged_loop (unat (s_size (o_session p))) 0 [] (o_ram p) = (Some ctx, r)" and p': "p' = set_ram r p"
      and h: "v_sha256 e ctx = s_expect (o_session p)"
    using assms by (auto simp: ota_reverify_held_def staged_hash_check_def ota_simps split: prod.splits option.splits if_splits)
  have "r_cells r = r_cells (o_ram p)" "ctx = map (r_cells (o_ram p)) [0..<unat (s_size (o_session p))]"
    using staged_loop_cells [OF l] by simp_all
  then show "o_session p' = o_session p" "v_sha256 e (staged_image p') = s_expect (o_session p)"
    using h by (simp_all add: p' set_ram_def staged_image_def)
qed

lemma commit_held_resets:
  assumes "commit_held hw e sz n p m = (Resets, p', m')"
  shows "n \<le> OTA_MAX_SECTORS \<and> o_session p' = o_session p \<and> v_sha256 e (staged_image p') = s_expect (o_session p) \<and>
    (\<exists>m1. m_cells m1 = m_cells m \<and> m_bank m1 = flash_layout_bank_size (v_flash e) \<and> m_bad m1 = m_bad m \<and>
       (\<forall>c. raw_reads hw c \<longrightarrow> length (m_buf m) = FLASH_SECTOR_BYTES \<longrightarrow> length (m_buf m1) = FLASH_SECTOR_BYTES) \<and>
       m' = write_pass hw sz (map (\<lambda>s. ram_crc32 (image_sector (r_cells (o_ram p')) sz s) FLASH_SECTOR_BYTES) [0..<n]) [0..<n] m1)"
proof -
  obtain q where q: "ota_reverify_held e p = (True, q)" and n: "\<not> n > OTA_MAX_SECTORS"
    using assms by (auto simp: commit_held_def split: prod.splits bool.splits if_splits)
  obtain crcs r buf where t: "crc_table sz [0..<n] (o_ram q) (m_buf m) = (Some crcs, r, buf)"
    using assms q n by (auto simp: commit_held_def split: prod.splits option.splits)
  note ti = crc_table_image [OF t]
  let ?m = "m\<lparr>m_buf := buf, m_bank := flash_layout_bank_size (v_flash e), m_planned := True\<rparr>"
  have all: "ram_commit_all hw n sz crcs ?m = (Resets, m')" "p' = set_ram r q"
    using assms q n t by (auto simp: commit_held_def Let_def split: prod.splits commit_end.splits)
  obtain m1 where pre: "pre_pass hw sz crcs [0..<n] (?m\<lparr>m_irq := False\<rparr>) = (True, m1)"
      and m': "m' = write_pass hw sz crcs [0..<n] m1"
    using all(1) by (auto simp: ram_commit_all_def split: prod.splits bool.splits)
  have cells: "r_cells (o_ram p') = r_cells (o_ram q)" using ti all(2) by (simp add: set_ram_def)
  have "length (m_buf m1) = FLASH_SECTOR_BYTES" if "raw_reads hw c" "length (m_buf m) = FLASH_SECTOR_BYTES" for c
    using pre_pass_length [OF that(1) _ pre] ti that(2) by (simp split: if_splits)
  moreover have "m_cells m1 = m_cells m" "m_bank m1 = flash_layout_bank_size (v_flash e)" "m_bad m1 = m_bad m"
    using pre_pass_same [OF pre] by (simp_all add: same_dev_def)
  moreover have "o_session p' = o_session p" "staged_image p' = staged_image q"
    using reverify_True(1) [OF q] cells all(2) by (simp_all add: set_ram_def staged_image_def)
  ultimately show ?thesis
    using reverify_True(2) [OF q] m' ti n unfolding cells by (intro conjI exI [of _ m1]) simp_all
qed

lemma image_area:
  assumes "flash_layout_size (v_flash e) = FLASH_LAYOUT_SIZE_1MB \<or> flash_layout_size (v_flash e) = FLASH_LAYOUT_SIZE_2MB"
  shows "ota_max_size e mod FLASH_SECTOR_BYTES = 0" "ota_max_size e \<le> 0x1E0000"
    "flash_layout_bank_size (v_flash e) mod FLASH_SECTOR_BYTES = 0"
  using assms by (auto simp: ota_max_size_def flash_layout_store_off_def flash_layout_map_def flash_layout_bank_size_def
      flash_consts FLASH_SECTOR_BYTES_def)

lemma sector_count:
  fixes sz :: u32
  assumes "unat sz \<le> 0x1E0000"
  shows "unat ((sz + (of_nat FLASH_SECTOR_BYTES - 1)) div of_nat FLASH_SECTOR_BYTES) =
    (unat sz + (FLASH_SECTOR_BYTES - 1)) div FLASH_SECTOR_BYTES"
  using assms by (simp add: FLASH_SECTOR_BYTES_def unat_div unat_word_ariths)

subsection \<open>The whole commit\<close>

text \<open>What a commit that ends in the reset has done, whatever the hardware.\<close>

lemma commit_effect:
  assumes dev: "hw_confined hw"
    and size: "flash_layout_size (v_flash e) = FLASH_LAYOUT_SIZE_1MB \<or> flash_layout_size (v_flash e) = FLASH_LAYOUT_SIZE_2MB"
    and le: "unat (s_size (o_session p)) \<le> ota_max_size e" and res: "ota_commit hw e p m = (Resets, p', m')"
  shows "v_sha256 e (staged_image p') = s_expect (o_session p)" "o_session p' = o_session p"
    "ota_max_size e \<le> x \<Longrightarrow> m_cells m' x = m_cells m x"
    "m_bad m' = m_bad m \<Longrightarrow> s * FLASH_SECTOR_BYTES < length (staged_image p') \<Longrightarrow>
       ram_crc32 (sector_of (m_cells m') s) FLASH_SECTOR_BYTES =
       ram_crc32 (image_sector (r_cells (o_ram p')) (length (staged_image p')) s) FLASH_SECTOR_BYTES"
    "m_bad m' = m_bad m \<Longrightarrow> raw_reads hw (r_cells (o_ram p')) \<Longrightarrow> length (m_buf m) = FLASH_SECTOR_BYTES \<Longrightarrow>
       map (m_cells m') [0..<length (staged_image p')] = staged_image p'"
proof -
  let ?sz = "unat (s_size (o_session p))" and ?p1 = "snd (ota_store_fw_copy e p)"
  let ?n = "unat ((s_size (o_session p) + (of_nat FLASH_SECTOR_BYTES - 1)) div of_nat FLASH_SECTOR_BYTES)"
  have held: "commit_held hw e ?sz ?n ?p1 (m\<lparr>m_bus := True\<rparr>) = (Resets, p', m')"
    using res by (auto simp: ota_commit_def Let_def split: if_splits prod.splits)
  note mx = image_area [OF size]
  have n: "?n = (?sz + (FLASH_SECTOR_BYTES - 1)) div FLASH_SECTOR_BYTES" by (rule sector_count) (use le mx(2) in simp)
  have top: "x div FLASH_SECTOR_BYTES \<notin> set [0..<?n]" if "x \<ge> ota_max_size e" for x
  proof -
    obtain k where k: "ota_max_size e = k * FLASH_SECTOR_BYTES" using mx(1) by (auto simp: mod_eq_0_iff_dvd dvd_def mult.commute)
    then have "?n \<le> k" using le unfolding n by (simp add: FLASH_SECTOR_BYTES_def)
    moreover have "k \<le> x div FLASH_SECTOR_BYTES" using that k by (simp add: FLASH_SECTOR_BYTES_def)
    ultimately show ?thesis by simp
  qed
  obtain m1 where h: "o_session p' = o_session p" "v_sha256 e (staged_image p') = s_expect (o_session p)"
      "m_cells m1 = m_cells m" "m_bank m1 = flash_layout_bank_size (v_flash e)" "m_bad m1 = m_bad m"
      "\<forall>c. raw_reads hw c \<longrightarrow> length (m_buf m) = FLASH_SECTOR_BYTES \<longrightarrow> length (m_buf m1) = FLASH_SECTOR_BYTES"
      "m' = write_pass hw ?sz (map (\<lambda>s. ram_crc32 (image_sector (r_cells (o_ram p')) ?sz s) FLASH_SECTOR_BYTES) [0..<?n]) [0..<?n] m1"
    using commit_held_resets [OF held] unfolding store_copy_session by auto
  show "v_sha256 e (staged_image p') = s_expect (o_session p)" "o_session p' = o_session p" using h(1,2) by simp_all
  have len: "length (staged_image p') = ?sz" using h(1) by (simp add: staged_image_def)
  have bk: "m_bank m1 mod FLASH_SECTOR_BYTES = 0" using h(4) mx(3) by simp
  note w = write_pass_effect [OF dev bk distinct_upt [of 0 ?n], of ?sz
      "map (\<lambda>s. ram_crc32 (image_sector (r_cells (o_ram p')) ?sz s) FLASH_SECTOR_BYTES) [0..<?n]", folded h(7)]
  show "m_cells m' x = m_cells m x" if "ota_max_size e \<le> x" using w top [OF that] h(3) by simp
  assume b: "m_bad m' = m_bad m"
  have cnt: "s < ?n" if "s * FLASH_SECTOR_BYTES < ?sz" using that unfolding n by (simp add: FLASH_SECTOR_BYTES_def)
  show "ram_crc32 (sector_of (m_cells m') s) FLASH_SECTOR_BYTES =
      ram_crc32 (image_sector (r_cells (o_ram p')) (length (staged_image p')) s) FLASH_SECTOR_BYTES"
    if "s * FLASH_SECTOR_BYTES < length (staged_image p')"
    using w b h(5) cnt that unfolding len by simp
  assume raw: "raw_reads hw (r_cells (o_ram p'))" "length (m_buf m) = FLASH_SECTOR_BYTES"
  have "\<forall>s < ?n. sector_of (m_cells m') s = image_sector (r_cells (o_ram p')) ?sz s" using w b h(5,6) raw by simp
  then have "map (m_cells m') [0..<?sz] = map (r_cells (o_ram p')) [0..<?sz]"
    unfolding n by (rule sectors_image)
  then show "map (m_cells m') [0..<length (staged_image p')] = staged_image p'"
    unfolding len using h(1) by (simp add: staged_image_def)
qed

subsection \<open>A commit on hardware that works\<close>

text \<open>A PSRAM whose every read answers, and a flash that does what each operation says without an error flag.\<close>

definition ram_answers :: "qcells \<Rightarrow> psram \<Rightarrow> bool" where
  "ram_answers c r \<longleftrightarrow> r_cells r = c \<and> r_read_ok r = (\<lambda>_. True)"

fun done_op :: "hal_op \<Rightarrow> mcells \<Rightarrow> mcells" where
  "done_op (HAL_Erase a) c = (\<lambda>x. if in_range a H5_SECTOR_SIZE x then 0xFF else c x)"
| "done_op (HAL_Program a bs) c = (\<lambda>x. if in_range a 16 x then bs ! (x - a) else c x)"

definition flash_works :: "commit_hw \<Rightarrow> bool" where
  "flash_works hw \<longleftrightarrow> (\<forall>k op c. w_flash hw k op c = (done_op op c, False))"

lemma flash_works_confined: "flash_works hw \<Longrightarrow> hw_confined hw"
proof -
  have "\<not> in_range (op_start op) (op_size op) x \<Longrightarrow> done_op op c x = c x" for op c x by (cases op) simp_all
  then show "flash_works hw \<Longrightarrow> hw_confined hw" by (simp add: hw_confined_def flash_works_def)
qed

lemma answers_read: "ram_answers c r \<Longrightarrow> \<exists>r'. psram_read a n r = (Some (map c [a..<a + n]), r') \<and> ram_answers c r'"
  by (simp add: ram_answers_def psram_read_def)

lemma program_loop_keeps:
  assumes "\<And>off n s. P s \<Longrightarrow> P (snd (src off n s))"
  shows "P s \<Longrightarrow> program_loop src data len off s q = (ok, s', q') \<Longrightarrow> P s'"
proof (induction "len - off" arbitrary: off s q rule: less_induct)
  case less
  have k: "src off n s = (b, s1) \<Longrightarrow> P s1" for n b s1 using assms [OF less.prems(1)] by (metis snd_conv)
  show ?case
  proof (cases "off < len")
    case False
    then show ?thesis using less.prems by (simp add: program_loop.simps [of src data len off])
  next
    case True
    then have lt: "len - (off + W25Q_PAGE) < len - off" by (simp add: W25Q_PAGE_def)
    show ?thesis
      using less.prems(2) True k less.hyps [OF lt]
      by (subst (asm) program_loop.simps) (auto simp: Let_def split: prod.splits option.splits if_splits, blast+)
  qed
qed

lemma store_copy_answers:
  assumes "ram_answers c (o_ram p)"
  shows "ram_answers c (o_ram (snd (ota_store_fw_copy e p)))"
proof -
  have src: "ram_answers c (snd (staged_src off n r))" if "ram_answers c r" for off n r
    using answers_read [OF that, of "OTA_PSRAM_BASE + off" n] by (auto simp: staged_src_def)
  have w: "ram_answers c r" if "blob_store_write_ext h staged_src d len ver dg x (o_ram p) b = (ok, r, b')" for h d len ver dg x b ok r b'
  proof (rule ccontr)
    assume no: "\<not> ram_answers c r"
    obtain ok2 s2 q2 where l: "program_loop staged_src (blob_slot_base d + BLOB_HDR_SIZE) len 0 (o_ram p)
        (snd (erase_range (blob_slot_base d) (BLOB_HDR_SIZE + len) (bs_chip (set_info d no_blob b)))) = (ok2, s2, q2)"
      by (rule prod_cases3)
    have "r = o_ram p \<or> r = s2"
      using that l by (auto simp: blob_store_write_ext_def write_fail_def Let_def split: prod.splits if_splits)
    then show False using no assms program_loop_keeps [of "ram_answers c", OF src assms l] by blast
  qed
  show ?thesis
  proof (cases "s_state (o_session p) \<noteq> OTA_VERIFIED \<or> s_target (o_session p) \<noteq> OTA_TARGET_FIRMWARE")
    case False
    obtain ok r b where "blob_store_write_ext (v_sha256 e) staged_src BLOB_FW (unat (s_size (o_session p))) 0
        (s_expect (o_session p)) [] (o_ram p) (o_blobs p) = (ok, r, b)" by (rule prod_cases3)
    then show ?thesis
      using False w by (auto simp: ota_store_fw_copy_def blob_store_write_def set_blobs_def set_ram_def Let_def)
  qed (use assms in \<open>simp add: ota_store_fw_copy_def Let_def\<close>)
qed

lemma staged_loop_answers:
  assumes "ram_answers c r"
  shows "\<exists>r'. staged_loop sz off ctx r = (Some (ctx @ map c [off..<sz]), r') \<and> ram_answers c r'"
  using assms
proof (induction sz off ctx r rule: staged_loop.induct)
  case (1 sz off ctx r)
  show ?case
  proof (cases "off < sz")
    case False
    then show ?thesis using 1(2) by (subst staged_loop.simps) simp
  next
    case True
    define n where "n = (if sz - off > OTA_CHUNK then OTA_CHUNK else sz - off)"
    obtain r1 where rd: "psram_read (OTA_PSRAM_BASE + off) n r = (Some (map c [off..<off + n]), r1)" "ram_answers c r1"
      using answers_read [OF 1(2), of "OTA_PSRAM_BASE + off" n] by (auto simp: OTA_PSRAM_BASE_def)
    have step: "staged_loop sz off ctx r = staged_loop sz (off + n) (ctx @ map c [off..<off + n]) r1"
      using True rd(1) by (subst staged_loop.simps) (simp add: n_def [symmetric] Let_def)
    have "off + n \<le> sz" using True by (auto simp: n_def)
    then have "map c [off..<off + n] @ map c [off + n..<sz] = map c [off..<sz]"
      unfolding map_append [symmetric] using upt_join [of off "off + n" sz] by simp
    moreover obtain r2 where "staged_loop sz (off + n) (ctx @ map c [off..<off + n]) r1 =
        (Some ((ctx @ map c [off..<off + n]) @ map c [off + n..<sz]), r2)" "ram_answers c r2"
      using 1(1) [OF _ n_def rd(1) [symmetric] refl rd(2)] True by auto
    ultimately show ?thesis unfolding step by (metis append_assoc)
  qed
qed

lemma crc_table_answers:
  "ram_answers c r \<Longrightarrow> \<exists>t r' buf'. crc_table sz ss r buf = (Some t, r', buf') \<and> ram_answers c r'"
proof (induction ss arbitrary: r buf)
  case (Cons s ss)
  let ?b = "s * FLASH_SECTOR_BYTES"
  obtain r1 where rd: "psram_read (OTA_PSRAM_BASE + ?b) (sector_len sz ?b) r =
      (Some (map c [OTA_PSRAM_BASE + ?b..<OTA_PSRAM_BASE + ?b + sector_len sz ?b]), r1)" "ram_answers c r1"
    using answers_read [OF Cons.prems] by blast
  from Cons.IH [OF rd(2)] obtain t r2 buf2 where "crc_table sz ss r1 (blit (replicate FLASH_SECTOR_BYTES 0xFF) 0
      (map c [OTA_PSRAM_BASE + ?b..<OTA_PSRAM_BASE + ?b + sector_len sz ?b])) = (Some t, r2, buf2)" "ram_answers c r2"
    by blast
  then show ?case using rd(1) by (simp add: Let_def)
qed simp

lemma read_checked_live:
  assumes "raw_reads hw c" and "length (m_buf m) = FLASH_SECTOR_BYTES"
    and "ram_read_checked hw (OTA_PSRAM_BASE + s * FLASH_SECTOR_BYTES) (sector_len sz (s * FLASH_SECTOR_BYTES)) crc m = (ok, m')"
  shows "m_buf m' = image_sector c sz s" "crc = ram_crc32 (image_sector c sz s) FLASH_SECTOR_BYTES \<Longrightarrow> ok"
    "length (m_buf m') = FLASH_SECTOR_BYTES"
  using read_tries_faithful [OF assms(1,2), of OTA_READ_TRIES s sz crc ok m'] assms(3)
  by (simp_all add: ram_read_checked_def OTA_READ_TRIES_def)

lemma pre_pass_live:
  assumes "raw_reads hw c"
  shows "length (m_buf m) = FLASH_SECTOR_BYTES \<Longrightarrow>
    \<forall>s \<in> set ss. crcs ! s = ram_crc32 (image_sector c sz s) FLASH_SECTOR_BYTES \<Longrightarrow> fst (pre_pass hw sz crcs ss m)"
proof (induction ss arbitrary: m)
  case (Cons s ss)
  obtain ok m1 where r: "ram_read_checked hw (OTA_PSRAM_BASE + s * FLASH_SECTOR_BYTES)
      (sector_len sz (s * FLASH_SECTOR_BYTES)) (crcs ! s) m = (ok, m1)" by force
  have "ok" "length (m_buf m1) = FLASH_SECTOR_BYTES"
    using read_checked_live [OF assms Cons.prems(1) r] Cons.prems(2) by simp_all
  then show ?case using Cons.IH [of m1] Cons.prems(2) r by (simp add: Let_def)
qed simp

lemma program_works:
  assumes "flash_works hw"
  shows "16 * k \<le> length src \<Longrightarrow>
    m_err (fold (\<lambda>q. flash_op hw (HAL_Program (a + 16 * q) (take 16 (drop (16 * q) src)))) [0..<k] m) = m_err m \<and>
    m_cells (fold (\<lambda>q. flash_op hw (HAL_Program (a + 16 * q) (take 16 (drop (16 * q) src)))) [0..<k] m) =
      (\<lambda>x. if in_range a (16 * k) x then src ! (x - a) else m_cells m x)"
proof (induction k)
  case (Suc k)
  have "in_range (a + 16 * k) 16 x \<Longrightarrow> take 16 (drop (16 * k) src) ! (x - (a + 16 * k)) = src ! (x - a)" for x
  proof -
    assume "in_range (a + 16 * k) 16 x"
    then obtain i where "x = a + 16 * k + i" "i < 16" by (auto simp: in_range_def dest!: le_Suc_ex)
    then show ?thesis using Suc.prems by simp
  qed
  then show ?case
    using Suc assms by (auto simp: flash_op_def flash_works_def fun_eq_iff in_range_def)
qed (auto simp: in_range_def fun_eq_iff)

lemma sector_works:
  assumes "flash_works hw" and "a mod FLASH_SECTOR_BYTES = 0" and "m_bank m mod FLASH_SECTOR_BYTES = 0"
    and "length buf = FLASH_SECTOR_BYTES"
  shows "fst (ram_flash_sector hw a buf m)"
proof -
  let ?m1 = "ram_flash_erase hw a (m\<lparr>m_err := False\<rparr>)"
  let ?m2 = "ram_flash_program hw a buf FLASH_SECTOR_BYTES (?m1\<lparr>m_err := False\<rparr>)"
  have "?m1 = flash_op hw (HAL_Erase a) (m\<lparr>m_err := False\<rparr>)" by (rule erase_aligned) (use assms in simp_all)
  then have e1: "\<not> m_err ?m1" using assms(1) by (simp add: flash_op_def flash_works_def)
  have p: "(FLASH_SECTOR_BYTES + 15) div 16 = 512" "16 * 512 \<le> length buf" using assms(4) by (simp_all add: FLASH_SECTOR_BYTES_def)
  note w = program_works [OF assms(1) p(2), of a "?m1\<lparr>m_err := False\<rparr>"]
  have e2: "\<not> m_err ?m2" using w unfolding ram_flash_program_def p(1) by simp
  have "map (m_cells ?m2) [a..<a + FLASH_SECTOR_BYTES] = buf"
  proof (rule nth_equalityI)
    fix i assume i: "i < length (map (m_cells ?m2) [a..<a + FLASH_SECTOR_BYTES])"
    then have "in_range a (16 * 512) (a + i)" by (simp add: in_range_def FLASH_SECTOR_BYTES_def)
    then show "map (m_cells ?m2) [a..<a + FLASH_SECTOR_BYTES] ! i = buf ! i"
      using w i unfolding ram_flash_program_def p(1) by simp
  qed (simp add: assms(4))
  then show ?thesis using e1 e2
    by (simp add: ram_flash_sector_def OTA_SECTOR_TRIES_def numeral_3_eq_3 ram_flash_take_errors_def Let_def)
qed

lemma write_pass_live:
  assumes "flash_works hw" and "raw_reads hw c"
  shows "m_bank m mod FLASH_SECTOR_BYTES = 0 \<Longrightarrow> length (m_buf m) = FLASH_SECTOR_BYTES \<Longrightarrow>
    \<forall>s \<in> set ss. crcs ! s = ram_crc32 (image_sector c sz s) FLASH_SECTOR_BYTES \<Longrightarrow>
    m_bad (write_pass hw sz crcs ss m) = m_bad m"
proof (induction ss arbitrary: m)
  case (Cons s ss)
  let ?b = "s * FLASH_SECTOR_BYTES"
  obtain ok1 m1 where r: "ram_read_checked hw (OTA_PSRAM_BASE + ?b) (sector_len sz ?b) (crcs ! s) m = (ok1, m1)" by force
  note rl = read_checked_live [OF assms(2) Cons.prems(2) r]
  have ok1: "ok1" by (rule rl(2)) (use Cons.prems(3) in simp)
  have bk: "m_bank m1 mod FLASH_SECTOR_BYTES = 0" "m_bad m1 = m_bad m"
    using read_checked_same [OF r] Cons.prems(1) by (simp_all add: same_dev_def)
  obtain ok2 m2 where w: "ram_flash_sector hw ?b (m_buf m1) m1 = (ok2, m2)" by force
  have ok2: "ok2" using sector_works [OF assms(1) _ bk(1) rl(3), of ?b] w by simp
  have al: "?b mod FLASH_SECTOR_BYTES = 0" by simp
  have o: "m_bank m2 = m_bank m1" "m_bad m2 = m_bad m1" "m_buf m2 = m_buf m1"
    using sector_tries_effect [OF flash_works_confined [OF assms(1)] al bk(1) w [unfolded ram_flash_sector_def]]
    by (simp_all add: outside_same_def)
  have "write_pass hw sz crcs (s # ss) m = write_pass hw sz crcs ss m2" using ok1 ok2 r w by (simp add: Let_def)
  then show ?case using Cons.IH [of m2] Cons.prems(3) bk o rl(3) by simp
qed simp

lemma reverify_answers:
  assumes "ram_answers c (o_ram p)" and "s_state (o_session p) = OTA_VERIFIED"
    and "v_sha256 e (map c [0..<unat (s_size (o_session p))]) = s_expect (o_session p)"
  shows "\<exists>p'. ota_reverify_held e p = (True, p') \<and> ram_answers c (o_ram p') \<and> o_session p' = o_session p"
proof -
  obtain r where "staged_loop (unat (s_size (o_session p))) 0 [] (o_ram p) = (Some (map c [0..<unat (s_size (o_session p))]), r)"
      and "ram_answers c r"
    using staged_loop_answers [OF assms(1), of "unat (s_size (o_session p))" 0 "[]"] by auto
  then show ?thesis using assms(2,3) by (simp add: ota_reverify_held_def staged_hash_check_def set_ram_def)
qed

lemma commit_held_live:
  assumes hw: "raw_reads hw c" and ram: "ram_answers c (o_ram p)" and st: "s_state (o_session p) = OTA_VERIFIED"
    and sha: "v_sha256 e (map c [0..<unat (s_size (o_session p))]) = s_expect (o_session p)"
    and n: "n \<le> OTA_MAX_SECTORS" and buf: "length (m_buf m) = FLASH_SECTOR_BYTES"
  shows "\<exists>p' m'. commit_held hw e sz n p m = (Resets, p', m') \<and> r_cells (o_ram p') = c"
proof -
  obtain q where q: "ota_reverify_held e p = (True, q)" "ram_answers c (o_ram q)"
    using reverify_answers [OF ram st sha] by blast
  obtain crcs r b where t: "crc_table sz [0..<n] (o_ram q) (m_buf m) = (Some crcs, r, b)"
    using crc_table_answers [OF q(2)] by blast
  have cells: "r_cells (o_ram q) = c" using q(2) by (simp add: ram_answers_def)
  note ti = crc_table_image [OF t, unfolded cells]
  let ?m = "m\<lparr>m_buf := b, m_bank := flash_layout_bank_size (v_flash e), m_planned := True\<rparr>"
  have "fst (pre_pass hw sz crcs [0..<n] (?m\<lparr>m_irq := False\<rparr>))"
    by (rule pre_pass_live [OF hw]) (use ti buf in simp_all)
  then obtain m1 where pre: "pre_pass hw sz crcs [0..<n] (?m\<lparr>m_irq := False\<rparr>) = (True, m1)" by (metis prod.collapse)
  show ?thesis using q(1) n t ti pre by (simp add: commit_held_def ram_commit_all_def set_ram_def)
qed

lemma commit_held_bad:
  assumes "flash_works hw" and c: "commit_held hw e sz n p m = (Resets, p', m')"
    and size: "flash_layout_size (v_flash e) = FLASH_LAYOUT_SIZE_1MB \<or> flash_layout_size (v_flash e) = FLASH_LAYOUT_SIZE_2MB"
    and raw: "raw_reads hw (r_cells (o_ram p'))" and buf: "length (m_buf m) = FLASH_SECTOR_BYTES"
  shows "m_bad m' = m_bad m"
proof -
  obtain m1 where "m_bank m1 = flash_layout_bank_size (v_flash e)" "m_bad m1 = m_bad m" "length (m_buf m1) = FLASH_SECTOR_BYTES"
      "m' = write_pass hw sz (map (\<lambda>s. ram_crc32 (image_sector (r_cells (o_ram p')) sz s) FLASH_SECTOR_BYTES) [0..<n]) [0..<n] m1"
    using commit_held_resets [OF c] raw buf by blast
  then show ?thesis using write_pass_live [OF assms(1) raw, of m1 "[0..<n]"] image_area(3) [OF size] by simp
qed

lemma commit_live:
  assumes hw: "flash_works hw" "raw_reads hw (r_cells (o_ram p))" and ram: "r_read_ok (o_ram p) = (\<lambda>_. True)"
    and size: "flash_layout_size (v_flash e) = FLASH_LAYOUT_SIZE_1MB \<or> flash_layout_size (v_flash e) = FLASH_LAYOUT_SIZE_2MB"
    and st: "s_state (o_session p) = OTA_VERIFIED" "s_target (o_session p) = OTA_TARGET_FIRMWARE"
    and le: "unat (s_size (o_session p)) \<le> OTA_MAX_SECTORS * FLASH_SECTOR_BYTES"
    and sha: "v_sha256 e (staged_image p) = s_expect (o_session p)" and buf: "length (m_buf m) = FLASH_SECTOR_BYTES"
  shows "\<exists>p' m'. ota_commit hw e p m = (Resets, p', m') \<and> r_cells (o_ram p') = r_cells (o_ram p) \<and> m_bad m' = m_bad m"
proof -
  let ?sz = "unat (s_size (o_session p))" and ?p1 = "snd (ota_store_fw_copy e p)" and ?c = "r_cells (o_ram p)"
  let ?n = "unat ((s_size (o_session p) + (of_nat FLASH_SECTOR_BYTES - 1)) div of_nat FLASH_SECTOR_BYTES)"
  have a: "ram_answers ?c (o_ram ?p1)" by (rule store_copy_answers) (simp add: ram_answers_def ram)
  have "?sz \<le> 1048576" using le by (simp add: FLASH_SECTOR_BYTES_def OTA_MAX_SECTORS_def)
  then have n: "?n \<le> OTA_MAX_SECTORS"
    using sector_count [of "s_size (o_session p)"] div_le_mono [of "?sz + 8191" "1048576 + 8191" 8192]
    by (simp add: FLASH_SECTOR_BYTES_def OTA_MAX_SECTORS_def)
  obtain p' m' where c: "commit_held hw e ?sz ?n ?p1 (m\<lparr>m_bus := True\<rparr>) = (Resets, p', m')" and cells: "r_cells (o_ram p') = ?c"
    using commit_held_live [OF hw(2) a _ _ n, of e "m\<lparr>m_bus := True\<rparr>" ?sz] st(1) sha buf
    unfolding store_copy_session by (auto simp: staged_image_def)
  moreover have "m_bad m' = m_bad m" using commit_held_bad [OF hw(1) c] cells hw(2) buf size by simp
  ultimately show ?thesis using st by (simp add: ota_commit_def Let_def)
qed

text \<open>A pod with three verified bytes of firmware in its PSRAM, on such hardware.\<close>

definition works_hw :: commit_hw where
  "works_hw = \<lparr>w_burst = (\<lambda>k a n. map (r_cells gw_ram) [a..<a + n]), w_flash = (\<lambda>k op c. (done_op op c, False))\<rparr>"

definition commit_boot :: commit_t where
  "commit_boot = \<lparr>m_cells = (\<lambda>_. 0), m_err = False, m_tick = 0, m_buf = replicate FLASH_SECTOR_BYTES 0, m_bank = 0,
     m_irq = True, m_bus = False, m_planned = False, m_bad = 0\<rparr>"

definition fw_verified :: pod_ota where
  "fw_verified = pod_ota_run gw_env (fw_ops @ [Op_end_unowned]) (pod_ota_boot blank_ram sample_store blank_int FW_SIG_POLICY_AUDIT)"

lemma works_hw_ok: "flash_works works_hw" "raw_reads works_hw (r_cells gw_ram)"
  by (simp_all add: works_hw_def flash_works_def raw_reads_def)

lemma fw_verified_state:
  "s_state (o_session fw_verified) = OTA_VERIFIED" "s_target (o_session fw_verified) = OTA_TARGET_FIRMWARE"
  "s_size (o_session fw_verified) = 3" "s_expect (o_session fw_verified) = sample_digest [1, 2, 3]"
  "r_cells (o_ram fw_verified) = r_cells gw_ram" "r_read_ok (o_ram fw_verified) = (\<lambda>_. True)"
  "s_sig (o_session fw_verified) = FW_SIG_NONE"
proof -
  have e: "fw_verified = snd (pod_ota_end gw_env fw_run)" by (simp add: fw_verified_def fw_run_def pod_ota_run_def)
  have "ram_answers (r_cells gw_ram) gw_ram" by (simp add: ram_answers_def gw_ram_def blank_ram_def)
  then obtain r where l: "staged_loop 3 0 [] gw_ram = (Some [1, 2, 3], r)" and r: "ram_answers (r_cells gw_ram) r"
    using staged_loop_answers [of "r_cells gw_ram" gw_ram 3 0 "[]"] by (auto simp: gw_cells)
  have k: "unat (fw_info_required_kb None) \<le> flash_layout_size (v_flash gw_env) div 1024"
    by (simp add: fw_info_required_kb_def gw_env_def blank_flash_def flash_consts)
  have "o_session fw_verified = (o_session fw_run)\<lparr>s_state := OTA_VERIFIED\<rparr> \<and> o_ram fw_verified = r"
    unfolding e using k by (simp add: pod_ota_end_def fw_run_state session_boot_def staged_hash_check_def l Let_def set_ram_def
        staged_fits_this_flash_def staged_keeps_enforcement_def FW_INFO_OFFSET_def FW_INFO_LEN_def sig_policy_consts
        ota_targets target_is_config_def gw_env_def upd_session_def)
  then show "s_state (o_session fw_verified) = OTA_VERIFIED" "s_target (o_session fw_verified) = OTA_TARGET_FIRMWARE"
    "s_size (o_session fw_verified) = 3" "s_expect (o_session fw_verified) = sample_digest [1, 2, 3]"
    "r_cells (o_ram fw_verified) = r_cells gw_ram" "r_read_ok (o_ram fw_verified) = (\<lambda>_. True)"
    "s_sig (o_session fw_verified) = FW_SIG_NONE"
    using r by (simp_all add: fw_run_state session_boot_def ram_answers_def)
qed

lemma fw_verified_image: "staged_image fw_verified = [1, 2, 3]" "v_sha256 gw_env = sample_digest"
  "flash_layout_size (v_flash gw_env) = FLASH_LAYOUT_SIZE_2MB" "ota_max_size gw_env = 0x1E0000"
  "length (m_buf commit_boot) = FLASH_SECTOR_BYTES"
  by (simp_all add: staged_image_def fw_verified_state gw_cells gw_env_def blank_flash_def commit_boot_def
      ota_max_size_def flash_layout_store_off_def flash_layout_map_def flash_consts)

text \<open>
  C11. What is flashed is the image that was verified: when a commit ends in the reset, on any hardware whose flash
  operations stay in their sector or quad-word, the PSRAM then holds an image with the digest of the session (and when the
  policy has required signatures since before the session began, a trusted key signed its digest, size and target);
  every cell outside the code area, so every stored record, is as before. Unless one of the checked operations whose
  result the second pass ignores failed (\<open>m_bad\<close> counts them), every flashed sector has the CRC32 of the image's sector;
  that its bytes are the image's is shown when the raw reads see the PSRAM and the sector buffer has its 8 KB.
\<close>

theorem commit_flashes_verified:
  assumes dev: "hw_confined hw"
    and size: "flash_layout_size (v_flash e) = FLASH_LAYOUT_SIZE_1MB \<or> flash_layout_size (v_flash e) = FLASH_LAYOUT_SIZE_2MB"
    and run: "p0 = pod_ota_run e ops0 (pod_ota_boot r b c pol)" "p = pod_ota_run e ops p0"
    and res: "ota_commit hw e p m = (Resets, p', m')"
  shows "v_sha256 e (staged_image p') = s_expect (o_session p) \<and> o_session p' = o_session p \<and>
    (required_since p0 ops \<longrightarrow>
       (\<exists>sig. signed_for e OTA_TARGET_FIRMWARE (s_size (o_session p)) (v_sha256 e (staged_image p')) sig)) \<and>
    (\<forall>x \<ge> ota_max_size e. m_cells m' x = m_cells m x) \<and>
    (m_bad m' = m_bad m \<longrightarrow>
       (\<forall>s. s * FLASH_SECTOR_BYTES < length (staged_image p') \<longrightarrow>
          ram_crc32 (sector_of (m_cells m') s) FLASH_SECTOR_BYTES =
          ram_crc32 (image_sector (r_cells (o_ram p')) (length (staged_image p')) s) FLASH_SECTOR_BYTES) \<and>
       (raw_reads hw (r_cells (o_ram p')) \<longrightarrow> length (m_buf m) = FLASH_SECTOR_BYTES \<longrightarrow>
          map (m_cells m') [0..<length (staged_image p')] = staged_image p'))"
proof -
  have st: "s_state (o_session p) = OTA_VERIFIED" "s_target (o_session p) = OTA_TARGET_FIRMWARE"
    using res by (auto simp: ota_commit_def Let_def split: if_splits prod.splits)
  have "session_ok e (required_since p0 ops) (o_session p)"
    using run_ok [OF run] by (cases "required_since p0 ops") simp_all
  then have le: "unat (s_size (o_session p)) \<le> ota_max_size e"
      and sig: "required_since p0 ops \<longrightarrow> (\<exists>sig. signed_for e OTA_TARGET_FIRMWARE (s_size (o_session p)) (s_expect (o_session p)) sig)"
    using st by (auto simp: session_ok_def staging_def target_max_size_def target_is_config_def ota_targets)
  note c = commit_effect [OF dev size le res]
  show ?thesis using c(1,2) sig c(3) c(4) c(5) by (intro conjI impI allI) simp_all
qed

theorem commit_flashes_verified_witness:
  "\<exists>p' m'. ota_commit works_hw gw_env fw_verified commit_boot = (Resets, p', m') \<and>
     sample_digest (staged_image p') = sample_digest [1, 2, 3] \<and> map (m_cells m') [0..<3] = [1, 2, 3] \<and>
     m_cells m' 0x1E0000 = 0"
proof -
  note st = fw_verified_state fw_verified_image
  obtain p' m' where c: "ota_commit works_hw gw_env fw_verified commit_boot = (Resets, p', m')"
      and r: "r_cells (o_ram p') = r_cells gw_ram" "m_bad m' = m_bad commit_boot"
    using commit_live [of works_hw fw_verified gw_env commit_boot] works_hw_ok st
    by (auto simp: FLASH_SECTOR_BYTES_def OTA_MAX_SECTORS_def)
  let ?p0 = "pod_ota_boot blank_ram sample_store blank_int FW_SIG_POLICY_AUDIT"
  have start: "?p0 = pod_ota_run gw_env [] ?p0" by (simp add: pod_ota_run_def)
  note v = commit_flashes_verified [OF flash_works_confined [OF works_hw_ok(1)] disjI2 [OF st(10)] start fw_verified_def c]
  have i: "staged_image p' = [1, 2, 3]" using v r(1) st(3) by (simp add: staged_image_def gw_cells)
  have "m_cells m' 0x1E0000 = 0" using v st(11) by (simp add: commit_boot_def)
  moreover have "map (m_cells m') [0..<3] = [1, 2, 3]"
    using v r works_hw_ok(2) st(12) i by (simp add: numeral_3_eq_3)
  ultimately show ?thesis using c by (intro exI [of _ p'] exI [of _ m'] conjI) (simp_all add: i)
qed

text \<open>A verified image of more sectors than the table of CRCs has is refused, whatever its session's limit was.\<close>

lemma commit_too_long:
  assumes ram: "r_read_ok (o_ram p) = (\<lambda>_. True)" and size: "flash_layout_size (v_flash e) = FLASH_LAYOUT_SIZE_1MB \<or> flash_layout_size (v_flash e) = FLASH_LAYOUT_SIZE_2MB"
    and st: "s_state (o_session p) = OTA_VERIFIED" "s_target (o_session p) = OTA_TARGET_FIRMWARE"
    and le: "unat (s_size (o_session p)) \<le> ota_max_size e" "unat (s_size (o_session p)) > OTA_MAX_SECTORS * FLASH_SECTOR_BYTES"
    and sha: "v_sha256 e (staged_image p) = s_expect (o_session p)"
  shows "\<exists>p'. ota_commit hw e p m = (Returns (-1), p', m\<lparr>m_bus := False\<rparr>) \<and> o_session p' = o_session p"
proof -
  let ?sz = "unat (s_size (o_session p))" and ?p1 = "snd (ota_store_fw_copy e p)" and ?c = "r_cells (o_ram p)"
  let ?n = "unat ((s_size (o_session p) + (of_nat FLASH_SECTOR_BYTES - 1)) div of_nat FLASH_SECTOR_BYTES)"
  have a: "ram_answers ?c (o_ram ?p1)" by (rule store_copy_answers) (simp add: ram_answers_def ram)
  have "?sz \<le> 0x1E0000" using le(1) image_area(2) [OF size] by simp
  from sector_count [OF this] have "?n = (?sz + (FLASH_SECTOR_BYTES - 1)) div FLASH_SECTOR_BYTES" .
  moreover have "1048576 + 8192 \<le> ?sz + 8191" using le(2) by (simp add: FLASH_SECTOR_BYTES_def OTA_MAX_SECTORS_def)
  then have "(1048576 + 8192) div 8192 \<le> (?sz + 8191) div 8192" by (rule div_le_mono)
  ultimately have n: "?n > OTA_MAX_SECTORS" by (simp add: FLASH_SECTOR_BYTES_def OTA_MAX_SECTORS_def)
  obtain q where "ota_reverify_held e ?p1 = (True, q)" "o_session q = o_session p"
    using reverify_answers [OF a] st(1) sha unfolding store_copy_session by (auto simp: staged_image_def)
  then show ?thesis using st n by (simp add: ota_commit_def commit_held_def Let_def)
qed

text \<open>
  C12. What becomes of a verified image: the session is verified firmware within the limit \<open>ota_begin\<close> has for it, the
  PSRAM still holds an image of the announced digest and answers every read, the raw reads see what it holds and the
  flash does what each operation says. If the image has at most 1 MB (128 sectors of 8 KB), the commit ends in the reset
  with the image in the flash from its first byte, every cell outside the code area as before, and no failure ignored.
  A longer one, which a pod with the 2 MB part takes and verifies up to 1920 KB, is never installed: the commit returns
  -1 and changes no cell.
\<close>

theorem commit_installs:
  assumes hw: "flash_works hw" "raw_reads hw (r_cells (o_ram p))" and ram: "r_read_ok (o_ram p) = (\<lambda>_. True)"
    and size: "flash_layout_size (v_flash e) = FLASH_LAYOUT_SIZE_1MB \<or> flash_layout_size (v_flash e) = FLASH_LAYOUT_SIZE_2MB"
    and st: "s_state (o_session p) = OTA_VERIFIED" "s_target (o_session p) = OTA_TARGET_FIRMWARE"
    and le: "unat (s_size (o_session p)) \<le> ota_max_size e"
    and sha: "v_sha256 e (staged_image p) = s_expect (o_session p)" and buf: "length (m_buf m) = FLASH_SECTOR_BYTES"
  shows "\<exists>p' m'.
    (if unat (s_size (o_session p)) \<le> 1024 * 1024
     then ota_commit hw e p m = (Resets, p', m') \<and> map (m_cells m') [0..<unat (s_size (o_session p))] = staged_image p \<and>
       (\<forall>x \<ge> ota_max_size e. m_cells m' x = m_cells m x) \<and> m_bad m' = m_bad m
     else ota_commit hw e p m = (Returns (-1), p', m') \<and> m_cells m' = m_cells m \<and> o_session p' = o_session p)"
proof -
  have max: "OTA_MAX_SECTORS * FLASH_SECTOR_BYTES = 1024 * 1024" by (simp add: FLASH_SECTOR_BYTES_def OTA_MAX_SECTORS_def)
  show ?thesis
  proof (cases "unat (s_size (o_session p)) \<le> OTA_MAX_SECTORS * FLASH_SECTOR_BYTES")
    case False
    then have "OTA_MAX_SECTORS * FLASH_SECTOR_BYTES < unat (s_size (o_session p))" by simp
    from commit_too_long [OF ram size st le this sha, of hw m] False show ?thesis unfolding max by auto
  next
    case True
    obtain p' m' where com: "ota_commit hw e p m = (Resets, p', m')" and cells: "r_cells (o_ram p') = r_cells (o_ram p)"
        and bad: "m_bad m' = m_bad m"
      using commit_live [OF hw ram size st True sha buf] by blast
    note eff = commit_effect [OF flash_works_confined [OF hw(1)] size le com]
    have img: "staged_image p' = staged_image p" using eff(2) cells by (simp add: staged_image_def)
    have "map (m_cells m') [0..<length (staged_image p)] = staged_image p"
      using eff(5) [OF bad] hw(2) buf cells img by simp
    then show ?thesis using com eff(3) bad True unfolding max by (auto simp: staged_image_def)
  qed
qed

theorem commit_installs_witness:
  "\<exists>p' m'. ota_commit works_hw gw_env fw_verified commit_boot = (Resets, p', m') \<and> map (m_cells m') [0..<3] = [1, 2, 3]"
proof -
  note st = fw_verified_state fw_verified_image
  show ?thesis
    using commit_installs [of works_hw fw_verified gw_env commit_boot] works_hw_ok st
    by (auto simp: FLASH_SECTOR_BYTES_def OTA_MAX_SECTORS_def)
qed

text \<open>
  The commit does not look at the signature policy either: firmware that was staged and verified without a signature
  under \<open>audit\<close> is flashed after the policy was raised to \<open>required\<close>.
\<close>

lemma unsigned_flashed_under_required:
  "let p = ota_step gw_env (Op_policy FW_SIG_POLICY_REQUIRED) fw_verified in
     o_policy p = FW_SIG_POLICY_REQUIRED \<and> s_sig (o_session p) = FW_SIG_NONE \<and>
     (\<exists>p' m'. ota_commit works_hw gw_env p commit_boot = (Resets, p', m'))"
proof -
  let ?p = "ota_step gw_env (Op_policy FW_SIG_POLICY_REQUIRED) fw_verified"
  have st: "o_session ?p = o_session fw_verified" "o_ram ?p = o_ram fw_verified" "staged_image ?p = staged_image fw_verified"
    by (simp_all add: staged_image_def)
  have "\<exists>p' m'. ota_commit works_hw gw_env ?p commit_boot = (Resets, p', m')"
    using commit_live [of works_hw ?p gw_env commit_boot] works_hw_ok fw_verified_state fw_verified_image unfolding st
    by (auto simp: FLASH_SECTOR_BYTES_def OTA_MAX_SECTORS_def)
  then show ?thesis by (simp add: Let_def fw_verified_state)
qed

text \<open>The image is overwritten in the PSRAM after it was verified.\<close>

lemma commit_overwritten:
  "\<exists>p' m'. ota_commit works_hw gw_env (set_ram blank_ram fw_verified) commit_boot = (Returns (-1), p', m')"
proof -
  let ?p = "set_ram blank_ram fw_verified" and ?p1 = "snd (ota_store_fw_copy gw_env (set_ram blank_ram fw_verified))"
  have st: "s_state (o_session ?p) = OTA_VERIFIED" "s_target (o_session ?p) = OTA_TARGET_FIRMWARE"
      "s_size (o_session ?p) = 3" "s_expect (o_session ?p) = sample_digest [1, 2, 3]"
    using fw_verified_state by (simp_all add: set_ram_def)
  have "ram_answers (\<lambda>_. 0) (o_ram ?p1)"
    by (rule store_copy_answers) (simp add: ram_answers_def set_ram_def blank_ram_def)
  then obtain r where l: "staged_loop 3 0 [] (o_ram ?p1) = (Some [0, 0, 0], r)"
    using staged_loop_answers [of "\<lambda>_. 0" "o_ram ?p1" 3 0 "[]"] by (auto simp: numeral_3_eq_3)
  have "sample_digest [0, 0, 0] \<noteq> sample_digest [1, 2, 3]" by (simp add: sample_digest_def)
  then obtain q where "ota_reverify_held gw_env ?p1 = (False, q)"
    using l st by (simp add: ota_reverify_held_def staged_hash_check_def store_copy_session fw_verified_image(2) fail_def)
  then show ?thesis using st by (simp add: ota_commit_def commit_held_def Let_def)
qed

theorem commit_refused_harmless_witness:
  "\<exists>p' m'. ota_commit works_hw gw_env (set_ram blank_ram fw_verified) commit_boot = (Returns (-1), p', m') \<and>
     m_cells m' = m_cells commit_boot \<and> m_irq m' \<and> \<not> m_bus m'"
proof -
  obtain p' m' where c: "ota_commit works_hw gw_env (set_ram blank_ram fw_verified) commit_boot = (Returns (-1), p', m')"
    using commit_overwritten by blast
  have "s_target (o_session (set_ram blank_ram fw_verified)) = OTA_TARGET_FIRMWARE"
    by (simp add: set_ram_def fw_verified_state)
  with c commit_refused_harmless [OF c] show ?thesis by (simp add: commit_boot_def)
qed

end
