(* ===== verification/WbClient.thy ===== *)
theory WbClient
  imports BwpMsg
begin

text \<open>
  The pod's side of the bridge link (\<open>stm32h563/src/wifi_bridge.c\<close>): what the pod knows of the bridge,
  the one request in flight, its signing, retries, resynchronisation and answer, the automatic pairing
  and the status poll. The state is the C struct; the frames given to \<open>io.send\<close> are appended to the
  field \<open>wb_out\<close> (head, body and tail joined, as the glue puts them on the wire). The pairing secret
  comes from the caller and the X25519 and BLAKE2b functions from Monocypher, so they are the fields of
  \<open>wb_io\<close>. A borrowed body (\<open>wb_request_ext\<close>) is the bytes the caller keeps unchanged. Functions that
  sign or verify are partial like the hash they call; \<open>wb_total\<close> shows that none of them fails.
\<close>

subsection \<open>Constants and state\<close>

definition WB_HELLO_TIMEOUT_MS :: u32 where "WB_HELLO_TIMEOUT_MS = 6000"
definition WB_STATUS_EVERY_MS :: u32 where "WB_STATUS_EVERY_MS = 10000"
definition WB_PAIR_RETRY_MS :: u32 where "WB_PAIR_RETRY_MS = 5000"
definition WB_TRIES :: u8 where "WB_TRIES = 3"
definition WB_MSG_MAX :: nat where "WB_MSG_MAX = 64"
definition WB_SCAN_MAX :: nat where "WB_SCAN_MAX = BWP_SCAN_MAX_APS"
definition WB_REQ_MAX :: nat where "WB_REQ_MAX = 128"
definition WB_TRAILER_LEN :: nat where "WB_TRAILER_LEN = 7 + 3 + BWP_AUTH_LEN"
definition BWP_MAX_BODY :: nat where "BWP_MAX_BODY = BWP_MAX_FRAME - BWP_ETH_HDR_LEN - BWP_HDR_LEN"
definition WB_BODY_MAX :: nat where "WB_BODY_MAX = BWP_MAX_BODY - WB_TRAILER_LEN"
definition BWP_OTA_DATA :: u8 where "BWP_OTA_DATA = 0x07"
definition BWP_T_OFFSET :: u8 where "BWP_T_OFFSET = 0x10"
definition BWP_ST_JOINING :: u8 where "BWP_ST_JOINING = 2"
definition BWP_AUTH_OTHER :: u8 where "BWP_AUTH_OTHER = 255"

fun bwp_result_u8 :: "bwp_result_t \<Rightarrow> u8" where
  "bwp_result_u8 BWP_OK = 0"
| "bwp_result_u8 BWP_E_BAD_REQUEST = 1"
| "bwp_result_u8 BWP_E_UNSUPPORTED = 2"
| "bwp_result_u8 BWP_E_BUSY = 3"
| "bwp_result_u8 BWP_E_STORAGE = 4"
| "bwp_result_u8 BWP_E_OTA_NOT_STARTED = 5"
| "bwp_result_u8 BWP_E_OTA_BAD_OFFSET = 6"
| "bwp_result_u8 BWP_E_OTA_VERIFY = 7"
| "bwp_result_u8 BWP_E_OTA_TOO_LARGE = 8"
| "bwp_result_u8 BWP_E_INTERNAL = 9"
| "bwp_result_u8 BWP_E_OTA_WRONG_IMAGE = 10"
| "bwp_result_u8 BWP_E_NOT_PAIRED = 11"
| "bwp_result_u8 BWP_E_AUTH = 12"
| "bwp_result_u8 BWP_E_ALREADY_PAIRED = 13"

record wb_io =
  derive_secret :: "bytes \<Rightarrow> bytes option"
  x25519_public :: "bytes \<Rightarrow> bytes"
  x25519_shared :: "bytes \<Rightarrow> bytes \<Rightarrow> bytes"
  blake2b_keyed :: blake2b_t
  chacha_xor :: chacha_t

datatype wb_req_state_t = WB_REQ_IDLE | WB_REQ_PENDING | WB_REQ_DONE | WB_REQ_TIMEOUT

record wb_reply_t =
  wr_result :: u8
  wr_message :: cstr
  wr_offset :: u32
  wr_aps :: "bwp_ap_t list"

record wb_info_t =
  wi_present :: bool
  wi_mac :: bytes
  wi_fw_version :: cstr
  wi_hw_rev :: cstr
  wi_hello_flags :: u8
  wi_state :: u8
  wi_flags :: u8
  wi_paired :: bool
  wi_problem :: "cstr option"
  wi_have_status :: bool
  wi_status_state :: u8
  wi_ssid :: cstr
  wi_channel :: u8
  wi_rssi :: u8
  wi_reason :: u8
  wi_uptime_s :: u32
  wi_status_age_ms :: u32
  wi_counters :: bwp_counters_t

record wb_t =
  wb_pod_mac :: bytes
  wb_link_up :: bool
  wb_seen :: bool
  wb_last_hello :: u32
  wb_mac :: bytes
  wb_nonce :: bytes
  wb_have_nonce :: bool
  wb_secret :: bytes
  wb_pub :: bytes
  wb_have_secret :: bool
  wb_bridge_pub :: bytes
  wb_key :: bytes
  wb_have_key :: bool
  wb_counter :: u32
  wb_seq :: u16
  wb_info :: wb_info_t
  wb_status_at :: u32
  wb_next_status :: u32
  wb_next_pair :: u32
  req_state :: wb_req_state_t
  req_internal :: bool
  req_type :: u8
  req_seq :: u16
  req_counter :: u32
  req_signed :: bool
  req_tlvs :: bytes
  req_ext :: "bytes option"
  req_len :: u16
  req_timeout :: u32
  req_sent :: u32
  req_tries :: u8
  req_resynced :: bool
  wb_reply :: wb_reply_t
  wb_out :: "bytes list"

definition no_reply :: wb_reply_t where
  "no_reply = \<lparr>wr_result = 0, wr_message = [], wr_offset = 0, wr_aps = []\<rparr>"

definition no_counters :: bwp_counters_t where
  "no_counters = \<lparr>eth_rx = 0, wifi_tx = 0, wifi_tx_err = 0, wifi_rx = 0, eth_tx = 0, eth_tx_err = 0, dropped = 0\<rparr>"

definition no_info :: wb_info_t where
  "no_info = \<lparr>wi_present = False, wi_mac = replicate 6 0, wi_fw_version = [], wi_hw_rev = [], wi_hello_flags = 0,
     wi_state = 0, wi_flags = 0, wi_paired = False, wi_problem = None, wi_have_status = False, wi_status_state = 0,
     wi_ssid = [], wi_channel = 0, wi_rssi = 0, wi_reason = 0, wi_uptime_s = 0, wi_status_age_ms = 0,
     wi_counters = no_counters\<rparr>"

definition wb_init :: "bytes \<Rightarrow> wb_t" where
  "wb_init pod_mac = \<lparr>wb_pod_mac = take 6 pod_mac, wb_link_up = False, wb_seen = False, wb_last_hello = 0,
     wb_mac = replicate 6 0, wb_nonce = replicate 8 0, wb_have_nonce = False, wb_secret = replicate 32 0,
     wb_pub = replicate 32 0, wb_have_secret = False, wb_bridge_pub = replicate 32 0, wb_key = replicate 32 0,
     wb_have_key = False, wb_counter = 0, wb_seq = 0, wb_info = no_info, wb_status_at = 0, wb_next_status = 0,
     wb_next_pair = 0, req_state = WB_REQ_IDLE, req_internal = False, req_type = 0, req_seq = 0, req_counter = 0,
     req_signed = False, req_tlvs = replicate 128 0, req_ext = None, req_len = 0, req_timeout = 0, req_sent = 0,
     req_tries = 0, req_resynced = False, wb_reply = no_reply, wb_out = []\<rparr>"

subsection \<open>Helpers\<close>

definition wb_elapsed :: "u32 \<Rightarrow> u32 \<Rightarrow> u32 \<Rightarrow> bool" where
  "wb_elapsed now since ms \<longleftrightarrow> now - since \<ge> ms"

definition set_msg :: "cstr \<Rightarrow> wb_reply_t \<Rightarrow> wb_reply_t" where
  "set_msg s r = r\<lparr>wr_message := take (WB_MSG_MAX - 1) s\<rparr>"

definition wb_present :: "wb_t \<Rightarrow> u32 \<Rightarrow> bool" where
  "wb_present b now \<longleftrightarrow> wb_seen b \<and> wb_link_up b \<and> \<not> wb_elapsed now (wb_last_hello b) WB_HELLO_TIMEOUT_MS"

definition bridge_paired :: "wb_t \<Rightarrow> bool" where
  "bridge_paired b \<longleftrightarrow> wi_flags (wb_info b) AND BWP_F_PAIRED \<noteq> 0"

definition wb_finish :: "wb_req_state_t \<Rightarrow> wb_t \<Rightarrow> wb_t" where
  "wb_finish st b = b\<lparr>req_state := (if req_internal b then WB_REQ_IDLE else st)\<rparr>"

definition upd_info :: "(wb_info_t \<Rightarrow> wb_info_t) \<Rightarrow> wb_t \<Rightarrow> wb_t" where
  "upd_info f b = b\<lparr>wb_info := f (wb_info b)\<rparr>"

definition upd_reply :: "(wb_reply_t \<Rightarrow> wb_reply_t) \<Rightarrow> wb_t \<Rightarrow> wb_t" where
  "upd_reply f b = b\<lparr>wb_reply := f (wb_reply b)\<rparr>"

text \<open>The bytes of a field found with exactly the expected length, as every fixed-size field is read.\<close>

definition find_exact :: "bytes \<Rightarrow> nat \<Rightarrow> nat \<Rightarrow> u8 \<Rightarrow> nat \<Rightarrow> bytes option" where
  "find_exact mem body len tag k =
     (case bwp_find mem body len tag of
        (True, Some (v, n)) \<Rightarrow> if unat n = k then Some (take k (drop v mem)) else None
      | _ \<Rightarrow> None)"

abbreviation msg_u8 :: "bytes \<Rightarrow> bwp_msg_t \<Rightarrow> u8 \<Rightarrow> u8 option" where
  "msg_u8 f m \<equiv> bwp_get_u8 f (m_body m) (unat (m_body_len m))"

abbreviation msg_u32 :: "bytes \<Rightarrow> bwp_msg_t \<Rightarrow> u8 \<Rightarrow> u32 option" where
  "msg_u32 f m \<equiv> bwp_get_u32 f (m_body m) (unat (m_body_len m))"

abbreviation msg_exact :: "bytes \<Rightarrow> bwp_msg_t \<Rightarrow> u8 \<Rightarrow> nat \<Rightarrow> bytes option" where
  "msg_exact f m \<equiv> find_exact f (m_body m) (unat (m_body_len m))"

definition bytes_str :: "bytes \<Rightarrow> cstr" where
  "bytes_str s = map (\<lambda>b. char_of (unat b)) s"

definition wb_copy_str :: "bytes \<Rightarrow> bwp_msg_t \<Rightarrow> u8 \<Rightarrow> nat \<Rightarrow> cstr" where
  "wb_copy_str f m tag cap =
     (case bwp_get_str f (m_body m) (unat (m_body_len m)) tag cap of Some s \<Rightarrow> bytes_str s | None \<Rightarrow> [])"

definition or_else :: "'a option \<Rightarrow> 'a \<Rightarrow> 'a" where
  "or_else x d = (case x of Some v \<Rightarrow> v | None \<Rightarrow> d)"

subsection \<open>Sending\<close>

definition req_body :: "wb_t \<Rightarrow> bytes" where
  "req_body b = take (unat (req_len b)) (case req_ext b of Some e \<Rightarrow> e | None \<Rightarrow> req_tlvs b)"

definition send_req :: "wb_t \<Rightarrow> u32 \<Rightarrow> wb_t option" where
  "send_req b now =
     (let w = bwp_begin (replicate 22 0) 22 (wb_mac b) (wb_pod_mac b) (req_type b) (req_seq b);
          total = unat (req_len b) + (if req_signed b then WB_TRAILER_LEN else 0);
          head = blit (w_buf w) 20 (put_be16 (of_nat total));
          body = req_body b
      in do {
        (b1, tail) \<leftarrow>
          (if req_signed b then
             let c = wb_counter b + 1;
                 b1 = b\<lparr>wb_counter := c, req_counter := c\<rparr>;
                 ctr = [BWP_T_COUNTER, 0, 4] @ put_be32 c
             in do { h0 \<leftarrow> hmac_sha256_init \<lparr>inner = stack_ctx, opad_key = replicate 64 0\<rparr> (take BWP_KEY_LEN (wb_key b));
                     h1 \<leftarrow> hmac_sha256_update h0 (take BWP_NONCE_LEN (wb_nonce b));
                     h2 \<leftarrow> hmac_sha256_update h1 (take BWP_HDR_LEN (drop BWP_ETH_HDR_LEN head));
                     h3 \<leftarrow> hmac_sha256_update h2 body;
                     h4 \<leftarrow> hmac_sha256_update h3 ctr;
                     (h5, mac) \<leftarrow> hmac_sha256_final h4;
                     Some (b1, ctr @ [BWP_T_AUTH, 0, of_nat BWP_AUTH_LEN] @ take BWP_AUTH_LEN mac) }
           else Some (b, []));
        Some (b1\<lparr>req_sent := now, req_tries := req_tries b1 + 1, wb_out := wb_out b1 @ [head @ body @ tail]\<rparr>) })"

definition start_req ::
  "wb_t \<Rightarrow> u8 \<Rightarrow> bytes \<Rightarrow> u32 \<Rightarrow> bool \<Rightarrow> bool \<Rightarrow> u32 \<Rightarrow> wb_t option" where
  "start_req b mtyp tlvs timeout_ms internal borrow now =
     (let s = wb_seq b + 1;
          s = (if s = 0 then 1 else s);
          b = b\<lparr>req_state := WB_REQ_PENDING, req_internal := internal, req_type := mtyp, wb_seq := s, req_seq := s,
                req_ext := (if borrow then Some tlvs else None),
                req_tlvs := (if borrow then req_tlvs b else blit (req_tlvs b) 0 tlvs),
                req_len := of_nat (length tlvs), req_timeout := timeout_ms, req_tries := 0, req_resynced := False,
                req_signed := bridge_paired b, wb_reply := no_reply\<rparr>
      in send_req b now)"

subsection \<open>What the bridge says of itself\<close>

definition forget_bridge :: "wb_t \<Rightarrow> wb_t" where
  "forget_bridge b =
     (let b = (if req_state b = WB_REQ_PENDING
               then wb_finish WB_REQ_TIMEOUT (upd_reply (set_msg ''the bridge went away'') b) else b)
      in b\<lparr>wb_seen := False, wb_have_nonce := False, wb_have_key := False, wb_have_secret := False, wb_counter := 0,
           wb_key := replicate 32 0, wb_secret := replicate 32 0, wb_info := no_info\<rparr>)"

definition wb_set_link :: "wb_t \<Rightarrow> bool \<Rightarrow> wb_t" where
  "wb_set_link b up = (if wb_link_up b \<and> \<not> up then b\<lparr>wb_have_nonce := False\<rparr> else b)\<lparr>wb_link_up := up\<rparr>"

definition learn_bridge_pub :: "wb_io \<Rightarrow> bytes \<Rightarrow> wb_t \<Rightarrow> wb_t" where
  "learn_bridge_pub io pub b =
     (if \<not> wb_have_secret b \<or> (wb_have_key b \<and> pub = wb_bridge_pub b) then b
      else case bwp_pair_key (x25519_shared io) (blake2b_keyed io) (wb_secret b) pub (wb_pub b) pub of
             Some k \<Rightarrow> b\<lparr>wb_bridge_pub := pub, wb_key := k, wb_have_key := True\<rparr>
           | None \<Rightarrow> b\<lparr>wb_bridge_pub := pub, wb_key := replicate 32 0, wb_have_key := False\<rparr>)"

definition update_state :: "bytes \<Rightarrow> bwp_msg_t \<Rightarrow> u32 \<Rightarrow> wb_t \<Rightarrow> wb_t" where
  "update_state frame m now b =
     (case msg_u8 frame m BWP_T_STATE of
        Some st \<Rightarrow> if st \<noteq> wi_state (wb_info b)
                   then (upd_info (\<lambda>i. i\<lparr>wi_state := st\<rparr>) b)\<lparr>wb_next_status := now\<rparr> else b
      | None \<Rightarrow> b)"

definition hello_new :: "wb_io \<Rightarrow> bytes \<Rightarrow> u32 \<Rightarrow> wb_t \<Rightarrow> wb_t" where
  "hello_new io src now b =
     (let b = (forget_bridge b)\<lparr>wb_mac := src\<rparr>;
          b = (case derive_secret io src of
                 Some s \<Rightarrow> b\<lparr>wb_secret := s, wb_have_secret := True, wb_pub := bwp_x25519_public (x25519_public io) s\<rparr>
               | None \<Rightarrow> b\<lparr>wb_have_secret := False\<rparr>);
          b = upd_info (\<lambda>i. i\<lparr>wi_problem := (if wb_have_secret b then None
                else Some ''no device identity on this pod: cannot pair'')\<rparr>) b
      in b\<lparr>wb_next_pair := now, wb_next_status := now\<rparr>)"

definition hello_nonce :: "bytes \<Rightarrow> u32 \<Rightarrow> wb_t \<Rightarrow> wb_t" where
  "hello_nonce v now b =
     (if v \<noteq> wb_nonce b then b\<lparr>wb_nonce := v, wb_counter := 0, wb_next_status := now\<rparr>
      else if \<not> wb_have_nonce b then b\<lparr>wb_next_status := now\<rparr> else b)\<lparr>wb_have_nonce := True\<rparr>"

definition hello_info :: "bytes \<Rightarrow> bwp_msg_t \<Rightarrow> wb_t \<Rightarrow> wb_t" where
  "hello_info frame m b =
     (let flags = or_else (msg_u8 frame m BWP_T_FLAGS) (wi_flags (wb_info b))
      in upd_info (\<lambda>i. i\<lparr>wi_flags := flags, wi_hello_flags := flags,
           wi_fw_version := wb_copy_str frame m BWP_T_FW_VERSION 16, wi_hw_rev := wb_copy_str frame m BWP_T_HW_REV 8\<rparr>) b)"

definition hello_pair :: "wb_io \<Rightarrow> bytes \<Rightarrow> bwp_msg_t \<Rightarrow> wb_t \<Rightarrow> wb_t" where
  "hello_pair io frame m b =
     (if \<not> bridge_paired b then (upd_info (\<lambda>i. i\<lparr>wi_paired := False\<rparr>) b)\<lparr>wb_have_key := False\<rparr>
      else case msg_exact frame m BWP_T_PUBKEY BWP_PUBKEY_LEN of
             Some v \<Rightarrow> learn_bridge_pub io v b
           | None \<Rightarrow> b)"

definition on_hello :: "wb_io \<Rightarrow> wb_t \<Rightarrow> bwp_msg_t \<Rightarrow> bytes \<Rightarrow> u32 \<Rightarrow> wb_t" where
  "on_hello io b m frame now =
     (let src = take 6 (drop (m_src m) frame);
          b = (if \<not> wb_seen b \<or> src \<noteq> wb_mac b then hello_new io src now b else b);
          b = b\<lparr>wb_seen := True, wb_last_hello := now\<rparr>;
          b = (case msg_exact frame m BWP_T_NONCE BWP_NONCE_LEN of Some v \<Rightarrow> hello_nonce v now b | None \<Rightarrow> b)
      in hello_pair io frame m (hello_info frame m (update_state frame m now b)))"

subsection \<open>Answers\<close>

definition counters_of :: "bytes \<Rightarrow> bwp_counters_t" where
  "counters_of v = \<lparr>eth_rx = get_be32 v 0, wifi_tx = get_be32 v 4, wifi_tx_err = get_be32 v 8, wifi_rx = get_be32 v 12,
     eth_tx = get_be32 v 16, eth_tx_err = get_be32 v 20, dropped = get_be32 v 24\<rparr>"

definition parse_status :: "bytes \<Rightarrow> bwp_msg_t \<Rightarrow> u32 \<Rightarrow> wb_t \<Rightarrow> wb_t" where
  "parse_status frame m now b =
     (let i = wb_info b;
          st = or_else (msg_u8 frame m BWP_T_STATE) (wi_state i);
          i = i\<lparr>wi_state := st, wi_status_state := st,
                wi_flags := or_else (msg_u8 frame m BWP_T_FLAGS) (wi_flags i),
                wi_ssid := wb_copy_str frame m BWP_T_SSID 33,
                wi_channel := or_else (msg_u8 frame m BWP_T_CHANNEL) 0,
                wi_rssi := or_else (msg_u8 frame m BWP_T_RSSI) 0,
                wi_reason := or_else (msg_u8 frame m BWP_T_REASON) 0,
                wi_uptime_s := or_else (msg_u32 frame m BWP_T_UPTIME) 0\<rparr>;
          i = (case msg_exact frame m BWP_T_COUNTERS 28 of Some v \<Rightarrow> i\<lparr>wi_counters := counters_of v\<rparr> | None \<Rightarrow> i)
      in b\<lparr>wb_info := i\<lparr>wi_have_status := True\<rparr>, wb_status_at := now\<rparr>)"

definition scan_ap :: "bytes \<Rightarrow> nat \<Rightarrow> nat \<Rightarrow> bwp_ap_t option" where
  "scan_ap mem v n =
     (case bwp_get_str mem v n BWP_T_SSID 33 of
        None \<Rightarrow> None
      | Some s \<Rightarrow> Some \<lparr>ap_ssid = bytes_str s, ap_rssi = or_else (bwp_get_u8 mem v n BWP_T_RSSI) 0,
                     ap_channel = or_else (bwp_get_u8 mem v n BWP_T_CHANNEL) 0,
                     ap_authmode = or_else (bwp_get_u8 mem v n BWP_T_AUTHMODE) BWP_AUTH_OTHER,
                     ap_bssid = or_else (find_exact mem v n BWP_T_BSSID 6) (replicate 6 0)\<rparr>)"

function scan_loop :: "bytes \<Rightarrow> bwp_iter_t \<Rightarrow> bwp_ap_t list \<Rightarrow> bwp_ap_t list" where
  "scan_loop mem it aps =
     (case bwp_iter_next mem it of
        (None, it') \<Rightarrow> aps
      | (Some (tag, v, n), it') \<Rightarrow>
          if length aps < WB_SCAN_MAX then
            scan_loop mem it'
              (if tag \<noteq> BWP_T_AP \<or> \<not> bwp_tlv_valid mem v (unat n) then aps
               else case scan_ap mem v (unat n) of None \<Rightarrow> aps | Some ap \<Rightarrow> aps @ [ap])
          else aps)"
  by pat_completeness auto
termination by (relation "measure (\<lambda>(mem, it, aps). it_left it)") (auto dest: iter_next_less [OF sym])

declare scan_loop.simps [simp del]

definition parse_scan :: "bytes \<Rightarrow> bwp_msg_t \<Rightarrow> wb_t \<Rightarrow> wb_t" where
  "parse_scan frame m b =
     upd_reply (\<lambda>r. r\<lparr>wr_aps := scan_loop frame (bwp_iter_init (m_body m) (unat (m_body_len m))) (wr_aps r)\<rparr>) b"

definition REJECTED :: cstr where
  "REJECTED = ''the bridge is paired with another pod: press PAIR on the bridge''"

definition is_refusal :: "u8 \<Rightarrow> bool" where
  "is_refusal r \<longleftrightarrow> r = bwp_result_u8 BWP_E_AUTH \<or> r = bwp_result_u8 BWP_E_NOT_PAIRED \<or>
     r = bwp_result_u8 BWP_E_ALREADY_PAIRED"

definition result_ok :: "wb_io \<Rightarrow> bytes \<Rightarrow> bwp_msg_t \<Rightarrow> u32 \<Rightarrow> wb_t \<Rightarrow> wb_t" where
  "result_ok io frame m now b =
     (if req_type b = BWP_PAIR then
        (case msg_exact frame m BWP_T_PUBKEY BWP_PUBKEY_LEN of
           None \<Rightarrow> b
         | Some v \<Rightarrow>
             let b = learn_bridge_pub io v (b\<lparr>wb_have_key := False\<rparr>)
             in (upd_info (\<lambda>i. i\<lparr>wi_flags := wi_flags i OR BWP_F_PAIRED, wi_paired := wb_have_key b,
                    wi_problem := (if wb_have_key b then None else Some ''the bridge sent a bad public key'')\<rparr>) b)
                  \<lparr>wb_next_status := now\<rparr>)
      else if req_type b = BWP_STATUS then parse_status frame m now b
      else if req_type b = BWP_SCAN then parse_scan frame m b
      else if req_type b = BWP_SET_WIFI then
        (upd_info (\<lambda>i. i\<lparr>wi_have_status := False, wi_state := BWP_ST_JOINING, wi_status_state := BWP_ST_JOINING\<rparr>) b)
          \<lparr>wb_next_status := now\<rparr>
      else b)"

definition rejected :: "wb_t \<Rightarrow> wb_t" where
  "rejected b = upd_info (\<lambda>i. i\<lparr>wi_paired := False, wi_problem := Some REJECTED\<rparr>) b"

definition result_case :: "wb_io \<Rightarrow> bytes \<Rightarrow> bwp_msg_t \<Rightarrow> u8 \<Rightarrow> u32 \<Rightarrow> wb_t \<Rightarrow> wb_t" where
  "result_case io frame m r now b =
     (if r = bwp_result_u8 BWP_E_ALREADY_PAIRED then rejected b
      else if r = bwp_result_u8 BWP_E_NOT_PAIRED then
        (upd_info (\<lambda>i. i\<lparr>wi_flags := wi_flags i AND NOT BWP_F_PAIRED, wi_paired := False\<rparr>) b)\<lparr>wb_next_pair := now\<rparr>
      else if r = bwp_result_u8 BWP_OK then result_ok io frame m now b
      else b)"

definition reply_done :: "bytes \<Rightarrow> bwp_msg_t \<Rightarrow> u8 \<Rightarrow> wb_t \<Rightarrow> wb_t" where
  "reply_done frame m r b =
     (let b = (if req_type b = BWP_OTA_DATA
               then upd_reply (\<lambda>p. p\<lparr>wr_offset := or_else (msg_u32 frame m BWP_T_OFFSET) (wr_offset p)\<rparr>) b else b);
          b = upd_reply (\<lambda>p. p\<lparr>wr_result := r, wr_message := wb_copy_str frame m BWP_T_MESSAGE WB_MSG_MAX\<rparr>) b;
          b = (if r = bwp_result_u8 BWP_E_AUTH \<or> r = bwp_result_u8 BWP_E_ALREADY_PAIRED
               then upd_reply (set_msg REJECTED) b
               else if r = bwp_result_u8 BWP_E_NOT_PAIRED
               then upd_reply (set_msg ''the bridge is not paired yet; pairing now, try again'') b else b)
      in wb_finish WB_REQ_DONE b)"

definition auth_refused :: "bytes \<Rightarrow> bwp_msg_t \<Rightarrow> u32 \<Rightarrow> wb_t \<Rightarrow> wb_t option" where
  "auth_refused frame m now b =
     (case (case msg_exact frame m BWP_T_NONCE BWP_NONCE_LEN of
              Some v \<Rightarrow> if \<not> wb_have_nonce b \<or> v \<noteq> wb_nonce b then Some v else None
            | None \<Rightarrow> None) of
        Some v \<Rightarrow>
          let b = b\<lparr>wb_nonce := v, wb_have_nonce := True, wb_counter := 0\<rparr>
          in if req_tries b < WB_TRIES \<or> \<not> req_resynced b
             then send_req (b\<lparr>req_resynced := (req_tries b \<ge> WB_TRIES)\<rparr>) now
             else Some (reply_done frame m (bwp_result_u8 BWP_E_AUTH) b)
      | None \<Rightarrow>
          (case (if req_resynced b then None else msg_u32 frame m BWP_T_COUNTER) of
             Some c \<Rightarrow> send_req (b\<lparr>wb_counter := (if c \<ge> wb_counter b then c else wb_counter b),
                                  req_resynced := True\<rparr>) now
           | None \<Rightarrow> Some (reply_done frame m (bwp_result_u8 BWP_E_AUTH) (rejected b))))"

definition on_reply :: "wb_io \<Rightarrow> wb_t \<Rightarrow> bwp_msg_t \<Rightarrow> bytes \<Rightarrow> u32 \<Rightarrow> wb_t option" where
  "on_reply io b m frame now =
     (let r = or_else (msg_u8 frame m BWP_T_RESULT) (bwp_result_u8 BWP_E_INTERNAL);
          must_verify = (req_signed b \<and> \<not> is_refusal r)
      in do {
        verified \<leftarrow> (if must_verify then
                       do { (v, c) \<leftarrow> bwp_verify frame m (wb_key b) (wb_nonce b);
                            Some (v = BWP_VERIFY_OK \<and> c = Some (req_counter b)) }
                     else Some True);
        if \<not> verified then Some b
        else
          let b = (if must_verify then upd_info (\<lambda>i. i\<lparr>wi_paired := True, wi_problem := None\<rparr>) b else b)
          in if r = bwp_result_u8 BWP_E_AUTH then auth_refused frame m now b
             else Some (reply_done frame m r (result_case io frame m r now b)) })"

definition wb_rx :: "wb_io \<Rightarrow> wb_t \<Rightarrow> bytes \<Rightarrow> nat \<Rightarrow> u32 \<Rightarrow> wb_t option" where
  "wb_rx io b frame len now =
     (case bwp_parse frame len no_msg of
        (pr, m) \<Rightarrow>
          if pr \<noteq> BWP_PARSE_OK then Some b
          else if take 6 (drop (m_dst m) frame) \<noteq> wb_pod_mac b \<and> frame ! m_dst m AND 0x01 = 0 then Some b
          else if m_type m = BWP_HELLO then Some (on_hello io b m frame now)
          else if m_type m AND BWP_RESPONSE = 0 \<or> \<not> wb_seen b \<or> take 6 (drop (m_src m) frame) \<noteq> wb_mac b then Some b
          else if m_seq m = 0 then
            (if m_type m = BWP_STATUS OR BWP_RESPONSE then
               let b = update_state frame m now b
               in Some (upd_info (\<lambda>i. i\<lparr>wi_flags := or_else (msg_u8 frame m BWP_T_FLAGS) (wi_flags i)\<rparr>) b)
             else Some b)
          else if req_state b = WB_REQ_PENDING \<and> m_seq m = req_seq b \<and> m_type m = req_type b OR BWP_RESPONSE
          then on_reply io b m frame now
          else Some b)"

subsection \<open>Timeouts, automatic requests and the caller's requests\<close>

definition wb_poll :: "wb_t \<Rightarrow> u32 \<Rightarrow> wb_t option" where
  "wb_poll b now =
     (let here = wb_present b now in
      if req_state b = WB_REQ_PENDING then
        (if \<not> here then
           Some (wb_finish WB_REQ_TIMEOUT (upd_reply (set_msg ''no Wi-Fi bridge on the Ethernet port'') b))
         else if wb_elapsed now (req_sent b) (req_timeout b) then
           (if req_tries b < WB_TRIES then send_req b now
            else Some (wb_finish WB_REQ_TIMEOUT (upd_reply (set_msg ''no answer from the Wi-Fi bridge'') b)))
         else Some b)
      else if req_state b \<noteq> WB_REQ_IDLE \<or> \<not> here \<or> \<not> wb_have_secret b \<or> \<not> wb_have_nonce b then Some b
      else if \<not> bridge_paired b then
        (if sint (now - wb_next_pair b) \<ge> 0 then
           start_req (b\<lparr>wb_next_pair := now + WB_PAIR_RETRY_MS\<rparr>) BWP_PAIR
             ([BWP_T_PUBKEY, 0, of_nat BWP_PUBKEY_LEN] @ wb_pub b) 1000 True False now
         else Some b)
      else if wb_have_key b \<and> sint (now - wb_next_status b) \<ge> 0 then
        start_req (b\<lparr>wb_next_status := now + WB_STATUS_EVERY_MS\<rparr>) BWP_STATUS [] 1000 True False now
      else Some b)"

definition wb_req_start :: "wb_t \<Rightarrow> u8 \<Rightarrow> bytes \<Rightarrow> u32 \<Rightarrow> bool \<Rightarrow> u32 \<Rightarrow> (int \<times> wb_t) option" where
  "wb_req_start b mtyp tlvs timeout_ms borrow now =
     (if \<not> wb_present b now then Some (-2, b)
      else if \<not> wb_have_secret b \<or> (bridge_paired b \<and> \<not> wb_have_key b) then Some (-3, b)
      else if req_state b \<noteq> WB_REQ_IDLE then Some (-1, b)
      else if \<not> bridge_paired b \<and> mtyp \<noteq> BWP_STATUS \<and> mtyp \<noteq> BWP_SCAN then Some (-1, b)
      else if bridge_paired b \<and> \<not> wb_have_nonce b then Some (-1, b)
      else do { b1 \<leftarrow> start_req b mtyp tlvs timeout_ms False borrow now; Some (0, b1) })"

definition wb_request :: "wb_t \<Rightarrow> u8 \<Rightarrow> bytes \<Rightarrow> u32 \<Rightarrow> u32 \<Rightarrow> (int \<times> wb_t) option" where
  "wb_request b mtyp tlvs timeout_ms now =
     (if length tlvs > WB_REQ_MAX then Some (-3, b) else wb_req_start b mtyp tlvs timeout_ms False now)"

definition wb_request_ext :: "wb_t \<Rightarrow> u8 \<Rightarrow> bytes \<Rightarrow> u32 \<Rightarrow> u32 \<Rightarrow> (int \<times> wb_t) option" where
  "wb_request_ext b mtyp tlvs timeout_ms now =
     (if length tlvs > WB_BODY_MAX then Some (-3, b) else wb_req_start b mtyp tlvs timeout_ms True now)"

definition wb_request_set_wifi ::
  "wb_io \<Rightarrow> wb_t \<Rightarrow> bytes \<Rightarrow> bytes \<Rightarrow> bytes \<Rightarrow> u32 \<Rightarrow> u32 \<Rightarrow> (int \<times> wb_t) option" where
  "wb_request_set_wifi io b ssid pass seal_nonce timeout_ms now =
     (if \<not> bwp_ssid_valid (length ssid) \<or> \<not> bwp_passphrase_valid pass (length pass) then Some (-4, b)
      else if \<not> wb_present b now then Some (-2, b)
      else if \<not> bridge_paired b \<or> \<not> wb_have_key b
      then Some (if wb_have_secret b \<and> \<not> bridge_paired b then -1 else -3, b)
      else do {
        sealed \<leftarrow> (if pass \<noteq> [] then
                     do { s \<leftarrow> bwp_seal_passphrase (blake2b_keyed io) (chacha_xor io) (wb_key b) seal_nonce pass;
                          Some ([BWP_T_ENC_PASSPHRASE, 0, of_nat BWP_SEALED_PASS_LEN] @ s) }
                   else Some []);
        wb_request b BWP_SET_WIFI ([BWP_T_SSID, 0, of_nat (length ssid)] @ ssid @ sealed) timeout_ms now })"

definition wb_request_state :: "wb_t \<Rightarrow> wb_req_state_t" where
  "wb_request_state b = (if req_internal b then WB_REQ_IDLE else req_state b)"

definition wb_request_release :: "wb_t \<Rightarrow> wb_t" where
  "wb_request_release b =
     (if \<not> req_internal b \<and> req_state b \<noteq> WB_REQ_PENDING then b\<lparr>req_state := WB_REQ_IDLE\<rparr> else b)"

definition wb_get_info :: "wb_t \<Rightarrow> u32 \<Rightarrow> wb_info_t" where
  "wb_get_info b now =
     (let i = wb_info b in
      i\<lparr>wi_present := wb_present b now, wi_mac := wb_mac b,
        wi_status_age_ms := (if wi_have_status i then now - wb_status_at b else 0)\<rparr>)"

definition wb_rssi_known :: "wb_info_t \<Rightarrow> bool" where
  "wb_rssi_known i \<longleftrightarrow> wi_have_status i \<and> wi_state i = BWP_ST_CONNECTED \<and> wi_status_state i = BWP_ST_CONNECTED"

definition wb_state_str :: "u8 \<Rightarrow> cstr" where
  "wb_state_str st =
     (let names = [''unconfigured'', ''wait-pod'', ''joining'', ''connected'', ''auth-failed'', ''no-ap'']
      in if unat st < length names then names ! unat st else ''unknown'')"

definition wb_result_str :: "u8 \<Rightarrow> cstr" where
  "wb_result_str r =
     (let names = [''ok'', ''bad-request'', ''unsupported'', ''busy'', ''storage'', ''ota-not-started'',
                   ''ota-bad-offset'', ''ota-verify'', ''ota-too-large'', ''internal'',
                   ''ota-wrong-image'', ''not-paired'', ''auth'', ''already-paired'']
      in if unat r < length names then names ! unat r else ''error'')"

subsection \<open>Reading a message that carries known fields\<close>

lemma get_u8_carried:
  assumes "carries f m pre ts post" "map_of ts tag = Some [x]"
  shows "msg_u8 f m tag = Some x"
proof -
  obtain v rest where v: "bwp_find f (m_body m) (unat (m_body_len m)) tag = (True, Some (v, 1))" "drop v f = x # rest"
    using find_carried [OF assms] by auto
  then show ?thesis by (simp add: bwp_get_u8_def nth_via_drop)
qed

lemma exact_carried:
  assumes "carries f m pre ts post" "map_of ts tag = Some x" "length x = k"
  shows "msg_exact f m tag k = Some x"
  using find_carried [OF assms(1,2)] assms(3) by (auto simp: find_exact_def)

lemma exact_absent: "carries f m pre ts post \<Longrightarrow> tag \<notin> fst ` set ts \<Longrightarrow> msg_exact f m tag k = None"
  using find_absent [of f m pre ts post tag]
  by (cases "bwp_find f (m_body m) (unat (m_body_len m)) tag") (auto simp: find_exact_def split: option.split)

lemma u32_carried:
  assumes "carries f m pre ts post"
  shows "msg_u32 f m tag = tlv_u32 ts tag"
  using assms get_u32_spec [of ts pre post tag] by (simp add: carries_def)

definition plain_msg :: "u8 \<Rightarrow> u16 \<Rightarrow> nat \<Rightarrow> bwp_msg_t" where
  "plain_msg ty seq n = \<lparr>m_dst = 0, m_src = 6, m_version = BWP_VERSION, m_type = ty, m_seq = seq, m_body = 22,
     m_body_len = of_nat n\<rparr>"

lemma plain_carries:
  assumes "length dst = 6" "length src = 6" "tlvs_ok ts" "length (tlvs_enc ts) \<le> 0xFFFF"
  shows "carries (hdr dst src ty seq (length (tlvs_enc ts)) @ tlvs_enc ts @ rest)
      (plain_msg ty seq (length (tlvs_enc ts))) (hdr dst src ty seq (length (tlvs_enc ts))) ts rest"
    and "bwp_parse (hdr dst src ty seq (length (tlvs_enc ts)) @ tlvs_enc ts @ rest)
      (length (hdr dst src ty seq (length (tlvs_enc ts)) @ tlvs_enc ts @ rest)) out =
      (BWP_PARSE_OK, plain_msg ty seq (length (tlvs_enc ts)))"
  using assms parse_hdr [of dst src ts _ ty seq rest out]
  by (simp_all add: carries_def plain_msg_def unat_len16)

lemma signed_verifies:
  assumes l: "length dst = 6" "length src = 6" and ok: "tlvs_ok ts" and small: "length (tlvs_enc ts) + 26 \<le> 0xFFFF"
    and tags: "BWP_T_COUNTER \<notin> fst ` set ts" "BWP_T_AUTH \<notin> fst ` set ts"
  shows "bwp_verify (hdr dst src ty seq (length (tlvs_enc ts) + 26) @
      tlvs_enc (signed_tlvs key nonce c (hdr dst src ty seq) ts) @ rest)
      (plain_msg ty seq (length (tlvs_enc ts) + 26)) key nonce = Some (BWP_VERIFY_OK, Some c)"
proof -
  let ?n = "length (tlvs_enc ts) + 26" and ?ts = "signed_tlvs key nonce c (hdr dst src ty seq) ts"
  have ne: "BWP_T_COUNTER \<noteq> BWP_T_AUTH" by (simp add: BWP_T_COUNTER_def BWP_T_AUTH_def)
  have un: "unat (m_body_len (plain_msg ty seq ?n)) = length (tlvs_enc ?ts)"
    using unat_len16 [OF small] by (simp add: plain_msg_def length_signed)
  have "map_of ts BWP_T_COUNTER = None" using tags(1) by (simp add: map_of_eq_None_iff)
  then have cnt: "tlv_u32 ?ts BWP_T_COUNTER = Some c"
    using ne by (simp add: signed_tlvs_def Let_def tlv_u32_def map_of_append map_add_def get_put_be32)
  have "\<exists>us. ?ts = us @ [(BWP_T_AUTH, mac_over key nonce (hdr dst src ty seq ?n) us)] \<and> BWP_T_AUTH \<notin> fst ` set us"
    using tags ne by (intro exI [of _ "ts @ [(BWP_T_COUNTER, put_be32 c)]"])
      (auto simp: signed_tlvs_def Let_def add.commute)
  moreover have "tlvs_ok ?ts" using ok by (simp add: signed_tlvs_ok)
  ultimately show ?thesis
    using verify_ok_iff [of ?ts "hdr dst src ty seq ?n" "plain_msg ty seq ?n" rest key nonce "Some c"] cnt l un
    by (auto simp: plain_msg_def)
qed

subsection \<open>What is sent\<close>

definition wb_frame :: "wb_t \<Rightarrow> bytes" where
  "wb_frame b =
     (let n = unat (req_len b) + (if req_signed b then 26 else 0);
          head = hdr (wb_mac b) (wb_pod_mac b) (req_type b) (req_seq b) n;
          ctr = tlv_enc (BWP_T_COUNTER, put_be32 (wb_counter b + 1))
      in head @ req_body b @
         (if req_signed b then ctr @ tlv_enc (BWP_T_AUTH, mac_spec (wb_key b) (wb_nonce b) (drop 14 head @ req_body b @ ctr))
          else []))"

definition sent :: "wb_t \<Rightarrow> u32 \<Rightarrow> wb_t" where
  "sent b now = (if req_signed b then b\<lparr>wb_counter := wb_counter b + 1, req_counter := wb_counter b + 1\<rparr> else b)
     \<lparr>req_sent := now, req_tries := req_tries b + 1, wb_out := wb_out b @ [wb_frame b]\<rparr>"

definition wb_wf :: "wb_t \<Rightarrow> bool" where
  "wb_wf b \<longleftrightarrow> length (wb_mac b) = 6 \<and> length (wb_pod_mac b) = 6"

lemma head_hdr:
  assumes "length dst = 6" "length src = 6"
  shows "blit (w_buf (bwp_begin (replicate 22 0) 22 dst src mtyp seq)) 20 (put_be16 (of_nat n)) = hdr dst src mtyp seq n"
  using assms
  by (simp add: bwp_begin_def Let_def reserve_def bwp_consts poke_def blit_def hdr_def put_be16_def)

lemma send_req_sent:
  assumes "wb_wf b"
  shows "send_req b now = Some (sent b now)"
proof -
  let ?n = "unat (req_len b) + (if req_signed b then 26 else 0)"
  let ?head = "hdr (wb_mac b) (wb_pod_mac b) (req_type b) (req_seq b) ?n"
  let ?ctr = "[BWP_T_COUNTER, 0, 4] @ put_be32 (wb_counter b + 1)"
  have l: "length (wb_mac b) = 6" "length (wb_pod_mac b) = 6" using assms by (simp_all add: wb_wf_def)
  have h: "blit (w_buf (bwp_begin (replicate 22 0) 22 (wb_mac b) (wb_pod_mac b) (req_type b) (req_seq b))) 20
      (put_be16 (of_nat (unat (req_len b) + (if req_signed b then WB_TRAILER_LEN else 0)))) = ?head"
    unfolding head_hdr [OF l] by (simp add: WB_TRAILER_LEN_def BWP_AUTH_LEN_def)
  have c: "tlv_enc (BWP_T_COUNTER, put_be32 (wb_counter b + 1)) = ?ctr" by (simp add: tlv_enc_def put_be16_def)
  have t: "tlv_enc (BWP_T_AUTH, take BWP_AUTH_LEN (hmac_spec k x)) =
      [BWP_T_AUTH, 0, of_nat BWP_AUTH_LEN] @ take BWP_AUTH_LEN (hmac_spec k x)" for k x
    by (simp add: tlv_enc_def put_be16_def BWP_AUTH_LEN_def)
  have "length (c_buf (inner \<lparr>inner = stack_ctx, opad_key = replicate 64 0\<rparr>)) = 64"
    by (simp add: stack_ctx_def zero_ctx_def)
  note m = hmac_stream_spec [OF this, of "take BWP_KEY_LEN (wb_key b)"
      "[take BWP_NONCE_LEN (wb_nonce b), take BWP_HDR_LEN (drop BWP_ETH_HDR_LEN ?head), req_body b, ?ctr]"]
  have d: "take BWP_HDR_LEN (drop BWP_ETH_HDR_LEN ?head) = drop 14 ?head"
    using l by (simp add: BWP_HDR_LEN_def BWP_ETH_HDR_LEN_def)
  show ?thesis
  proof (cases "req_signed b")
    case False
    then show ?thesis using h by (simp add: send_req_def Let_def sent_def wb_frame_def)
  next
    case True
    then show ?thesis using m h d
      by (auto simp: send_req_def Let_def sent_def wb_frame_def c t mac_spec_def bind_eq_Some_conv)
  qed
qed

lemma wb_frame_tlvs:
  assumes "req_signed b" "req_body b = tlvs_enc ts" "unat (req_len b) = length (tlvs_enc ts)"
  shows "wb_frame b = hdr (wb_mac b) (wb_pod_mac b) (req_type b) (req_seq b) (length (tlvs_enc ts) + 26) @
    tlvs_enc (signed_tlvs (wb_key b) (wb_nonce b) (wb_counter b + 1)
      (hdr (wb_mac b) (wb_pod_mac b) (req_type b) (req_seq b)) ts)"
  using assms by (simp add: wb_frame_def Let_def signed_tlvs_def mac_over_def add.commute BWP_ETH_HDR_LEN_def)

text \<open>
  C36. The request the pod sends in three parts is the one the bridge's own signer builds: for a body of
  well-formed fields that fits, the bytes given to \<open>io.send\<close> (head, body and trailer, with the MAC
  computed over the parts in turn) are, up to the zero padding to the minimum frame size, what
  \<open>bwp_begin\<close>, one put per field, \<open>bwp_sign\<close> and \<open>bwp_finish\<close> write into one buffer, and the frame
  carries the counter after the last one sent.
\<close>

theorem wb_scatter_is_sign:
  assumes "wb_wf b" and "req_signed b" and body: "req_body b = tlvs_enc ts" "unat (req_len b) = length (tlvs_enc ts)"
    and cap: "cap \<le> length buf" "60 \<le> cap" and fits: "48 + length (tlvs_enc ts) \<le> min cap BWP_MAX_FRAME"
  shows "\<exists>b' w frame f. send_req b now = Some b' \<and> wb_out b' = wb_out b @ [f] \<and> wb_counter b' = wb_counter b + 1 \<and>
    bwp_sign (wb_key b) (wb_nonce b) (wb_counter b')
      (bwp_puts ts (bwp_begin buf cap (wb_mac b) (wb_pod_mac b) (req_type b) (req_seq b))) = Some w \<and>
    bwp_finish w = (frame, max 60 (length f)) \<and> take (length f) frame = f"
proof -
  have l: "length (wb_mac b) = 6" "length (wb_pod_mac b) = 6" using assms by (simp_all add: wb_wf_def)
  let ?w0 = "bwp_begin buf cap (wb_mac b) (wb_pod_mac b) (req_type b) (req_seq b)"
  let ?h = "hdr (wb_mac b) (wb_pod_mac b) (req_type b) (req_seq b)"
  let ?ts = "signed_tlvs (wb_key b) (wb_nonce b) (wb_counter b + 1) ?h ts"
  have cap22: "22 \<le> cap" using cap by simp
  note w0 = begin_built [OF l cap(1) cap22, of "req_type b" "req_seq b"]
  have w1: "built (bwp_puts ts ?w0) (?h 0 @ tlvs_enc ts)"
    using puts_built(1) [OF w0(1), of ts] fits w0(2) l by simp
  have c1: "48 + length (tlvs_enc ts) \<le> w_cap (bwp_puts ts ?w0)" using fits w0(2) by simp
  obtain w where w: "bwp_sign (wb_key b) (wb_nonce b) (wb_counter b + 1) (bwp_puts ts ?w0) = Some w"
      "w_cap w = min cap BWP_MAX_FRAME" "built w (?h (length (tlvs_enc ts) + 26) @ tlvs_enc ?ts)"
    using sign_built(1) [OF w1 l c1, of "wb_key b" "wb_nonce b" "wb_counter b + 1"] w0(2) by auto
  have mc: "BWP_MIN_FRAME \<le> w_cap w" using w(2) cap by (simp add: bwp_consts)
  have f: "wb_frame b = ?h (length (tlvs_enc ts) + 26) @ tlvs_enc ?ts" by (rule wb_frame_tlvs [OF assms(2) body])
  have lf: "length (wb_frame b) = 22 + length (tlvs_enc ?ts)" using f l by simp
  obtain rest where fin: "bwp_finish w = (wb_frame b @ rest, max BWP_MIN_FRAME (length (wb_frame b)))"
    using finish_built [OF w(3) l mc] unfolding lf unfolding f length_signed by auto
  show ?thesis
    using send_req_sent [OF assms(1), of now] w(1) fin assms(2)
    by (simp add: sent_def BWP_MIN_FRAME_def)
qed

subsection \<open>The request across events\<close>

definition req_kept :: "wb_t \<Rightarrow> wb_t \<Rightarrow> bool" where
  "req_kept b b' \<longleftrightarrow> wb_out b' = wb_out b \<and> req_tries b' = req_tries b \<and> req_resynced b' = req_resynced b \<and>
     req_internal b' = req_internal b \<and> req_signed b' = req_signed b \<and> req_type b' = req_type b \<and>
     req_seq b' = req_seq b \<and> req_counter b' = req_counter b \<and> wb_pod_mac b' = wb_pod_mac b"

definition slot_kept :: "wb_t \<Rightarrow> wb_t \<Rightarrow> bool" where
  "slot_kept b b' \<longleftrightarrow> req_kept b b' \<and> req_state b' = req_state b \<and> wb_reply b' = wb_reply b"

lemma slot_kept_trans: "slot_kept b c \<Longrightarrow> slot_kept c d \<Longrightarrow> slot_kept b d"
  by (simp add: slot_kept_def req_kept_def)

lemma slot_kept_refl [simp]: "slot_kept b b"
  by (simp add: slot_kept_def req_kept_def)

lemma upd_info_sel [simp]:
  "wb_info (upd_info f b) = f (wb_info b)" "wb_mac (upd_info f b) = wb_mac b" "slot_kept b (upd_info f b)"
  by (simp_all add: upd_info_def slot_kept_def req_kept_def)

lemma learn_bridge_pub_kept [simp]:
  "slot_kept b (learn_bridge_pub io v b)" "wb_mac (learn_bridge_pub io v b) = wb_mac b"
  by (simp_all add: learn_bridge_pub_def slot_kept_def req_kept_def split: option.split)

lemma update_state_kept [simp]:
  "slot_kept b (update_state f m now b)" "wb_mac (update_state f m now b) = wb_mac b"
  by (simp_all add: update_state_def slot_kept_def req_kept_def upd_info_def split: option.split)

lemma hello_nonce_kept [simp]:
  "slot_kept b (hello_nonce v now b)" "wb_mac (hello_nonce v now b) = wb_mac b"
  by (simp_all add: hello_nonce_def slot_kept_def req_kept_def)

lemma hello_new_kept:
  "req_kept b (hello_new io src now b)" "wb_mac (hello_new io src now b) = src"
  "req_state (hello_new io src now b) =
     (if req_state b = WB_REQ_PENDING then (if req_internal b then WB_REQ_IDLE else WB_REQ_TIMEOUT) else req_state b)"
  "req_state b \<noteq> WB_REQ_PENDING \<Longrightarrow> wb_reply (hello_new io src now b) = wb_reply b"
  by (simp_all add: hello_new_def forget_bridge_def Let_def req_kept_def upd_info_def upd_reply_def wb_finish_def
      split: option.split)

lemma slot_kept_upd [simp]:
  "slot_kept b (b'\<lparr>wb_have_key := x\<rparr>) = slot_kept b b'"
  "slot_kept b (b'\<lparr>wb_next_status := t\<rparr>) = slot_kept b b'"
  "slot_kept b (b'\<lparr>wb_next_pair := t\<rparr>) = slot_kept b b'"
  "slot_kept b (b'\<lparr>wb_seen := x, wb_last_hello := t\<rparr>) = slot_kept b b'"
  "slot_kept b (b'\<lparr>wb_info := i, wb_status_at := t\<rparr>) = slot_kept b b'"
  by (simp_all add: slot_kept_def req_kept_def)

lemma hello_info_kept [simp]:
  "slot_kept b (hello_info f m b)" "wb_mac (hello_info f m b) = wb_mac b"
  by (simp_all add: hello_info_def Let_def)

lemma hello_pair_kept [simp]:
  "slot_kept b (hello_pair io f m b)" "wb_mac (hello_pair io f m b) = wb_mac b"
  by (simp_all add: hello_pair_def split: option.split)

lemma hello_seen_kept:
  assumes "c = (case x of Some v \<Rightarrow> hello_nonce v now (b\<lparr>wb_seen := True, wb_last_hello := now\<rparr>)
      | None \<Rightarrow> b\<lparr>wb_seen := True, wb_last_hello := now\<rparr>)"
  shows "slot_kept b c" "wb_mac c = wb_mac b"
  using assms by (cases x; auto intro: slot_kept_trans [OF _ hello_nonce_kept(1)])+

lemma hello_rest_kept:
  shows "slot_kept c (hello_pair io f m (hello_info f m (update_state f m now c)))"
    and "wb_mac (hello_pair io f m (hello_info f m (update_state f m now c))) = wb_mac c"
  by (meson slot_kept_trans hello_pair_kept hello_info_kept update_state_kept) simp

text \<open>What one received frame can do to the request: nothing, end it because another bridge is there,
  answer it, or send it once more.\<close>

definition authentic :: "wb_t \<Rightarrow> bytes \<Rightarrow> bool" where
  "authentic b f \<longleftrightarrow> (\<exists>m. bwp_parse f (length f) no_msg = (BWP_PARSE_OK, m) \<and> m_type m = req_type b OR BWP_RESPONSE \<and>
     m_seq m = req_seq b \<and> take 6 (drop (m_src m) f) = wb_mac b \<and>
     bwp_verify f m (wb_key b) (wb_nonce b) = Some (BWP_VERIFY_OK, Some (req_counter b)))"

definition ended :: "wb_req_state_t \<Rightarrow> wb_t \<Rightarrow> wb_t \<Rightarrow> bool" where
  "ended st b b' \<longleftrightarrow> req_kept b b' \<and> req_state b = WB_REQ_PENDING \<and>
     req_state b' = (if req_internal b then WB_REQ_IDLE else st)"

definition answered :: "bytes \<Rightarrow> wb_t \<Rightarrow> wb_t \<Rightarrow> bool" where
  "answered f b b' \<longleftrightarrow> ended WB_REQ_DONE b b' \<and>
     (req_signed b \<longrightarrow> \<not> is_refusal (wr_result (wb_reply b')) \<longrightarrow> authentic b f)"

definition resent :: "wb_t \<Rightarrow> wb_t \<Rightarrow> bool" where
  "resent b b' \<longleftrightarrow> req_state b = WB_REQ_PENDING \<and> req_state b' = WB_REQ_PENDING \<and>
     length (wb_out b') = length (wb_out b) + 1 \<and> req_tries b' = req_tries b + 1 \<and>
     req_internal b' = req_internal b \<and> req_signed b' = req_signed b \<and> req_type b' = req_type b \<and>
     req_seq b' = req_seq b \<and>
     (req_tries b < WB_TRIES \<or> (\<not> req_resynced b \<and> req_resynced b'))"

lemma on_hello_slot:
  fixes b :: wb_t
  shows "slot_kept b (on_hello io b m f now) \<or> ended WB_REQ_TIMEOUT b (on_hello io b m f now)"
    and "length (wb_mac b) = 6 \<Longrightarrow> length (take 6 (drop (m_src m) f)) = 6 \<Longrightarrow> length (wb_mac (on_hello io b m f now)) = 6"
proof -
  let ?src = "take 6 (drop (m_src m) f)"
  let ?b1 = "if \<not> wb_seen b \<or> ?src \<noteq> wb_mac b then hello_new io ?src now b else b"
  obtain c where c: "c = (case msg_exact f m BWP_T_NONCE BWP_NONCE_LEN of
        Some v \<Rightarrow> hello_nonce v now (?b1\<lparr>wb_seen := True, wb_last_hello := now\<rparr>)
      | None \<Rightarrow> ?b1\<lparr>wb_seen := True, wb_last_hello := now\<rparr>)" by simp
  have o: "on_hello io b m f now = hello_pair io f m (hello_info f m (update_state f m now c))"
    unfolding on_hello_def Let_def c ..
  have k: "slot_kept ?b1 (on_hello io b m f now)" "wb_mac (on_hello io b m f now) = wb_mac ?b1"
    using hello_seen_kept [OF c] hello_rest_kept [where c = c and io = io and f = f and m = m and now = now] slot_kept_trans unfolding o by (blast, simp)
  have "slot_kept b ?b1 \<or> ended WB_REQ_TIMEOUT b ?b1"
    using hello_new_kept [where b = b and io = io and src = ?src and now = now] by (simp add: slot_kept_def ended_def req_kept_def)
  then show "slot_kept b (on_hello io b m f now) \<or> ended WB_REQ_TIMEOUT b (on_hello io b m f now)"
    using k(1) by (auto simp: ended_def slot_kept_def req_kept_def)
  show "length (wb_mac b) = 6 \<Longrightarrow> length ?src = 6 \<Longrightarrow> length (wb_mac (on_hello io b m f now)) = 6"
    unfolding k(2) by (simp only: hello_new_kept(2) split: if_split) simp
qed

lemma sent_sel [simp]:
  "req_state (sent b now) = req_state b" "length (wb_out (sent b now)) = length (wb_out b) + 1"
  "req_tries (sent b now) = req_tries b + 1" "req_internal (sent b now) = req_internal b"
  "req_signed (sent b now) = req_signed b" "req_type (sent b now) = req_type b" "req_seq (sent b now) = req_seq b"
  "req_resynced (sent b now) = req_resynced b" "wb_mac (sent b now) = wb_mac b" "wb_pod_mac (sent b now) = wb_pod_mac b"
  "wb_wf (sent b now) = wb_wf b"
  by (simp_all add: sent_def wb_wf_def)

lemma upd_reply_sel [simp]:
  "req_kept b (upd_reply g b)" "wb_mac (upd_reply g b) = wb_mac b" "req_state (upd_reply g b) = req_state b"
  "wb_reply (upd_reply g b) = g (wb_reply b)" "req_internal (upd_reply g b) = req_internal b"
  "req_type (upd_reply g b) = req_type b"
  by (simp_all add: upd_reply_def req_kept_def)

lemma reply_done_facts:
  "req_kept b (reply_done f m r b)" "wb_mac (reply_done f m r b) = wb_mac b"
  "req_state (reply_done f m r b) = (if req_internal b then WB_REQ_IDLE else WB_REQ_DONE)"
  "wr_result (wb_reply (reply_done f m r b)) = r"
  by (simp_all add: reply_done_def Let_def wb_finish_def set_msg_def upd_reply_def req_kept_def)

lemma result_case_facts:
  "req_kept b (result_case io f m r now b)" "wb_mac (result_case io f m r now b) = wb_mac b"
  "req_state (result_case io f m r now b) = req_state b" "req_internal (result_case io f m r now b) = req_internal b"
  by (simp_all add: result_case_def result_ok_def rejected_def parse_status_def parse_scan_def Let_def req_kept_def
      upd_info_def upd_reply_def learn_bridge_pub_def split: option.split)

lemma result_ended:
  "req_state b = WB_REQ_PENDING \<Longrightarrow> ended WB_REQ_DONE b (reply_done f m r (result_case io f m r now b))"
  using result_case_facts [where b = b] reply_done_facts [where b = "result_case io f m r now b"]
  by (simp add: ended_def req_kept_def)

lemma auth_refused_slot:
  assumes "auth_refused f m now b = Some b'" "wb_wf b" "req_state b = WB_REQ_PENDING"
  shows "wb_wf b' \<and> (resent b b' \<or> (ended WB_REQ_DONE b b' \<and> wr_result (wb_reply b') = bwp_result_u8 BWP_E_AUTH))"
proof -
  consider (n) v where "(case msg_exact f m BWP_T_NONCE BWP_NONCE_LEN of
        Some v \<Rightarrow> if \<not> wb_have_nonce b \<or> v \<noteq> wb_nonce b then Some v else None | None \<Rightarrow> None) = Some v"
    | (c) c where "(case msg_exact f m BWP_T_NONCE BWP_NONCE_LEN of
        Some v \<Rightarrow> if \<not> wb_have_nonce b \<or> v \<noteq> wb_nonce b then Some v else None | None \<Rightarrow> None) = None"
        "(if req_resynced b then None else msg_u32 f m BWP_T_COUNTER) = Some c"
    | (r) "(case msg_exact f m BWP_T_NONCE BWP_NONCE_LEN of
        Some v \<Rightarrow> if \<not> wb_have_nonce b \<or> v \<noteq> wb_nonce b then Some v else None | None \<Rightarrow> None) = None"
        "(if req_resynced b then None else msg_u32 f m BWP_T_COUNTER) = None"
    by fastforce
  then show ?thesis
  proof cases
    case n
    let ?b = "b\<lparr>wb_nonce := v, wb_have_nonce := True, wb_counter := 0\<rparr>"
    have w: "wb_wf (?b\<lparr>req_resynced := x\<rparr>)" "wb_wf ?b" for x using assms(2) by (simp_all add: wb_wf_def)
    show ?thesis
    proof (cases "req_tries b < WB_TRIES \<or> \<not> req_resynced b")
      case True
      then have "b' = sent (?b\<lparr>req_resynced := (req_tries b \<ge> WB_TRIES)\<rparr>) now"
        using assms(1) n send_req_sent [OF w(1)] by (simp add: auth_refused_def Let_def)
      then show ?thesis using True assms(3) w by (auto simp: resent_def)
    next
      case False
      then have "b' = reply_done f m (bwp_result_u8 BWP_E_AUTH) ?b"
        using assms(1) n by (simp add: auth_refused_def Let_def)
      then show ?thesis
        using reply_done_facts [where b = ?b] assms(2,3) by (simp add: ended_def req_kept_def wb_wf_def)
    qed
  next
    case c
    let ?b = "b\<lparr>wb_counter := (if c \<ge> wb_counter b then c else wb_counter b), req_resynced := True\<rparr>"
    have w: "wb_wf ?b" using assms(2) by (simp add: wb_wf_def)
    have "b' = sent ?b now" using assms(1) c send_req_sent [OF w] by (simp add: auth_refused_def)
    then show ?thesis using c(2) assms(3) w by (simp add: resent_def split: if_splits)
  next
    case r
    then have "b' = reply_done f m (bwp_result_u8 BWP_E_AUTH) (rejected b)"
      using assms(1) by (simp add: auth_refused_def)
    then show ?thesis
      using reply_done_facts [where b = "rejected b"] assms(2,3)
      by (simp add: ended_def req_kept_def wb_wf_def rejected_def upd_info_def)
  qed
qed

lemma verify_total: "\<exists>v c. bwp_verify f m key nonce = Some (v, c)"
  by (auto simp: bwp_verify_def auth_mac_spec split: prod.split option.split)

lemma on_reply_slot:
  assumes b': "on_reply io b m f now = Some b'" and wf: "wb_wf b" and pend: "req_state b = WB_REQ_PENDING"
  shows "wb_wf b' \<and> (slot_kept b b' \<or> resent b b' \<or>
    (ended WB_REQ_DONE b b' \<and> (req_signed b \<longrightarrow> \<not> is_refusal (wr_result (wb_reply b')) \<longrightarrow>
       bwp_verify f m (wb_key b) (wb_nonce b) = Some (BWP_VERIFY_OK, Some (req_counter b)))))"
proof -
  let ?r = "or_else (msg_u8 f m BWP_T_RESULT) (bwp_result_u8 BWP_E_INTERNAL)"
  obtain v c where vc: "bwp_verify f m (wb_key b) (wb_nonce b) = Some (v, c)" using verify_total by blast
  show ?thesis
  proof (cases "req_signed b \<and> \<not> is_refusal ?r")
    case True
    then have nr: "?r \<noteq> bwp_result_u8 BWP_E_AUTH" by (auto simp: is_refusal_def)
    show ?thesis
    proof (cases "v = BWP_VERIFY_OK \<and> c = Some (req_counter b)")
      case False
      then have "b' = b" using b' True vc by (auto simp: on_reply_def Let_def)
      then show ?thesis using wf by simp
    next
      case ok: True
      let ?b = "upd_info (\<lambda>i. i\<lparr>wi_paired := True, wi_problem := None\<rparr>) b"
      have e: "b' = reply_done f m ?r (result_case io f m ?r now ?b)"
        using b' True ok vc nr by (simp add: on_reply_def Let_def)
      have p: "req_state ?b = WB_REQ_PENDING" using pend by (simp add: upd_info_def)
      have "ended WB_REQ_DONE b b'" using result_ended [OF p] unfolding e
        by (simp add: ended_def req_kept_def upd_info_def)
      moreover have "wb_wf b'" using wf result_case_facts(1,2) [where b = ?b] reply_done_facts(1,2)
        unfolding e by (simp add: wb_wf_def req_kept_def upd_info_def)
      ultimately show ?thesis using ok vc by simp
    qed
  next
    case False
    then have nf: "(req_signed b \<and> \<not> is_refusal ?r) = False" by blast
    show ?thesis
    proof (cases "?r = bwp_result_u8 BWP_E_AUTH")
      case True
      have "auth_refused f m now b = Some b'" using b' True unfolding on_reply_def Let_def nf by simp
      from auth_refused_slot [OF this wf pend] show ?thesis by (auto simp: is_refusal_def)
    next
      case nr: False
      have e: "b' = reply_done f m ?r (result_case io f m ?r now b)"
        using b' nr unfolding on_reply_def Let_def nf by simp
      have "wb_wf b'" using wf result_case_facts(1,2) [where b = b] reply_done_facts(1,2)
        unfolding e by (simp add: wb_wf_def req_kept_def)
      moreover have "wr_result (wb_reply b') = ?r" unfolding e by (rule reply_done_facts(4))
      ultimately show ?thesis using result_ended [OF pend] False unfolding e [symmetric]
        by (metis e)
    qed
  qed
qed

lemma parse_ok_src:
  assumes "bwp_parse f (length f) out = (BWP_PARSE_OK, m)"
  shows "m_src m = 6" "m_dst m = 0" "22 \<le> length f"
  using assms by (auto simp: bwp_parse_def Let_def BWP_ETH_HDR_LEN_def BWP_HDR_LEN_def split: if_splits)

lemma wb_rx_slot:
  assumes b': "wb_rx io b f (length f) now = Some b'" and wf: "wb_wf b"
  shows "wb_wf b' \<and> (slot_kept b b' \<or> ended WB_REQ_TIMEOUT b b' \<or> answered f b b' \<or> resent b b')"
proof -
  obtain pr m where pm: "bwp_parse f (length f) no_msg = (pr, m)" by (cases "bwp_parse f (length f) no_msg")
  show ?thesis
  proof (cases "pr = BWP_PARSE_OK \<and> \<not> (take 6 (drop (m_dst m) f) \<noteq> wb_pod_mac b \<and> f ! m_dst m AND 0x01 = 0)")
    case False
    then have "b' = b" using b' unfolding wb_rx_def pm by (simp split: if_splits)
    then show ?thesis using wf by simp
  next
    case True
    then have pm: "bwp_parse f (length f) no_msg = (BWP_PARSE_OK, m)" using pm by simp
    note src = parse_ok_src [OF pm]
    have l6: "length (take 6 (drop (m_src m) f)) = 6" using src by simp
    show ?thesis
    proof (cases "m_type m = BWP_HELLO")
      case hello: True
      then have e: "b' = on_hello io b m f now" using b' pm True by (auto simp: wb_rx_def)
      have "length (wb_mac b') = 6" unfolding e by (rule on_hello_slot(2) [OF _ l6]) (use wf in \<open>simp add: wb_wf_def\<close>)
      moreover have "slot_kept b b' \<or> ended WB_REQ_TIMEOUT b b'" unfolding e by (rule on_hello_slot(1))
      moreover from this have "wb_pod_mac b' = wb_pod_mac b" by (auto simp: slot_kept_def ended_def req_kept_def)
      ultimately show ?thesis using wf by (auto simp: wb_wf_def)
    next
      case nh: False
      let ?q = "req_state b = WB_REQ_PENDING \<and> m_seq m = req_seq b \<and> m_type m = req_type b OR BWP_RESPONSE"
      show ?thesis
      proof (cases "m_type m AND BWP_RESPONSE \<noteq> 0 \<and> wb_seen b \<and> take 6 (drop (m_src m) f) = wb_mac b \<and> m_seq m \<noteq> 0 \<and> ?q")
        case ans: True
        then have "on_reply io b m f now = Some b'" using b' pm True nh by (auto simp: wb_rx_def)
        from on_reply_slot [OF this wf] ans pm show ?thesis
          by (auto simp: answered_def authentic_def)
      next
        case False
        let ?u = "update_state f m now b"
        have "b' = b \<or> b' = upd_info (\<lambda>i. i\<lparr>wi_flags := or_else (msg_u8 f m BWP_T_FLAGS) (wi_flags i)\<rparr>) ?u"
          using b' pm True nh False by (auto simp: wb_rx_def Let_def split: if_splits)
        then have "slot_kept b b' \<and> wb_mac b' = wb_mac b"
          using slot_kept_trans [OF update_state_kept(1) upd_info_sel(3)] by auto
        then show ?thesis using wf by (simp add: wb_wf_def slot_kept_def req_kept_def)
      qed
    qed
  qed
qed

subsection \<open>Events and runs\<close>

datatype wb_ev = Ev_rx bytes u32 | Ev_poll u32 | Ev_link bool | Ev_request u8 bytes u32 u32
  | Ev_request_ext u8 bytes u32 u32 | Ev_set_wifi bytes bytes bytes u32 u32 | Ev_release

fun wb_step :: "wb_io \<Rightarrow> wb_ev \<Rightarrow> wb_t \<Rightarrow> wb_t option" where
  "wb_step io (Ev_rx f now) b = wb_rx io b f (length f) now"
| "wb_step io (Ev_poll now) b = wb_poll b now"
| "wb_step io (Ev_link up) b = Some (wb_set_link b up)"
| "wb_step io (Ev_request ty tlvs t now) b = map_option snd (wb_request b ty tlvs t now)"
| "wb_step io (Ev_request_ext ty tlvs t now) b = map_option snd (wb_request_ext b ty tlvs t now)"
| "wb_step io (Ev_set_wifi ssid pass sn t now) b = map_option snd (wb_request_set_wifi io b ssid pass sn t now)"
| "wb_step io Ev_release b = Some (wb_request_release b)"

fun wb_run :: "wb_io \<Rightarrow> wb_t \<Rightarrow> wb_ev list \<Rightarrow> wb_t option" where
  "wb_run io b [] = Some b"
| "wb_run io b (e # es) = do { b1 \<leftarrow> wb_step io e b; wb_run io b1 es }"

lemma wb_run_snoc: "wb_run io b (es @ [e]) = do { b1 \<leftarrow> wb_run io b es; wb_step io e b1 }"
  by (induction es arbitrary: b) (auto split: Option.bind_split)

lemma wf_upd [simp]:
  "wb_wf (b\<lparr>wb_next_pair := t\<rparr>) = wb_wf b" "wb_wf (b\<lparr>wb_next_status := t\<rparr>) = wb_wf b"
  "wb_wf (b\<lparr>req_state := st\<rparr>) = wb_wf b" "wb_wf (wb_finish st b) = wb_wf b" "wb_wf (upd_reply g b) = wb_wf b"
  by (simp_all add: wb_wf_def wb_finish_def upd_reply_def)

lemma start_req_started:
  assumes "wb_wf b"
  shows "\<exists>b'. start_req b ty tlvs t internal borrow now = Some b' \<and> wb_wf b' \<and> req_state b' = WB_REQ_PENDING \<and>
    req_internal b' = internal \<and> req_tries b' = 1 \<and> \<not> req_resynced b' \<and> req_type b' = ty \<and>
    req_signed b' = bridge_paired b \<and> length (wb_out b') = length (wb_out b) + 1"
  using assms by (simp add: start_req_def Let_def send_req_sent wb_wf_def)

lemma wb_poll_slot:
  assumes wf: "wb_wf b" and busy: "req_state b \<noteq> WB_REQ_IDLE"
  shows "\<exists>b'. wb_poll b now = Some b' \<and> wb_wf b' \<and> (slot_kept b b' \<or> ended WB_REQ_TIMEOUT b b' \<or> resent b b')"
  using assms
  by (auto simp: wb_poll_def Let_def send_req_sent ended_def resent_def wb_finish_def upd_reply_def req_kept_def wb_wf_def)

lemma wb_req_start_busy:
  "req_state b \<noteq> WB_REQ_IDLE \<Longrightarrow> \<exists>r. wb_req_start b ty tlvs t borrow now = Some (r, b) \<and> r \<noteq> 0"
  by (simp add: wb_req_start_def)

lemma seal_some: "length pass \<le> 64 \<Longrightarrow> \<exists>s. bwp_seal_passphrase bl ch key sn pass = Some s"
  by (simp add: bwp_seal_passphrase_def BWP_PASS_BLOCK_def Let_def)

definition set_wifi_body :: "wb_io \<Rightarrow> wb_t \<Rightarrow> bytes \<Rightarrow> bytes \<Rightarrow> bytes \<Rightarrow> bytes" where
  "set_wifi_body io b ssid pass sn =
     [BWP_T_SSID, 0, of_nat (length ssid)] @ ssid @
     (if pass = [] then [] else [BWP_T_ENC_PASSPHRASE, 0, of_nat BWP_SEALED_PASS_LEN] @
        the (bwp_seal_passphrase (blake2b_keyed io) (chacha_xor io) (wb_key b) sn pass))"

lemma set_wifi_request:
  "wb_request_set_wifi io b ssid pass sn t now =
     (if \<not> bwp_ssid_valid (length ssid) \<or> \<not> bwp_passphrase_valid pass (length pass) then Some (-4, b)
      else if \<not> wb_present b now then Some (-2, b)
      else if \<not> bridge_paired b \<or> \<not> wb_have_key b
      then Some (if wb_have_secret b \<and> \<not> bridge_paired b then -1 else -3, b)
      else wb_request b BWP_SET_WIFI (set_wifi_body io b ssid pass sn) t now)"
proof (cases "bwp_passphrase_valid pass (length pass)")
  case True
  then have "length pass \<le> 64" by (auto simp: bwp_passphrase_valid_def split: if_splits)
  from seal_some [OF this] obtain s
    where "bwp_seal_passphrase (blake2b_keyed io) (chacha_xor io) (wb_key b) sn pass = Some s" by metis
  then show ?thesis by (simp add: wb_request_set_wifi_def set_wifi_body_def)
qed (simp add: wb_request_set_wifi_def)

lemma busy_requests:
  assumes "req_state b \<noteq> WB_REQ_IDLE"
  shows "wb_step io (Ev_request ty tlvs t now) b = Some b" "wb_step io (Ev_request_ext ty tlvs t now) b = Some b"
    "wb_step io (Ev_set_wifi ssid pass sn t now) b = Some b"
proof -
  show r: "wb_step io (Ev_request ty tlvs t now) b = Some b" for ty tlvs
    using wb_req_start_busy [OF assms, of ty tlvs t False now] by (auto simp: wb_request_def)
  show "wb_step io (Ev_request_ext ty tlvs t now) b = Some b"
    using wb_req_start_busy [OF assms, of ty tlvs t True now] by (auto simp: wb_request_ext_def)
  show "wb_step io (Ev_set_wifi ssid pass sn t now) b = Some b"
    using r [of BWP_SET_WIFI "set_wifi_body io b ssid pass sn"] by (simp add: set_wifi_request)
qed

text \<open>The step lemma of a busy slot: until it is released, whatever happens keeps the request, ends it,
  has it answered by the frame received, or sends it once more.\<close>

lemma wb_step_slot:
  assumes st: "wb_step io e b = Some b'" and wf: "wb_wf b" and busy: "req_state b \<noteq> WB_REQ_IDLE" and nr: "e \<noteq> Ev_release"
  shows "wb_wf b' \<and> (slot_kept b b' \<or> ended WB_REQ_TIMEOUT b b' \<or> (\<exists>f now. e = Ev_rx f now \<and> answered f b b') \<or> resent b b')"
proof (cases e)
  case (Ev_rx f now)
  then show ?thesis using wb_rx_slot [of io b f now b'] st wf by auto
next
  case (Ev_poll now)
  then show ?thesis using wb_poll_slot [OF wf busy, of now] st by auto
next
  case (Ev_link up)
  then have "b' = wb_set_link b up" using st by simp
  then show ?thesis using wf by (cases "wb_link_up b \<and> \<not> up") (simp_all add: wb_set_link_def slot_kept_def req_kept_def wb_wf_def)
next
  case (Ev_request ty tlvs t now)
  then show ?thesis using st wf by (simp add: busy_requests(1) [OF busy] del: wb_step.simps)
next
  case (Ev_request_ext ty tlvs t now)
  then show ?thesis using st wf by (simp add: busy_requests(2) [OF busy] del: wb_step.simps)
next
  case (Ev_set_wifi ssid pass sn t now)
  then show ?thesis using st wf by (simp add: busy_requests(3) [OF busy] del: wb_step.simps)
qed (use nr in simp)

definition slot_inv :: "wb_t \<Rightarrow> wb_t \<Rightarrow> bool" where
  "slot_inv b0 b \<longleftrightarrow> wb_wf b \<and> \<not> req_internal b \<and> req_state b \<noteq> WB_REQ_IDLE \<and>
     1 \<le> unat (req_tries b) \<and> unat (req_tries b) \<le> 3 + (if req_resynced b then 1 else 0) \<and>
     length (wb_out b) = length (wb_out b0) + unat (req_tries b) \<and> req_signed b = bridge_paired b0"

lemma tries_suc: "unat (x :: u8) \<le> 4 \<Longrightarrow> unat (x + 1) = unat x + 1"
  by (simp add: unat_plus_if_size word_size)

lemma slot_inv_step:
  assumes inv: "slot_inv b0 b" and st: "wb_step io e b = Some b'" and nr: "e \<noteq> Ev_release"
  shows "slot_inv b0 b'"
proof -
  have wf: "wb_wf b" and busy: "req_state b \<noteq> WB_REQ_IDLE" using inv by (simp_all add: slot_inv_def)
  note s = wb_step_slot [OF st wf busy nr]
  consider (k) "slot_kept b b'" | (e) st where "ended st b b'" "st \<noteq> WB_REQ_IDLE" | (r) "resent b b'"
    using s by (auto simp: answered_def)
  then show ?thesis
  proof cases
    case k
    then show ?thesis using inv s by (simp add: slot_inv_def slot_kept_def req_kept_def)
  next
    case e
    then show ?thesis using inv s by (simp add: slot_inv_def ended_def req_kept_def)
  next
    case r
    have "unat (req_tries b) \<le> 4" using inv by (simp add: slot_inv_def split: if_splits)
    then have u: "unat (req_tries b') = unat (req_tries b) + 1" using r tries_suc by (simp add: resent_def)
    have "unat (req_tries b') \<le> 3 + (if req_resynced b' then 1 else 0)"
      using r inv u by (auto simp: resent_def slot_inv_def WB_TRIES_def word_less_nat_alt)
    then show ?thesis using inv s r u by (simp add: slot_inv_def resent_def)
  qed
qed

lemma request_slot:
  assumes wf: "wb_wf b" and rq: "wb_req_start b ty tlvs t borrow now = Some (0, b1)"
  shows "slot_inv b b1" "req_state b1 = WB_REQ_PENDING" "req_type b1 = ty"
proof -
  have "start_req b ty tlvs t False borrow now = Some b1"
    using rq by (auto simp: wb_req_start_def bind_eq_Some_conv split: if_splits)
  then show "slot_inv b b1" "req_state b1 = WB_REQ_PENDING" "req_type b1 = ty"
    using start_req_started [OF wf, of ty tlvs t False borrow now] by (auto simp: slot_inv_def)
qed

lemma slot_inv_run:
  "slot_inv b0 b \<Longrightarrow> Ev_release \<notin> set es \<Longrightarrow> wb_run io b es = Some b' \<Longrightarrow> slot_inv b0 b'"
proof (induction es arbitrary: b)
  case (Cons e es)
  then obtain b1 where "wb_step io e b = Some b1" "wb_run io b1 es = Some b'" by (auto simp: bind_eq_Some_conv)
  with Cons slot_inv_step [of b0 b io e b1] show ?case by auto
qed simp

lemma answer_source:
  assumes "slot_inv b0 b" "req_state b = WB_REQ_PENDING" "Ev_release \<notin> set es" "wb_run io b es = Some b'"
    and "req_state b' = WB_REQ_DONE" "req_signed b'" "\<not> is_refusal (wr_result (wb_reply b'))"
  shows "\<exists>es1 f now es2 s. es = es1 @ Ev_rx f now # es2 \<and> wb_run io b es1 = Some s \<and> authentic s f"
  using assms
proof (induction es arbitrary: b' rule: rev_induct)
  case (snoc e es)
  then obtain s where s: "wb_run io b es = Some s" "wb_step io e s = Some b'"
    by (auto simp: wb_run_snoc bind_eq_Some_conv)
  have inv: "slot_inv b0 s" using slot_inv_run [OF snoc.prems(1) _ s(1)] snoc.prems(3) by simp
  then have wf: "wb_wf s" and busy: "req_state s \<noteq> WB_REQ_IDLE" and ext: "\<not> req_internal s" by (simp_all add: slot_inv_def)
  have nr: "e \<noteq> Ev_release" using snoc.prems(3) by auto
  consider (k) "slot_kept s b'" | (t) "ended WB_REQ_TIMEOUT s b'" | (a) f now where "e = Ev_rx f now" "answered f s b'"
    | (r) "resent s b'" using wb_step_slot [OF s(2) wf busy nr] by blast
  then show ?case
  proof cases
    case k
    then have "req_state s = WB_REQ_DONE" "req_signed s" "\<not> is_refusal (wr_result (wb_reply s))"
      using snoc.prems by (simp_all add: slot_kept_def req_kept_def)
    from snoc.IH [OF snoc.prems(1,2) _ s(1) this] snoc.prems(3) show ?thesis by fastforce
  next
    case a
    then have "req_signed s" using snoc.prems by (simp add: answered_def ended_def req_kept_def)
    then show ?thesis using a snoc.prems s(1) by (auto simp: answered_def)
  qed (use snoc.prems ext in \<open>auto simp: ended_def resent_def\<close>)
qed simp

text \<open>
  C13. A signed request is only ever answered by the bridge that has the key: from the moment a caller's
  request is started until it is released, whatever frames arrive (another bridge, forged or replayed
  answers, HELLOs with a new nonce, refusals that make the pod send again), whatever link changes, polls
  and further requests happen, if the request ends as answered with a result that is not one of the three
  unsigned refusals, then one of the frames received was, at that moment, an answer to this request with
  the right sequence number and type from the bridge's address, whose AUTH verifies under the pairing key
  and nonce and whose counter is the one of the latest send.
\<close>

theorem wb_answer_authentic:
  assumes "wb_wf b" and "wb_req_start b ty tlvs t borrow now = Some (0, b1)"
    and "Ev_release \<notin> set es" and "wb_run io b1 es = Some b2"
    and "req_state b2 = WB_REQ_DONE" and "bridge_paired b" and "\<not> is_refusal (wr_result (wb_reply b2))"
  shows "\<exists>es1 f now' es2 s. es = es1 @ Ev_rx f now' # es2 \<and> wb_run io b1 es1 = Some s \<and> authentic s f"
proof -
  note q = request_slot [OF assms(1,2)]
  have "req_signed b2" using slot_inv_run [OF q(1) assms(3,4)] assms(6) by (simp add: slot_inv_def)
  with answer_source [OF q(1,2) assms(3,4,5)] assms(7) show ?thesis by blast
qed

text \<open>
  C34. A request puts at most one frame more on the wire than its tries: from the moment a caller's request
  is started until it is released, the pod sends it at most WB_TRIES + 1 times, whatever arrives; neither
  a bridge that keeps refusing with new nonces nor one that keeps answering with counters can keep the pod
  sending.
\<close>

theorem wb_sends_bounded:
  assumes "wb_wf b" and "wb_req_start b ty tlvs t borrow now = Some (0, b1)"
    and "Ev_release \<notin> set es" and "wb_run io b1 es = Some b2"
  shows "length (wb_out b) < length (wb_out b2) \<and> length (wb_out b2) \<le> length (wb_out b) + unat WB_TRIES + 1"
proof -
  have inv: "slot_inv b b1" "slot_inv b b2"
    using request_slot(1) [OF assms(1,2)] slot_inv_run assms(3,4) by blast+
  then show ?thesis by (simp add: slot_inv_def WB_TRIES_def split: if_splits)
qed

fun polls_spaced :: "u32 \<Rightarrow> u32 \<Rightarrow> u32 list \<Rightarrow> bool" where
  "polls_spaced t prev [] = True"
| "polls_spaced t prev (now # ts) = (wb_elapsed now prev t \<and> polls_spaced t now ts)"

lemma poll_progress:
  assumes inv: "slot_inv b0 b" and pend: "req_state b = WB_REQ_PENDING" and el: "wb_elapsed now (req_sent b) (req_timeout b)"
  shows "\<exists>b'. wb_poll b now = Some b' \<and> slot_inv b0 b' \<and>
    (req_state b' = WB_REQ_TIMEOUT \<or>
     (req_state b' = WB_REQ_PENDING \<and> unat (req_tries b') = unat (req_tries b) + 1 \<and> unat (req_tries b) < 3 \<and>
      req_sent b' = now \<and> req_timeout b' = req_timeout b))"
proof -
  have wf: "wb_wf b" and i: "\<not> req_internal b" using inv by (simp_all add: slot_inv_def)
  obtain b' where p: "wb_poll b now = Some b'" using wb_poll_slot [OF wf, of now] pend by auto
  have inv': "slot_inv b0 b'" using slot_inv_step [OF inv, of undefined "Ev_poll now" b'] p by simp
  show ?thesis
  proof (cases "wb_present b now \<and> req_tries b < WB_TRIES")
    case True
    then have "b' = sent b now" using p pend el wf by (simp add: wb_poll_def send_req_sent)
    moreover have "unat (req_tries b) < 3" using True by (simp add: WB_TRIES_def word_less_nat_alt)
    ultimately show ?thesis using p inv' pend tries_suc [of "req_tries b"] by (simp add: sent_def)
  next
    case False
    then have "req_state b' = WB_REQ_TIMEOUT" using p pend el i
      by (auto simp: wb_poll_def Let_def wb_finish_def upd_reply_def split: if_splits)
    then show ?thesis using p inv' by blast
  qed
qed

lemma polls_idle:
  assumes "slot_inv b0 b" "req_state b \<noteq> WB_REQ_PENDING"
  shows "wb_run io b (map Ev_poll ts) = Some b"
proof -
  have "wb_poll b now = Some b" for now using assms by (simp add: wb_poll_def slot_inv_def)
  then show ?thesis by (induction ts) simp_all
qed

lemma polls_end:
  "slot_inv b0 b \<Longrightarrow> req_state b = WB_REQ_PENDING \<Longrightarrow> polls_spaced (req_timeout b) (req_sent b) ts \<Longrightarrow>
   4 \<le> unat (req_tries b) + length ts \<Longrightarrow> ts \<noteq> [] \<Longrightarrow>
   \<exists>b'. wb_run io b (map Ev_poll ts) = Some b' \<and> req_state b' = WB_REQ_TIMEOUT \<and> slot_inv b0 b'"
proof (induction ts arbitrary: b)
  case Nil
  then show ?case by simp
next
  case (Cons now ts)
  obtain b1 where p: "wb_poll b now = Some b1" "slot_inv b0 b1" and
      r: "req_state b1 = WB_REQ_TIMEOUT \<or> (req_state b1 = WB_REQ_PENDING \<and>
        unat (req_tries b1) = unat (req_tries b) + 1 \<and> unat (req_tries b) < 3 \<and>
        req_sent b1 = now \<and> req_timeout b1 = req_timeout b)"
    using poll_progress [OF Cons.prems(1,2), of now] Cons.prems(3) by auto
  from r show ?case
  proof
    assume "req_state b1 = WB_REQ_TIMEOUT"
    then show ?thesis using p polls_idle [OF p(2), of io ts] by simp
  next
    assume "req_state b1 = WB_REQ_PENDING \<and> unat (req_tries b1) = unat (req_tries b) + 1 \<and> unat (req_tries b) < 3 \<and>
      req_sent b1 = now \<and> req_timeout b1 = req_timeout b"
    moreover from this Cons.prems(4) have "ts \<noteq> []" by auto
    ultimately show ?thesis using Cons.IH [of b1] p Cons.prems by simp
  qed
qed

lemma sent_times:
  assumes "wb_wf b" "wb_req_start b ty tlvs t borrow now = Some (0, b1)"
  shows "req_sent b1 = now \<and> req_timeout b1 = t \<and> req_tries b1 = 1"
proof -
  have "start_req b ty tlvs t False borrow now = Some b1"
    using assms(2) by (auto simp: wb_req_start_def bind_eq_Some_conv split: if_splits)
  then show ?thesis using assms(1) by (auto simp: start_req_def Let_def send_req_sent wb_wf_def sent_def)
qed

text \<open>
  C35. A request always comes to an end: with no answer, three polls each at least the request's timeout
  after the last (on the wrapping 32-bit clock) end it as timed out, with no more than three sends, and
  further polls leave it so until the caller releases it.
\<close>

theorem wb_request_times_out:
  assumes "wb_wf b" and "wb_req_start b ty tlvs t borrow now = Some (0, b1)"
    and "polls_spaced t now ts" and "3 \<le> length ts"
  shows "\<exists>b2. wb_run io b1 (map Ev_poll ts) = Some b2 \<and> req_state b2 = WB_REQ_TIMEOUT \<and>
    wb_request_state b2 = WB_REQ_TIMEOUT \<and> req_state (wb_request_release b2) = WB_REQ_IDLE"
proof -
  note q = request_slot [OF assms(1,2)] and u = sent_times [OF assms(1,2)]
  have "polls_spaced (req_timeout b1) (req_sent b1) ts" "4 \<le> unat (req_tries b1) + length ts" "ts \<noteq> []"
    using u assms(3,4) by auto
  from polls_end [OF q(1,2) this, of io] obtain b2 where
    b2: "wb_run io b1 (map Ev_poll ts) = Some b2" "req_state b2 = WB_REQ_TIMEOUT" "slot_inv b b2" by blast
  have "\<not> req_internal b2" using b2(3) by (simp add: slot_inv_def)
  with b2(2) have "wb_request_state b2 = WB_REQ_TIMEOUT \<and> req_state (wb_request_release b2) = WB_REQ_IDLE"
    by (simp add: wb_request_state_def wb_request_release_def)
  with b2(1,2) show ?thesis by blast
qed

subsection \<open>No operation fails\<close>

lemma on_reply_total: "wb_wf b \<Longrightarrow> \<exists>b'. on_reply io b m f now = Some b'"
proof -
  assume wf: "wb_wf b"
  have a: "\<exists>b'. auth_refused f m now c = Some b'" if "wb_wf c" for c
    using that by (auto simp: auth_refused_def Let_def send_req_sent wb_wf_def split: option.split)
  obtain v c where "bwp_verify f m (wb_key b) (wb_nonce b) = Some (v, c)" using verify_total by blast
  then show ?thesis using a [OF wf] a [of "upd_info (\<lambda>i. i\<lparr>wi_paired := True, wi_problem := None\<rparr>) b"] wf
    by (auto simp: on_reply_def Let_def wb_wf_def upd_info_def)
qed

lemma wb_total:
  assumes "wb_wf b"
  shows "\<exists>b'. wb_step io e b = Some b' \<and> wb_wf b'"
proof -
  have rq: "\<exists>r b'. wb_req_start b ty tlvs t borrow now = Some (r, b') \<and> wb_wf b'" for ty tlvs t borrow now
    using start_req_started [OF assms, of ty tlvs t False borrow now] assms by (auto simp: wb_req_start_def)
  have rq2: "\<exists>r b'. wb_request b ty tlvs t now = Some (r, b') \<and> wb_wf b'" for ty tlvs t now
    using rq assms by (auto simp: wb_request_def)
  show ?thesis
  proof (cases e)
    case (Ev_rx f now)
    have "\<exists>b'. wb_rx io b f (length f) now = Some b'"
      using on_reply_total [OF assms] by (auto simp: wb_rx_def Let_def split: prod.split)
    then show ?thesis using wb_rx_slot [OF _ assms] Ev_rx by auto
  next
    case (Ev_poll now)
    have s: "\<exists>b'. start_req c ty tlvs t i bo nw = Some b' \<and> wb_wf b'" if "wb_wf c" for c ty tlvs t i bo nw
      using start_req_started [OF that, of ty tlvs t i bo nw] by blast
    have "\<exists>b'. wb_poll b now = Some b' \<and> wb_wf b'" if "req_state b = WB_REQ_IDLE"
      using that assms by (simp add: wb_poll_def Let_def s)
    then show ?thesis using wb_poll_slot [OF assms, of now] Ev_poll by (cases "req_state b = WB_REQ_IDLE") auto
  next
    case (Ev_set_wifi ssid pass sn t now)
    then show ?thesis using rq2 [of BWP_SET_WIFI "set_wifi_body io b ssid pass sn" t now] assms
      by (auto simp: set_wifi_request)
  qed (use rq rq2 assms in \<open>fastforce simp: wb_request_ext_def wb_set_link_def wb_request_release_def wb_wf_def\<close>)+
qed

subsection \<open>The answer that is taken\<close>

lemma answer_taken:
  assumes pm: "bwp_parse f (length f) no_msg = (BWP_PARSE_OK, m)" and dst: "take 6 f = wb_pod_mac b"
    and src: "take 6 (drop 6 f) = wb_mac b" and sn: "wb_seen b"
    and ty: "m_type m = req_type b OR BWP_RESPONSE" "m_type m \<noteq> BWP_HELLO" "m_type m AND BWP_RESPONSE \<noteq> 0"
    and sq: "m_seq m = req_seq b" "req_seq b \<noteq> 0" and pend: "req_state b = WB_REQ_PENDING"
  shows "wb_rx io b f (length f) now = on_reply io b m f now"
  using assms parse_ok_src [OF pm] by (simp add: wb_rx_def)

lemma on_reply_signed:
  assumes r: "msg_u8 f m BWP_T_RESULT = Some r" and nr: "\<not> is_refusal r"
    and v: "req_signed b \<Longrightarrow> bwp_verify f m (wb_key b) (wb_nonce b) = Some (BWP_VERIFY_OK, Some (req_counter b))"
  shows "on_reply io b m f now = Some (reply_done f m r (result_case io f m r now
    (if req_signed b then upd_info (\<lambda>i. i\<lparr>wi_paired := True, wi_problem := None\<rparr>) b else b)))"
proof -
  have "r \<noteq> bwp_result_u8 BWP_E_AUTH" using nr by (auto simp: is_refusal_def)
  then show ?thesis using r nr v by (cases "req_signed b") (simp_all add: on_reply_def Let_def or_else_def)
qed

definition demo_pod :: wb_t where
  "demo_pod = (wb_init demo_mac)\<lparr>wb_seen := True, wb_link_up := True, wb_mac := demo_mac, wb_have_secret := True,
     wb_have_key := True, wb_have_nonce := True, wb_info := no_info\<lparr>wi_flags := BWP_F_PAIRED\<rparr>\<rparr>"

definition demo_sent :: wb_t where
  "demo_sent = (case wb_req_start demo_pod 5 [] 1000 False 0 of Some (r, b) \<Rightarrow> b | None \<Rightarrow> demo_pod)"

definition demo_answer :: bytes where
  "demo_answer = hdr demo_mac demo_mac 0x85 1 30 @ tlvs_enc (signed_tlvs (replicate 32 0) (replicate 8 0) 1
     (hdr demo_mac demo_mac 0x85 1) [(BWP_T_RESULT, [0])]) @ []"

definition demo_io :: wb_io where
  "demo_io = \<lparr>derive_secret = (\<lambda>m. Some (m @ replicate 26 1)), x25519_public = (\<lambda>s. map (\<lambda>x. x + 1) s),
     x25519_shared = (\<lambda>s p. map2 (\<lambda>a b. a + b) s p), blake2b_keyed = (\<lambda>n k m. take n (k @ m)),
     chacha_xor = demo_cipher\<rparr>"

lemma demo_sent_facts:
  "wb_wf demo_pod" "bridge_paired demo_pod" "wb_req_start demo_pod 5 [] 1000 False 0 = Some (0, demo_sent)"
  "wb_pod_mac demo_sent = demo_mac" "wb_mac demo_sent = demo_mac" "wb_seen demo_sent" "req_type demo_sent = 5"
  "req_seq demo_sent = 1" "req_state demo_sent = WB_REQ_PENDING" "wb_key demo_sent = replicate 32 0"
  "wb_nonce demo_sent = replicate 8 0" "req_counter demo_sent = 1" "req_signed demo_sent" "\<not> req_internal demo_sent"
proof -
  let ?b = "demo_pod\<lparr>req_state := WB_REQ_PENDING, req_internal := False, req_type := 5, wb_seq := 1, req_seq := 1,
      req_ext := None, req_tlvs := req_tlvs demo_pod, req_len := 0, req_timeout := 1000, req_tries := 0,
      req_resynced := False, req_signed := True, wb_reply := no_reply\<rparr>"
  show wf: "wb_wf demo_pod" by (simp add: wb_wf_def demo_pod_def wb_init_def demo_mac_def)
  show p: "bridge_paired demo_pod" by (simp add: bridge_paired_def demo_pod_def BWP_F_PAIRED_def)
  have "wb_wf ?b" using wf by (simp add: wb_wf_def)
  from send_req_sent [OF this, of 0] p
  have s: "start_req demo_pod 5 [] 1000 False False 0 = Some (sent ?b 0)"
    by (simp add: start_req_def Let_def blit_def demo_pod_def wb_init_def)
  have pr: "wb_present demo_pod 0"
    by (simp add: wb_present_def demo_pod_def wb_init_def wb_elapsed_def WB_HELLO_TIMEOUT_MS_def word_le_nat_alt)
  show st: "wb_req_start demo_pod 5 [] 1000 False 0 = Some (0, demo_sent)"
    unfolding demo_sent_def using s pr p
    by (simp add: wb_req_start_def) (simp add: demo_pod_def wb_init_def)
  have e: "demo_sent = sent ?b 0" using s pr p
    unfolding demo_sent_def by (simp add: wb_req_start_def) (simp add: demo_pod_def wb_init_def)
  show "wb_pod_mac demo_sent = demo_mac" "wb_mac demo_sent = demo_mac" "wb_seen demo_sent" "req_type demo_sent = 5"
    "req_seq demo_sent = 1" "req_state demo_sent = WB_REQ_PENDING" "wb_key demo_sent = replicate 32 0"
    "wb_nonce demo_sent = replicate 8 0" "req_counter demo_sent = 1" "req_signed demo_sent" "\<not> req_internal demo_sent"
    unfolding e by (simp_all add: sent_def) (simp_all add: demo_pod_def wb_init_def demo_mac_def)
qed

lemma demo_answered:
  "\<exists>b2. wb_run demo_io demo_sent [Ev_rx demo_answer 10] = Some b2 \<and> req_state b2 = WB_REQ_DONE \<and>
    wr_result (wb_reply b2) = 0"
proof -
  have l: "length demo_mac = 6" by (simp add: demo_mac_def)
  let ?ts = "signed_tlvs (replicate 32 0) (replicate 8 0) 1 (hdr demo_mac demo_mac 0x85 1) [(BWP_T_RESULT, [0])]"
  have n: "length (tlvs_enc ?ts) = 30" "tlvs_ok ?ts"
    by (simp_all add: length_signed signed_tlvs_ok)
  have c: "carries demo_answer (plain_msg 0x85 1 30) (hdr demo_mac demo_mac 0x85 1 30) ?ts []"
      "bwp_parse demo_answer (length demo_answer) no_msg = (BWP_PARSE_OK, plain_msg 0x85 1 30)"
    using plain_carries(1) [OF l l n(2), where ty = "0x85" and seq = 1 and rest = "[]"]
      plain_carries(2) [OF l l n(2), where ty = "0x85" and seq = 1 and rest = "[]" and out = no_msg]
    unfolding n(1) demo_answer_def by simp_all
  have r: "msg_u8 demo_answer (plain_msg 0x85 1 30) BWP_T_RESULT = Some 0"
    by (rule get_u8_carried [OF c(1)]) (simp add: signed_tlvs_def Let_def)
  have v: "bwp_verify demo_answer (plain_msg 0x85 1 30) (replicate 32 0) (replicate 8 0) = Some (BWP_VERIFY_OK, Some 1)"
    using signed_verifies [OF l l, of "[(BWP_T_RESULT, [0])]" "0x85" 1 "replicate 32 0" "replicate 8 0" 1 "[]"]
    by (simp add: demo_answer_def BWP_T_RESULT_def BWP_T_COUNTER_def BWP_T_AUTH_def)
  have m: "take 6 demo_answer = demo_mac" "take 6 (drop 6 demo_answer) = demo_mac"
    using l by (simp_all add: demo_answer_def hdr_def)
  have "wb_rx demo_io demo_sent demo_answer (length demo_answer) 10 = on_reply demo_io demo_sent (plain_msg 0x85 1 30) demo_answer 10"
    using c(2) m by (intro answer_taken) (simp_all add: demo_sent_facts plain_msg_def BWP_RESPONSE_def BWP_HELLO_def)
  moreover note on_reply_signed [OF r, where b = demo_sent and io = demo_io and now = 10]
  ultimately have "wb_rx demo_io demo_sent demo_answer (length demo_answer) 10 =
      Some (reply_done demo_answer (plain_msg 0x85 1 30) 0 (result_case demo_io demo_answer (plain_msg 0x85 1 30) 0 10
        (upd_info (\<lambda>i. i\<lparr>wi_paired := True, wi_problem := None\<rparr>) demo_sent)))"
    using v by (simp add: is_refusal_def demo_sent_facts)
  then show ?thesis
    using result_case_facts(4) reply_done_facts(3,4) demo_sent_facts(14) by (simp add: upd_info_def)
qed

theorem wb_answer_authentic_witness:
  "\<exists>es1 f now' es2 s. [Ev_rx demo_answer 10] = es1 @ Ev_rx f now' # es2 \<and>
     wb_run demo_io demo_sent es1 = Some s \<and> authentic s f"
proof -
  obtain b2 where "wb_run demo_io demo_sent [Ev_rx demo_answer 10] = Some b2" "req_state b2 = WB_REQ_DONE"
      "wr_result (wb_reply b2) = 0" using demo_answered by blast
  then show ?thesis
    using wb_answer_authentic [OF demo_sent_facts(1,3), of "[Ev_rx demo_answer 10]" demo_io b2] demo_sent_facts(2)
    by (simp add: is_refusal_def)
qed

theorem wb_sends_bounded_witness:
  "\<exists>b2. wb_run demo_io demo_sent [Ev_rx demo_answer 10] = Some b2 \<and>
    length (wb_out demo_pod) < length (wb_out b2) \<and> length (wb_out b2) \<le> length (wb_out demo_pod) + unat WB_TRIES + 1"
proof -
  obtain b2 where "wb_run demo_io demo_sent [Ev_rx demo_answer 10] = Some b2" using demo_answered by blast
  then show ?thesis
    using wb_sends_bounded [OF demo_sent_facts(1,3), of "[Ev_rx demo_answer 10]" demo_io b2] by simp
qed

theorem wb_request_times_out_witness:
  "\<exists>b2. wb_run demo_io demo_sent (map Ev_poll [1000, 2000, 3500]) = Some b2 \<and> req_state b2 = WB_REQ_TIMEOUT \<and>
    wb_request_state b2 = WB_REQ_TIMEOUT \<and> req_state (wb_request_release b2) = WB_REQ_IDLE"
  by (rule wb_request_times_out [OF demo_sent_facts(1,3)]) (simp_all add: wb_elapsed_def word_le_nat_alt)

theorem wb_scatter_is_sign_witness:
  "\<exists>b' w frame f. send_req (demo_pod\<lparr>req_signed := True\<rparr>) 7 = Some b' \<and> wb_out b' = [f] \<and> wb_counter b' = 1 \<and>
    bwp_sign (replicate 32 0) (replicate 8 0) (wb_counter b') (bwp_begin (replicate 60 9) 60 demo_mac demo_mac 0 0) = Some w \<and>
    bwp_finish w = (frame, max 60 (length f)) \<and> take (length f) frame = f"
proof -
  have "wb_wf (demo_pod\<lparr>req_signed := True\<rparr>)" using demo_sent_facts(1) by (simp add: wb_wf_def)
  from wb_scatter_is_sign [OF this, of "[]" 60 "replicate 60 9" 7] show ?thesis
    by (simp add: demo_pod_def wb_init_def req_body_def BWP_MAX_FRAME_def bwp_puts_def demo_mac_def)
qed

end
