(* ===== verification/BridgeCtl.thy ===== *)
theory BridgeCtl
  imports WbClient BridgeOta L2fwd
begin

text \<open>
  The bridge's control task (\<open>wifi-bridge/main/control.c\<close>) over pairing, the firmware transfer and the
  settings in NVS (\<open>creds.c\<close>), and the link between the pod's client and this task. What the drivers,
  ESP-IDF and Monocypher answer while a request is handled is the record \<open>ctl_env\<close>; a step of NVS that
  reports success has happened, one that fails has not. The frames given to \<open>eth_send\<close> are appended to
  \<open>c_out\<close>; reboots, restarts of the Wi-Fi join and what the Wi-Fi task is told of the pod are counted.
  Two tasks work on this state: the EMAC's receive task looks at every frame from the cable, may learn the pod's
  MAC from it and queues those for the bridge (\<open>eth_input\<close>, \<^verbatim>\<open>main/eth.c\<close>), the control task takes them from the
  queue (\<open>handle\<close>). The order in which they run is the list of events; so is the queue.
\<close>

subsection \<open>State and settings\<close>

definition BWP_CLEAR_WIFI :: u8 where "BWP_CLEAR_WIFI = 0x05"
definition BWP_OTA_BEGIN :: u8 where "BWP_OTA_BEGIN = 0x06"
definition BWP_OTA_END :: u8 where "BWP_OTA_END = 0x08"
definition BWP_REBOOT :: u8 where "BWP_REBOOT = 0x09"
definition BWP_FACTORY_RESET :: u8 where "BWP_FACTORY_RESET = 0x0A"
definition BWP_OTA_ABORT :: u8 where "BWP_OTA_ABORT = 0x0B"
definition BWP_T_IMAGE_SIZE :: u8 where "BWP_T_IMAGE_SIZE = 0x0F"
definition BWP_T_DATA :: u8 where "BWP_T_DATA = 0x11"
definition BWP_T_SIGNATURE :: u8 where "BWP_T_SIGNATURE = 0x1C"

record nvs_ans =
  n_open :: bool
  n_first :: bool
  n_second :: bool
  n_commit :: bool

record ctl_env =
  e_io :: wb_io
  e_mac :: bytes
  e_random :: bytes
  e_nvs :: nvs_ans
  e_nvs2 :: nvs_ans
  e_status :: bwp_status_t
  e_scan :: "bwp_result_t \<times> bwp_ap_t list"
  e_sha512 :: "bytes \<Rightarrow> bytes"
  e_ed25519 :: "bytes \<Rightarrow> bytes \<Rightarrow> bytes \<Rightarrow> bool"
  e_keys :: "bytes list"
  e_project :: cstr
  e_part :: "nat option"
  e_begin_ok :: bool
  e_begin_left :: bytes
  e_write_ok :: bool
  e_end :: end_result
  e_boot_ok :: bool
  e_now :: int

record nvs_t =
  k_ssid :: "bytes option"
  k_pass :: "bytes option"
  k_key :: "bytes option"
  k_pub :: "bytes option"

record ctl =
  s_pair :: bwp_pairing_t
  s_paired :: bool
  s_pub :: bytes
  s_sign :: bool
  s_counter :: u32
  s_out :: bytes
  c_nvs :: nvs_t
  c_ota :: ota
  c_fwd :: l2fwd_t
  c_confirmed :: bool
  c_wifi_changes :: nat
  c_reboots :: nat
  c_pod_changes :: nat
  c_pod_backs :: nat
  c_out :: "bytes list"

definition creds_load :: "nvs_t \<Rightarrow> (bytes \<times> bytes) option" where
  "creds_load k =
     (case (k_ssid k, k_pass k) of
        (Some s, Some p) \<Rightarrow> if length s \<le> 32 \<and> length s \<ge> 1 \<and> length p < 65 then Some (s, p) else None
      | _ \<Rightarrow> None)"

definition creds_store :: "nvs_ans \<Rightarrow> bytes \<Rightarrow> bytes \<Rightarrow> nvs_t \<Rightarrow> nvs_t \<times> bool" where
  "creds_store a ssid pass k =
     (if \<not> n_open a then (k, False)
      else if \<not> n_first a then (k, False)
      else let k = k\<lparr>k_ssid := Some ssid\<rparr> in
           if \<not> n_second a then (k, False) else (k\<lparr>k_pass := Some pass\<rparr>, n_commit a))"

definition creds_clear :: "nvs_ans \<Rightarrow> nvs_t \<Rightarrow> nvs_t \<times> bool" where
  "creds_clear a k =
     (if \<not> n_open a then (k, False)
      else (k\<lparr>k_ssid := (if n_first a then None else k_ssid k), k_pass := (if n_second a then None else k_pass k)\<rparr>,
            n_commit a))"

definition pairkey_load :: "nvs_t \<Rightarrow> (bytes \<times> bytes) option" where
  "pairkey_load k =
     (case (k_key k, k_pub k) of
        (Some key, Some pub) \<Rightarrow> if length key = BWP_KEY_LEN \<and> length pub = 32 then Some (key, pub) else None
      | _ \<Rightarrow> None)"

definition pairkey_store :: "nvs_ans \<Rightarrow> bytes \<Rightarrow> bytes \<Rightarrow> nvs_t \<Rightarrow> nvs_t \<times> bool" where
  "pairkey_store a key pub k =
     (if \<not> n_open a then (k, False)
      else if \<not> n_first a then (k, False)
      else let k = k\<lparr>k_key := Some (take BWP_KEY_LEN key)\<rparr> in
           if \<not> n_second a then (k, False) else (k\<lparr>k_pub := Some (take 32 pub)\<rparr>, n_commit a))"

definition pairkey_clear :: "nvs_ans \<Rightarrow> nvs_t \<Rightarrow> nvs_t \<times> bool" where
  "pairkey_clear a k =
     (if \<not> n_open a then (k, False)
      else (k\<lparr>k_key := (if n_first a then None else k_key k), k_pub := (if n_second a then None else k_pub k)\<rparr>,
            n_commit a))"

definition bridge_set_wifi :: "nvs_ans \<Rightarrow> bytes \<Rightarrow> bytes \<Rightarrow> ctl \<Rightarrow> ctl \<times> bool" where
  "bridge_set_wifi a ssid pass c =
     (case creds_store a ssid pass (c_nvs c) of
        (k, ok) \<Rightarrow> (if ok then c\<lparr>c_nvs := k, c_wifi_changes := c_wifi_changes c + 1\<rparr> else c\<lparr>c_nvs := k\<rparr>, ok))"

definition bridge_clear_wifi :: "nvs_ans \<Rightarrow> ctl \<Rightarrow> ctl \<times> bool" where
  "bridge_clear_wifi a c =
     (case creds_clear a (c_nvs c) of
        (k, ok) \<Rightarrow> (c\<lparr>c_nvs := k, c_wifi_changes := c_wifi_changes c + 1\<rparr>, ok))"

definition control_start :: "bytes \<Rightarrow> nvs_t \<Rightarrow> bytes \<Rightarrow> bytes \<Rightarrow> ctl" where
  "control_start nonce k mac buf =
     (let have_key = pairkey_load k in
      \<lparr>s_pair = pairing_init nonce (map_option fst have_key), s_paired = (have_key \<noteq> None),
       s_pub = (case have_key of Some (_, pub) \<Rightarrow> pub | None \<Rightarrow> replicate 32 0), s_sign = False, s_counter = 0,
       s_out = buf, c_nvs = k, c_ota = ota_boot, c_fwd = l2fwd_init mac, c_confirmed = False, c_wifi_changes = 0,
       c_reboots = 0, c_pod_changes = 0, c_pod_backs = 0, c_out = []\<rparr>)"

definition forget_pairing :: "nvs_ans \<Rightarrow> ctl \<Rightarrow> ctl" where
  "forget_pairing a c =
     c\<lparr>c_nvs := fst (pairkey_clear a (c_nvs c)), s_pair := pairing_forget (s_pair c), s_pub := replicate 32 0,
       s_paired := False, c_fwd := l2fwd_link_down (c_fwd c)\<rparr>"

subsection \<open>Answers\<close>

definition ctl_send :: "bytes \<times> nat \<Rightarrow> ctl \<Rightarrow> ctl option" where
  "ctl_send bn c =
     do { (buf, n) \<leftarrow>
            (if snd bn \<noteq> 0 \<and> s_sign c
             then bwp_sign_frame (fst bn) BWP_MAX_FRAME (p_key (s_pair c)) (p_nonce (s_pair c)) (s_counter c)
             else Some bn);
          Some (c\<lparr>s_out := buf, c_out := (if n \<noteq> 0 then c_out c @ [take n buf] else c_out c)\<rparr>) }"

definition send_status :: "ctl_env \<Rightarrow> bytes \<Rightarrow> u16 \<Rightarrow> ctl \<Rightarrow> ctl option" where
  "send_status e dst seq c = ctl_send (bwp_build_status (s_out c) BWP_MAX_FRAME dst (e_mac e) seq (e_status e)) c"

definition send_hello :: "ctl_env \<Rightarrow> cstr \<Rightarrow> cstr \<Rightarrow> u8 \<Rightarrow> u8 \<Rightarrow> ctl \<Rightarrow> ctl option" where
  "send_hello e fw hw st flags c =
     (let h = \<lparr>h_fw_version = fw, h_hw_rev = hw, h_state = st, h_flags = flags, h_bridge_mac = e_mac e,
               h_pod_mac = pod_mac (c_fwd c), h_nonce = p_nonce (s_pair c), h_bridge_pub = s_pub c\<rparr>
      in ctl_send (bwp_build_hello (s_out c) BWP_MAX_FRAME
           (if pod_known (c_fwd c) then Some (pod_mac (c_fwd c)) else None) h) c)"

definition ctl_reply :: "ctl_env \<Rightarrow> bwp_msg_t \<Rightarrow> bytes \<Rightarrow> bwp_result_t \<Rightarrow> cstr option \<Rightarrow> ctl \<Rightarrow> ctl option" where
  "ctl_reply e m dst r msg c =
     ctl_send (bwp_build_result (s_out c) BWP_MAX_FRAME dst (e_mac e) (m_type m) (m_seq m) (bwp_result_u8 r) msg) c"

definition answer_begin :: "ctl_env \<Rightarrow> bwp_msg_t \<Rightarrow> bytes \<Rightarrow> ctl \<Rightarrow> bwp_writer_t" where
  "answer_begin e m dst c = bwp_begin (s_out c) BWP_MAX_FRAME dst (e_mac e) (m_type m OR BWP_RESPONSE) (m_seq m)"

fun refusal_why :: "pair_verdict_t \<Rightarrow> cstr" where
  "refusal_why PAIR_NOT_PAIRED = ''not paired: send PAIR first''"
| "refusal_why PAIR_ALREADY_PAIRED = ''paired with another pod: press PAIR on the bridge''"
| "refusal_why PAIR_AUTH_MISSING = ''AUTH required''"
| "refusal_why PAIR_AUTH_BAD = ''AUTH wrong (key or nonce)''"
| "refusal_why PAIR_REPLAY = ''COUNTER not increasing''"
| "refusal_why PAIR_BAD_KEY = ''KEY must be 32 bytes''"
| "refusal_why _ = []"

definition ctl_refuse :: "ctl_env \<Rightarrow> bwp_msg_t \<Rightarrow> bytes \<Rightarrow> pair_verdict_t \<Rightarrow> ctl \<Rightarrow> ctl option" where
  "ctl_refuse e m dst v c =
     (let w = answer_begin e m dst c;
          w = bwp_put_u8 BWP_T_RESULT (bwp_result_u8 (pairing_result v)) w;
          w = bwp_put_str BWP_T_MESSAGE (refusal_why v) w;
          w = bwp_put BWP_T_NONCE (take BWP_NONCE_LEN (p_nonce (s_pair c))) w;
          w = (if v = PAIR_REPLAY then bwp_put_u32 BWP_T_COUNTER (last_counter (s_pair c)) w else w)
      in ctl_send (bwp_finish w) c)"

subsection \<open>Requests\<close>

definition handle_pair :: "ctl_env \<Rightarrow> bwp_msg_t \<Rightarrow> bytes \<Rightarrow> bytes \<Rightarrow> ctl \<Rightarrow> ctl option" where
  "handle_pair e m dst new_key c =
     (let secret = e_random e;
          pub = bwp_x25519_public (x25519_public (e_io e)) secret;
          (c1, r, msg, key) =
            (case bwp_pair_key (x25519_shared (e_io e)) (blake2b_keyed (e_io e)) secret new_key new_key pub of
               None \<Rightarrow> (c, BWP_E_BAD_REQUEST, Some ''bad public key'', replicate 32 0)
             | Some key \<Rightarrow>
                 (case pairkey_store (e_nvs e) key pub (c_nvs c) of
                    (k, ok) \<Rightarrow> (c\<lparr>c_nvs := k\<rparr>, if ok then BWP_OK else BWP_E_STORAGE, None, key)));
          w = bwp_put_u8 BWP_T_RESULT (bwp_result_u8 r) (answer_begin e m dst c1);
          w = (if r = BWP_OK then bwp_put BWP_T_PUBKEY pub w
               else case msg of Some s \<Rightarrow> bwp_put_str BWP_T_MESSAGE s w | None \<Rightarrow> w)
      in do { c2 \<leftarrow> ctl_send (bwp_finish w) c1;
              Some (if r = BWP_OK
                    then c2\<lparr>s_pair := pairing_set_key key (s_pair c2), s_pub := pub, s_paired := True\<rparr> else c2) })"

definition handle_set_wifi :: "ctl_env \<Rightarrow> bytes \<Rightarrow> bwp_msg_t \<Rightarrow> bytes \<Rightarrow> ctl \<Rightarrow> ctl option" where
  "handle_set_wifi e buf m dst c =
     (case bwp_parse_set_wifi (blake2b_keyed (e_io e)) (chacha_xor (e_io e)) buf m
             (if paired (s_pair c) then Some (p_key (s_pair c)) else None) of
        (r, sw) \<Rightarrow>
          if r = BWP_OK \<and> ota_active (c_ota c) then ctl_reply e m dst BWP_E_BUSY (Some ''OTA in progress'') c
          else if r = BWP_OK then
            (case bridge_set_wifi (e_nvs e) (sw_ssid sw) (sw_passphrase sw) c of
               (c1, ok) \<Rightarrow> ctl_reply e m dst (if ok then BWP_OK else BWP_E_STORAGE) None c1)
          else ctl_reply e m dst r
            (Some ''SSID 1-32 bytes; passphrase sealed (ENC_PASSPHRASE), empty, 8-63 printable ASCII or 64 hex'') c)"

definition handle_ota_begin :: "ctl_env \<Rightarrow> bytes \<Rightarrow> bwp_msg_t \<Rightarrow> bytes \<Rightarrow> ctl \<Rightarrow> ctl option" where
  "handle_ota_begin e buf m dst c =
     (let sig = snd (bwp_find buf (m_body m) (unat (m_body_len m)) BWP_T_SIGNATURE);
          sig_bytes = (case sig of Some (v, n) \<Rightarrow> Some (take (unat n) (drop v buf)) | None \<Rightarrow> None);
          sig_len = (case sig of Some (v, n) \<Rightarrow> unat n | None \<Rightarrow> 0)
      in case msg_u32 buf m BWP_T_IMAGE_SIZE of
           None \<Rightarrow> ctl_reply e m dst BWP_E_BAD_REQUEST None c
         | Some sz \<Rightarrow>
             (case ota_begin (e_sha512 e) (e_ed25519 e) (e_keys e) (e_part e) (e_begin_ok e) (e_begin_left e) (e_now e) sz
                     sig_bytes sig_len (c_ota c) of
                (ota, r, msg) \<Rightarrow> ctl_reply e m dst r msg (c\<lparr>c_ota := ota\<rparr>)))"

definition handle_ota_data :: "ctl_env \<Rightarrow> bytes \<Rightarrow> bwp_msg_t \<Rightarrow> bytes \<Rightarrow> ctl \<Rightarrow> ctl option" where
  "handle_ota_data e buf m dst c =
     do { (ota, r, nxt, msg) \<leftarrow>
            (case (msg_u32 buf m BWP_T_OFFSET, bwp_find buf (m_body m) (unat (m_body_len m)) BWP_T_DATA) of
               (Some off, (True, Some (v, n))) \<Rightarrow>
                 ota_data (e_project e) (e_write_ok e) (e_now e) off (take (unat n) (drop v buf)) (c_ota c)
             | _ \<Rightarrow> Some (c_ota c, BWP_E_BAD_REQUEST, 0, None));
          let c1 = c\<lparr>c_ota := ota\<rparr>;
          let w = bwp_put_u8 BWP_T_RESULT (bwp_result_u8 r) (answer_begin e m dst c1);
          let w = bwp_put_u32 BWP_T_OFFSET nxt w;
          let w = (case msg of Some s \<Rightarrow> bwp_put_str BWP_T_MESSAGE s w | None \<Rightarrow> w);
          ctl_send (bwp_finish w) c1 }"

definition dispatch :: "ctl_env \<Rightarrow> bytes \<Rightarrow> bwp_msg_t \<Rightarrow> bytes \<Rightarrow> nat option \<Rightarrow> ctl \<Rightarrow> ctl option" where
  "dispatch e buf m dst new_key c =
     (if m_type m = BWP_PAIR then handle_pair e m dst (case new_key of Some k \<Rightarrow> take 32 (drop k buf) | None \<Rightarrow> []) c
      else if m_type m = BWP_STATUS then send_status e dst (m_seq m) c
      else if m_type m = BWP_SCAN then
        ctl_send (bwp_build_scan_result (s_out c) BWP_MAX_FRAME dst (e_mac e) (m_seq m) (bwp_result_u8 (fst (e_scan e)))
          (snd (e_scan e)) (length (snd (e_scan e)))) c
      else if m_type m = BWP_SET_WIFI then handle_set_wifi e buf m dst c
      else if m_type m = BWP_CLEAR_WIFI then
        (case bridge_clear_wifi (e_nvs e) c of
           (c1, ok) \<Rightarrow> ctl_reply e m dst (if ok then BWP_OK else BWP_E_STORAGE) None c1)
      else if m_type m = BWP_OTA_BEGIN then handle_ota_begin e buf m dst c
      else if m_type m = BWP_OTA_DATA then handle_ota_data e buf m dst c
      else if m_type m = BWP_OTA_END then
        do { (ota, r, msg) \<leftarrow> ota_end (e_end e) (e_boot_ok e) (c_ota c); ctl_reply e m dst r msg (c\<lparr>c_ota := ota\<rparr>) }
      else if m_type m = BWP_OTA_ABORT then ctl_reply e m dst BWP_OK None (c\<lparr>c_ota := ota_abort (c_ota c)\<rparr>)
      else if m_type m = BWP_REBOOT then
        do { c1 \<leftarrow> ctl_reply e m dst BWP_OK None c; Some (c1\<lparr>c_reboots := c_reboots c1 + 1\<rparr>) }
      else if m_type m = BWP_FACTORY_RESET then
        (let (k1, ok1) = creds_clear (e_nvs e) (c_nvs c);
             (k2, ok2) = (if ok1 then pairkey_clear (e_nvs2 e) k1 else (k1, False))
         in do { c1 \<leftarrow> ctl_reply e m dst (if ok1 \<and> ok2 then BWP_OK else BWP_E_STORAGE) None (c\<lparr>c_nvs := k2\<rparr>);
                 Some (c1\<lparr>c_reboots := c_reboots c1 + 1\<rparr>) })
      else ctl_reply e m dst BWP_E_UNSUPPORTED None c)"

definition handle :: "ctl_env \<Rightarrow> bytes \<Rightarrow> nat \<Rightarrow> ctl \<Rightarrow> ctl option" where
  "handle e buf len c =
     (case bwp_parse buf len no_msg of
        (pr, m) \<Rightarrow>
          if pr \<noteq> BWP_PARSE_OK then Some c
          else if m_type m AND BWP_RESPONSE \<noteq> 0 then Some c
          else
            let dst = take 6 (drop (m_src m) buf) in
            do { (p, v, authed, counter, new_key) \<leftarrow> pairing_check (s_pair c) buf m;
                 let c1 = c\<lparr>s_pair := p, s_counter := counter\<rparr>;
                 if v \<noteq> PAIR_ACCEPT \<and> v \<noteq> PAIR_STORE_KEY then ctl_refuse e m dst v c1
                 else dispatch e buf m dst new_key (c1\<lparr>s_sign := authed, c_confirmed := True\<rparr>) })"

text \<open>
  A frame from the cable in the receive task: the learning, what it tells the Wi-Fi task, and the action; only
  after \<open>L2_CONTROL\<close> does the frame go to the control task, which drops it when its queue is full.
\<close>

definition eth_input :: "bool \<Rightarrow> bytes \<Rightarrow> ctl \<Rightarrow> ctl \<times> l2_action_t" where
  "eth_input wifi_up f c =
     (case l2fwd_from_eth (c_fwd c) f (length f) wifi_up of
        (ev, fwd, a) \<Rightarrow>
          (c\<lparr>c_fwd := fwd, c_pod_backs := c_pod_backs c + (if relearn (c_fwd c) \<and> \<not> relearn fwd then 1 else 0),
             c_pod_changes := c_pod_changes c + (if ev \<noteq> L2_EV_NONE then 1 else 0)\<rparr>, a))"

datatype ctl_ev =
    C_eth bool bytes
  | C_link_down
  | C_frame ctl_env bytes
  | C_forget nvs_ans
  | C_notify ctl_env bool
  | C_hello ctl_env cstr cstr u8 u8
  | C_ota_poll int

fun ctl_step :: "ctl_ev \<Rightarrow> ctl \<Rightarrow> ctl option" where
  "ctl_step (C_eth up f) c = Some (fst (eth_input up f c))"
| "ctl_step C_link_down c = Some (c\<lparr>c_fwd := l2fwd_link_down (c_fwd c)\<rparr>)"
| "ctl_step (C_frame e buf) c = do { c1 \<leftarrow> handle e buf (length buf) c; Some (c1\<lparr>s_sign := False\<rparr>) }"
| "ctl_step (C_forget a) c = Some (forget_pairing a c)"
| "ctl_step (C_notify e up) c =
     (if up then send_status e (if pod_known (c_fwd c) then pod_mac (c_fwd c) else BCAST) 0 c else Some c)"
| "ctl_step (C_hello e fw hw st flags) c = send_hello e fw hw st flags c"
| "ctl_step (C_ota_poll now) c = Some (c\<lparr>c_ota := ota_poll now (c_ota c)\<rparr>)"

fun ctl_run :: "ctl \<Rightarrow> ctl_ev list \<Rightarrow> ctl option" where
  "ctl_run c [] = Some c"
| "ctl_run c (ev # evs) = do { c1 \<leftarrow> ctl_step ev c; ctl_run c1 evs }"

subsection \<open>Only the holder of the key is obeyed\<close>

definition unproven :: "bwp_pairing_t \<Rightarrow> bytes \<Rightarrow> bool" where
  "unproven p f \<longleftrightarrow> (\<forall>m ctr. bwp_parse f (length f) no_msg = (BWP_PARSE_OK, m) \<longrightarrow>
     bwp_verify f m (p_key p) (p_nonce p) = Some (BWP_VERIFY_OK, Some ctr) \<longrightarrow> ctr \<le> last_counter p)"

definition ctl_same :: "ctl \<Rightarrow> ctl \<Rightarrow> bool" where
  "ctl_same c c' \<longleftrightarrow> s_pair c' = s_pair c \<and> s_paired c' = s_paired c \<and> s_pub c' = s_pub c \<and> c_nvs c' = c_nvs c \<and>
     c_ota c' = c_ota c \<and> c_confirmed c' = c_confirmed c \<and>
     c_wifi_changes c' = c_wifi_changes c \<and> c_reboots c' = c_reboots c"

text \<open>
  What frames from the cable may do to the forwarding: nothing once the pod is known, unless the link went down or the
  pairing was forgotten since; otherwise the first control frame names the pod, and the Wi-Fi task hears of it once.
\<close>

definition pod_settled :: "ctl \<Rightarrow> bool" where
  "pod_settled c \<longleftrightarrow> pod_known (c_fwd c) \<and> \<not> relearn (c_fwd c)"

definition learns_once :: "ctl \<Rightarrow> ctl \<Rightarrow> bool" where
  "learns_once c c' \<longleftrightarrow>
     (if pod_settled c \<or> \<not> pod_settled c'
      then pod_settled c' = pod_settled c \<and> pod_mac (c_fwd c') = pod_mac (c_fwd c) \<and>
        c_pod_changes c' = c_pod_changes c \<and> c_pod_backs c' = c_pod_backs c
      else c_pod_changes c' \<le> c_pod_changes c + 1 \<and> c_pod_backs c' \<le> c_pod_backs c + 1)"

lemma learns_once_refl: "c_fwd c' = c_fwd c \<Longrightarrow> c_pod_changes c' = c_pod_changes c \<Longrightarrow> c_pod_backs c' = c_pod_backs c \<Longrightarrow> learns_once c c'"
  by (simp add: learns_once_def pod_settled_def)

lemma learns_once_trans: "learns_once a b \<Longrightarrow> learns_once b c \<Longrightarrow> learns_once a c"
  by (auto simp: learns_once_def split: if_splits)

lemma from_eth_learns:
  assumes "l2fwd_from_eth s f n up = (ev, s', a)"
  shows "(if pod_known s \<and> \<not> relearn s then pod_known s' \<and> \<not> relearn s' \<and> pod_mac s' = pod_mac s \<and> ev = L2_EV_NONE
    else (pod_known s' \<and> \<not> relearn s') \<or>
      (pod_known s' = pod_known s \<and> relearn s' = relearn s \<and> pod_mac s' = pod_mac s \<and> ev = L2_EV_NONE))"
  using assms by (auto simp: l2fwd_from_eth_def drop_why_def learn_def Let_def split: if_splits)

lemma eth_input_learns:
  "ctl_same c (fst (eth_input up f c)) \<and> learns_once c (fst (eth_input up f c)) \<and>
   s_sign (fst (eth_input up f c)) = s_sign c \<and> c_out (fst (eth_input up f c)) = c_out c"
proof -
  obtain ev s a where r: "l2fwd_from_eth (c_fwd c) f (length f) up = (ev, s, a)" by (rule prod_cases3)
  show ?thesis using from_eth_learns [OF r]
    by (auto simp: eth_input_def r ctl_same_def learns_once_def pod_settled_def split: if_splits)
qed

lemma ctl_send_plain:
  "\<not> s_sign c \<Longrightarrow> ctl_send (buf, n) c =
    Some (c\<lparr>s_out := buf, c_out := (if n \<noteq> 0 then c_out c @ [take n buf] else c_out c)\<rparr>)"
  by (simp add: ctl_send_def)

lemma verify_ok_counter: "bwp_verify f m key nonce = Some (BWP_VERIFY_OK, c) \<Longrightarrow> \<exists>x. c = Some x"
  by (auto simp: bwp_verify_def bind_eq_Some_conv split: prod.splits option.splits if_splits)
    metis

lemma unproven_refused:
  assumes "paired p" "unproven p f" "bwp_parse f (length f) no_msg = (BWP_PARSE_OK, m)"
  shows "\<exists>v a ctr k. pairing_check p f m = Some (p, v, a, ctr, k) \<and> v \<noteq> PAIR_ACCEPT \<and> v \<noteq> PAIR_STORE_KEY"
proof -
  obtain v c where v: "bwp_verify f m (p_key p) (p_nonce p) = Some (v, c)" using verify_total by blast
  show ?thesis
  proof (cases v)
    case BWP_VERIFY_OK
    then obtain x where "c = Some x" using v verify_ok_counter by blast
    then show ?thesis using assms v BWP_VERIFY_OK by (auto simp: pairing_check_def unproven_def)
  qed (use assms v in \<open>auto simp: pairing_check_def\<close>)
qed

lemma handle_unproven:
  assumes "paired (s_pair c)" "unproven (s_pair c) f" "\<not> s_sign c"
  shows "\<exists>c'. handle e f (length f) c = Some c' \<and> ctl_same c c' \<and> learns_once c c' \<and> \<not> s_sign c' \<and> length (c_out c') \<le> length (c_out c) + 1"
proof -
  obtain pr m where pm: "bwp_parse f (length f) no_msg = (pr, m)" by (cases "bwp_parse f (length f) no_msg")
  show ?thesis
  proof (cases "pr = BWP_PARSE_OK \<and> m_type m AND BWP_RESPONSE = 0")
    case True
    then have pm: "bwp_parse f (length f) no_msg = (BWP_PARSE_OK, m)" using pm by simp
    obtain v a ctr k where r: "pairing_check (s_pair c) f m = Some (s_pair c, v, a, ctr, k)" "v \<noteq> PAIR_ACCEPT"
        "v \<noteq> PAIR_STORE_KEY" using unproven_refused [OF assms(1,2) pm] by blast
    have "handle e f (length f) c = ctl_refuse e m (take 6 (drop (m_src m) f)) v (c\<lparr>s_counter := ctr\<rparr>)"
      unfolding handle_def pm using True r by simp
    moreover have "\<exists>c'. ctl_refuse e m dst v (c\<lparr>s_counter := ctr\<rparr>) = Some c' \<and> ctl_same c c' \<and> learns_once c c' \<and> \<not> s_sign c' \<and>
        length (c_out c') \<le> length (c_out c) + 1" for dst
    proof -
      obtain buf n w where "bwp_finish w = (buf, n)" and
          "ctl_refuse e m dst v (c\<lparr>s_counter := ctr\<rparr>) = ctl_send (bwp_finish w) (c\<lparr>s_counter := ctr\<rparr>)"
        unfolding ctl_refuse_def Let_def by (metis surj_pair)
      then show ?thesis using assms(3) by (simp add: ctl_send_plain ctl_same_def learns_once_refl)
    qed
    ultimately show ?thesis by simp
  next
    case False
    then have "handle e f (length f) c = Some c" unfolding handle_def pm by auto
    then show ?thesis using assms(3) by (simp add: ctl_same_def learns_once_refl)
  qed
qed

text \<open>
  What an attacker on the cable can cause: frames in the receive task, and frames that reach the control task but are no
  message authentic under the pairing key and this boot's nonce with a counter above the last one accepted.
\<close>

fun from_stranger :: "bwp_pairing_t \<Rightarrow> ctl_ev \<Rightarrow> bool" where
  "from_stranger p (C_eth up f) \<longleftrightarrow> True"
| "from_stranger p (C_frame e f) \<longleftrightarrow> unproven p f"
| "from_stranger p _ \<longleftrightarrow> False"

fun is_request :: "ctl_ev \<Rightarrow> bool" where
  "is_request (C_frame e f) = True"
| "is_request _ = False"

lemma stranger_step:
  assumes "paired (s_pair c)" and "\<not> s_sign c" and "from_stranger (s_pair c) ev"
  shows "\<exists>c'. ctl_step ev c = Some c' \<and> ctl_same c c' \<and> learns_once c c' \<and> \<not> s_sign c' \<and>
    length (c_out c') \<le> length (c_out c) + (if is_request ev then 1 else 0)"
proof (cases ev)
  case (C_eth up f)
  then show ?thesis using eth_input_learns [of c up f] assms(2) by simp
next
  case (C_frame e f)
  then have "unproven (s_pair c) f" using assms(3) by simp
  then obtain c1 where h: "handle e f (length f) c = Some c1" "ctl_same c c1" "learns_once c c1"
      "length (c_out c1) \<le> length (c_out c) + 1" using handle_unproven [OF assms(1) _ assms(2)] by blast
  have "ctl_same c (c1\<lparr>s_sign := False\<rparr>)" using h(2) by (simp add: ctl_same_def)
  moreover have "learns_once c (c1\<lparr>s_sign := False\<rparr>)" by (rule learns_once_trans [OF h(3)]) (simp add: learns_once_refl)
  ultimately show ?thesis using C_frame h(1,4) by simp
qed (use assms(3) in simp_all)

text \<open>
  C9. A paired bridge obeys only the holder of the key: whatever frames arrive on the cable, in any number, and however
  the receive task and the control task take turns, if none of those the control task takes is authentic under the
  pairing key and this boot's nonce with a counter above the last one accepted, then the pairing, the stored key and
  Wi-Fi credentials, the firmware transfer, the boot image and the confirmation of a new image stay as they are, no
  settings are applied and nothing is rebooted, and the bridge sends at most one frame for each it took. One thing an
  unauthenticated frame does change: the bridge's idea of which MAC is the pod's, but only before it knows the pod
  in this boot or after a link-down, and then once.
\<close>

theorem bridge_obeys_only_key:
  assumes "paired (s_pair c)" and "\<not> s_sign c" and "\<forall>ev \<in> set evs. from_stranger (s_pair c) ev"
  shows "\<exists>c'. ctl_run c evs = Some c' \<and> ctl_same c c' \<and> learns_once c c' \<and>
    length (c_out c') \<le> length (c_out c) + length (filter is_request evs)"
  using assms
proof (induction evs arbitrary: c)
  case (Cons ev evs)
  obtain c1 where c1: "ctl_step ev c = Some c1" "ctl_same c c1" "learns_once c c1" "\<not> s_sign c1"
      "length (c_out c1) \<le> length (c_out c) + (if is_request ev then 1 else 0)"
    using stranger_step [OF Cons.prems(1,2)] Cons.prems(3) by auto
  have p: "s_pair c1 = s_pair c" using c1(2) by (simp add: ctl_same_def)
  obtain c' where c': "ctl_run c1 evs = Some c'" "ctl_same c1 c'" "learns_once c1 c'"
      "length (c_out c') \<le> length (c_out c1) + length (filter is_request evs)"
    using Cons.IH [of c1] Cons.prems c1(4) p by auto
  have "ctl_same c c'" using c1(2) c'(2) by (simp add: ctl_same_def)
  then show ?case using c1(1,5) c'(1,4) learns_once_trans [OF c1(3) c'(3)] by auto
qed (simp add: ctl_same_def learns_once_refl)

definition demo_env :: ctl_env where
  "demo_env = \<lparr>e_io = demo_io, e_mac = demo_mac, e_random = replicate 32 5,
     e_nvs = \<lparr>n_open = True, n_first = True, n_second = True, n_commit = True\<rparr>,
     e_nvs2 = \<lparr>n_open = True, n_first = True, n_second = True, n_commit = True\<rparr>,
     e_status = \<lparr>st_state = 0, st_flags = 0, st_ssid = [], st_channel = 0, st_rssi = 0, st_bssid = replicate 6 0,
       st_reason = 0, st_uptime_s = 0, st_pod_mac = demo_mac, st_counters = no_counters\<rparr>,
     e_scan = (BWP_OK, []), e_sha512 = (\<lambda>k. k), e_ed25519 = (\<lambda>s k m. True), e_keys = [demo_mac @ [0, 0]],
     e_project = [], e_part = Some 1000, e_begin_ok = True, e_begin_left = [], e_write_ok = True, e_end = End_ok, e_boot_ok = True, e_now = 5\<rparr>"

definition demo_nvs :: nvs_t where
  "demo_nvs = \<lparr>k_ssid = None, k_pass = None, k_key = Some (replicate 32 0), k_pub = Some (replicate 32 1)\<rparr>"

definition demo_bridge :: ctl where
  "demo_bridge = control_start (replicate 8 0) demo_nvs demo_mac (replicate 1514 0)"

lemma demo_bridge_facts:
  "paired (s_pair demo_bridge)" "\<not> s_sign demo_bridge" "length (s_out demo_bridge) = 1514"
  "p_key (s_pair demo_bridge) = replicate 32 0" "p_nonce (s_pair demo_bridge) = replicate 8 0"
  "last_counter (s_pair demo_bridge) = 0" "\<not> ota_active (c_ota demo_bridge)" "c_nvs demo_bridge = demo_nvs"
  by (simp_all add: demo_bridge_def control_start_def pairkey_load_def demo_nvs_def BWP_KEY_LEN_def pairing_init_def
      pairing_set_key_def Let_def BWP_NONCE_LEN_def ota_active_def ota_boot_def no_seq_def)

theorem bridge_obeys_only_key_witness:
  "\<exists>c'. ctl_run demo_bridge [C_eth True (hdr demo_mac (replicate 6 4) BWP_REBOOT 1 0),
      C_frame demo_env (hdr demo_mac (replicate 6 4) BWP_REBOOT 1 0)] = Some c' \<and>
     ctl_same demo_bridge c' \<and> c_reboots c' = 0 \<and> c_pod_changes c' \<le> 1"
proof -
  let ?m = "replicate 6 4 :: bytes"
  let ?f = "hdr demo_mac ?m BWP_REBOOT 1 0"
  have "unproven (s_pair demo_bridge) ?f"
    unfolding unproven_def
  proof (intro allI impI)
    fix m ctr
    assume p: "bwp_parse ?f (length ?f) no_msg = (BWP_PARSE_OK, m)"
      and v: "bwp_verify ?f m (p_key (s_pair demo_bridge)) (p_nonce (s_pair demo_bridge)) = Some (BWP_VERIFY_OK, Some ctr)"
    have "m_body_len m = 0"
      using p plain_carries(2) [of demo_mac ?m "[]" BWP_REBOOT 1 "[]" no_msg] by (simp add: demo_mac_def plain_msg_def)
    then have "bwp_verify ?f m key nonce = Some (BWP_VERIFY_MISSING, None)" for key nonce
      by (simp add: bwp_verify_def bwp_iter_init_def auth_loop.simps [of _ _ None False] iter_next_end)
    then show "ctr \<le> last_counter (s_pair demo_bridge)" using v by simp
  qed
  then have e: "\<forall>ev \<in> set [C_eth True ?f, C_frame demo_env ?f]. from_stranger (s_pair demo_bridge) ev" by simp
  obtain c' where "ctl_run demo_bridge [C_eth True ?f, C_frame demo_env ?f] = Some c'" "ctl_same demo_bridge c'"
      "learns_once demo_bridge c'"
    using bridge_obeys_only_key [OF demo_bridge_facts(1,2) e] by blast
  moreover have "c_reboots demo_bridge = 0" "c_pod_changes demo_bridge = 0"
    by (simp_all add: demo_bridge_def control_start_def Let_def)
  ultimately show ?thesis by (auto simp: ctl_same_def learns_once_def split: if_splits)
qed

end
