(* ===== verification/BridgeLink.thy ===== *)
theory BridgeLink
  imports BridgeCtl
begin

text \<open>
  The two ends of the bridge link composed: what the pod's client (\<^verbatim>\<open>WbClient\<close>) puts on the wire is
  handled by the bridge's control task (\<^verbatim>\<open>BridgeCtl\<close>), and its answer goes back to the client. The wire
  pads a short frame with zeros to 60 bytes, as the pod's glue and the Ethernet hardware do.
\<close>

definition wire :: "bytes \<Rightarrow> bytes" where
  "wire f = f @ replicate (60 - length f) 0"

text \<open>One round: the pod's latest frame is handled by the bridge, the bridge's answer by the pod.\<close>

definition link_round :: "wb_io \<Rightarrow> ctl_env \<Rightarrow> u32 \<Rightarrow> wb_t \<times> ctl \<Rightarrow> (wb_t \<times> ctl) option" where
  "link_round io e now bc =
     do { c1 \<leftarrow> ctl_step (C_frame e (wire (last (wb_out (fst bc))))) (snd bc);
          b1 \<leftarrow> (if length (c_out c1) = length (c_out (snd bc)) then Some (fst bc)
                 else wb_rx io (fst bc) (last (c_out c1)) (length (last (c_out c1))) now);
          Some (b1, c1) }"

fun link_rounds :: "wb_io \<Rightarrow> ctl_env \<Rightarrow> u32 list \<Rightarrow> wb_t \<times> ctl \<Rightarrow> (wb_t \<times> ctl) option" where
  "link_rounds io e [] bc = Some bc"
| "link_rounds io e (now # ts) bc = do { bc1 \<leftarrow> link_round io e now bc; link_rounds io e ts bc1 }"

subsection \<open>What the bridge sends\<close>

lemma wf_puts: "wf_writer buf cap w \<Longrightarrow> cap \<le> length buf \<Longrightarrow> wf_writer buf cap (bwp_puts ts w)"
  unfolding bwp_puts_def by (induction ts arbitrary: w) (auto intro: wf_put)

lemma message_out:
  assumes l: "length dst = 6" "length src = 6" "length buf = 1514" and fits: "22 + length (tlvs_enc ts) \<le> 1514"
  shows "\<exists>rest. bwp_finish (bwp_puts ts (bwp_begin buf BWP_MAX_FRAME dst src ty seq)) =
      (hdr dst src ty seq (length (tlvs_enc ts)) @ tlvs_enc ts @ rest, max 60 (22 + length (tlvs_enc ts))) \<and>
    length (tlvs_enc ts) + length rest = 1492"
proof -
  let ?w0 = "bwp_begin buf BWP_MAX_FRAME dst src ty seq"
  have cap: "BWP_MAX_FRAME \<le> length buf" "22 \<le> BWP_MAX_FRAME" using l by (simp_all add: BWP_MAX_FRAME_def)
  note w0 = begin_built [OF l(1,2) cap, of ty seq]
  have w1: "built (bwp_puts ts ?w0) (hdr dst src ty seq 0 @ tlvs_enc ts)"
    using puts_built(1) [OF w0(1), of ts] fits w0(2) l by (simp add: BWP_MAX_FRAME_def)
  have mc: "BWP_MIN_FRAME \<le> w_cap (bwp_puts ts ?w0)" using w0(2) by (simp add: bwp_consts)
  obtain rest where f: "bwp_finish (bwp_puts ts ?w0) = (hdr dst src ty seq (length (tlvs_enc ts)) @ tlvs_enc ts @ rest,
      max 60 (22 + length (tlvs_enc ts)))"
    using finish_built [OF w1 l(1,2) mc] unfolding BWP_MIN_FRAME_def by blast
  have wf: "wf_writer buf BWP_MAX_FRAME (bwp_puts ts ?w0)"
    by (rule wf_puts [OF wf_begin [OF cap(1) l(1,2)] cap(1)])
  have "length (hdr dst src ty seq (length (tlvs_enc ts)) @ tlvs_enc ts @ rest) = length buf"
    using wf_finish [OF wf cap(1) f] by blast
  then show ?thesis using f l by auto
qed

lemma get_be16_len: "length dst = 6 \<Longrightarrow> length src = 6 \<Longrightarrow> get_be16 (hdr dst src ty seq n @ x) 20 = of_nat n"
  using get_put_be16 [of "take 6 dst @ take 6 src @ put_be16 BWP_ETHERTYPE @
        [BWP_MAGIC0, BWP_MAGIC1, BWP_VERSION, ty] @ put_be16 seq" "of_nat n" x] by (simp add: hdr_def)

lemma signed_out:
  assumes l: "length dst = 6" "length src = 6" and fits: "48 + length (tlvs_enc ts) \<le> 1514"
    and r: "length (tlvs_enc ts) + length rest = 1492"
  shows "\<exists>rest'. bwp_sign_frame (hdr dst src ty seq (length (tlvs_enc ts)) @ tlvs_enc ts @ rest) BWP_MAX_FRAME key nonce c =
      Some (hdr dst src ty seq (length (tlvs_enc ts) + 26) @ tlvs_enc (signed_tlvs key nonce c (hdr dst src ty seq) ts) @ rest',
        max 60 (48 + length (tlvs_enc ts))) \<and> length (tlvs_enc ts) + 26 + length rest' = 1492"
proof -
  let ?x = "tlvs_enc ts" and ?buf = "hdr dst src ty seq (length (tlvs_enc ts)) @ tlvs_enc ts @ rest"
  let ?w = "\<lparr>w_buf = ?buf, w_cap = BWP_MAX_FRAME, w_len = 22 + length ?x, w_nest_at = 0, w_overflow = False\<rparr>"
  have u: "unat (get_be16 ?buf 20) = length ?x"
    using get_be16_len [OF l] fits by (simp add: unat_len16)
  have lb: "length ?buf = 1514" using l r by simp
  have w: "built ?w (hdr dst src ty seq (length ?x) @ ?x)"
    using l fits lb by (simp add: built_def BWP_MAX_FRAME_def)
  obtain w' where s: "bwp_sign key nonce c ?w = Some w'" "w_cap w' = BWP_MAX_FRAME"
      "built w' (hdr dst src ty seq (length ?x + 26) @ tlvs_enc (signed_tlvs key nonce c (hdr dst src ty seq) ts))"
    using sign_built(1) [OF w l, of key nonce c] fits by (auto simp: BWP_MAX_FRAME_def)
  have mc: "BWP_MIN_FRAME \<le> w_cap w'" using s(2) by (simp add: bwp_consts)
  obtain rest' where f: "bwp_finish w' = (hdr dst src ty seq (length ?x + 26) @
      tlvs_enc (signed_tlvs key nonce c (hdr dst src ty seq) ts) @ rest', max 60 (48 + length ?x))"
    using finish_built [OF s(3) l mc] unfolding length_signed BWP_MIN_FRAME_def by auto
  have wf: "wf_writer ?buf BWP_MAX_FRAME ?w" using lb fits by (simp add: wf_writer_def BWP_MAX_FRAME_def)
  have cb: "BWP_MAX_FRAME \<le> length ?buf" using lb by (simp add: BWP_MAX_FRAME_def)
  have wf': "wf_writer ?buf BWP_MAX_FRAME w'" using wf_sign [OF wf cb, of key nonce c] s(1) by auto
  have "length (fst (bwp_finish w')) = length ?buf"
    using wf_finish [OF wf' cb f] f by simp
  then have "length ?x + 26 + length rest' = 1492" using f l lb by (simp add: length_signed)
  moreover have "bwp_sign_frame ?buf BWP_MAX_FRAME key nonce c = Some (bwp_finish w')"
    using s(1) u fits by (simp add: bwp_sign_frame_def Let_def BWP_ETH_HDR_LEN_def BWP_HDR_LEN_def) (simp add: BWP_MAX_FRAME_def)
  ultimately show ?thesis using f by auto
qed

text \<open>The frame \<open>ctl_send\<close> puts on the cable for a message of fields: signed when the request was.\<close>

definition answer_tlvs :: "ctl \<Rightarrow> (nat \<Rightarrow> bytes) \<Rightarrow> tlv list \<Rightarrow> tlv list" where
  "answer_tlvs c h ts =
     (if s_sign c then signed_tlvs (p_key (s_pair c)) (p_nonce (s_pair c)) (s_counter c) h ts else ts)"

lemma take_to: "n \<ge> length a \<Longrightarrow> take n (a @ b) = a @ take (n - length a) b"
  by simp

lemma ctl_send_message:
  assumes l: "length dst = 6" "length src = 6" "length (s_out c) = 1514" and fits: "48 + length (tlvs_enc ts) \<le> 1514"
  shows "\<exists>buf rest. ctl_send (bwp_finish (bwp_puts ts (bwp_begin (s_out c) BWP_MAX_FRAME dst src ty seq))) c =
      Some (c\<lparr>s_out := buf, c_out := c_out c @ [hdr dst src ty seq (length (tlvs_enc (answer_tlvs c (hdr dst src ty seq) ts))) @
        tlvs_enc (answer_tlvs c (hdr dst src ty seq) ts) @ rest]\<rparr>) \<and> length buf = 1514"
proof -
  have f22: "22 + length (tlvs_enc ts) \<le> 1514" using fits by simp
  obtain rest where m: "bwp_finish (bwp_puts ts (bwp_begin (s_out c) BWP_MAX_FRAME dst src ty seq)) =
      (hdr dst src ty seq (length (tlvs_enc ts)) @ tlvs_enc ts @ rest, max 60 (22 + length (tlvs_enc ts)))"
      "length (tlvs_enc ts) + length rest = 1492"
    using message_out [OF l f22] by blast
  show ?thesis
  proof (cases "s_sign c")
    case False
    let ?b = "hdr dst src ty seq (length (tlvs_enc ts)) @ tlvs_enc ts"
    have n: "max 60 (22 + length (tlvs_enc ts)) \<ge> length ?b" using l by simp
    have "ctl_send (?b @ rest, max 60 (22 + length (tlvs_enc ts))) c =
        Some (c\<lparr>s_out := ?b @ rest, c_out := c_out c @ [take (max 60 (22 + length (tlvs_enc ts))) (?b @ rest)]\<rparr>)"
      using False by (simp add: ctl_send_plain)
    then show ?thesis using m False l unfolding take_to [OF n]
      by (intro exI [of _ "?b @ rest"] exI [of _ "take (max 60 (22 + length (tlvs_enc ts)) - length ?b) rest"])
        (simp add: answer_tlvs_def)
  next
    case True
    let ?ts = "signed_tlvs (p_key (s_pair c)) (p_nonce (s_pair c)) (s_counter c) (hdr dst src ty seq) ts"
    let ?b = "hdr dst src ty seq (length (tlvs_enc ts) + 26) @ tlvs_enc ?ts"
    obtain rest' where r: "bwp_sign_frame (hdr dst src ty seq (length (tlvs_enc ts)) @ tlvs_enc ts @ rest) BWP_MAX_FRAME
          (p_key (s_pair c)) (p_nonce (s_pair c)) (s_counter c) = Some (?b @ rest', max 60 (48 + length (tlvs_enc ts)))"
        "length (tlvs_enc ts) + 26 + length rest' = 1492"
      using signed_out [OF l(1,2) fits m(2), where key = "p_key (s_pair c)" and nonce = "p_nonce (s_pair c)"
          and c = "s_counter c" and ty = ty and seq = seq] by auto
    have n: "max 60 (48 + length (tlvs_enc ts)) \<ge> length ?b" using l by (simp add: length_signed)
    have "ctl_send (bwp_finish (bwp_puts ts (bwp_begin (s_out c) BWP_MAX_FRAME dst src ty seq))) c =
        Some (c\<lparr>s_out := ?b @ rest', c_out := c_out c @ [take (max 60 (48 + length (tlvs_enc ts))) (?b @ rest')]\<rparr>)"
      unfolding m(1) using True r(1) by (simp add: ctl_send_def)
    then show ?thesis using True l r(2) unfolding take_to [OF n]
      by (intro exI [of _ "?b @ rest'"] exI [of _ "take (max 60 (48 + length (tlvs_enc ts)) - length ?b) rest'"])
        (simp add: answer_tlvs_def length_signed)
  qed
qed

subsection \<open>The pod's request at the bridge\<close>

definition linked :: "ctl_env \<Rightarrow> wb_t \<Rightarrow> ctl \<Rightarrow> tlv list \<Rightarrow> bool" where
  "linked e b c ts \<longleftrightarrow> wb_wf b \<and> e_mac e = wb_mac b \<and> wb_seen b \<and> wb_have_nonce b \<and> req_state b = WB_REQ_PENDING \<and>
     req_signed b \<and> \<not> req_internal b \<and> req_seq b \<noteq> 0 \<and> req_body b = tlvs_enc ts \<and>
     unat (req_len b) = length (tlvs_enc ts) \<and> tlvs_ok ts \<and> 48 + length (tlvs_enc ts) \<le> 1514 \<and>
     BWP_T_COUNTER \<notin> fst ` set ts \<and> BWP_T_AUTH \<notin> fst ` set ts \<and>
     req_type b AND BWP_RESPONSE = 0 \<and> req_type b \<noteq> BWP_PAIR \<and>
     (req_type b OR BWP_RESPONSE) AND BWP_RESPONSE \<noteq> 0 \<and> req_type b OR BWP_RESPONSE \<noteq> BWP_HELLO \<and>
     paired (s_pair c) \<and> p_key (s_pair c) = wb_key b \<and> p_nonce (s_pair c) = wb_nonce b \<and>
     length (wb_nonce b) = BWP_NONCE_LEN \<and> \<not> s_sign c \<and> length (s_out c) = 1514"

definition request_tlvs :: "wb_t \<Rightarrow> tlv list \<Rightarrow> tlv list" where
  "request_tlvs b ts = signed_tlvs (wb_key b) (wb_nonce b) (wb_counter b + 1)
     (hdr (wb_mac b) (wb_pod_mac b) (req_type b) (req_seq b)) ts"

definition request_msg :: "wb_t \<Rightarrow> tlv list \<Rightarrow> bwp_msg_t" where
  "request_msg b ts = plain_msg (req_type b) (req_seq b) (length (tlvs_enc ts) + 26)"

lemma request_received:
  assumes "linked e b c ts"
  shows "bwp_parse (wire (wb_frame b)) (length (wire (wb_frame b))) no_msg = (BWP_PARSE_OK, request_msg b ts)"
    and "\<exists>pre post. carries (wire (wb_frame b)) (request_msg b ts) pre (request_tlvs b ts) post"
    and "take 6 (drop 6 (wire (wb_frame b))) = wb_pod_mac b"
    and "pairing_check (s_pair c) (wire (wb_frame b)) (request_msg b ts) =
      Some (if wb_counter b + 1 \<le> last_counter (s_pair c) then (s_pair c, PAIR_REPLAY, False, wb_counter b + 1, None)
            else (s_pair c\<lparr>last_counter := wb_counter b + 1\<rparr>, PAIR_ACCEPT, True, wb_counter b + 1, None))"
proof -
  have l: "length (wb_mac b) = 6" "length (wb_pod_mac b) = 6" and ok: "tlvs_ok (request_tlvs b ts)"
    using assms by (simp_all add: linked_def wb_wf_def request_tlvs_def signed_tlvs_ok)
  have n: "length (tlvs_enc (request_tlvs b ts)) = length (tlvs_enc ts) + 26" by (simp add: request_tlvs_def length_signed)
  have small: "length (tlvs_enc (request_tlvs b ts)) \<le> 0xFFFF" using assms n by (simp add: linked_def)
  obtain rest where f: "wire (wb_frame b) = hdr (wb_mac b) (wb_pod_mac b) (req_type b) (req_seq b) (length (tlvs_enc ts) + 26) @
      tlvs_enc (request_tlvs b ts) @ rest"
    using wb_frame_tlvs [of b ts] assms by (simp add: linked_def wire_def request_tlvs_def)
  show "bwp_parse (wire (wb_frame b)) (length (wire (wb_frame b))) no_msg = (BWP_PARSE_OK, request_msg b ts)"
    using plain_carries(2) [OF l ok small, of "req_type b" "req_seq b" rest no_msg] unfolding f n request_msg_def .
  show "\<exists>pre post. carries (wire (wb_frame b)) (request_msg b ts) pre (request_tlvs b ts) post"
    using plain_carries(1) [OF l ok small, of "req_type b" "req_seq b" rest] unfolding f n request_msg_def by blast
  show "take 6 (drop 6 (wire (wb_frame b))) = wb_pod_mac b" using l by (simp add: f hdr_def)
  have "bwp_verify (wire (wb_frame b)) (request_msg b ts) (wb_key b) (wb_nonce b) = Some (BWP_VERIFY_OK, Some (wb_counter b + 1))"
    unfolding f request_msg_def request_tlvs_def
    by (rule signed_verifies [OF l]) (use assms in \<open>simp_all add: linked_def\<close>)
  then show "pairing_check (s_pair c) (wire (wb_frame b)) (request_msg b ts) =
      Some (if wb_counter b + 1 \<le> last_counter (s_pair c) then (s_pair c, PAIR_REPLAY, False, wb_counter b + 1, None)
            else (s_pair c\<lparr>last_counter := wb_counter b + 1\<rparr>, PAIR_ACCEPT, True, wb_counter b + 1, None))"
    using assms by (simp add: linked_def pairing_check_def pair_key_def request_msg_def plain_msg_def Let_def)
qed

subsection \<open>The bridge's answer at the pod\<close>

lemma answer_received:
  assumes lk: "linked e b c0 ts0" and b1: "b1 = sent b tm" and ok: "tlvs_ok us" and small: "length (tlvs_enc us) \<le> 0xFFFF"
    and f: "f = hdr (wb_pod_mac b) (wb_mac b) (req_type b OR BWP_RESPONSE) (req_seq b) (length (tlvs_enc us)) @ tlvs_enc us @ rest"
  shows "wb_rx io b1 f (length f) now =
      on_reply io b1 (plain_msg (req_type b OR BWP_RESPONSE) (req_seq b) (length (tlvs_enc us))) f now"
    and "\<exists>pre. carries f (plain_msg (req_type b OR BWP_RESPONSE) (req_seq b) (length (tlvs_enc us))) pre us rest"
proof -
  have l: "length (wb_mac b) = 6" "length (wb_pod_mac b) = 6" using lk by (simp_all add: linked_def wb_wf_def)
  have s: "wb_seen b1 = wb_seen b" "wb_pod_mac b1 = wb_pod_mac b" "wb_mac b1 = wb_mac b" "req_type b1 = req_type b"
      "req_seq b1 = req_seq b" "req_state b1 = req_state b" unfolding b1 by (simp_all add: sent_def)
  have p: "bwp_parse f (length f) no_msg = (BWP_PARSE_OK, plain_msg (req_type b OR BWP_RESPONSE) (req_seq b) (length (tlvs_enc us)))"
    unfolding f by (rule plain_carries(2) [OF l(2,1) ok small])
  have m: "take 6 f = wb_pod_mac b" "take 6 (drop 6 f) = wb_mac b" using l by (simp_all add: f hdr_def)
  show "wb_rx io b1 f (length f) now =
      on_reply io b1 (plain_msg (req_type b OR BWP_RESPONSE) (req_seq b) (length (tlvs_enc us))) f now"
    by (rule answer_taken [OF p]) (use lk m s in \<open>simp_all add: linked_def plain_msg_def\<close>)
  show "\<exists>pre. carries f (plain_msg (req_type b OR BWP_RESPONSE) (req_seq b) (length (tlvs_enc us))) pre us rest"
    unfolding f using plain_carries(1) [OF l(2,1) ok small] by blast
qed

lemma refused_is_message:
  "ctl_refuse e m dst v c = ctl_send (bwp_finish (bwp_puts
     ([(BWP_T_RESULT, [bwp_result_u8 (pairing_result v)]), (BWP_T_MESSAGE, str_bytes (refusal_why v)),
       (BWP_T_NONCE, take BWP_NONCE_LEN (p_nonce (s_pair c)))] @
      (if v = PAIR_REPLAY then [(BWP_T_COUNTER, put_be32 (last_counter (s_pair c)))] else []))
     (bwp_begin (s_out c) BWP_MAX_FRAME dst (e_mac e) (m_type m OR BWP_RESPONSE) (m_seq m)))) c"
  by (simp add: ctl_refuse_def Let_def answer_begin_def bwp_puts_def bwp_put_u8_def bwp_put_str_def bwp_put_u32_def)

text \<open>A counter the bridge has seen: it says which, and the pod sends the request again above it.\<close>

lemma round_replay:
  assumes lk: "linked e b c ts" and fresh: "\<not> req_resynced b" and old: "wb_counter b + 1 \<le> last_counter (s_pair c)"
  shows "\<exists>buf f. link_round io e now (sent b tm, c) =
    Some (sent ((sent b tm)\<lparr>wb_counter := last_counter (s_pair c), req_resynced := True\<rparr>) now,
          c\<lparr>s_counter := wb_counter b + 1, s_out := buf, c_out := c_out c @ [f], s_sign := False\<rparr>) \<and> length buf = 1514"
proof -
  let ?f = "wire (wb_frame b)" and ?m = "request_msg b ts" and ?p = "s_pair c"
  let ?c1 = "c\<lparr>s_counter := wb_counter b + 1\<rparr>" and ?b1 = "sent b tm"
  let ?us = "[(BWP_T_RESULT, [12]), (BWP_T_MESSAGE, str_bytes (refusal_why PAIR_REPLAY)),
      (BWP_T_NONCE, wb_nonce b), (BWP_T_COUNTER, put_be32 (last_counter ?p))]"
  note r = request_received [OF lk]
  have l: "length (wb_pod_mac b) = 6" "length (e_mac e) = 6" "length (s_out ?c1) = 1514"
    and n8: "take BWP_NONCE_LEN (p_nonce ?p) = wb_nonce b" "length (wb_nonce b) = 8"
    using lk by (simp_all add: linked_def wb_wf_def BWP_NONCE_LEN_def)
  have lus: "length (tlvs_enc ?us) = 4 + (3 + 22) + 11 + 7" "tlvs_ok ?us"
    using n8 by (simp_all add: str_bytes_def)
  have h: "handle e ?f (length ?f) c = ctl_refuse e ?m (wb_pod_mac b) PAIR_REPLAY ?c1"
    unfolding handle_def r(1) using lk old r(3,4) by (simp add: linked_def request_msg_def plain_msg_def)
  have rf: "ctl_refuse e ?m (wb_pod_mac b) PAIR_REPLAY ?c1 = ctl_send (bwp_finish (bwp_puts ?us
      (bwp_begin (s_out ?c1) BWP_MAX_FRAME (wb_pod_mac b) (e_mac e) (req_type b OR BWP_RESPONSE) (req_seq b)))) ?c1"
    unfolding refused_is_message using n8 by (simp add: request_msg_def plain_msg_def)
  have fits: "48 + length (tlvs_enc ?us) \<le> 1514" unfolding lus by simp
  obtain buf rest where o: "ctl_send (bwp_finish (bwp_puts ?us
      (bwp_begin (s_out ?c1) BWP_MAX_FRAME (wb_pod_mac b) (e_mac e) (req_type b OR BWP_RESPONSE) (req_seq b)))) ?c1 =
      Some (?c1\<lparr>s_out := buf, c_out := c_out ?c1 @ [hdr (wb_pod_mac b) (e_mac e) (req_type b OR BWP_RESPONSE) (req_seq b)
        (length (tlvs_enc (answer_tlvs ?c1 (hdr (wb_pod_mac b) (e_mac e) (req_type b OR BWP_RESPONSE) (req_seq b)) ?us))) @
        tlvs_enc (answer_tlvs ?c1 (hdr (wb_pod_mac b) (e_mac e) (req_type b OR BWP_RESPONSE) (req_seq b)) ?us) @ rest]\<rparr>)"
      "length buf = 1514"
    using ctl_send_message [OF l fits, of "req_type b OR BWP_RESPONSE" "req_seq b"] by blast
  have a: "answer_tlvs ?c1 hh ?us = ?us" for hh using lk by (simp add: answer_tlvs_def linked_def)
  define f where "f = hdr (wb_pod_mac b) (wb_mac b) (req_type b OR BWP_RESPONSE) (req_seq b) (length (tlvs_enc ?us)) @
      tlvs_enc ?us @ rest"
  let ?m' = "plain_msg (req_type b OR BWP_RESPONSE) (req_seq b) (length (tlvs_enc ?us))"
  have em: "e_mac e = wb_mac b" using lk by (simp add: linked_def)
  have st: "ctl_step (C_frame e ?f) c = Some (?c1\<lparr>s_out := buf, c_out := c_out c @ [f], s_sign := False\<rparr>)"
    using h rf o(1) unfolding a em f_def by simp
  have small: "length (tlvs_enc ?us) \<le> 0xFFFF" unfolding lus by simp
  note ar = answer_received [OF lk refl lus(2) small f_def]
  obtain pre where cr: "carries f ?m' pre ?us rest" using ar(2) by blast
  have "msg_u8 f ?m' BWP_T_RESULT = Some 12" by (rule get_u8_carried [OF cr]) simp
  moreover have "msg_exact f ?m' BWP_T_NONCE BWP_NONCE_LEN = Some (wb_nonce b)"
    by (rule exact_carried [OF cr]) (use n8 in \<open>simp_all add: BWP_T_RESULT_def BWP_T_MESSAGE_def BWP_T_NONCE_def BWP_NONCE_LEN_def\<close>)
  moreover have "msg_u32 f ?m' BWP_T_COUNTER = Some (last_counter ?p)"
    unfolding u32_carried [OF cr] tlv_u32_def
    by (simp add: BWP_T_RESULT_def BWP_T_MESSAGE_def BWP_T_NONCE_def BWP_T_COUNTER_def get_put_be32)
  moreover have "wb_have_nonce ?b1" "wb_nonce ?b1 = wb_nonce b" "wb_counter ?b1 = wb_counter b + 1" "\<not> req_resynced ?b1"
    using lk fresh by (simp_all add: linked_def sent_def)
  ultimately have "on_reply io ?b1 ?m' f now = send_req (?b1\<lparr>wb_counter := last_counter ?p, req_resynced := True\<rparr>) now"
    using old by (simp add: on_reply_def or_else_def is_refusal_def auth_refused_def)
  moreover have "wb_wf (?b1\<lparr>wb_counter := last_counter ?p, req_resynced := True\<rparr>)"
    using lk by (simp add: linked_def wb_wf_def)
  ultimately have rx: "wb_rx io ?b1 f (length f) now =
      Some (sent (?b1\<lparr>wb_counter := last_counter ?p, req_resynced := True\<rparr>) now)"
    using ar(1) by (simp add: send_req_sent)
  have "wb_out ?b1 = wb_out b @ [wb_frame b]" by (simp add: sent_def)
  then have "link_round io e now (?b1, c) = Some (sent (?b1\<lparr>wb_counter := last_counter ?p, req_resynced := True\<rparr>) now,
      ?c1\<lparr>s_out := buf, c_out := c_out c @ [f], s_sign := False\<rparr>)"
    using st rx by (simp add: link_round_def del: ctl_step.simps)
  then show ?thesis using o(2) by blast
qed

subsection \<open>One answered round\<close>

definition ctl_accepted :: "wb_t \<Rightarrow> ctl \<Rightarrow> ctl" where
  "ctl_accepted b c = c\<lparr>s_pair := (s_pair c)\<lparr>last_counter := wb_counter b + 1\<rparr>, s_counter := wb_counter b + 1,
     s_sign := True, c_confirmed := True\<rparr>"

definition answer_with :: "wb_t \<Rightarrow> ctl_env \<Rightarrow> tlv list \<Rightarrow> ctl \<Rightarrow> ctl option" where
  "answer_with b e rs c2 = ctl_send (bwp_finish (bwp_puts rs (bwp_begin (s_out c2) BWP_MAX_FRAME (wb_pod_mac b) (e_mac e)
     (req_type b OR BWP_RESPONSE) (req_seq b)))) c2"

definition wb_answered :: "wb_io \<Rightarrow> bytes \<Rightarrow> u8 \<Rightarrow> bwp_msg_t \<Rightarrow> u32 \<Rightarrow> wb_t \<Rightarrow> wb_t" where
  "wb_answered io f r m now b = reply_done f m r (result_case io f m r now
     (upd_info (\<lambda>i. i\<lparr>wi_paired := True, wi_problem := None\<rparr>) b))"

lemma round_answered:
  assumes lk: "linked e b c ts" and new: "\<not> wb_counter b + 1 \<le> last_counter (s_pair c)"
    and disp: "dispatch e (wire (wb_frame b)) (request_msg b ts) (wb_pod_mac b) None (ctl_accepted b c) =
      do { c3 \<leftarrow> answer_with b e rs c2; Some (g c3) }"
    and c2: "s_pair c2 = s_pair (ctl_accepted b c)" "s_sign c2" "s_counter c2 = wb_counter b + 1" "length (s_out c2) = 1514"
      "c_out c2 = c_out c"
    and g: "\<And>x. c_out (g x) = c_out x"
    and rs: "tlvs_ok rs" "length (tlvs_enc rs) \<le> 1400" "map_of rs BWP_T_RESULT = Some [r]" "\<not> is_refusal r"
      "BWP_T_COUNTER \<notin> fst ` set rs" "BWP_T_AUTH \<notin> fst ` set rs"
  shows "\<exists>f m buf. link_round io e now (sent b tm, c) = Some (wb_answered io f r m now (sent b tm),
      (g (c2\<lparr>s_out := buf, c_out := c_out c @ [f]\<rparr>))\<lparr>s_sign := False\<rparr>) \<and> length buf = 1514 \<and>
    (\<forall>tag. tag \<noteq> BWP_T_COUNTER \<longrightarrow> tag \<noteq> BWP_T_AUTH \<longrightarrow> msg_u32 f m tag = tlv_u32 rs tag)"
proof -
  let ?k = "wb_counter b + 1"
  let ?f = "wire (wb_frame b)" and ?b1 = "sent b tm"
  note r = request_received [OF lk]
  have em: "e_mac e = wb_mac b" and pk: "paired (s_pair c)" "p_key (s_pair c) = wb_key b" "p_nonce (s_pair c) = wb_nonce b"
    using lk by (simp_all add: linked_def)
  have h: "handle e ?f (length ?f) c = do { c3 \<leftarrow> answer_with b e rs c2; Some (g c3) }"
    unfolding handle_def r(1) disp [symmetric] ctl_accepted_def
    using lk new r(3,4) by (simp add: linked_def request_msg_def plain_msg_def)
  let ?h = "hdr (wb_pod_mac b) (wb_mac b) (req_type b OR BWP_RESPONSE) (req_seq b)"
  let ?us = "signed_tlvs (wb_key b) (wb_nonce b) ?k ?h rs"
  have l: "length (wb_pod_mac b) = 6" "length (wb_mac b) = 6" using lk by (simp_all add: linked_def wb_wf_def)
  have fits: "48 + length (tlvs_enc rs) \<le> 1514" using rs(2) by simp
  have a: "answer_tlvs c2 ?h rs = ?us" using c2 pk by (simp add: answer_tlvs_def ctl_accepted_def)
  have lus: "length (tlvs_enc ?us) = length (tlvs_enc rs) + 26" "tlvs_ok ?us" using rs by (simp_all add: length_signed signed_tlvs_ok)
  obtain buf rest where o: "answer_with b e rs c2 =
      Some (c2\<lparr>s_out := buf, c_out := c_out c2 @ [?h (length (tlvs_enc ?us)) @ tlvs_enc ?us @ rest]\<rparr>)" "length buf = 1514"
    using ctl_send_message [OF l c2(4) fits, of "req_type b OR BWP_RESPONSE" "req_seq b"]
    unfolding answer_with_def em a by auto
  define f where "f = ?h (length (tlvs_enc ?us)) @ tlvs_enc ?us @ rest"
  let ?c3 = "(g (c2\<lparr>s_out := buf, c_out := c_out c @ [f]\<rparr>))\<lparr>s_sign := False\<rparr>"
  have st: "ctl_step (C_frame e ?f) c = Some ?c3" using h o c2(5) unfolding f_def by simp
  have small: "length (tlvs_enc ?us) \<le> 0xFFFF" unfolding lus using rs(2) by simp
  note ar = answer_received [OF lk refl lus(2) small f_def]
  let ?m' = "plain_msg (req_type b OR BWP_RESPONSE) (req_seq b) (length (tlvs_enc ?us))"
  obtain pre' where cr': "carries f ?m' pre' ?us rest" using ar(2) by blast
  have res: "msg_u8 f ?m' BWP_T_RESULT = Some r"
    by (rule get_u8_carried [OF cr']) (use rs(3) in \<open>simp add: signed_tlvs_def Let_def\<close>)
  have off: "\<forall>tag. tag \<noteq> BWP_T_COUNTER \<longrightarrow> tag \<noteq> BWP_T_AUTH \<longrightarrow> msg_u32 f ?m' tag = tlv_u32 rs tag"
    unfolding u32_carried [OF cr'] by (simp add: tlv_u32_def signed_tlvs_def Let_def map_add_def split: option.split)
  have ver: "bwp_verify f ?m' (wb_key b) (wb_nonce b) = Some (BWP_VERIFY_OK, Some ?k)"
    unfolding f_def length_signed
    by (rule signed_verifies [OF l]) (use rs in simp_all)
  have s: "wb_key ?b1 = wb_key b" "wb_nonce ?b1 = wb_nonce b" "req_counter ?b1 = ?k" "req_signed ?b1"
    using lk by (simp_all add: sent_def linked_def)
  have rx: "wb_rx io ?b1 f (length f) now = Some (wb_answered io f r ?m' now ?b1)"
    unfolding ar(1) using on_reply_signed [OF res rs(4), where b = ?b1 and io = io and now = now] ver s by (simp add: wb_answered_def)
  have "wb_out ?b1 = wb_out b @ [wb_frame b]" by (simp add: sent_def)
  then have "link_round io e now (?b1, c) = Some (wb_answered io f r ?m' now ?b1, ?c3)"
    using st rx g by (simp add: link_round_def del: ctl_step.simps)
  then show ?thesis using o(2) off by blast
qed

lemma reply_is_message:
  "ctl_reply e m dst r None c = ctl_send (bwp_finish (bwp_puts [(BWP_T_RESULT, [bwp_result_u8 r])]
     (bwp_begin (s_out c) BWP_MAX_FRAME dst (e_mac e) (m_type m OR BWP_RESPONSE) (m_seq m)))) c"
  by (simp add: ctl_reply_def bwp_build_result_def Let_def bwp_puts_def bwp_put_u8_def)

lemma reply_answers:
  "ctl_reply e (request_msg b ts) (wb_pod_mac b) r None c2 = answer_with b e [(BWP_T_RESULT, [bwp_result_u8 r])] c2"
  unfolding reply_is_message answer_with_def by (simp add: request_msg_def plain_msg_def)

lemma msg_type [simp]: "m_type (request_msg b ts) = req_type b" by (simp add: request_msg_def plain_msg_def)

subsection \<open>Wi-Fi credentials from the pod to the bridge\<close>

definition wifi_tlvs :: "bytes \<Rightarrow> bytes option \<Rightarrow> tlv list" where
  "wifi_tlvs ssid sealed = (BWP_T_SSID, ssid) # (case sealed of Some x \<Rightarrow> [(BWP_T_ENC_PASSPHRASE, x)] | None \<Rightarrow> [])"

lemma parse_open_wifi:
  assumes c: "carries frame m pre ts post" and ssid: "map_of ts BWP_T_SSID = Some ssid" "1 \<le> length ssid" "length ssid \<le> 32"
    and clear: "BWP_T_PASSPHRASE \<notin> fst ` set ts" and none: "BWP_T_ENC_PASSPHRASE \<notin> fst ` set ts"
  shows "bwp_parse_set_wifi blake2b chacha frame m key = (BWP_OK, \<lparr>sw_ssid = ssid, sw_passphrase = []\<rparr>)"
proof -
  obtain v1 r1 where f1: "bwp_find frame (m_body m) (unat (m_body_len m)) BWP_T_SSID = (True, Some (v1, of_nat (length ssid)))"
      "unat (of_nat (length ssid) :: u16) = length ssid" "drop v1 frame = ssid @ r1"
    using find_carried [OF c ssid(1)] by blast
  have f2: "\<not> fst (bwp_find frame (m_body m) (unat (m_body_len m)) BWP_T_PASSPHRASE)"
      "\<not> fst (bwp_find frame (m_body m) (unat (m_body_len m)) BWP_T_ENC_PASSPHRASE)"
    using find_absent [OF c clear] find_absent [OF c none] by auto
  then show ?thesis
    unfolding bwp_parse_set_wifi_def Let_def f1(1)
    using ssid f1(2,3) by (cases "bwp_find frame (m_body m) (unat (m_body_len m)) BWP_T_ENC_PASSPHRASE")
      (auto simp: bwp_ssid_valid_def no_wifi_def split: bool.split option.split)
qed

definition seals :: "wb_io \<Rightarrow> bytes \<Rightarrow> bytes option \<Rightarrow> bytes \<Rightarrow> bool" where
  "seals io key sealed pass \<longleftrightarrow>
     (case sealed of None \<Rightarrow> pass = []
      | Some x \<Rightarrow> bwp_open_passphrase (blake2b_keyed io) (chacha_xor io) key x (length x) = Some pass \<and>
                bwp_passphrase_valid pass (length pass))"

lemma wifi_parsed:
  assumes "carries f m pre (signed_tlvs key nonce ctr h (wifi_tlvs ssid sealed)) post"
    and "1 \<le> length ssid" "length ssid \<le> 32" "seals io key' sealed pass"
  shows "bwp_parse_set_wifi (blake2b_keyed io) (chacha_xor io) f m (Some key') = (BWP_OK, \<lparr>sw_ssid = ssid, sw_passphrase = pass\<rparr>)"
proof -
  note tags = BWP_T_COUNTER_def BWP_T_AUTH_def BWP_T_SSID_def BWP_T_ENC_PASSPHRASE_def BWP_T_PASSPHRASE_def
  have s: "map_of (signed_tlvs key nonce ctr h (wifi_tlvs ssid sealed)) BWP_T_SSID = Some ssid"
    by (simp add: signed_tlvs_def Let_def wifi_tlvs_def)
  have c: "BWP_T_PASSPHRASE \<notin> fst ` set (signed_tlvs key nonce ctr h (wifi_tlvs ssid sealed))"
    by (auto simp: signed_tlvs_def Let_def wifi_tlvs_def tags split: option.splits)
  show ?thesis
  proof (cases sealed)
    case None
    have "BWP_T_ENC_PASSPHRASE \<notin> fst ` set (signed_tlvs key nonce ctr h (wifi_tlvs ssid sealed))"
      using None by (auto simp: signed_tlvs_def Let_def wifi_tlvs_def tags)
    then show ?thesis using parse_open_wifi [OF assms(1) s assms(2,3) c] assms(4) None by (simp add: seals_def)
  next
    case (Some x)
    have e: "map_of (signed_tlvs key nonce ctr h (wifi_tlvs ssid sealed)) BWP_T_ENC_PASSPHRASE = Some x"
      using Some by (simp add: signed_tlvs_def Let_def wifi_tlvs_def tags)
    show ?thesis
      by (rule parse_set_wifi_carried [OF assms(1) s assms(2,3) c e]) (use assms(4) Some in \<open>simp_all add: seals_def\<close>)
  qed
qed

definition nvs_works :: "nvs_ans \<Rightarrow> bool" where
  "nvs_works a \<longleftrightarrow> n_open a \<and> n_first a \<and> n_second a \<and> n_commit a"

lemma round_set_wifi:
  assumes lk: "linked e b c (wifi_tlvs ssid sealed)" and ty: "req_type b = BWP_SET_WIFI"
    and new: "\<not> wb_counter b + 1 \<le> last_counter (s_pair c)"
    and ssid: "1 \<le> length ssid" "length ssid \<le> 32" and seal: "seals (e_io e) (wb_key b) sealed pass"
    and idle: "\<not> ota_active (c_ota c)" and nvs: "nvs_works (e_nvs e)"
  shows "\<exists>b2 c2. link_round io e now (sent b tm, c) = Some (b2, c2) \<and> req_state b2 = WB_REQ_DONE \<and>
    wr_result (wb_reply b2) = bwp_result_u8 BWP_OK \<and> k_ssid (c_nvs c2) = Some ssid \<and> k_pass (c_nvs c2) = Some pass \<and>
    c_wifi_changes c2 = c_wifi_changes c + 1 \<and> c_reboots c2 = c_reboots c"
proof -
  let ?ts = "wifi_tlvs ssid sealed" and ?rs = "[(BWP_T_RESULT, [bwp_result_u8 BWP_OK])]"
  let ?f = "wire (wb_frame b)" and ?m = "request_msg b (wifi_tlvs ssid sealed)"
  let ?c1 = "ctl_accepted b c"
  let ?c2 = "?c1\<lparr>c_nvs := (c_nvs c)\<lparr>k_ssid := Some ssid, k_pass := Some pass\<rparr>, c_wifi_changes := c_wifi_changes c + 1\<rparr>"
  have pk: "paired (s_pair c)" "p_key (s_pair c) = wb_key b" using lk by (simp_all add: linked_def)
  have c1: "paired (s_pair ?c1)" "p_key (s_pair ?c1) = wb_key b" "c_ota ?c1 = c_ota c" "c_nvs ?c1 = c_nvs c"
      "c_wifi_changes ?c1 = c_wifi_changes c" using pk by (simp_all add: ctl_accepted_def)
  obtain pre post where cr: "carries ?f ?m pre (request_tlvs b ?ts) post" using request_received(2) [OF lk] by blast
  have parsed: "bwp_parse_set_wifi (blake2b_keyed (e_io e)) (chacha_xor (e_io e)) ?f ?m (Some (wb_key b)) =
      (BWP_OK, \<lparr>sw_ssid = ssid, sw_passphrase = pass\<rparr>)"
    by (rule wifi_parsed [OF cr [unfolded request_tlvs_def] ssid seal])
  have "dispatch e ?f ?m (wb_pod_mac b) None ?c1 = handle_set_wifi e ?f ?m (wb_pod_mac b) ?c1"
    unfolding dispatch_def msg_type ty by (simp add: BWP_SET_WIFI_def BWP_PAIR_def BWP_STATUS_def BWP_SCAN_def)
  also have "\<dots> = ctl_reply e ?m (wb_pod_mac b) BWP_OK None ?c2"
    using parsed c1 idle nvs by (simp add: handle_set_wifi_def bridge_set_wifi_def creds_store_def nvs_works_def)
  finally have disp: "dispatch e ?f ?m (wb_pod_mac b) None ?c1 = do { c3 \<leftarrow> answer_with b e ?rs ?c2; Some c3 }"
    unfolding reply_answers by simp
  have c2: "s_pair ?c2 = s_pair ?c1" "s_sign ?c2" "s_counter ?c2 = wb_counter b + 1" "length (s_out ?c2) = 1514"
      "c_out ?c2 = c_out c" using lk by (simp_all add: ctl_accepted_def linked_def)
  have rs: "tlvs_ok ?rs" "length (tlvs_enc ?rs) \<le> 1400" "map_of ?rs BWP_T_RESULT = Some [bwp_result_u8 BWP_OK]"
      "\<not> is_refusal (bwp_result_u8 BWP_OK)" "BWP_T_COUNTER \<notin> fst ` set ?rs" "BWP_T_AUTH \<notin> fst ` set ?rs"
    by (simp_all add: is_refusal_def BWP_T_RESULT_def BWP_T_COUNTER_def BWP_T_AUTH_def)
  obtain f m buf where r: "link_round io e now (sent b tm, c) =
      Some (wb_answered io f (bwp_result_u8 BWP_OK) m now (sent b tm), (?c2\<lparr>s_out := buf, c_out := c_out c @ [f]\<rparr>)\<lparr>s_sign := False\<rparr>)"
    using round_answered [OF lk new disp c2 _ rs, where io = io and tm = tm and now = now] by auto
  have "\<not> req_internal (sent b tm)" using lk by (simp add: linked_def)
  then have "req_state (wb_answered io f (bwp_result_u8 BWP_OK) m now (sent b tm)) = WB_REQ_DONE"
      "wr_result (wb_reply (wb_answered io f (bwp_result_u8 BWP_OK) m now (sent b tm))) = bwp_result_u8 BWP_OK"
    using reply_done_facts(3,4) result_case_facts(4) by (simp_all add: wb_answered_def upd_info_def)
  then show ?thesis using r
    by (intro exI [of _ "wb_answered io f (bwp_result_u8 BWP_OK) m now (sent b tm)"]
        exI [of _ "(?c2\<lparr>s_out := buf, c_out := c_out c @ [f]\<rparr>)\<lparr>s_sign := False\<rparr>"]) (simp add: ctl_accepted_def)
qed

lemma put_be16_small: "n < 256 \<Longrightarrow> put_be16 (of_nat n) = [0, of_nat n]"
proof -
  assume n: "n < 256"
  then have "drop_bit 8 n = 0" by (simp add: drop_bit_eq_div)
  then have "unat (drop_bit 8 (of_nat n :: u16)) = 0"
    using n take_bit_nat_eq_self [of n 16] unat_len16 [of n] by (simp add: unsigned_drop_bit_eq)
  then have "drop_bit 8 (of_nat n :: u16) = 0" by (simp only: unat_eq_zero)
  moreover have "(ucast (of_nat n :: u16) :: u8) = of_nat n"
  proof -
    have u: "unat (of_nat n :: u16) = n" using unat_len16 [of n] n by simp
    have "(of_nat (unat (of_nat n :: u16)) :: u8) = ucast (of_nat n :: u16)" by (simp only: of_nat_unat)
    then show ?thesis unfolding u by (rule sym)
  qed
  ultimately show ?thesis by (simp add: put_be16_def)
qed

lemma set_wifi_body_tlvs:
  assumes ch: "stream_cipher (chacha_xor io)" and n: "length sn = BWP_SEAL_NONCE_LEN"
    and ssid: "bwp_ssid_valid (length ssid)" and pass: "bwp_passphrase_valid pass (length pass)"
  shows "\<exists>sealed. set_wifi_body io b ssid pass sn = tlvs_enc (wifi_tlvs ssid sealed) \<and> seals io (wb_key b) sealed pass \<and>
    length (tlvs_enc (wifi_tlvs ssid sealed)) \<le> 127 \<and> tlvs_ok (wifi_tlvs ssid sealed)"
proof -
  have l: "1 \<le> length ssid" "length ssid \<le> 32" using ssid by (simp_all add: bwp_ssid_valid_def)
  have p64: "length pass \<le> 64" using pass by (auto simp: bwp_passphrase_valid_def split: if_splits)
  obtain x where x: "bwp_seal_passphrase (blake2b_keyed io) (chacha_xor io) (wb_key b) sn pass = Some x"
      "length x = BWP_SEALED_PASS_LEN"
      "bwp_open_passphrase (blake2b_keyed io) (chacha_xor io) (wb_key b) x BWP_SEALED_PASS_LEN = Some pass"
    using seal_open [OF ch n p64] by blast
  show ?thesis
  proof (cases "pass = []")
    case True
    then show ?thesis using l
      by (intro exI [of _ None]) (simp add: set_wifi_body_def wifi_tlvs_def seals_def tlv_enc_def put_be16_small)
  next
    case False
    then show ?thesis using l x pass
      by (intro exI [of _ "Some x"])
        (simp add: set_wifi_body_def wifi_tlvs_def seals_def tlv_enc_def put_be16_small put_be16_small [of 89, simplified]
          seal_consts)
  qed
qed

lemma set_wifi_started:
  assumes ch: "stream_cipher (chacha_xor io)" and n: "length sn = BWP_SEAL_NONCE_LEN" and wf: "wb_wf b"
    and rq: "wb_request_set_wifi io b ssid pass sn t now = Some (0, b1)"
    and e: "e_mac e = wb_mac b" "length (wb_nonce b) = BWP_NONCE_LEN"
    and c: "paired (s_pair c)" "p_key (s_pair c) = wb_key b" "p_nonce (s_pair c) = wb_nonce b" "\<not> s_sign c"
      "length (s_out c) = 1514"
  shows "\<exists>b0 sealed. b1 = sent b0 now \<and> linked e b0 c (wifi_tlvs ssid sealed) \<and> req_type b0 = BWP_SET_WIFI \<and>
    \<not> req_resynced b0 \<and> seals io (wb_key b0) sealed pass \<and> 1 \<le> length ssid \<and> length ssid \<le> 32 \<and> length pass < 65"
proof -
  have v: "bwp_ssid_valid (length ssid)" "bwp_passphrase_valid pass (length pass)" "wb_present b now" "bridge_paired b"
      "wb_have_key b" "wb_request b BWP_SET_WIFI (set_wifi_body io b ssid pass sn) t now = Some (0, b1)"
    using rq by (auto simp: set_wifi_request split: if_splits)
  obtain sealed where s: "set_wifi_body io b ssid pass sn = tlvs_enc (wifi_tlvs ssid sealed)"
      "seals io (wb_key b) sealed pass" "length (tlvs_enc (wifi_tlvs ssid sealed)) \<le> 127" "tlvs_ok (wifi_tlvs ssid sealed)"
    using set_wifi_body_tlvs [OF ch n v(1,2)] by blast
  let ?x = "tlvs_enc (wifi_tlvs ssid sealed)"
  let ?s = "if wb_seq b + 1 = 0 then 1 else wb_seq b + 1"
  let ?b0 = "b\<lparr>req_state := WB_REQ_PENDING, req_internal := False, req_type := BWP_SET_WIFI, wb_seq := ?s, req_seq := ?s,
      req_ext := None, req_tlvs := blit (req_tlvs b) 0 ?x, req_len := of_nat (length ?x), req_timeout := t, req_tries := 0,
      req_resynced := False, req_signed := True, wb_reply := no_reply\<rparr>"
  have hn: "wb_have_nonce b" "wb_seen b"
    using v(3,4,6) by (auto simp: wb_request_def wb_req_start_def wb_present_def split: if_splits)
  have wf0: "wb_wf ?b0" using wf by (simp add: wb_wf_def)
  have "start_req b BWP_SET_WIFI ?x t False False now = Some b1"
    using v(6) unfolding s(1) by (auto simp: wb_request_def wb_req_start_def bind_eq_Some_conv split: if_splits)
  then have b1: "b1 = sent ?b0 now" using v(4) send_req_sent [OF wf0, of now] by (simp add: start_req_def Let_def)
  have u: "unat (of_nat (length ?x) :: u16) = length ?x" using s(3) by (simp add: unat_len16)
  have rb: "req_body ?b0 = ?x" using u by (simp add: req_body_def blit_def)
  have tg: "BWP_T_COUNTER \<notin> fst ` set (wifi_tlvs ssid sealed)" "BWP_T_AUTH \<notin> fst ` set (wifi_tlvs ssid sealed)"
    by (auto simp: wifi_tlvs_def BWP_T_COUNTER_def BWP_T_AUTH_def BWP_T_SSID_def BWP_T_ENC_PASSPHRASE_def split: option.splits)
  have "linked e ?b0 c (wifi_tlvs ssid sealed)"
    unfolding linked_def using wf0 e c s(3,4) u rb tg hn
    by (simp add: BWP_SET_WIFI_def BWP_RESPONSE_def BWP_PAIR_def BWP_HELLO_def)
  moreover have "length pass < 65" using v(2) by (auto simp: bwp_passphrase_valid_def split: if_splits)
  ultimately show ?thesis using b1 s(2) v(1) unfolding bwp_ssid_valid_def
    by (intro exI [of _ ?b0] exI [of _ sealed]) simp
qed

lemma counter_suc: "(x :: u32) \<noteq> 0xFFFFFFFF \<Longrightarrow> x < x + 1"
proof -
  assume x: "x \<noteq> 0xFFFFFFFF"
  have "1 + x \<noteq> 0"
  proof
    assume "1 + x = 0"
    then have "x = - 1" by (metis add.commute add_eq_0_iff)
    then show False using x by simp
  qed
  from unatSuc [OF this] show ?thesis by (simp add: word_less_nat_alt add.commute)
qed

text \<open>
  C8. Wi-Fi credentials get through intact, whatever the two ends' counters: when the pod's client takes a
  request to set a network name and passphrase, and the bridge is paired with it, has no firmware
  transfer running and can store, then after at most two rounds of frames the bridge's stored credentials
  are exactly that name and that passphrase, its Wi-Fi join is restarted once, and the pod has the
  request answered with OK. If the pod counted again from a value the bridge has already seen (it
  rebooted), the first round is the bridge's refusal with its counter and the pod's second send; the
  bridge's counter must not be the last of its 32 bits. (The stream cipher is assumed to be its own
  inverse and length-preserving.)
\<close>

theorem set_wifi_reaches_bridge:
  assumes "stream_cipher (chacha_xor io)" and "length sn = BWP_SEAL_NONCE_LEN" and "wb_wf b"
    and "wb_request_set_wifi io b ssid pass sn t now = Some (0, b1)"
    and "e_io e = io" and "e_mac e = wb_mac b" and "length (wb_nonce b) = BWP_NONCE_LEN"
    and "paired (s_pair c)" and "p_key (s_pair c) = wb_key b" and "p_nonce (s_pair c) = wb_nonce b"
    and "\<not> s_sign c" and "length (s_out c) = 1514" and "\<not> ota_active (c_ota c)" and "nvs_works (e_nvs e)"
    and "last_counter (s_pair c) \<noteq> 0xFFFFFFFF"
  shows "\<exists>k b2 c2. k \<le> 2 \<and> link_rounds io e (replicate k now') (b1, c) = Some (b2, c2) \<and>
    req_state b2 = WB_REQ_DONE \<and> wr_result (wb_reply b2) = bwp_result_u8 BWP_OK \<and>
    creds_load (c_nvs c2) = Some (ssid, pass) \<and> c_wifi_changes c2 = c_wifi_changes c + 1 \<and> c_reboots c2 = c_reboots c"
proof -
  obtain b0 sealed where b0: "b1 = sent b0 now" "linked e b0 c (wifi_tlvs ssid sealed)" "req_type b0 = BWP_SET_WIFI"
      "\<not> req_resynced b0" "seals io (wb_key b0) sealed pass" "1 \<le> length ssid" "length ssid \<le> 32" "length pass < 65"
    using set_wifi_started [OF assms(1-4,6-12)] by blast
  show ?thesis
  proof (cases "wb_counter b0 + 1 \<le> last_counter (s_pair c)")
    case False
    obtain b2 c2 where "link_round io e now' (sent b0 now, c) = Some (b2, c2)" "req_state b2 = WB_REQ_DONE"
        "wr_result (wb_reply b2) = bwp_result_u8 BWP_OK" "k_ssid (c_nvs c2) = Some ssid" "k_pass (c_nvs c2) = Some pass"
        "c_wifi_changes c2 = c_wifi_changes c + 1" "c_reboots c2 = c_reboots c"
      using round_set_wifi [OF b0(2,3) False b0(6,7) _ assms(13,14), of pass io now' now] b0(5) assms(5) by auto
    then show ?thesis using b0(1,6-8)
      by (intro exI [of _ 1] exI [of _ b2] exI [of _ c2]) (simp add: creds_load_def)
  next
    case True
    let ?b = "(sent b0 now)\<lparr>wb_counter := last_counter (s_pair c), req_resynced := True\<rparr>"
    obtain buf f where r1: "link_round io e now' (sent b0 now, c) = Some (sent ?b now',
        c\<lparr>s_counter := wb_counter b0 + 1, s_out := buf, c_out := c_out c @ [f], s_sign := False\<rparr>)" "length buf = 1514"
      using round_replay [OF b0(2,4) True] by blast
    let ?c = "c\<lparr>s_counter := wb_counter b0 + 1, s_out := buf, c_out := c_out c @ [f], s_sign := False\<rparr>"
    have rb: "req_body ?b = req_body b0" by (simp add: sent_def req_body_def split: option.split)
    have lk: "linked e ?b ?c (wifi_tlvs ssid sealed)" and ty: "req_type ?b = BWP_SET_WIFI" and k: "wb_key ?b = wb_key b0"
      using b0(2,3) r1(2) rb unfolding linked_def by (simp_all add: sent_def wb_wf_def)
    have new: "\<not> wb_counter ?b + 1 \<le> last_counter (s_pair ?c)"
      using counter_suc [OF assms(15)] by (simp add: not_le)
    obtain b2 c2 where "link_round io e now' (sent ?b now', ?c) = Some (b2, c2)" "req_state b2 = WB_REQ_DONE"
        "wr_result (wb_reply b2) = bwp_result_u8 BWP_OK" "k_ssid (c_nvs c2) = Some ssid" "k_pass (c_nvs c2) = Some pass"
        "c_wifi_changes c2 = c_wifi_changes c + 1" "c_reboots c2 = c_reboots c"
      using round_set_wifi [OF lk ty new b0(6,7) _ _ assms(14), of pass io now' now'] b0(5) k assms(5,13) by auto
    then show ?thesis using b0(1,6-8) r1(1)
      by (intro exI [of _ 2] exI [of _ b2] exI [of _ c2]) (simp add: creds_load_def numeral_2_eq_2)
  qed
qed

theorem set_wifi_reaches_bridge_witness:
  "\<exists>b1 k b2 c2. wb_request_set_wifi demo_io demo_pod [65, 66] (replicate 8 0x61) (replicate 24 1) 1000 0 = Some (0, b1) \<and>
    k \<le> 2 \<and> link_rounds demo_io demo_env (replicate k 10) (b1, demo_bridge) = Some (b2, c2) \<and>
    req_state b2 = WB_REQ_DONE \<and> creds_load (c_nvs c2) = Some ([65, 66], replicate 8 0x61)"
proof -
  have ch: "stream_cipher (chacha_xor demo_io)"
    by (simp add: demo_io_def stream_cipher_def demo_cipher_def comp_def xor.assoc)
  have pv: "bwp_passphrase_valid (replicate 8 0x61) (length (replicate 8 (0x61 :: u8)))"
    by (simp add: bwp_passphrase_valid_def list_all_iff)
  have sv: "bwp_ssid_valid (length [65, 66 :: u8])" by (simp add: bwp_ssid_valid_def)
  have n24: "length (replicate 24 (1 :: u8)) = BWP_SEAL_NONCE_LEN" by (simp add: BWP_SEAL_NONCE_LEN_def)
  let ?body = "set_wifi_body demo_io demo_pod [65, 66] (replicate 8 0x61) (replicate 24 1)"
  have lb: "length ?body \<le> WB_REQ_MAX"
    using set_wifi_body_tlvs [OF ch n24 sv pv, of demo_pod] by (auto simp: WB_REQ_MAX_def)
  have d: "wb_present demo_pod 0" "wb_have_key demo_pod" "wb_have_secret demo_pod" "wb_have_nonce demo_pod"
      "req_state demo_pod = WB_REQ_IDLE" "wb_mac demo_pod = demo_mac" "wb_nonce demo_pod = replicate 8 0"
      "wb_key demo_pod = replicate 32 0"
    by (simp_all add: wb_present_def demo_pod_def wb_init_def wb_elapsed_def WB_HELLO_TIMEOUT_MS_def word_le_nat_alt)
  obtain b1 where "start_req demo_pod BWP_SET_WIFI ?body 1000 False False 0 = Some b1"
    using start_req_started [OF demo_sent_facts(1)] by metis
  then have rq: "wb_request_set_wifi demo_io demo_pod [65, 66] (replicate 8 0x61) (replicate 24 1) 1000 0 = Some (0, b1)"
    using d lb pv sv demo_sent_facts(2) by (simp add: set_wifi_request wb_request_def wb_req_start_def)
  have ev: "e_io demo_env = demo_io" "e_mac demo_env = wb_mac demo_pod" "nvs_works (e_nvs demo_env)"
    using d(6) by (simp_all add: demo_env_def nvs_works_def)
  have nl: "length (wb_nonce demo_pod) = BWP_NONCE_LEN" "p_key (s_pair demo_bridge) = wb_key demo_pod"
      "p_nonce (s_pair demo_bridge) = wb_nonce demo_pod" "last_counter (s_pair demo_bridge) \<noteq> 0xFFFFFFFF"
    using d demo_bridge_facts by (simp_all add: BWP_NONCE_LEN_def)
  show ?thesis
    using set_wifi_reaches_bridge [OF ch n24 demo_sent_facts(1) rq ev(1,2) nl(1) demo_bridge_facts(1) nl(2,3)
        demo_bridge_facts(2,3,7) ev(3) nl(4), of 10] rq by blast
qed

end
