(* ===== verification/WbOta.thy ===== *)
theory WbOta
  imports BridgeCtl
begin

text \<open>
  The pod's relay of the bridge firmware (\<open>stm32h563/src/wifi_bridge_ota.c\<close>): the state machine behind
  \<open>wbo_poll\<close>. The callbacks of \<open>wbo_io_t\<close> are inputs: \<open>wbo_ans\<close> holds what they answer during one poll
  (each is called at most once in it). A request that \<open>start\<close> took is appended to \<open>o_sent\<close>; the buffer
  is its contents while allocated.
\<close>

subsection \<open>Versions\<close>

text \<open>One \<open>%u\<close> of \<open>sscanf\<close>: white space, a sign, digits; too large a number is the largest (\<open>strtoul\<close>).\<close>

definition scan_space :: "char \<Rightarrow> bool" where
  "scan_space c \<longleftrightarrow> c = CHR '' '' \<or> (9 \<le> (of_char c :: nat) \<and> (of_char c :: nat) \<le> 13)"

definition is_digit :: "char \<Rightarrow> bool" where
  "is_digit c \<longleftrightarrow> 48 \<le> (of_char c :: nat) \<and> (of_char c :: nat) \<le> 57"

definition scan_u :: "cstr \<Rightarrow> (nat \<times> cstr) option" where
  "scan_u s =
     (let s1 = dropWhile scan_space s;
          neg = (s1 \<noteq> [] \<and> hd s1 = CHR ''-'');
          s2 = (if s1 \<noteq> [] \<and> (hd s1 = CHR ''-'' \<or> hd s1 = CHR ''+'') then tl s1 else s1);
          ds = takeWhile is_digit s2;
          n = dec_value ds
      in if ds = [] then None
         else Some (if n \<ge> 2 ^ 32 then 2 ^ 32 - 1 else if neg then (2 ^ 32 - n) mod 2 ^ 32 else n, dropWhile is_digit s2))"

definition wbo_pack_version :: "cstr option \<Rightarrow> u32" where
  "wbo_pack_version s0 =
     (case s0 of None \<Rightarrow> 0
      | Some s \<Rightarrow>
          (case scan_u s of
             Some (a, CHR ''.'' # s1) \<Rightarrow>
               (case scan_u s1 of
                  Some (b, CHR ''.'' # s2) \<Rightarrow>
                    (case scan_u s2 of
                       Some (c, []) \<Rightarrow>
                         if a > 255 \<or> b > 255 \<or> c > 255 then 0
                         else push_bit 16 (of_nat a) OR push_bit 8 (of_nat b) OR of_nat c
                     | _ \<Rightarrow> 0)
                | _ \<Rightarrow> 0)
           | _ \<Rightarrow> 0))"

definition wbo_is_emc_build :: "cstr \<Rightarrow> bool" where
  "wbo_is_emc_build s \<longleftrightarrow> length s > 4 \<and> drop (length s - 4) s = ''-emc''"

definition wbo_version_str :: "u32 \<Rightarrow> cstr" where
  "wbo_version_str v = snprintf 16
     (dec_digits (unat (drop_bit 16 v AND 0xff)) @ ''.'' @ dec_digits (unat (drop_bit 8 v AND 0xff)) @ ''.'' @
      dec_digits (unat (v AND 0xff)))"

subsection \<open>State\<close>

definition WBO_CHUNK :: u32 where "WBO_CHUNK = 1024"
definition WBO_CHECK_EVERY_MS :: u32 where "WBO_CHECK_EVERY_MS = 5000"
definition WBO_COME_BACK_MS :: u32 where "WBO_COME_BACK_MS = 180000"
definition WBO_MANIFEST_LEN :: nat where "WBO_MANIFEST_LEN = 128"
definition WBO_TRIES :: u8 where "WBO_TRIES = 3"
definition BWP_F_OTA_ACTIVE :: u8 where "BWP_F_OTA_ACTIVE = 0x04"
definition BWP_F_PENDING_VERIFY :: u8 where "BWP_F_PENDING_VERIFY = 0x10"

record wbo_image_t =
  im_present :: bool
  im_size :: u32
  im_version :: u32
  im_manifest :: bytes

datatype wbo_state_t = WBO_IDLE | WBO_BEGIN | WBO_DATA | WBO_END | WBO_REBOOT | WBO_WAIT_BACK

record wbo_ans =
  a_start :: int
  a_take :: "wb_req_state_t \<times> wb_reply_t"
  a_read :: "u32 \<Rightarrow> u32 \<Rightarrow> bytes option"
  a_alloc :: bool

record wbo_t =
  o_state :: wbo_state_t
  o_size :: u32
  o_off :: u32
  o_want :: u32
  o_failed :: u32
  o_next_check :: u32
  o_deadline :: u32
  o_tries_for :: u32
  o_tries :: u8
  o_forced :: bool
  o_resend :: bool
  o_seen_new :: bool
  o_buf :: bool
  o_status :: cstr
  o_sent :: "(u8 \<times> bytes \<times> u32) list"

definition wbo_init :: wbo_t where
  "wbo_init = \<lparr>o_state = WBO_IDLE, o_size = 0, o_off = 0, o_want = 0, o_failed = 0, o_next_check = 0, o_deadline = 0,
     o_tries_for = 0, o_tries = 0, o_forced = False, o_resend = False, o_seen_new = False, o_buf = False,
     o_status = ''idle'', o_sent = []\<rparr>"

definition wbo_elapsed :: "u32 \<Rightarrow> u32 \<Rightarrow> bool" where
  "wbo_elapsed now at \<longleftrightarrow> sint (now - at) \<ge> 0"

definition wbo_busy :: "wbo_t \<Rightarrow> bool" where
  "wbo_busy o1 \<longleftrightarrow> o_state o1 = WBO_BEGIN \<or> o_state o1 = WBO_DATA \<or> o_state o1 = WBO_END \<or> o_state o1 = WBO_REBOOT"

definition wbo_force :: "wbo_t \<Rightarrow> wbo_t" where
  "wbo_force o1 = o1\<lparr>o_forced := True, o_next_check := 0\<rparr>"

definition set_status :: "cstr \<Rightarrow> wbo_t \<Rightarrow> wbo_t" where
  "set_status s o1 = o1\<lparr>o_status := snprintf 80 s\<rparr>"

definition wbo_stop :: "wbo_t \<Rightarrow> wbo_t" where
  "wbo_stop o1 = o1\<lparr>o_buf := False, o_state := WBO_IDLE, o_forced := False\<rparr>"

definition why_detail :: "cstr \<Rightarrow> cstr \<Rightarrow> cstr" where
  "why_detail why detail = why @ (if detail \<noteq> [] then '': '' else []) @ detail"

definition wbo_fail :: "cstr \<Rightarrow> cstr \<Rightarrow> wbo_t \<Rightarrow> wbo_t" where
  "wbo_fail why detail o1 =
     wbo_stop ((set_status (''update to '' @ wbo_version_str (o_want o1) @ '' failed: '' @ why_detail why detail) o1)
       \<lparr>o_failed := o_want o1\<rparr>)"

definition fail_transient :: "cstr \<Rightarrow> cstr \<Rightarrow> wbo_t \<Rightarrow> wbo_t" where
  "fail_transient why detail o1 =
     (if o_tries o1 \<ge> WBO_TRIES then wbo_fail why detail o1
      else wbo_stop (set_status (''update to '' @ wbo_version_str (o_want o1) @ '' failed (will retry): '' @
             why_detail why detail) o1))"

definition wbo_start :: "wbo_ans \<Rightarrow> u8 \<Rightarrow> bytes \<Rightarrow> u32 \<Rightarrow> wbo_t \<Rightarrow> wbo_t" where
  "wbo_start a ty body t o1 = (if a_start a = 0 then o1\<lparr>o_sent := o_sent o1 @ [(ty, body, t)]\<rparr> else o1)"

definition chunk_body :: "u32 \<Rightarrow> bytes \<Rightarrow> bytes" where
  "chunk_body off d = [BWP_T_OFFSET, 0, 4] @ put_be32 off @ [BWP_T_DATA] @ put_be16 (of_nat (length d)) @ d"

definition send_chunk :: "wbo_ans \<Rightarrow> wbo_t \<Rightarrow> wbo_t" where
  "send_chunk a o1 =
     (let n = (if o_size o1 - o_off o1 < WBO_CHUNK then o_size o1 - o_off o1 else WBO_CHUNK) in
      case a_read a (o_off o1) n of
        None \<Rightarrow> wbo_fail ''the pod could not read the image from its W25Q'' [] o1
      | Some d \<Rightarrow>
          let rc = a_start a;
              o2 = (wbo_start a BWP_OTA_DATA (chunk_body (o_off o1) d) 2000 o1)\<lparr>o_resend := (rc = -1)\<rparr>
          in if rc \<noteq> 0 \<and> rc \<noteq> -1 then wbo_fail ''the bridge cannot take a request'' [] o2
             else set_status (''updating to '' @ wbo_version_str (o_want o2) @ '': '' @
                    dec_digits (unat (o_off o2) * 100 div unat (o_size o2)) @ ''%'') o2)"

definition send_simple :: "wbo_ans \<Rightarrow> u8 \<Rightarrow> u32 \<Rightarrow> wbo_t \<Rightarrow> wbo_t" where
  "send_simple a ty t o1 =
     (let rc = a_start a;
          o2 = (wbo_start a ty [] t o1)\<lparr>o_resend := (rc = -1)\<rparr>
      in if rc \<noteq> 0 \<and> rc \<noteq> -1 then wbo_fail ''the bridge cannot take a request'' [] o2 else o2)"

subsection \<open>Starting an update\<close>

definition begin_body :: "u32 \<Rightarrow> bytes \<Rightarrow> bytes" where
  "begin_body sz manifest =
     [BWP_T_IMAGE_SIZE, 0, 4] @ put_be32 sz @ [BWP_T_SIGNATURE] @ put_be16 (of_nat WBO_MANIFEST_LEN) @
     take WBO_MANIFEST_LEN manifest"

definition launch :: "wbo_ans \<Rightarrow> u32 \<Rightarrow> wbo_image_t \<Rightarrow> bool \<Rightarrow> wbo_t \<Rightarrow> wbo_t" where
  "launch a have_v img forced o1 =
     (if \<not> a_alloc a then set_status ''update waiting: out of memory'' o1
      else
        let o1 = o1\<lparr>o_buf := True, o_want := im_version img\<rparr>;
            o1 = (if o_tries_for o1 \<noteq> o_want o1 \<or> forced then o1\<lparr>o_tries_for := o_want o1, o_tries := 0\<rparr> else o1);
            o1 = o1\<lparr>o_tries := o_tries o1 + 1, o_seen_new := False, o_size := im_size img, o_off := 0\<rparr>;
            o1 = wbo_start a BWP_OTA_BEGIN (begin_body (im_size img) (im_manifest img)) 30000 o1
        in if a_start a \<noteq> 0 then o1\<lparr>o_buf := False\<rparr>
           else set_status (''updating '' @ (if have_v \<noteq> 0 then wbo_version_str have_v else ''?'') @ '' to '' @
                  wbo_version_str (o_want o1) @ '': starting'') (o1\<lparr>o_state := WBO_BEGIN\<rparr>))"

definition cannot_update :: "cstr \<Rightarrow> bool \<Rightarrow> wbo_t \<Rightarrow> wbo_t" where
  "cannot_update why forced o1 =
     (if forced then (set_status (''cannot update: '' @ why) o1)\<lparr>o_forced := False\<rparr> else o1)"

definition try_start :: "wbo_ans \<Rightarrow> wb_info_t \<Rightarrow> wbo_image_t \<Rightarrow> bool \<Rightarrow> u32 \<Rightarrow> wbo_t \<Rightarrow> wbo_t" where
  "try_start a br img bus_free now o1 =
     (let forced = o_forced o1;
          o1 = o1\<lparr>o_next_check := now + WBO_CHECK_EVERY_MS\<rparr>;
          have_v = (if wi_present br then wbo_pack_version (Some (wi_fw_version br)) else 0)
      in if \<not> im_present img then cannot_update ''the pod holds no bridge image (slot \"bridge\")'' forced o1
         else if \<not> wi_present br then cannot_update ''no Wi-Fi bridge on the Ethernet port'' forced o1
         else if \<not> wi_paired br then cannot_update ''the bridge is not paired with this pod'' forced o1
         else if wi_flags br AND (BWP_F_PENDING_VERIFY OR BWP_F_OTA_ACTIVE) \<noteq> 0
         then cannot_update ''the bridge is busy with another update'' forced o1
         else if \<not> forced \<and> wbo_is_emc_build (wi_fw_version br)
         then set_status ''no automatic update: the bridge runs an EMC test build'' o1
         else if \<not> forced \<and> (have_v = 0 \<or> im_version img \<le> have_v \<or> im_version img = o_failed o1) then o1
         else if \<not> bus_free then set_status ''update waiting: the bus is busy'' o1
         else launch a have_v img forced o1)"

subsection \<open>One step\<close>

definition wait_back :: "wb_info_t \<Rightarrow> u32 \<Rightarrow> wbo_t \<Rightarrow> wbo_t" where
  "wait_back br now o1 =
     (let v = wbo_version_str (o_want o1);
          running = (wi_present br \<and> wbo_pack_version (Some (wi_fw_version br)) = o_want o1)
      in if running \<and> wi_hello_flags br AND BWP_F_PENDING_VERIFY \<noteq> 0 then
           set_status (''updating to '' @ v @ '': on trial, waiting for the bridge to confirm'') (o1\<lparr>o_seen_new := True\<rparr>)
         else if running then
           wbo_stop ((set_status (''updated to '' @ v) o1)\<lparr>o_failed := 0, o_tries := 0\<rparr>)
         else if wi_present br \<and> o_seen_new o1 then wbo_fail ''the bridge rolled back to its previous firmware'' [] o1
         else if wbo_elapsed now (o_deadline o1) then
           (if wi_present br then wbo_fail ''the bridge came back with its old firmware (rolled back?)'' [] o1
            else fail_transient ''the bridge did not come back'' [] o1)
         else o1)"

fun step_name :: "wbo_state_t \<Rightarrow> cstr" where
  "step_name WBO_BEGIN = ''OTA_BEGIN''"
| "step_name WBO_DATA = ''OTA_DATA''"
| "step_name WBO_END = ''OTA_END''"
| "step_name _ = ''REBOOT''"

definition answered_step :: "wbo_ans \<Rightarrow> wb_reply_t \<Rightarrow> wbo_t \<Rightarrow> wbo_t" where
  "answered_step a rep o1 =
     (let r = wr_result rep in
      case o_state o1 of
        WBO_BEGIN \<Rightarrow>
          if r \<noteq> bwp_result_u8 BWP_OK then wbo_fail (wb_result_str r) (wr_message rep) o1
          else send_chunk a (o1\<lparr>o_state := WBO_DATA\<rparr>)
      | WBO_DATA \<Rightarrow>
          if r \<noteq> bwp_result_u8 BWP_OK \<and> r \<noteq> bwp_result_u8 BWP_E_OTA_BAD_OFFSET
          then wbo_fail (wb_result_str r) (wr_message rep) o1
          else
            let o2 = o1\<lparr>o_off := wr_offset rep\<rparr> in
            if o_off o2 > o_size o2 then wbo_fail ''the bridge asked for an offset past the image'' [] o2
            else if o_off o2 = o_size o2 then send_simple a BWP_OTA_END 30000 (o2\<lparr>o_state := WBO_END\<rparr>)
            else send_chunk a o2
      | WBO_END \<Rightarrow>
          if r \<noteq> bwp_result_u8 BWP_OK then wbo_fail (wb_result_str r) (wr_message rep) o1
          else send_simple a BWP_REBOOT 1000 (o1\<lparr>o_state := WBO_REBOOT\<rparr>)
      | _ \<Rightarrow> o1)"

definition wbo_poll :: "wbo_ans \<Rightarrow> wb_info_t \<Rightarrow> wbo_image_t \<Rightarrow> bool \<Rightarrow> u32 \<Rightarrow> wbo_t \<Rightarrow> wbo_t" where
  "wbo_poll a br img bus_free now o1 =
     (if o_state o1 = WBO_IDLE then
        (if o_forced o1 \<or> wbo_elapsed now (o_next_check o1) then try_start a br img bus_free now o1 else o1)
      else if o_state o1 = WBO_WAIT_BACK then wait_back br now o1
      else if o_resend o1 then
        (case o_state o1 of
           WBO_DATA \<Rightarrow> send_chunk a o1
         | WBO_END \<Rightarrow> send_simple a BWP_OTA_END 30000 o1
         | WBO_REBOOT \<Rightarrow> send_simple a BWP_REBOOT 1000 o1
         | _ \<Rightarrow> o1)
      else
        case a_take a of
          (st, rep) \<Rightarrow>
            if st = WB_REQ_PENDING \<or> st = WB_REQ_IDLE then o1
            else if o_state o1 = WBO_REBOOT then
              set_status (''updating to '' @ wbo_version_str (o_want o1) @ '': waiting for the bridge to restart'')
                ((wbo_stop o1)\<lparr>o_state := WBO_WAIT_BACK, o_deadline := now + WBO_COME_BACK_MS\<rparr>)
            else if st = WB_REQ_TIMEOUT then
              fail_transient (snprintf 48 (''no answer to '' @ step_name (o_state o1))) (wr_message rep) o1
            else answered_step a rep o1)"

datatype wbo_ev = O_poll wbo_ans wb_info_t wbo_image_t bool u32 | O_force

fun wbo_do :: "wbo_ev \<Rightarrow> wbo_t \<Rightarrow> wbo_t" where
  "wbo_do (O_poll a br img bus now) o1 = wbo_poll a br img bus now o1"
| "wbo_do O_force o1 = wbo_force o1"

definition wbo_run :: "wbo_ev list \<Rightarrow> wbo_t \<Rightarrow> wbo_t" where
  "wbo_run evs o1 = fold wbo_do evs o1"

subsection \<open>Versions read back\<close>

lemma digit_chars: "(d :: nat) < 10 \<Longrightarrow> is_digit (char_of (48 + d))"
  by (simp add: is_digit_def)

lemma dec_digits_digits: "list_all is_digit (dec_digits n)"
proof (induction n rule: dec_digits.induct)
  case (1 n)
  have "n mod 10 < 10" by simp
  then have m: "is_digit (char_of (48 + n mod 10))" by (rule digit_chars)
  show ?case
  proof (cases "n < 10")
    case True
    then show ?thesis using digit_chars [OF True] by (subst dec_digits.simps) simp
  next
    case False
    then show ?thesis using 1 [OF False] m by (subst dec_digits.simps) simp
  qed
qed

lemma scan_u_digits:
  assumes "n < 2 ^ 32" and "rest = [] \<or> \<not> is_digit (hd rest)"
  shows "scan_u (dec_digits n @ rest) = Some (n, rest)"
proof -
  obtain c cs where d: "dec_digits n = c # cs" by (cases "dec_digits n") auto
  have dig: "\<forall>x \<in> set (dec_digits n). is_digit x" using dec_digits_digits [of n] by (simp add: list_all_iff)
  then have c: "is_digit c" by (simp add: d)
  then have ns: "\<not> scan_space c" "c \<noteq> CHR ''-''" "c \<noteq> CHR ''+''" by (auto simp: is_digit_def scan_space_def)
  have dw: "dropWhile scan_space (dec_digits n @ rest) = dec_digits n @ rest" using ns by (simp add: d)
  have tk: "takeWhile is_digit (dec_digits n @ rest) = dec_digits n" "dropWhile is_digit (dec_digits n @ rest) = rest"
    using dig assms(2) by (cases rest; simp add: takeWhile_append2 dropWhile_append2)+
  have h: "hd (dec_digits n @ rest) = c" by (simp add: d)
  show ?thesis
    unfolding scan_u_def Let_def dw h using assms(1) ns tk dec_value_digits [of n] by (simp del: dec_value.simps)
qed

lemma version_roundtrip:
  assumes "unat v < 2 ^ 24"
  shows "wbo_pack_version (Some (wbo_version_str v)) = v"
proof -
  let ?a = "unat (drop_bit 16 v AND 0xff)" and ?b = "unat (drop_bit 8 v AND 0xff)" and ?c = "unat (v AND 0xff)"
  have m: "w AND 0xff = take_bit 8 w" for w :: u32
    by (simp add: take_bit_eq_mask mask_numeral)
  have lt: "unat (w AND 0xff) < 256" for w :: u32
    unfolding m using take_bit_nat_less_exp [of 8 "unat w"] by (simp add: unsigned_take_bit_eq)
  have len: "length (dec_digits n) \<le> 3" if "n < 256" for n
    using that by (simp add: dec_digits.simps [of n] dec_digits.simps [of "n div 10"] dec_digits.simps [of "n div 10 div 10"])
  have fit: "wbo_version_str v = dec_digits ?a @ ''.'' @ dec_digits ?b @ ''.'' @ dec_digits ?c"
    unfolding wbo_version_str_def
    by (rule snprintf_fits) (use len [OF lt, of "drop_bit 16 v"] len [OF lt, of "drop_bit 8 v"] len [OF lt, of v] in simp)
  have dot: "\<not> is_digit (CHR ''.'')" by (simp add: is_digit_def)
  have big: "unat (w AND 0xff) < 2 ^ 32" for w :: u32 using lt [of w] by simp
  have s1: "scan_u (dec_digits ?a @ CHR ''.'' # dec_digits ?b @ CHR ''.'' # dec_digits ?c) =
      Some (?a, CHR ''.'' # dec_digits ?b @ CHR ''.'' # dec_digits ?c)"
    by (rule scan_u_digits [OF big]) (simp add: dot)
  have s2: "scan_u (dec_digits ?b @ CHR ''.'' # dec_digits ?c) = Some (?b, CHR ''.'' # dec_digits ?c)"
    by (rule scan_u_digits [OF big]) (simp add: dot)
  have s3: "scan_u (dec_digits ?c) = Some (?c, [])"
    using scan_u_digits [OF big, of "[]" v] by simp
  have v24: "take_bit 24 v = v"
    using assms take_bit_nat_eq_self [of "unat v" 24] by (intro word_unat_eq_iff [THEN iffD2]) (simp add: unsigned_take_bit_eq)
  have "push_bit 16 (drop_bit 16 v AND 0xff) OR push_bit 8 (drop_bit 8 v AND 0xff) OR (v AND 0xff) = take_bit 24 v"
    unfolding m
  proof (rule bit_word_eqI)
    fix n
    show "bit (push_bit 16 (take_bit 8 (drop_bit 16 v)) OR push_bit 8 (take_bit 8 (drop_bit 8 v)) OR take_bit 8 v) n =
        bit (take_bit 24 v) n"
    proof (cases "16 \<le> n")
      case True
      then show ?thesis by (auto simp: bit_simps)
    next
      case False
      then show ?thesis by (cases "8 \<le> n") (auto simp: bit_simps)
    qed
  qed
  then have "push_bit 16 (of_nat ?a) OR push_bit 8 (of_nat ?b) OR of_nat ?c = v" by (simp add: v24)
  moreover have "\<not> ?a > 255 \<and> \<not> ?b > 255 \<and> \<not> ?c > 255" using lt [of "drop_bit 16 v"] lt [of "drop_bit 8 v"] lt [of v] by simp
  ultimately show ?thesis
    unfolding wbo_pack_version_def fit append_Cons append_Nil option.case s1 prod.case list.case
    by (simp add: s2 s3)
qed

subsection \<open>The order of the requests\<close>

definition follows :: "u8 \<Rightarrow> u8 \<Rightarrow> bool" where
  "follows p t \<longleftrightarrow> t = BWP_OTA_BEGIN \<or> (t = BWP_OTA_DATA \<and> (p = BWP_OTA_BEGIN \<or> p = BWP_OTA_DATA)) \<or>
     (t = BWP_OTA_END \<and> p = BWP_OTA_DATA) \<or> (t = BWP_REBOOT \<and> p = BWP_OTA_END)"

definition relay_order :: "(u8 \<times> bytes \<times> u32) list \<Rightarrow> bool" where
  "relay_order xs \<longleftrightarrow> successively follows (map fst xs) \<and> (xs \<noteq> [] \<longrightarrow> fst (hd xs) = BWP_OTA_BEGIN)"

definition from_slot :: "wbo_image_t \<Rightarrow> bytes \<Rightarrow> u8 \<times> bytes \<times> u32 \<Rightarrow> bool" where
  "from_slot img data x \<longleftrightarrow>
     (fst x = BWP_OTA_BEGIN \<longrightarrow> fst (snd x) = begin_body (im_size img) (im_manifest img)) \<and>
     (fst x = BWP_OTA_DATA \<longrightarrow> (\<exists>off. unat off \<le> length data \<and>
        fst (snd x) = chunk_body off (take 1024 (drop (unat off) data))))"

definition reads_slot :: "bytes \<Rightarrow> wbo_ans \<Rightarrow> bool" where
  "reads_slot data a \<longleftrightarrow> (\<forall>off n. a_read a off n = None \<or> a_read a off n = Some (take (unat n) (drop (unat off) data)))"

text \<open>The last request sent, which the state knows of.\<close>

definition last_sent :: "wbo_t \<Rightarrow> u8 \<Rightarrow> bool" where
  "last_sent o1 t \<longleftrightarrow> o_sent o1 \<noteq> [] \<and> fst (last (o_sent o1)) = t"

fun tail_ok :: "wbo_state_t \<Rightarrow> wbo_t \<Rightarrow> bool" where
  "tail_ok WBO_BEGIN o1 = last_sent o1 BWP_OTA_BEGIN"
| "tail_ok WBO_DATA o1 = (last_sent o1 BWP_OTA_DATA \<or> (o_resend o1 \<and> last_sent o1 BWP_OTA_BEGIN))"
| "tail_ok WBO_END o1 = (o_off o1 = o_size o1 \<and> last_sent o1 (if o_resend o1 then BWP_OTA_DATA else BWP_OTA_END))"
| "tail_ok WBO_REBOOT o1 = (o_off o1 = o_size o1 \<and> last_sent o1 (if o_resend o1 then BWP_OTA_END else BWP_REBOOT))"
| "tail_ok _ o1 = True"

definition relayed :: "wbo_image_t \<Rightarrow> bytes \<Rightarrow> wbo_t \<Rightarrow> bool" where
  "relayed img data o1 \<longleftrightarrow> relay_order (o_sent o1) \<and> list_all (from_slot img data) (o_sent o1) \<and>
     (wbo_busy o1 \<longrightarrow> o_size o1 = im_size img \<and> o_off o1 \<le> o_size o1) \<and> tail_ok (o_state o1) o1"

lemmas wbo_types = BWP_OTA_BEGIN_def BWP_OTA_DATA_def BWP_OTA_END_def BWP_REBOOT_def

lemma relay_order_snoc:
  "relay_order (xs @ [x]) \<longleftrightarrow> relay_order xs \<and> (if xs = [] then fst x = BWP_OTA_BEGIN else follows (fst (last xs)) (fst x))"
  by (auto simp: relay_order_def successively_append_iff last_map hd_append)

lemma relayed_idle:
  "relayed img data o1 \<Longrightarrow> o_sent o2 = o_sent o1 \<Longrightarrow> o_state o2 = WBO_IDLE \<or> o_state o2 = WBO_WAIT_BACK \<Longrightarrow>
   relayed img data o2"
  by (auto simp: relayed_def wbo_busy_def)

lemma fail_sel [simp]:
  "o_sent (wbo_fail why d o1) = o_sent o1" "o_resend (wbo_fail why d o1) = o_resend o1" "o_state (wbo_fail why d o1) = WBO_IDLE"
  "o_sent (fail_transient why d o1) = o_sent o1" "o_state (fail_transient why d o1) = WBO_IDLE"
  "o_sent (set_status st o1) = o_sent o1" "o_state (set_status st o1) = o_state o1"
  "o_size (set_status st o1) = o_size o1" "o_off (set_status st o1) = o_off o1" "o_resend (set_status st o1) = o_resend o1"
  "o_sent (wbo_stop o1) = o_sent o1" "o_state (wbo_stop o1) = WBO_IDLE"
  by (simp_all add: wbo_fail_def fail_transient_def wbo_stop_def set_status_def)

lemma start_sel [simp]:
  "o_state (wbo_start a ty b t o1) = o_state o1" "o_size (wbo_start a ty b t o1) = o_size o1"
  "o_off (wbo_start a ty b t o1) = o_off o1"
  by (simp_all add: wbo_start_def)

lemma slot_chunk:
  assumes "reads_slot data a" "length data = unat sz" "off \<le> sz"
    and "a_read a off (if sz - off < WBO_CHUNK then sz - off else WBO_CHUNK) = Some d"
  shows "d = take 1024 (drop (unat off) data) \<and> unat off \<le> length data"
proof -
  have o: "unat off \<le> unat sz" using assms(3) by (simp add: word_le_nat_alt)
  then have u: "unat (sz - off) = unat sz - unat off" using assms(3) by (rule_tac unat_sub)
  have d: "d = take (unat (if sz - off < WBO_CHUNK then sz - off else WBO_CHUNK)) (drop (unat off) data)"
    using assms(1) [unfolded reads_slot_def, rule_format, of off "if sz - off < WBO_CHUNK then sz - off else WBO_CHUNK"]
    unfolding assms(4) by blast
  show ?thesis
  proof (cases "sz - off < WBO_CHUNK")
    case True
    then have "unat sz - unat off < 1024" using u by (simp add: WBO_CHUNK_def word_less_nat_alt)
    then show ?thesis using d True u o assms(2) by simp
  next
    case False
    then show ?thesis using d o assms(2) by (simp add: WBO_CHUNK_def)
  qed
qed

lemma send_chunk_relayed:
  assumes r: "relay_order (o_sent o1)" "list_all (from_slot img data) (o_sent o1)" and l: "length data = unat (im_size img)"
    and s: "o_state o1 = WBO_DATA" "o_size o1 = im_size img" "o_off o1 \<le> o_size o1"
    and t: "last_sent o1 BWP_OTA_BEGIN \<or> last_sent o1 BWP_OTA_DATA" and a: "reads_slot data a"
  shows "relayed img data (send_chunk a o1)"
proof -
  have base: "relayed img data o2" if "o_sent o2 = o_sent o1" "o_state o2 = WBO_IDLE" for o2
    using r that by (simp add: relayed_def wbo_busy_def)
  let ?n = "if o_size o1 - o_off o1 < WBO_CHUNK then o_size o1 - o_off o1 else WBO_CHUNK"
  show ?thesis
  proof (cases "a_read a (o_off o1) ?n")
    case None
    then show ?thesis by (intro base) (simp_all add: send_chunk_def)
  next
    case (Some d)
    have d: "d = take 1024 (drop (unat (o_off o1)) data)" "unat (o_off o1) \<le> length data"
      using slot_chunk [OF a _ s(3) Some] l s(2) by simp_all
    have e: "send_chunk a o1 = (let rc = a_start a;
          o2 = (wbo_start a BWP_OTA_DATA (chunk_body (o_off o1) d) 2000 o1)\<lparr>o_resend := (rc = -1)\<rparr>
      in if rc \<noteq> 0 \<and> rc \<noteq> -1 then wbo_fail ''the bridge cannot take a request'' [] o2
             else set_status (''updating to '' @ wbo_version_str (o_want o2) @ '': '' @
                    dec_digits (unat (o_off o2) * 100 div unat (o_size o2)) @ ''%'') o2)"
      unfolding send_chunk_def Let_def Some by simp
    consider (ok) "a_start a = 0" | (busy) "a_start a = -1" | (bad) "a_start a \<noteq> 0" "a_start a \<noteq> -1" by blast
    then show ?thesis
    proof cases
      case ok
      have "relay_order (o_sent o1 @ [(BWP_OTA_DATA, chunk_body (o_off o1) d, 2000)])"
        using r(1) t by (auto simp: relay_order_snoc last_sent_def follows_def)
      moreover have "from_slot img data (BWP_OTA_DATA, chunk_body (o_off o1) d, 2000)"
        using d by (auto simp: from_slot_def wbo_types)
      ultimately show ?thesis
        using ok r(2) s unfolding e by (simp add: relayed_def wbo_start_def wbo_busy_def last_sent_def)
    next
      case busy
      then show ?thesis using r s t unfolding e
        by (auto simp: relayed_def wbo_start_def wbo_busy_def last_sent_def)
    next
      case bad
      then show ?thesis unfolding e by (intro base) (simp_all add: wbo_start_def)
    qed
  qed
qed

lemma send_simple_relayed:
  assumes r: "relay_order (o_sent o1)" "list_all (from_slot img data) (o_sent o1)"
    and s: "o_size o1 = im_size img" "o_off o1 = o_size o1"
    and k: "(ty = BWP_OTA_END \<and> o_state o1 = WBO_END \<and> last_sent o1 BWP_OTA_DATA) \<or>
            (ty = BWP_REBOOT \<and> o_state o1 = WBO_REBOOT \<and> last_sent o1 BWP_OTA_END)"
  shows "relayed img data (send_simple a ty t o1)"
proof -
  consider (ok) "a_start a = 0" | (busy) "a_start a = -1" | (bad) "a_start a \<noteq> 0" "a_start a \<noteq> -1" by blast
  then show ?thesis
  proof cases
    case ok
    have "relay_order (o_sent o1 @ [(ty, [], t)])"
      using r(1) k by (auto simp: relay_order_snoc last_sent_def follows_def)
    moreover have "from_slot img data (ty, [], t)" using k by (auto simp: from_slot_def wbo_types)
    ultimately show ?thesis using ok r(2) s k
      by (auto simp: send_simple_def wbo_start_def relayed_def wbo_busy_def last_sent_def)
  next
    case busy
    then show ?thesis using r s k by (auto simp: send_simple_def wbo_start_def relayed_def wbo_busy_def last_sent_def)
  next
    case bad
    then show ?thesis using r by (simp add: send_simple_def wbo_start_def relayed_def wbo_busy_def Let_def)
  qed
qed

lemma try_start_relayed:
  assumes r: "relayed img data o1" and idle: "o_state o1 = WBO_IDLE" and l: "length data = unat (im_size img)"
  shows "relayed img data (try_start a br img bus now o1)"
proof -
  have base: "relayed img data o2" if "o_sent o2 = o_sent o1" "o_state o2 = WBO_IDLE" for o2
    using relayed_idle [OF r that(1)] that(2) by simp
  have l2: "relayed img data (launch a h img f o2)" if "o_sent o2 = o_sent o1" "o_state o2 = WBO_IDLE" for h f o2
  proof (cases "a_alloc a \<and> a_start a = 0")
    case True
    have "relay_order (o_sent o1 @ [(BWP_OTA_BEGIN, begin_body (im_size img) (im_manifest img), 30000)])"
      using r by (auto simp: relayed_def relay_order_snoc follows_def)
    moreover have "from_slot img data (BWP_OTA_BEGIN, begin_body (im_size img) (im_manifest img), 30000)"
      by (auto simp: from_slot_def wbo_types)
    ultimately show ?thesis using r True that
      by (simp add: launch_def Let_def relayed_def wbo_start_def wbo_busy_def last_sent_def set_status_def)
  next
    case False
    then show ?thesis using that idle by (intro base) (auto simp: launch_def Let_def wbo_start_def)
  qed
  show ?thesis
    unfolding try_start_def Let_def
    by (simp add: l2 base idle cannot_update_def)
qed

lemma answered_relayed:
  assumes r: "relayed img data o1" and l: "length data = unat (im_size img)" and a: "reads_slot data a"
    and nr: "\<not> o_resend o1"
  shows "relayed img data (answered_step a rep o1)"
proof -
  have b: "relay_order (o_sent o1)" "list_all (from_slot img data) (o_sent o1)"
      "wbo_busy o1 \<Longrightarrow> o_size o1 = im_size img \<and> o_off o1 \<le> o_size o1" "tail_ok (o_state o1) o1"
    using r unfolding relayed_def by blast+
  have f: "relayed img data o2" if "o_sent o2 = o_sent o1" "o_state o2 = WBO_IDLE" for o2
    using relayed_idle [OF r that(1)] that(2) by simp
  show ?thesis
  proof (cases "o_state o1")
    case WBO_BEGIN
    have "wbo_busy o1" using WBO_BEGIN by (simp add: wbo_busy_def)
    note sz = b(3) [OF this, THEN conjunct1] b(3) [OF this, THEN conjunct2]
    have t: "last_sent o1 BWP_OTA_BEGIN" using b(4) WBO_BEGIN by simp
    have "relayed img data (send_chunk a (o1\<lparr>o_state := WBO_DATA\<rparr>))"
      by (rule send_chunk_relayed) (use b(1,2) l a t sz in \<open>simp_all add: last_sent_def\<close>)
    then show ?thesis using WBO_BEGIN f by (simp add: answered_step_def Let_def)
  next
    case WBO_DATA
    have t: "last_sent o1 BWP_OTA_DATA" using b(4) nr WBO_DATA by simp
    have sz: "o_size o1 = im_size img" using b(3) WBO_DATA by (simp add: wbo_busy_def)
    let ?o2 = "o1\<lparr>o_off := wr_offset rep\<rparr>"
    have c: "relayed img data (send_chunk a ?o2)" if "\<not> o_off ?o2 > o_size ?o2"
      by (rule send_chunk_relayed) (use b l a WBO_DATA t sz that in \<open>simp_all add: last_sent_def not_less\<close>)
    have e: "relayed img data (send_simple a BWP_OTA_END 30000 (?o2\<lparr>o_state := WBO_END\<rparr>))" if "o_off ?o2 = o_size ?o2"
      by (rule send_simple_relayed) (use b t sz that in \<open>simp_all add: last_sent_def\<close>)
    show ?thesis using WBO_DATA c e f by (simp add: answered_step_def Let_def)
  next
    case WBO_END
    have "relayed img data (send_simple a BWP_REBOOT 1000 (o1\<lparr>o_state := WBO_REBOOT\<rparr>))"
      by (rule send_simple_relayed) (use b nr WBO_END in \<open>simp_all add: last_sent_def wbo_busy_def\<close>)
    then show ?thesis using WBO_END f by (simp add: answered_step_def Let_def)
  qed (use r in \<open>simp_all add: answered_step_def Let_def\<close>)
qed

lemma resend_relayed:
  assumes r: "relayed img data o1" and l: "length data = unat (im_size img)" and a: "reads_slot data a"
    and rs: "o_resend o1"
  shows "o_state o1 = WBO_DATA \<Longrightarrow> relayed img data (send_chunk a o1)"
    and "o_state o1 = WBO_END \<Longrightarrow> relayed img data (send_simple a BWP_OTA_END 30000 o1)"
    and "o_state o1 = WBO_REBOOT \<Longrightarrow> relayed img data (send_simple a BWP_REBOOT 1000 o1)"
proof -
  have b: "relay_order (o_sent o1)" "list_all (from_slot img data) (o_sent o1)"
      "wbo_busy o1 \<Longrightarrow> o_size o1 = im_size img \<and> o_off o1 \<le> o_size o1" "tail_ok (o_state o1) o1"
    using r unfolding relayed_def by blast+
  show "relayed img data (send_chunk a o1)" if st: "o_state o1 = WBO_DATA"
  proof (rule send_chunk_relayed)
    have busy: "wbo_busy o1" using st by (simp add: wbo_busy_def)
    show "o_size o1 = im_size img" "o_off o1 \<le> o_size o1" by (rule b(3) [OF busy, THEN conjunct1], rule b(3) [OF busy, THEN conjunct2])
    show "last_sent o1 BWP_OTA_BEGIN \<or> last_sent o1 BWP_OTA_DATA" using b(4) st by auto
  qed (use b(1,2) l a st in simp_all)
  show "relayed img data (send_simple a BWP_OTA_END 30000 o1)" if st: "o_state o1 = WBO_END"
  proof (rule send_simple_relayed)
    show "o_size o1 = im_size img" "o_off o1 = o_size o1" using b(3,4) st by (simp_all add: wbo_busy_def)
  qed (use b st rs in simp_all)
  show "relayed img data (send_simple a BWP_REBOOT 1000 o1)" if st: "o_state o1 = WBO_REBOOT"
  proof (rule send_simple_relayed)
    show "o_size o1 = im_size img" "o_off o1 = o_size o1" using b(3,4) st by (simp_all add: wbo_busy_def)
  qed (use b st rs in simp_all)
qed

lemma wait_relayed:
  assumes r: "relayed img data o1" and w: "o_state o1 = WBO_WAIT_BACK"
  shows "relayed img data (wait_back br now o1)"
  by (rule relayed_idle [OF r]) (use w in \<open>simp_all add: wait_back_def Let_def\<close>)

lemma poll_relayed:
  assumes r: "relayed img data o1" and l: "length data = unat (im_size img)" and a: "reads_slot data a"
  shows "relayed img data (wbo_poll a br img bus now o1)"
proof -
  have idle: "relayed img data o2" if "o_sent o2 = o_sent o1" "o_state o2 = WBO_IDLE \<or> o_state o2 = WBO_WAIT_BACK" for o2
    using relayed_idle [OF r that] .
  show ?thesis
  proof (cases "o_state o1 = WBO_IDLE \<or> o_state o1 = WBO_WAIT_BACK \<or> o_resend o1")
    case True
    then show ?thesis
      using try_start_relayed [OF r _ l] wait_relayed [OF r] resend_relayed [OF r l a] r
      by (cases "o_state o1") (auto simp: wbo_poll_def)
  next
    case False
    obtain st rep where t: "a_take a = (st, rep)" by (cases "a_take a")
    show ?thesis
      unfolding wbo_poll_def t prod.case
      using False answered_relayed [OF r l a, of rep] r by (simp add: idle)
  qed
qed

fun ev_ok :: "wbo_image_t \<Rightarrow> bytes \<Rightarrow> wbo_ev \<Rightarrow> bool" where
  "ev_ok img data (O_poll a br i bus now) \<longleftrightarrow> i = img \<and> reads_slot data a"
| "ev_ok img data O_force \<longleftrightarrow> True"

subsection \<open>What one poll sends\<close>

definition may_start :: "wb_info_t \<Rightarrow> wbo_image_t \<Rightarrow> bool \<Rightarrow> u32 \<Rightarrow> wbo_t \<Rightarrow> bool" where
  "may_start br img bus_free now o1 \<longleftrightarrow> o_state o1 = WBO_IDLE \<and> im_present img \<and> wi_present br \<and> wi_paired br \<and>
     wi_flags br AND (BWP_F_PENDING_VERIFY OR BWP_F_OTA_ACTIVE) = 0 \<and> bus_free \<and>
     (o_forced o1 \<or>
      (wbo_elapsed now (o_next_check o1) \<and> \<not> wbo_is_emc_build (wi_fw_version br) \<and>
       wbo_pack_version (Some (wi_fw_version br)) \<noteq> 0 \<and>
       im_version img > wbo_pack_version (Some (wi_fw_version br)) \<and> im_version img \<noteq> o_failed o1))"

definition sends :: "wbo_t \<Rightarrow> u8 \<times> bytes \<times> u32 \<Rightarrow> wbo_t \<Rightarrow> bool" where
  "sends o1 x o2 \<longleftrightarrow> o_sent o2 = o_sent o1 @ [x] \<and> \<not> o_resend o2"

lemma poll_starts:
  assumes "may_start br img bus_free now o1" and "a_alloc a" and "a_start a = 0"
  shows "let o2 = wbo_poll a br img bus_free now o1 in
    o_sent o2 = o_sent o1 @ [(BWP_OTA_BEGIN, begin_body (im_size img) (im_manifest img), 30000)] \<and>
    o_state o2 = WBO_BEGIN \<and> o_off o2 = 0 \<and> o_size o2 = im_size img \<and> o_resend o2 = o_resend o1"
proof -
  have "\<exists>v f o0. wbo_poll a br img bus_free now o1 = launch a v img f o0 \<and> o_sent o0 = o_sent o1 \<and> o_resend o0 = o_resend o1"
    using assms(1) unfolding may_start_def wbo_poll_def try_start_def Let_def
    by (intro exI [of _ "wbo_pack_version (Some (wi_fw_version br))"] exI [of _ "o_forced o1"]
        exI [of _ "o1\<lparr>o_next_check := now + WBO_CHECK_EVERY_MS\<rparr>"]) auto
  then obtain v f o0 where l: "wbo_poll a br img bus_free now o1 = launch a v img f o0" "o_sent o0 = o_sent o1"
      "o_resend o0 = o_resend o1" by blast
  show ?thesis using l assms(2,3) by (simp add: launch_def Let_def wbo_start_def)
qed

lemma chunk_sends:
  assumes "a_read a (o_off o1) (if o_size o1 - o_off o1 < WBO_CHUNK then o_size o1 - o_off o1 else WBO_CHUNK) = Some d"
    and "a_start a = 0"
  shows "sends o1 (BWP_OTA_DATA, chunk_body (o_off o1) d, 2000) (send_chunk a o1)"
    and "o_state (send_chunk a o1) = o_state o1" "o_off (send_chunk a o1) = o_off o1" "o_size (send_chunk a o1) = o_size o1"
  unfolding send_chunk_def Let_def assms(1) option.case using assms(2) by (simp_all add: Let_def sends_def wbo_start_def)

lemma chunk_busy:
  assumes "a_read a (o_off o1) (if o_size o1 - o_off o1 < WBO_CHUNK then o_size o1 - o_off o1 else WBO_CHUNK) = Some d"
    and "a_start a = -1"
  shows "o_resend (send_chunk a o1)" "o_state (send_chunk a o1) = o_state o1"
  unfolding send_chunk_def Let_def assms(1) option.case using assms(2) by (simp_all add: Let_def wbo_start_def)

lemma chunk_unreadable:
  assumes "a_read a (o_off o1) (if o_size o1 - o_off o1 < WBO_CHUNK then o_size o1 - o_off o1 else WBO_CHUNK) = None"
  shows "o_resend (send_chunk a o1) = o_resend o1" "o_state (send_chunk a o1) = WBO_IDLE"
  unfolding send_chunk_def Let_def assms(1) option.case by simp_all

lemma simple_sends:
  assumes "a_start a = 0"
  shows "sends o1 (ty, [], t) (send_simple a ty t o1)" "o_state (send_simple a ty t o1) = o_state o1"
    "o_off (send_simple a ty t o1) = o_off o1" "o_size (send_simple a ty t o1) = o_size o1"
  using assms by (simp_all add: send_simple_def Let_def sends_def wbo_start_def)

text \<open>The answer to a request is read and the next one sent.\<close>

definition answers :: "wbo_ans \<Rightarrow> wb_reply_t \<Rightarrow> wbo_t \<Rightarrow> bool" where
  "answers a rep o1 \<longleftrightarrow> a_take a = (WB_REQ_DONE, rep) \<and> wr_result rep = bwp_result_u8 BWP_OK \<and> \<not> o_resend o1"

lemma poll_answered:
  assumes "answers a rep o1" and "o_state o1 = WBO_BEGIN \<or> o_state o1 = WBO_DATA \<or> o_state o1 = WBO_END"
  shows "wbo_poll a br img bus_free now o1 =
    (if o_state o1 = WBO_BEGIN then send_chunk a (o1\<lparr>o_state := WBO_DATA\<rparr>)
     else if o_state o1 = WBO_END then send_simple a BWP_REBOOT 1000 (o1\<lparr>o_state := WBO_REBOOT\<rparr>)
     else if wr_offset rep > o_size o1
     then wbo_fail ''the bridge asked for an offset past the image'' [] (o1\<lparr>o_off := wr_offset rep\<rparr>)
     else if wr_offset rep = o_size o1
     then send_simple a BWP_OTA_END 30000 (o1\<lparr>o_off := wr_offset rep, o_state := WBO_END\<rparr>)
     else send_chunk a (o1\<lparr>o_off := wr_offset rep\<rparr>))"
  using assms by (auto simp: answers_def wbo_poll_def answered_step_def Let_def)

lemma do_relayed:
  assumes "relayed img data o1" "length data = unat (im_size img)" "ev_ok img data ev"
  shows "relayed img data (wbo_do ev o1)"
proof (cases ev)
  case (O_poll a br i bus now)
  then show ?thesis using poll_relayed [OF assms(1,2), of a br bus now] assms(3) by simp
next
  case O_force
  have t: "tail_ok (o_state o1) (wbo_force o1) = tail_ok (o_state o1) o1"
    by (cases "o_state o1") (simp_all add: wbo_force_def last_sent_def)
  have f: "o_sent (wbo_force o1) = o_sent o1" "o_state (wbo_force o1) = o_state o1" "o_size (wbo_force o1) = o_size o1"
      "o_off (wbo_force o1) = o_off o1" "wbo_busy (wbo_force o1) = wbo_busy o1"
    by (simp_all add: wbo_force_def wbo_busy_def)
  show ?thesis using assms(1) unfolding O_force wbo_do.simps relayed_def f t .
qed

lemma run_relayed:
  assumes "length data = unat (im_size img)"
  shows "relayed img data o1 \<Longrightarrow> list_all (ev_ok img data) evs \<Longrightarrow> relayed img data (wbo_run evs o1)"
proof (induction evs arbitrary: o1)
  case Nil
  then show ?case by (simp add: wbo_run_def)
next
  case (Cons ev evs)
  then show ?case using do_relayed [OF Cons.prems(1) assms, of ev] by (simp add: wbo_run_def)
qed

text \<open>
  C10. The relay of a bridge update, over any polls, forced updates, answers and losses: the requests it sends are in
  the order \<open>OTA_BEGIN\<close>, \<open>OTA_DATA\<close> ..., \<open>OTA_END\<close>, \<open>REBOOT\<close> of one attempt after another, every
  \<open>OTA_BEGIN\<close> carries the size and manifest of the slot and every \<open>OTA_DATA\<close> the slot's own bytes at the offset it
  names, at most 1 KB of them; \<open>OTA_END\<close> and \<open>REBOOT\<close> come only when the bridge has taken the whole image.
\<close>
theorem relay_in_order:
  assumes "length data = unat (im_size img)" and "list_all (ev_ok img data) evs"
  shows "relay_order (o_sent (wbo_run evs wbo_init)) \<and> list_all (from_slot img data) (o_sent (wbo_run evs wbo_init)) \<and>
    (o_state (wbo_run evs wbo_init) = WBO_END \<or> o_state (wbo_run evs wbo_init) = WBO_REBOOT \<longrightarrow>
       o_off (wbo_run evs wbo_init) = im_size img)"
proof -
  have "relayed img data wbo_init" by (simp add: relayed_def wbo_init_def relay_order_def wbo_busy_def)
  note r = run_relayed [OF assms(1) this assms(2)]
  then show ?thesis
    unfolding relayed_def by (cases "o_state (wbo_run evs wbo_init)") (simp_all add: wbo_busy_def)
qed

definition relay_img :: wbo_image_t where
  "relay_img = \<lparr>im_present = True, im_size = 3, im_version = 0x000300, im_manifest = replicate 128 7\<rparr>"

definition demo_info :: wb_info_t where
  "demo_info = no_info\<lparr>wi_present := True, wi_paired := True, wi_fw_version := ''0.2.0''\<rparr>"

definition demo_ans :: "int \<Rightarrow> bool \<Rightarrow> u32 \<Rightarrow> wbo_ans" where
  "demo_ans rc readable off = \<lparr>a_start = rc, a_take = (WB_REQ_DONE, no_reply\<lparr>wr_offset := off\<rparr>),
     a_read = (\<lambda>off n. if readable then Some (take (unat n) (drop (unat off) [10, 20, 30])) else None), a_alloc = True\<rparr>"

definition demo_relay :: "int \<Rightarrow> bool \<Rightarrow> u32 \<Rightarrow> wbo_ev" where
  "demo_relay rc readable off = O_poll (demo_ans rc readable off) demo_info relay_img True 5000"

lemma demo_ans_sel [simp]:
  "a_start (demo_ans rc readable off) = rc" "a_alloc (demo_ans rc readable off)"
  "a_take (demo_ans rc readable off) = (WB_REQ_DONE, no_reply\<lparr>wr_offset := off\<rparr>)"
  "a_read (demo_ans rc True off) x n = Some (take (unat n) (drop (unat x) [10, 20, 30]))"
  "a_read (demo_ans rc False off) x n = None"
  by (simp_all add: demo_ans_def)

lemma demo_start:
  assumes "o_state o1 = WBO_IDLE" "o_forced o1"
  shows "may_start demo_info relay_img True 5000 o1"
  using assms by (simp add: may_start_def relay_img_def demo_info_def no_info_def)

lemma demo_begun:
  assumes "o_state o1 = WBO_IDLE" "o_forced o1"
  shows "o_state (wbo_do (demo_relay 0 readable off) o1) = WBO_BEGIN"
    "o_resend (wbo_do (demo_relay 0 readable off) o1) = o_resend o1"
    "o_size (wbo_do (demo_relay 0 readable off) o1) = 3"
    "map fst (o_sent (wbo_do (demo_relay 0 readable off) o1)) = map fst (o_sent o1) @ [BWP_OTA_BEGIN]"
  using poll_starts [OF demo_start [OF assms], of "demo_ans 0 readable off"] by (simp_all add: demo_relay_def Let_def) (simp add: relay_img_def)

lemma demo_answers: "\<not> o_resend o1 \<Longrightarrow> answers (demo_ans rc readable off) (no_reply\<lparr>wr_offset := off\<rparr>) o1"
  by (simp add: answers_def no_reply_def)

theorem relay_in_order_witness:
  "relay_order (o_sent (wbo_run [O_force, demo_relay 0 True 0, demo_relay 0 True 0, demo_relay 0 True 3] wbo_init)) \<and>
   map fst (o_sent (wbo_run [O_force, demo_relay 0 True 0, demo_relay 0 True 0, demo_relay 0 True 3] wbo_init)) =
     [BWP_OTA_BEGIN, BWP_OTA_DATA, BWP_OTA_END]"
proof
  let ?evs = "[O_force, demo_relay 0 True 0, demo_relay 0 True 0, demo_relay 0 True 3]"
  have l: "length [10, 20, 30 :: u8] = unat (im_size relay_img)" by (simp add: relay_img_def)
  have e: "list_all (ev_ok relay_img [10, 20, 30]) ?evs" by (simp add: demo_relay_def reads_slot_def)
  show "relay_order (o_sent (wbo_run ?evs wbo_init))" by (rule relay_in_order [OF l e, THEN conjunct1])
  define o1 where "o1 = wbo_do (demo_relay 0 True 0) (wbo_force wbo_init)"
  have b: "o_state o1 = WBO_BEGIN" "\<not> o_resend o1" "o_size o1 = 3" "map fst (o_sent o1) = [BWP_OTA_BEGIN]"
    using demo_begun [of "wbo_force wbo_init" True 0] by (simp_all add: o1_def wbo_force_def wbo_init_def)
  let ?a = "demo_ans 0 True 0"
  let ?d = "o1\<lparr>o_state := WBO_DATA\<rparr>"
  have rd: "a_read ?a (o_off ?d) (if o_size ?d - o_off ?d < WBO_CHUNK then o_size ?d - o_off ?d else WBO_CHUNK) =
      Some (take (unat (if o_size ?d - o_off ?d < WBO_CHUNK then o_size ?d - o_off ?d else WBO_CHUNK))
        (drop (unat (o_off ?d)) [10, 20, 30]))" by simp
  define o2 where "o2 = wbo_do (demo_relay 0 True 0) o1"
  have o2: "o2 = send_chunk ?a ?d" using poll_answered [OF demo_answers [OF b(2)]] b(1) by (simp add: o2_def demo_relay_def)
  have c: "o_state o2 = WBO_DATA" "\<not> o_resend o2" "o_size o2 = 3" "map fst (o_sent o2) = [BWP_OTA_BEGIN, BWP_OTA_DATA]"
    using chunk_sends [OF rd] b unfolding o2 by (simp_all add: sends_def)
  have "map fst (o_sent (wbo_do (demo_relay 0 True 3) o2)) = [BWP_OTA_BEGIN, BWP_OTA_DATA, BWP_OTA_END]"
    using poll_answered [OF demo_answers [OF c(2), of 0 True 3]] c simple_sends(1) [of "demo_ans 0 True 3"]
    by (simp add: demo_relay_def sends_def)
  then show "map fst (o_sent (wbo_run ?evs wbo_init)) = [BWP_OTA_BEGIN, BWP_OTA_DATA, BWP_OTA_END]"
    by (simp add: wbo_run_def o2_def o1_def)
qed

text \<open>
  C40. A defect: an update can hang until the pod restarts. When a chunk has to be sent again because the request slot
  was taken and the image cannot be read at that moment, the update ends but \<open>resend\<close> stays set; the next update's
  \<open>OTA_BEGIN\<close> is sent and its answer never taken: the relay stays in \<open>WBO_BEGIN\<close>, busy, whatever happens.
\<close>
theorem relay_stale_resend_hangs:
  "\<exists>evs. \<forall>more. o_state (wbo_run (evs @ more) wbo_init) = WBO_BEGIN \<and> wbo_busy (wbo_run (evs @ more) wbo_init)"
proof -
  have stay: "o_state (wbo_run more o1) = WBO_BEGIN \<and> o_resend (wbo_run more o1)"
    if "o_state o1 = WBO_BEGIN" "o_resend o1" for more o1
    using that
  proof (induction more arbitrary: o1)
    case Nil
    then show ?case by (simp add: wbo_run_def)
  next
    case (Cons ev more)
    have "o_state (wbo_do ev o1) = WBO_BEGIN \<and> o_resend (wbo_do ev o1)"
      using Cons.prems by (cases ev) (simp_all add: wbo_poll_def wbo_force_def)
    then show ?case using Cons.IH [of "wbo_do ev o1"] by (simp add: wbo_run_def)
  qed
  let ?evs = "[O_force, demo_relay 0 True 0, demo_relay (-1) True 0, demo_relay 0 False 0, O_force, demo_relay 0 True 0]"
  define o1 where "o1 = wbo_do (demo_relay 0 True 0) (wbo_force wbo_init)"
  have b: "o_state o1 = WBO_BEGIN" "\<not> o_resend o1"
    using demo_begun [of "wbo_force wbo_init" True 0] by (simp_all add: o1_def wbo_force_def wbo_init_def)
  let ?d = "o1\<lparr>o_state := WBO_DATA\<rparr>"
  define o2 where "o2 = wbo_do (demo_relay (-1) True 0) o1"
  have o2: "o2 = send_chunk (demo_ans (-1) True 0) ?d"
    using poll_answered [OF demo_answers [OF b(2)]] b(1) by (simp add: o2_def demo_relay_def)
  have c: "o_state o2 = WBO_DATA" "o_resend o2"
    unfolding o2 using chunk_busy [of "demo_ans (-1) True 0" ?d] by simp_all
  define o3 where "o3 = wbo_do (demo_relay 0 False 0) o2"
  have o3: "o3 = send_chunk (demo_ans 0 False 0) o2" using c by (simp add: o3_def demo_relay_def wbo_poll_def)
  have e: "o_state o3 = WBO_IDLE" "o_resend o3"
    unfolding o3 using chunk_unreadable [of "demo_ans 0 False 0" o2] c(2) by simp_all
  have "wbo_run ?evs wbo_init = wbo_do (demo_relay 0 True 0) (wbo_force o3)"
    by (simp add: wbo_run_def o3_def o2_def o1_def)
  then have "o_state (wbo_run ?evs wbo_init) = WBO_BEGIN" "o_resend (wbo_run ?evs wbo_init)"
    using demo_begun [of "wbo_force o3" True 0] e by (simp_all add: wbo_force_def)
  moreover have "wbo_run (?evs @ more) wbo_init = wbo_run more (wbo_run ?evs wbo_init)" for more
    by (simp add: wbo_run_def)
  ultimately have "\<forall>more. o_state (wbo_run (?evs @ more) wbo_init) = WBO_BEGIN"
    using stay by (simp del: append.simps)
  then show ?thesis by (intro exI [of _ ?evs]) (simp add: wbo_busy_def)
qed

end
