(* ===== verification/UpdateLink.thy ===== *)
theory UpdateLink
  imports BridgeLink WbOta
begin

text \<open>
  An update of the bridge's firmware end to end: the relay (\<open>WbOta\<close>) polls over the pod's client (\<open>WbClient\<close>), whose
  frames the bridge's control task (\<open>BridgeCtl\<close>) hands to its firmware transfer (\<open>BridgeOta\<close>). The glue of the relay
  is \<open>ro_start\<close> and \<open>ro_take\<close> of \<^verbatim>\<open>stm32h563/src/wifi_bridge_net.c\<close>.
\<close>

subsection \<open>The transfer at the bridge\<close>

text \<open>The bridge has taken the first \<open>n\<close> bytes of an image.\<close>

definition got :: "bytes \<Rightarrow> fwsig_t \<Rightarrow> nat \<Rightarrow> ota \<Rightarrow> bool" where
  "got data mf n st \<longleftrightarrow> sq_active (s_seq st) \<and> unat (sq_next (s_seq st)) = n \<and> unat (sq_size (s_seq st)) = length data \<and>
     n \<le> length data \<and> ota_slot st = take n data \<and> holds (s_hash st) (take n data) \<and> c_len (s_hash st) = of_nat n \<and>
     s_sig st = mf \<and> (sq_last_len (s_seq st) = 0 \<or> sq_next (s_seq st) = sq_last_off (s_seq st) + sq_last_len (s_seq st))"

lemma begin_got:
  assumes "fwsig_check sha512 ed (Some sig) n keys FWSIG_TARGET_BRIDGE sz = (FWSIG_OK, Some mf)"
    and "BU_IMG_DESC_END \<le> length data" "length data \<le> psize" "unat sz = length data"
    and b: "length (c_buf (s_hash st)) = 64"
  shows "\<exists>st'. ota_begin sha512 ed keys (Some psize) True left now sz (Some sig) n st = (st', BWP_OK, None) \<and> got data mf 0 st'"
proof -
  have "length (c_buf (s_hash (abort_locked st))) = 64" using b by (simp add: abort_locked_def)
  note i = init_holds [OF this]
  show ?thesis
    unfolding ota_begin_def Let_def assms(1) prod.case option.case
    using assms(2-4) i
    by (simp add: got_def bu_ota_begin_def no_seq_def sha256_init_def not_less)
qed

lemma data_got:
  assumes g: "got data mf n st" and n: "n < length data" and off: "unat off = n"
    and ident: "n = 0 \<Longrightarrow> \<exists>v. bu_image_ident (take 1024 data) (length (take 1024 data)) = Some (str_bytes name, v)"
  shows "\<exists>st' nx. ota_data name True now off (take 1024 (drop n data)) st = Some (st', BWP_OK, nx, None) \<and>
    unat nx = n + length (take 1024 (drop n data)) \<and> got data mf (n + length (take 1024 (drop n data))) st'"
proof -
  define d where "d = take 1024 (drop n data)"
  let ?l = "of_nat (length d) :: u32"
  have i: "sq_active (s_seq st)" "unat (sq_next (s_seq st)) = n" "unat (sq_size (s_seq st)) = length data"
      "ota_slot st = take n data" "holds (s_hash st) (take n data)" "c_len (s_hash st) = of_nat n" "s_sig st = mf"
      "sq_last_len (s_seq st) = 0 \<or> sq_next (s_seq st) = sq_last_off (s_seq st) + sq_last_len (s_seq st)"
    using g by (simp_all add: got_def)
  have lu: "unat ?l = length d" by (simp add: d_def unat_of_nat take_bit_eq_mod)
  have d: "d \<noteq> []" "length d \<le> BWP_OTA_CHUNK_MAX" "n + length d \<le> length data" using n by (auto simp: d_def BWP_OTA_CHUNK_MAX_def)
  have o: "off = sq_next (s_seq st)" using off i(2) by (simp add: word_unat_eq_iff)
  have "unat (sq_size (s_seq st) - sq_next (s_seq st)) = length data - n"
    using i(2,3) n by (simp add: unat_sub word_le_nat_alt)
  then have fits: "\<not> ?l > sq_size (s_seq st) - sq_next (s_seq st)" using lu d(3) by (simp add: word_less_nat_alt)
  have nx: "unat (off + ?l) = n + length d"
    using off lu d(3) i(3) unat_u32_bound [of "sq_size (s_seq st)"] by (simp add: unat_word_ariths)
  have chk: "bu_ota_check (s_seq st) off ?l = BU_OTA_WRITE"
    using i(1,8) o fits by (auto simp: bu_ota_check_def)
  obtain hash where h: "sha256_update (s_hash st) d = Some hash" "holds hash (take n data @ d)"
      "c_len hash = of_nat n + of_nat (length d)"
    using update_holds [OF i(5), of d] i(6) by auto
  have app: "take n data @ d = take (n + length d) data"
    by (simp add: take_add d_def min_def)
  have id: "\<not> (off = 0 \<and> (case bu_image_ident d (length d) of
                  None \<Rightarrow> True | Some (project, version) \<Rightarrow> project \<noteq> str_bytes name))"
    using ident off by (auto simp: d_def)
  let ?st1 = "st\<lparr>ota_slot := ota_slot st @ d, s_hash := hash, s_seq := bu_ota_advance (s_seq st) off ?l\<rparr>"
  let ?st2 = "?st1\<lparr>s_last_us := now\<rparr>"
  have "ota_data name True now off d st = Some (?st2, BWP_OK, off + ?l, None)"
    using d(1,2) id chk h(1) i(1) by (simp add: ota_data_def Let_def bu_ota_advance_def)
  moreover have "got data mf (n + length d) ?st2"
    using i h nx d(3) app by (simp add: got_def bu_ota_advance_def)
  ultimately show ?thesis using nx unfolding d_def by blast
qed

lemma end_got:
  assumes g: "got data mf (length data) st" and "sha256_spec data = fs_sha256 mf"
  shows "\<exists>st'. ota_end End_ok True st = Some (st', BWP_OK, None) \<and> boot_image st' = Some data"
proof -
  have "sha256_final (s_hash st) = Some (zero_ctx, sha256_spec data)"
    by (rule final_spec) (use g in \<open>simp_all add: got_def\<close>)
  moreover have "sq_next (s_seq st) = sq_size (s_seq st)" using g by (simp add: got_def word_unat_eq_iff)
  ultimately show ?thesis using g assms(2) by (simp add: ota_end_def Let_def bu_ota_complete_def got_def boot_image_def)
qed

subsection \<open>The requests of an update at the bridge\<close>

lemma begin_body_tlvs:
  "length man = 128 \<Longrightarrow> begin_body sz man = tlvs_enc [(BWP_T_IMAGE_SIZE, put_be32 sz), (BWP_T_SIGNATURE, man)]"
  by (simp add: begin_body_def tlv_enc_def WBO_MANIFEST_LEN_def put_be16_def)

lemma chunk_body_tlvs: "chunk_body off d = tlvs_enc [(BWP_T_OFFSET, put_be32 off), (BWP_T_DATA, d)]"
  by (simp add: chunk_body_def tlv_enc_def put_be16_def)

lemmas ota_tags = BWP_T_IMAGE_SIZE_def BWP_T_SIGNATURE_def BWP_T_OFFSET_def BWP_T_DATA_def BWP_T_COUNTER_def BWP_T_AUTH_def
  BWP_T_RESULT_def
lemmas request_types = BWP_PAIR_def BWP_STATUS_def BWP_SCAN_def BWP_SET_WIFI_def BWP_CLEAR_WIFI_def BWP_OTA_BEGIN_def
  BWP_OTA_DATA_def BWP_OTA_END_def BWP_OTA_ABORT_def BWP_REBOOT_def BWP_FACTORY_RESET_def

lemma disp_begin:
  assumes lk: "linked e b c ts" and ty: "req_type b = BWP_OTA_BEGIN"
    and ts: "ts = [(BWP_T_IMAGE_SIZE, put_be32 sz), (BWP_T_SIGNATURE, man)]" "length man = 128"
    and o: "ota_begin (e_sha512 e) (e_ed25519 e) (e_keys e) (e_part e) (e_begin_ok e) (e_begin_left e) (e_now e) sz (Some man) 128 (c_ota c) =
      (ota, BWP_OK, None)"
  shows "dispatch e (wire (wb_frame b)) (request_msg b ts) (wb_pod_mac b) None (ctl_accepted b c) =
    answer_with b e [(BWP_T_RESULT, [0])] ((ctl_accepted b c)\<lparr>c_ota := ota\<rparr>)"
proof -
  let ?f = "wire (wb_frame b)" and ?m = "request_msg b ts"
  obtain pre post where cr: "carries ?f ?m pre (request_tlvs b ts) post" using request_received(2) [OF lk] by blast
  have mp: "map_of (request_tlvs b ts) BWP_T_SIGNATURE = Some man" "tlv_u32 (request_tlvs b ts) BWP_T_IMAGE_SIZE = Some sz"
    by (simp_all add: request_tlvs_def signed_tlvs_def Let_def ts tlv_u32_def get_put_be32 ota_tags)
  obtain v where v: "bwp_find ?f (m_body ?m) (unat (m_body_len ?m)) BWP_T_SIGNATURE = (True, Some (v, of_nat (length man)))"
      "unat (of_nat (length man) :: u16) = length man" "\<exists>rest. drop v ?f = man @ rest"
    using find_carried [OF cr mp(1)] by blast
  have tk: "take 128 (drop v ?f) = man" using v(3) ts(2) by auto
  have ac: "c_ota (ctl_accepted b c) = c_ota c" by (simp add: ctl_accepted_def)
  have "dispatch e ?f ?m (wb_pod_mac b) None (ctl_accepted b c) = handle_ota_begin e ?f ?m (wb_pod_mac b) (ctl_accepted b c)"
    unfolding dispatch_def msg_type ty by (simp add: request_types)
  also have "\<dots> = ctl_reply e ?m (wb_pod_mac b) BWP_OK None ((ctl_accepted b c)\<lparr>c_ota := ota\<rparr>)"
    unfolding handle_ota_begin_def v(1) u32_carried [OF cr] mp(2) Let_def snd_conv option.case prod.case
    using o v(2) ts(2) tk ac by simp
  finally show ?thesis unfolding reply_answers by simp
qed

lemma disp_data:
  assumes lk: "linked e b c ts" and ty: "req_type b = BWP_OTA_DATA"
    and ts: "ts = [(BWP_T_OFFSET, put_be32 off), (BWP_T_DATA, d)]"
    and o: "ota_data (e_project e) (e_write_ok e) (e_now e) off d (c_ota c) = Some (ota, BWP_OK, nx, None)"
  shows "dispatch e (wire (wb_frame b)) (request_msg b ts) (wb_pod_mac b) None (ctl_accepted b c) =
    answer_with b e [(BWP_T_RESULT, [0]), (BWP_T_OFFSET, put_be32 nx)] ((ctl_accepted b c)\<lparr>c_ota := ota\<rparr>)"
proof -
  let ?f = "wire (wb_frame b)" and ?m = "request_msg b ts"
  obtain pre post where cr: "carries ?f ?m pre (request_tlvs b ts) post" using request_received(2) [OF lk] by blast
  have mp: "map_of (request_tlvs b ts) BWP_T_DATA = Some d" "tlv_u32 (request_tlvs b ts) BWP_T_OFFSET = Some off"
    by (simp_all add: request_tlvs_def signed_tlvs_def Let_def ts tlv_u32_def get_put_be32 ota_tags)
  obtain v where v: "bwp_find ?f (m_body ?m) (unat (m_body_len ?m)) BWP_T_DATA = (True, Some (v, of_nat (length d)))"
      "unat (of_nat (length d) :: u16) = length d" "\<exists>rest. drop v ?f = d @ rest"
    using find_carried [OF cr mp(1)] by blast
  have tk: "take (length d) (drop v ?f) = d" using v(3) by auto
  have ac: "c_ota (ctl_accepted b c) = c_ota c" by (simp add: ctl_accepted_def)
  have "dispatch e ?f ?m (wb_pod_mac b) None (ctl_accepted b c) = handle_ota_data e ?f ?m (wb_pod_mac b) (ctl_accepted b c)"
    unfolding dispatch_def msg_type ty by (simp add: request_types)
  also have "\<dots> = answer_with b e [(BWP_T_RESULT, [0]), (BWP_T_OFFSET, put_be32 nx)] ((ctl_accepted b c)\<lparr>c_ota := ota\<rparr>)"
    unfolding handle_ota_data_def v(1) u32_carried [OF cr] mp(2) Let_def option.case prod.case bool.case
    using o v(2) tk ac
    by (simp add: answer_with_def answer_begin_def bwp_puts_def bwp_put_u8_def bwp_put_u32_def request_msg_def plain_msg_def)
  finally show ?thesis .
qed

lemma disp_end:
  assumes "req_type b = BWP_OTA_END" and "ota_end (e_end e) (e_boot_ok e) (c_ota c) = Some (ota, BWP_OK, None)"
  shows "dispatch e (wire (wb_frame b)) (request_msg b ts) (wb_pod_mac b) None (ctl_accepted b c) =
    answer_with b e [(BWP_T_RESULT, [0])] ((ctl_accepted b c)\<lparr>c_ota := ota\<rparr>)"
proof -
  have ac: "c_ota (ctl_accepted b c) = c_ota c" by (simp add: ctl_accepted_def)
  show ?thesis unfolding dispatch_def msg_type assms(1) ac assms(2) by (simp add: request_types reply_answers)
qed

lemma disp_reboot:
  assumes "req_type b = BWP_REBOOT"
  shows "dispatch e (wire (wb_frame b)) (request_msg b ts) (wb_pod_mac b) None (ctl_accepted b c) =
    do { c3 \<leftarrow> answer_with b e [(BWP_T_RESULT, [0])] (ctl_accepted b c); Some (c3\<lparr>c_reboots := c_reboots c3 + 1\<rparr>) }"
  unfolding dispatch_def msg_type assms by (simp add: request_types reply_answers)

subsection \<open>The relay's callbacks\<close>

text \<open>
  \<open>ro_start\<close> and \<open>ro_take\<close> of \<^verbatim>\<open>wifi_bridge_net.c\<close>, with the call into the net task answered in time.
\<close>

definition ro_start :: "wb_t \<Rightarrow> u8 \<times> bytes \<times> u32 \<Rightarrow> u32 \<Rightarrow> (int \<times> wb_t) option" where
  "ro_start b x now =
     do { (rc, b1) \<leftarrow> wb_request_ext b (fst x) (fst (snd x)) (snd (snd x)) now;
          Some (if rc = 0 then 0 else if rc = -1 then -1 else -2, b1) }"

definition ro_take :: "wb_t \<Rightarrow> (wb_req_state_t \<times> wb_reply_t) \<times> wb_t" where
  "ro_take b =
     (let st = wb_request_state b
      in if st = WB_REQ_DONE \<or> st = WB_REQ_TIMEOUT then ((st, wb_reply b), wb_request_release b)
         else ((st, no_reply), b))"

text \<open>The pod and the bridge between two requests.\<close>

definition link_session :: "ctl_env \<Rightarrow> wb_t \<Rightarrow> ctl \<Rightarrow> bool" where
  "link_session e b c \<longleftrightarrow> wb_wf b \<and> e_mac e = wb_mac b \<and> wb_seen b \<and> wb_have_nonce b \<and> wb_have_secret b \<and> wb_have_key b \<and>
     bridge_paired b \<and> length (wb_nonce b) = BWP_NONCE_LEN \<and> paired (s_pair c) \<and> p_key (s_pair c) = wb_key b \<and>
     p_nonce (s_pair c) = wb_nonce b \<and> \<not> s_sign c \<and> length (s_out c) = 1514 \<and> last_counter (s_pair c) \<le> wb_counter b"

definition same_link :: "wb_t \<Rightarrow> wb_t \<Rightarrow> bool" where
  "same_link b b' \<longleftrightarrow> wb_mac b' = wb_mac b \<and> wb_pod_mac b' = wb_pod_mac b \<and> wb_seen b' = wb_seen b \<and>
     wb_have_nonce b' = wb_have_nonce b \<and> wb_nonce b' = wb_nonce b \<and> wb_have_secret b' = wb_have_secret b \<and>
     wb_have_key b' = wb_have_key b \<and> wb_key b' = wb_key b \<and> wb_link_up b' = wb_link_up b \<and>
     wb_last_hello b' = wb_last_hello b \<and> bridge_paired b' = bridge_paired b"

lemma same_link_trans: "same_link a b \<Longrightarrow> same_link b c \<Longrightarrow> same_link a c"
  by (simp add: same_link_def)

lemma same_link_present: "same_link b b' \<Longrightarrow> wb_present b' now = wb_present b now"
  by (simp add: same_link_def wb_present_def)

lemma same_link_sent: "same_link b (sent b t)"
  by (simp add: same_link_def sent_def bridge_paired_def)

definition ota_type :: "u8 \<Rightarrow> bool" where
  "ota_type ty \<longleftrightarrow> ty = BWP_OTA_BEGIN \<or> ty = BWP_OTA_DATA \<or> ty = BWP_OTA_END \<or> ty = BWP_REBOOT"

lemma ext_started:
  assumes ss: "link_session e b c" and idle: "req_state b = WB_REQ_IDLE" and here: "wb_present b now" and ty: "ota_type ty"
    and ts: "tlvs_ok ts" "length (tlvs_enc ts) \<le> 1466" "BWP_T_COUNTER \<notin> fst ` set ts" "BWP_T_AUTH \<notin> fst ` set ts"
  shows "\<exists>b0. ro_start b (ty, tlvs_enc ts, t) now = Some (0, sent b0 now) \<and> linked e b0 c ts \<and> req_type b0 = ty \<and>
    same_link b b0 \<and> wb_counter b0 = wb_counter b"
proof -
  let ?x = "tlvs_enc ts"
  let ?s = "if wb_seq b + 1 = 0 then 1 else wb_seq b + 1"
  let ?b0 = "b\<lparr>req_state := WB_REQ_PENDING, req_internal := False, req_type := ty, wb_seq := ?s, req_seq := ?s,
      req_ext := Some ?x, req_tlvs := req_tlvs b, req_len := of_nat (length ?x), req_timeout := t, req_tries := 0,
      req_resynced := False, req_signed := True, wb_reply := no_reply\<rparr>"
  have wf0: "wb_wf ?b0" using ss by (simp add: link_session_def wb_wf_def)
  have "start_req b ty ?x t False True now = Some (sent ?b0 now)"
    using ss send_req_sent [OF wf0, of now] by (simp add: start_req_def Let_def link_session_def)
  then have st: "ro_start b (ty, ?x, t) now = Some (0, sent ?b0 now)"
    using ss idle here ts(2)
    by (simp add: ro_start_def wb_request_ext_def wb_req_start_def link_session_def WB_BODY_MAX_def BWP_MAX_BODY_def
        BWP_MAX_FRAME_def WB_TRAILER_LEN_def BWP_AUTH_LEN_def BWP_ETH_HDR_LEN_def BWP_HDR_LEN_def)
  have u: "unat (of_nat (length ?x) :: u16) = length ?x" using ts(2) by (simp add: unat_len16)
  have rb: "req_body ?b0 = ?x" using u by (simp add: req_body_def)
  have "linked e ?b0 c ts"
    unfolding linked_def using wf0 ss ts u rb ty
    by (auto simp: link_session_def ota_type_def request_types BWP_RESPONSE_def BWP_HELLO_def)
  moreover have "same_link b ?b0" by (simp add: same_link_def bridge_paired_def)
  ultimately show ?thesis using st by (intro exI [of _ ?b0]) simp
qed

lemma answered_sel:
  assumes "ota_type (req_type b)" and "\<not> req_internal b"
  shows "same_link b (wb_answered io f 0 m now b)" "wb_counter (wb_answered io f 0 m now b) = wb_counter b"
    "req_state (wb_answered io f 0 m now b) = WB_REQ_DONE" "\<not> req_internal (wb_answered io f 0 m now b)"
    "wr_result (wb_reply (wb_answered io f 0 m now b)) = 0" "wb_wf (wb_answered io f 0 m now b) = wb_wf b"
    "req_type b = BWP_OTA_DATA \<Longrightarrow> msg_u32 f m BWP_T_OFFSET = Some nx \<Longrightarrow>
      wr_offset (wb_reply (wb_answered io f 0 m now b)) = nx"
proof -
  have rc: "result_case io f m 0 now b1 = b1" if "req_type b1 = req_type b" for b1
    using assms(1) that by (auto simp: result_case_def result_ok_def ota_type_def request_types)
  show "same_link b (wb_answered io f 0 m now b)" "wb_counter (wb_answered io f 0 m now b) = wb_counter b"
    "req_state (wb_answered io f 0 m now b) = WB_REQ_DONE" "\<not> req_internal (wb_answered io f 0 m now b)"
    "wr_result (wb_reply (wb_answered io f 0 m now b)) = 0" "wb_wf (wb_answered io f 0 m now b) = wb_wf b"
    "req_type b = BWP_OTA_DATA \<Longrightarrow> msg_u32 f m BWP_T_OFFSET = Some nx \<Longrightarrow>
      wr_offset (wb_reply (wb_answered io f 0 m now b)) = nx"
    using assms(2)
    by (simp_all add: wb_answered_def rc upd_info_def reply_done_def Let_def wb_finish_def upd_reply_def set_msg_def
        same_link_def bridge_paired_def wb_wf_def or_else_def)
qed

lemma round_ota:
  assumes ss: "link_session e b c" and idle: "req_state b = WB_REQ_IDLE" and here: "wb_present b now" and ty: "ota_type ty"
    and ts: "tlvs_ok ts" "length (tlvs_enc ts) \<le> 1466" "BWP_T_COUNTER \<notin> fst ` set ts" "BWP_T_AUTH \<notin> fst ` set ts"
    and room: "wb_counter b \<noteq> 0xFFFFFFFF"
    and disp: "\<And>b0. linked e b0 c ts \<Longrightarrow> req_type b0 = ty \<Longrightarrow>
      dispatch e (wire (wb_frame b0)) (request_msg b0 ts) (wb_pod_mac b0) None (ctl_accepted b0 c) =
      do { c3 \<leftarrow> answer_with b0 e rs ((ctl_accepted b0 c)\<lparr>c_ota := ota\<rparr>); Some (c3\<lparr>c_reboots := c_reboots c3 + k\<rparr>) }"
    and rs: "tlvs_ok rs" "length (tlvs_enc rs) \<le> 1400" "map_of rs BWP_T_RESULT = Some [0]"
      "BWP_T_COUNTER \<notin> fst ` set rs" "BWP_T_AUTH \<notin> fst ` set rs"
  shows "\<exists>b1 b2 c2. ro_start b (ty, tlvs_enc ts, t) now = Some (0, b1) \<and> link_round io e now (b1, c) = Some (b2, c2) \<and>
    link_session e b2 c2 \<and> same_link b b2 \<and> req_state b2 = WB_REQ_DONE \<and> \<not> req_internal b2 \<and> wr_result (wb_reply b2) = 0 \<and>
    (ty = BWP_OTA_DATA \<longrightarrow> (\<forall>nx. tlv_u32 rs BWP_T_OFFSET = Some nx \<longrightarrow> wr_offset (wb_reply b2) = nx)) \<and>
    wb_counter b2 = wb_counter b + 1 \<and> c_ota c2 = ota \<and> c_reboots c2 = c_reboots c + k"
proof -
  obtain b0 where b0: "ro_start b (ty, tlvs_enc ts, t) now = Some (0, sent b0 now)" "linked e b0 c ts" "req_type b0 = ty"
      "same_link b b0" "wb_counter b0 = wb_counter b"
    using ext_started [OF ss idle here ty ts] by blast
  have new: "\<not> wb_counter b0 + 1 \<le> last_counter (s_pair c)"
    using counter_suc [OF room] ss b0(5) by (auto simp: link_session_def)
  let ?c2 = "(ctl_accepted b0 c)\<lparr>c_ota := ota\<rparr>" and ?g = "\<lambda>x. x\<lparr>c_reboots := c_reboots x + k\<rparr>"
  have c2: "s_pair ?c2 = s_pair (ctl_accepted b0 c)" "s_sign ?c2" "s_counter ?c2 = wb_counter b0 + 1" "length (s_out ?c2) = 1514"
      "c_out ?c2 = c_out c" "c_reboots ?c2 = c_reboots c"
    using ss by (simp_all add: ctl_accepted_def link_session_def)
  have nr: "\<not> is_refusal 0" by (simp add: is_refusal_def)
  obtain f m buf where r: "link_round io e now (sent b0 now, c) = Some (wb_answered io f 0 m now (sent b0 now),
      (?g (?c2\<lparr>s_out := buf, c_out := c_out c @ [f]\<rparr>))\<lparr>s_sign := False\<rparr>)" "length buf = 1514"
      "\<forall>tag. tag \<noteq> BWP_T_COUNTER \<longrightarrow> tag \<noteq> BWP_T_AUTH \<longrightarrow> msg_u32 f m tag = tlv_u32 rs tag"
    using round_answered [OF b0(2) new disp [OF b0(2,3)] c2(1-5) _ rs(1-3) nr rs(4,5), where io = io and tm = now and now = now] by auto
  let ?b1 = "sent b0 now"
  have q: "ota_type (req_type ?b1)" "\<not> req_internal ?b1" using b0(2,3) ty by (simp_all add: linked_def)
  note an = answered_sel [OF q, where io = io and f = f and m = m and now = now]
  have sl: "same_link b (wb_answered io f 0 m now ?b1)"
    by (rule same_link_trans [OF same_link_trans [OF b0(4) same_link_sent] an(1)])
  have cnt: "wb_counter (wb_answered io f 0 m now ?b1) = wb_counter b + 1"
    using an(2) b0(2,5) by (simp add: sent_def linked_def)
  have off: "msg_u32 f m BWP_T_OFFSET = tlv_u32 rs BWP_T_OFFSET" using r(3) by (simp add: ota_tags)
  have "link_session e (wb_answered io f 0 m now ?b1) ((?g (?c2\<lparr>s_out := buf, c_out := c_out c @ [f]\<rparr>))\<lparr>s_sign := False\<rparr>)"
    using ss sl cnt r(2) an(6) b0(2,5) by (simp add: link_session_def same_link_def ctl_accepted_def linked_def)
  then show ?thesis
    using b0(1,3) r(1) sl an(3-5) an(7) off cnt c2(6)
    by (intro exI [of _ ?b1] exI [of _ "wb_answered io f 0 m now ?b1"]
        exI [of _ "(?g (?c2\<lparr>s_out := buf, c_out := c_out c @ [f]\<rparr>))\<lparr>s_sign := False\<rparr>"]) simp
qed

subsection \<open>The relay, the client, the wire and the bridge\<close>

text \<open>
  One poll of the relay over the client: it takes the answer when it is due, and \<open>start\<close> answers what the client
  does with the request the relay then makes. The flag says whether a frame was sent.
\<close>

definition relay_step ::
  "(u32 \<Rightarrow> u32 \<Rightarrow> bytes option) \<Rightarrow> wb_info_t \<Rightarrow> wbo_image_t \<Rightarrow> bool \<Rightarrow> u32 \<Rightarrow> wbo_t \<times> wb_t \<Rightarrow> (wbo_t \<times> wb_t \<times> bool) option"
where
  "relay_step rd br img bus now ob =
     (let (o1, b) = ob;
          (ans, b1) = (if wbo_busy o1 \<and> \<not> o_resend o1 then ro_take b else ((WB_REQ_IDLE, no_reply), b));
          a = \<lparr>a_start = 0, a_take = ans, a_read = rd, a_alloc = True\<rparr>;
          o2 = wbo_poll a br img bus now o1
      in if o_sent o2 = o_sent o1 then Some (o2, b1, False)
         else do { (rc, b2) \<leftarrow> ro_start b1 (last (o_sent o2)) now;
                   Some (if rc = 0 then o2 else wbo_poll (a\<lparr>a_start := rc\<rparr>) br img bus now o1, b2, rc = 0) })"

definition update_step ::
  "wb_io \<Rightarrow> ctl_env \<Rightarrow> (u32 \<Rightarrow> u32 \<Rightarrow> bytes option) \<Rightarrow> wb_info_t \<Rightarrow> wbo_image_t \<Rightarrow> bool \<Rightarrow> u32 \<Rightarrow>
   wbo_t \<times> wb_t \<times> ctl \<Rightarrow> (wbo_t \<times> wb_t \<times> ctl) option"
where
  "update_step io e rd br img bus now s =
     do { (o1, b1, started) \<leftarrow> relay_step rd br img bus now (fst s, fst (snd s));
          if started then do { (b2, c2) \<leftarrow> link_round io e now (b1, snd (snd s)); Some (o1, b2, c2) }
          else Some (o1, b1, snd (snd s)) }"

fun update_run ::
  "wb_io \<Rightarrow> ctl_env \<Rightarrow> (u32 \<Rightarrow> u32 \<Rightarrow> bytes option) \<Rightarrow> wb_info_t \<Rightarrow> wbo_image_t \<Rightarrow> bool \<Rightarrow> u32 list \<Rightarrow>
   wbo_t \<times> wb_t \<times> ctl \<Rightarrow> (wbo_t \<times> wb_t \<times> ctl) option"
where
  "update_run io e rd br img bus [] s = Some s"
| "update_run io e rd br img bus (now # ts) s =
     do { s1 \<leftarrow> update_step io e rd br img bus now s; update_run io e rd br img bus ts s1 }"

lemma update_run_append:
  "update_run io e rd br img bus (ts @ us) s =
   do { s1 \<leftarrow> update_run io e rd br img bus ts s; update_run io e rd br img bus us s1 }"
proof (induction ts arbitrary: s)
  case (Cons now ts)
  then show ?case by (cases "update_step io e rd br img bus now s") simp_all
qed simp

text \<open>A request has been answered OK and its answer waits to be taken.\<close>

definition replied :: "ctl_env \<Rightarrow> wbo_image_t \<Rightarrow> wbo_state_t \<Rightarrow> wbo_t \<Rightarrow> wb_t \<Rightarrow> ctl \<Rightarrow> bool" where
  "replied e img st o1 b c \<longleftrightarrow> o_state o1 = st \<and> o_size o1 = im_size img \<and> \<not> o_resend o1 \<and> link_session e b c \<and>
     req_state b = WB_REQ_DONE \<and> \<not> req_internal b \<and> wr_result (wb_reply b) = 0"

lemma replied_take:
  assumes "replied e img st o1 b c"
  shows "ro_take b = ((WB_REQ_DONE, wb_reply b), b\<lparr>req_state := WB_REQ_IDLE\<rparr>)"
    and "link_session e (b\<lparr>req_state := WB_REQ_IDLE\<rparr>) c" and "same_link b (b\<lparr>req_state := WB_REQ_IDLE\<rparr>)"
  using assms
  by (simp_all add: replied_def ro_take_def wb_request_state_def wb_request_release_def link_session_def same_link_def
      bridge_paired_def wb_wf_def Let_def)

text \<open>The poll that sends a request, and the round that answers it.\<close>

lemma step_sends:
  assumes tk: "(if wbo_busy o1 \<and> \<not> o_resend o1 then ro_take b else ((WB_REQ_IDLE, no_reply), b)) = (ans, b1)"
    and poll: "o2 = wbo_poll \<lparr>a_start = 0, a_take = ans, a_read = rd, a_alloc = True\<rparr> br img bus now o1"
      "o_sent o2 = o_sent o1 @ [(ty, tlvs_enc ts, t)]" "o_state o2 = st" "o_size o2 = im_size img" "\<not> o_resend o2"
    and ss: "link_session e b1 c" "req_state b1 = WB_REQ_IDLE" "wb_present b1 now" and ty: "ota_type ty"
    and ts: "tlvs_ok ts" "length (tlvs_enc ts) \<le> 1466" "BWP_T_COUNTER \<notin> fst ` set ts" "BWP_T_AUTH \<notin> fst ` set ts"
    and room: "wb_counter b1 \<noteq> 0xFFFFFFFF"
    and disp: "\<And>b0. linked e b0 c ts \<Longrightarrow> req_type b0 = ty \<Longrightarrow>
      dispatch e (wire (wb_frame b0)) (request_msg b0 ts) (wb_pod_mac b0) None (ctl_accepted b0 c) =
      do { c3 \<leftarrow> answer_with b0 e rs ((ctl_accepted b0 c)\<lparr>c_ota := ota\<rparr>); Some (c3\<lparr>c_reboots := c_reboots c3 + k\<rparr>) }"
    and rs: "tlvs_ok rs" "length (tlvs_enc rs) \<le> 1400" "map_of rs BWP_T_RESULT = Some [0]"
      "BWP_T_COUNTER \<notin> fst ` set rs" "BWP_T_AUTH \<notin> fst ` set rs"
  shows "\<exists>b2 c2. update_step io e rd br img bus now (o1, b, c) = Some (o2, b2, c2) \<and> replied e img st o2 b2 c2 \<and>
    same_link b1 b2 \<and> (ty = BWP_OTA_DATA \<longrightarrow> (\<forall>nx. tlv_u32 rs BWP_T_OFFSET = Some nx \<longrightarrow> wr_offset (wb_reply b2) = nx)) \<and>
    wb_counter b2 = wb_counter b1 + 1 \<and> c_ota c2 = ota \<and> c_reboots c2 = c_reboots c + k"
proof -
  obtain b3 b2 c2 where r: "ro_start b1 (ty, tlvs_enc ts, t) now = Some (0, b3)" "link_round io e now (b3, c) = Some (b2, c2)"
      "link_session e b2 c2" "same_link b1 b2" "req_state b2 = WB_REQ_DONE" "\<not> req_internal b2" "wr_result (wb_reply b2) = 0"
      "ty = BWP_OTA_DATA \<longrightarrow> (\<forall>nx. tlv_u32 rs BWP_T_OFFSET = Some nx \<longrightarrow> wr_offset (wb_reply b2) = nx)"
      "wb_counter b2 = wb_counter b1 + 1" "c_ota c2 = ota" "c_reboots c2 = c_reboots c + k"
    using round_ota [OF ss ty ts room disp rs, of t io] by blast
  have "relay_step rd br img bus now (o1, b) = Some (o2, b3, True)"
    unfolding relay_step_def Let_def prod.case tk poll(1) [symmetric] using poll(2) r(1) by simp
  then have "update_step io e rd br img bus now (o1, b, c) = Some (o2, b2, c2)"
    using r(2) by (simp add: update_step_def)
  then show ?thesis using r(3-) poll(3-5) by (simp add: replied_def)
qed

subsection \<open>The steps of an update\<close>

definition slot_reads :: "(u32 \<Rightarrow> u32 \<Rightarrow> bytes option) \<Rightarrow> bytes \<Rightarrow> bool" where
  "slot_reads rd data \<longleftrightarrow>
     (\<forall>off n. unat off + unat n \<le> length data \<longrightarrow> rd off n = Some (take (unat n) (drop (unat off) data)))"

definition bridge_accepts :: "ctl_env \<Rightarrow> wbo_image_t \<Rightarrow> bytes \<Rightarrow> bool" where
  "bridge_accepts e img data \<longleftrightarrow> length data = unat (im_size img) \<and> length (im_manifest img) = 128 \<and>
     fwsig_check (e_sha512 e) (e_ed25519 e) (Some (im_manifest img)) 128 (e_keys e) FWSIG_TARGET_BRIDGE (im_size img) =
       (FWSIG_OK, Some (manifest_of (im_manifest img))) \<and>
     sha256_spec data = fs_sha256 (manifest_of (im_manifest img)) \<and>
     (\<exists>psize. e_part e = Some psize \<and> BU_IMG_DESC_END \<le> length data \<and> length data \<le> psize) \<and>
     (\<exists>v. bu_image_ident (take 1024 data) (length (take 1024 data)) = Some (str_bytes (e_project e), v)) \<and>
     e_begin_ok e \<and> e_write_ok e \<and> e_end e = End_ok \<and> e_boot_ok e"

lemma bridge_acceptsE:
  assumes "bridge_accepts e img data"
  obtains psize v where "e_part e = Some psize" "BU_IMG_DESC_END \<le> length data" "length data \<le> psize"
    "length (im_manifest img) = 128" "length data = unat (im_size img)" "e_begin_ok e" "e_write_ok e" "e_end e = End_ok"
    "e_boot_ok e" "sha256_spec data = fs_sha256 (manifest_of (im_manifest img))"
    "bu_image_ident (take 1024 data) (length (take 1024 data)) = Some (str_bytes (e_project e), v)"
    "fwsig_check (e_sha512 e) (e_ed25519 e) (Some (im_manifest img)) 128 (e_keys e) FWSIG_TARGET_BRIDGE (im_size img) =
       (FWSIG_OK, Some (manifest_of (im_manifest img)))"
  using assms unfolding bridge_accepts_def by blast

lemma bridge_accepts_len:
  "bridge_accepts e img data \<Longrightarrow> length data = unat (im_size img)"
  "bridge_accepts e img data \<Longrightarrow> BU_IMG_DESC_END \<le> length data"
  unfolding bridge_accepts_def by blast+

lemma one_record: "(do { c3 \<leftarrow> x; Some (c3\<lparr>c_reboots := c_reboots c3 + 0\<rparr>) }) = x"
  by (cases x) simp_all

lemma step_begin:
  assumes st: "may_start br img bus now o1" "\<not> o_resend o1" and acc: "bridge_accepts e img data"
    and b: "link_session e b c" "req_state b = WB_REQ_IDLE" "wb_present b now" "wb_counter b \<noteq> 0xFFFFFFFF"
    and h: "length (c_buf (s_hash (c_ota c))) = 64"
  shows "\<exists>o2 b2 c2. update_step io e rd br img bus now (o1, b, c) = Some (o2, b2, c2) \<and> replied e img WBO_BEGIN o2 b2 c2 \<and>
    o_off o2 = 0 \<and> same_link b b2 \<and> wb_counter b2 = wb_counter b + 1 \<and>
    got data (manifest_of (im_manifest img)) 0 (c_ota c2) \<and> c_reboots c2 = c_reboots c"
proof -
  let ?a = "\<lparr>a_start = 0, a_take = (WB_REQ_IDLE, no_reply), a_read = rd, a_alloc = True\<rparr>"
  let ?ts = "[(BWP_T_IMAGE_SIZE, put_be32 (im_size img)), (BWP_T_SIGNATURE, im_manifest img)]"
  obtain psize where ac: "e_part e = Some psize" "BU_IMG_DESC_END \<le> length data" "length data \<le> psize"
      "length (im_manifest img) = 128" "length data = unat (im_size img)" "e_begin_ok e"
    and fc: "fwsig_check (e_sha512 e) (e_ed25519 e) (Some (im_manifest img)) 128 (e_keys e) FWSIG_TARGET_BRIDGE (im_size img) =
       (FWSIG_OK, Some (manifest_of (im_manifest img)))"
    using bridge_acceptsE [OF acc] by blast
  obtain ota where ota: "ota_begin (e_sha512 e) (e_ed25519 e) (e_keys e) (e_part e) (e_begin_ok e) (e_begin_left e) (e_now e) (im_size img)
        (Some (im_manifest img)) 128 (c_ota c) = (ota, BWP_OK, None)"
      "got data (manifest_of (im_manifest img)) 0 ota"
    using begin_got [OF fc ac(2,3) ac(5) [symmetric] h, of "e_begin_left e" "e_now e"] ac(1,6) by auto
  have idle: "o_state o1 = WBO_IDLE" using st(1) by (simp add: may_start_def)
  have tk: "(if wbo_busy o1 \<and> \<not> o_resend o1 then ro_take b else ((WB_REQ_IDLE, no_reply), b)) = ((WB_REQ_IDLE, no_reply), b)"
    using idle by (simp add: wbo_busy_def)
  let ?o2 = "wbo_poll ?a br img bus now o1"
  have poll: "o_sent ?o2 = o_sent o1 @ [(BWP_OTA_BEGIN, tlvs_enc ?ts, 30000)]" "o_state ?o2 = WBO_BEGIN"
      "o_size ?o2 = im_size img" "\<not> o_resend ?o2" "o_off ?o2 = 0"
    using poll_starts [OF st(1), of ?a] st(2) begin_body_tlvs [OF ac(4)] by (simp_all add: Let_def)
  have ty: "ota_type BWP_OTA_BEGIN" by (simp add: ota_type_def)
  have ts: "tlvs_ok ?ts" "length (tlvs_enc ?ts) \<le> 1466" "BWP_T_COUNTER \<notin> fst ` set ?ts" "BWP_T_AUTH \<notin> fst ` set ?ts"
    using ac(4) by (simp_all add: ota_tags)
  have disp: "dispatch e (wire (wb_frame b0)) (request_msg b0 ?ts) (wb_pod_mac b0) None (ctl_accepted b0 c) =
      do { c3 \<leftarrow> answer_with b0 e [(BWP_T_RESULT, [0])] ((ctl_accepted b0 c)\<lparr>c_ota := ota\<rparr>); Some (c3\<lparr>c_reboots := c_reboots c3 + 0\<rparr>) }"
    if "linked e b0 c ?ts" "req_type b0 = BWP_OTA_BEGIN" for b0
    unfolding one_record by (rule disp_begin [OF that refl ac(4) ota(1)])
  have rs: "tlvs_ok [(BWP_T_RESULT, [0])]" "length (tlvs_enc [(BWP_T_RESULT, [0])]) \<le> 1400"
      "map_of [(BWP_T_RESULT, [0])] BWP_T_RESULT = Some [0 :: u8]" "BWP_T_COUNTER \<notin> fst ` set [(BWP_T_RESULT, [0 :: u8])]"
      "BWP_T_AUTH \<notin> fst ` set [(BWP_T_RESULT, [0 :: u8])]"
    by (simp_all add: ota_tags)
  obtain b2 c2 where r: "update_step io e rd br img bus now (o1, b, c) = Some (?o2, b2, c2)" "replied e img WBO_BEGIN ?o2 b2 c2"
      "same_link b b2" "wb_counter b2 = wb_counter b + 1" "c_ota c2 = ota" "c_reboots c2 = c_reboots c + 0"
    using step_sends [OF tk refl poll(1-4) b(1-3) ty ts b(4) disp rs, where io = io] by blast
  then show ?thesis using poll(5) ota(2) by (intro exI [of _ ?o2] exI [of _ b2] exI [of _ c2]) simp
qed

abbreviation (input) took :: "(u32 \<Rightarrow> u32 \<Rightarrow> bytes option) \<Rightarrow> wb_t \<Rightarrow> wbo_ans" where
  "took rd b \<equiv> \<lparr>a_start = 0, a_take = (WB_REQ_DONE, wb_reply b), a_read = rd, a_alloc = True\<rparr>"

lemma replied_tk:
  assumes "replied e img st o1 b c" "st = WBO_BEGIN \<or> st = WBO_DATA \<or> st = WBO_END \<or> st = WBO_REBOOT"
  shows "(if wbo_busy o1 \<and> \<not> o_resend o1 then ro_take b else ((WB_REQ_IDLE, no_reply), b)) =
    ((WB_REQ_DONE, wb_reply b), b\<lparr>req_state := WB_REQ_IDLE\<rparr>)"
  using assms replied_take(1) [OF assms(1)] by (auto simp: replied_def wbo_busy_def)

lemma replied_answers: "replied e img st o1 b c \<Longrightarrow> answers (took rd b) (wb_reply b) o1"
  by (simp add: answers_def replied_def)

lemma result_only:
  "tlvs_ok [(BWP_T_RESULT, [0])]" "length (tlvs_enc [(BWP_T_RESULT, [0])]) \<le> 1400"
  "map_of [(BWP_T_RESULT, [0])] BWP_T_RESULT = Some [0 :: u8]" "BWP_T_COUNTER \<notin> fst ` set [(BWP_T_RESULT, [0 :: u8])]"
  "BWP_T_AUTH \<notin> fst ` set [(BWP_T_RESULT, [0 :: u8])]"
  by (simp_all add: ota_tags)

lemma step_chunk:
  assumes rep: "replied e img st o1 b c" "st = WBO_BEGIN \<or> st = WBO_DATA" and acc: "bridge_accepts e img data"
    and rd: "slot_reads rd data" and here: "wb_present b now" and room: "wb_counter b \<noteq> 0xFFFFFFFF"
    and g: "got data mf n (c_ota c)" and n: "n < length data"
    and poll: "wbo_poll (took rd b) br img bus now o1 = send_chunk (took rd b) o0"
    and o0: "o_state o0 = WBO_DATA" "o_size o0 = im_size img" "unat (o_off o0) = n" "o_sent o0 = o_sent o1"
  shows "\<exists>o2 b2 c2. update_step io e rd br img bus now (o1, b, c) = Some (o2, b2, c2) \<and> replied e img WBO_DATA o2 b2 c2 \<and>
    same_link b b2 \<and> wb_counter b2 = wb_counter b + 1 \<and> c_reboots c2 = c_reboots c \<and>
    unat (wr_offset (wb_reply b2)) = n + length (take 1024 (drop n data)) \<and>
    got data mf (n + length (take 1024 (drop n data))) (c_ota c2)"
proof -
  obtain v where ac: "length data = unat (im_size img)" "e_write_ok e"
      "bu_image_ident (take 1024 data) (length (take 1024 data)) = Some (str_bytes (e_project e), v)"
    using bridge_acceptsE [OF acc] by blast
  define d where "d = take 1024 (drop n data)"
  let ?b1 = "b\<lparr>req_state := WB_REQ_IDLE\<rparr>"
  let ?n = "if o_size o0 - o_off o0 < WBO_CHUNK then o_size o0 - o_off o0 else WBO_CHUNK"
  have u: "unat (o_size o0 - o_off o0) = length data - n" using o0(2,3) ac(1) n by (simp add: unat_sub word_le_nat_alt)
  then have un: "unat ?n = min (length data - n) 1024" by (auto simp: WBO_CHUNK_def word_less_nat_alt)
  have rdd: "a_read (took rd b) (o_off o0) ?n = Some d"
    using rd [unfolded slot_reads_def, rule_format, of "o_off o0" ?n] un o0(3) n by (simp add: d_def del: if_split) (auto simp: min_def)
  obtain ota nx where ota: "ota_data (e_project e) (e_write_ok e) (e_now e) (o_off o0) d (c_ota c) = Some (ota, BWP_OK, nx, None)"
      "unat nx = n + length d" "got data mf (n + length d) ota"
    using data_got [OF g n o0(3), of "e_project e" "e_now e"] ac(2,3) unfolding d_def by auto
  let ?ts = "[(BWP_T_OFFSET, put_be32 (o_off o0)), (BWP_T_DATA, d)]"
  let ?rs = "[(BWP_T_RESULT, [0]), (BWP_T_OFFSET, put_be32 nx)]"
  have dl: "length d \<le> 1024" by (simp add: d_def)
  note cs = chunk_sends [OF rdd, simplified]
  define o2 where "o2 = send_chunk (took rd b) o0"
  have s: "o_sent o2 = o_sent o1 @ [(BWP_OTA_DATA, tlvs_enc ?ts, 2000)]" "o_state o2 = WBO_DATA" "o_size o2 = im_size img"
      "\<not> o_resend o2"
    using cs o0 unfolding chunk_body_tlvs [symmetric] by (simp_all add: o2_def sends_def)
  have ty: "ota_type BWP_OTA_DATA" by (simp add: ota_type_def)
  have ts: "tlvs_ok ?ts" "length (tlvs_enc ?ts) \<le> 1466" "BWP_T_COUNTER \<notin> fst ` set ?ts" "BWP_T_AUTH \<notin> fst ` set ?ts"
    using dl by (simp_all add: ota_tags)
  have disp: "dispatch e (wire (wb_frame b0)) (request_msg b0 ?ts) (wb_pod_mac b0) None (ctl_accepted b0 c) =
      do { c3 \<leftarrow> answer_with b0 e ?rs ((ctl_accepted b0 c)\<lparr>c_ota := ota\<rparr>); Some (c3\<lparr>c_reboots := c_reboots c3 + 0\<rparr>) }"
    if "linked e b0 c ?ts" "req_type b0 = BWP_OTA_DATA" for b0
    unfolding one_record by (rule disp_data [OF that refl ota(1)])
  have rs: "tlvs_ok ?rs" "length (tlvs_enc ?rs) \<le> 1400" "map_of ?rs BWP_T_RESULT = Some [0]" "BWP_T_COUNTER \<notin> fst ` set ?rs"
      "BWP_T_AUTH \<notin> fst ` set ?rs"
    by (simp_all add: ota_tags)
  have off: "tlv_u32 ?rs BWP_T_OFFSET = Some nx" by (simp add: tlv_u32_def ota_tags get_put_be32)
  have st: "st = WBO_BEGIN \<or> st = WBO_DATA \<or> st = WBO_END \<or> st = WBO_REBOOT" using rep(2) by blast
  have b1: "req_state ?b1 = WB_REQ_IDLE" "wb_present ?b1 now" "wb_counter ?b1 \<noteq> 0xFFFFFFFF" "wb_counter ?b1 = wb_counter b"
    using here room same_link_present [OF replied_take(3) [OF rep(1)]] by simp_all
  obtain b2 c2 where r: "update_step io e rd br img bus now (o1, b, c) = Some (o2, b2, c2)" "replied e img WBO_DATA o2 b2 c2"
      "same_link ?b1 b2" "wr_offset (wb_reply b2) = nx" "wb_counter b2 = wb_counter ?b1 + 1" "c_ota c2 = ota"
      "c_reboots c2 = c_reboots c + 0"
    using step_sends [OF replied_tk [OF rep(1) st] poll [symmetric, folded o2_def] s replied_take(2) [OF rep(1)] b1(1,2) ty ts b1(3) disp rs,
        where io = io] off by blast
  have "same_link b b2" by (rule same_link_trans [OF replied_take(3) [OF rep(1)] r(3)])
  then show ?thesis using r ota(2,3) b1(4) unfolding d_def [symmetric] by (intro exI [of _ o2] exI [of _ b2] exI [of _ c2]) simp
qed

lemma step_end:
  assumes rep: "replied e img WBO_DATA o1 b c" and acc: "bridge_accepts e img data"
    and here: "wb_present b now" and room: "wb_counter b \<noteq> 0xFFFFFFFF"
    and g: "got data (manifest_of (im_manifest img)) (length data) (c_ota c)"
    and off: "unat (wr_offset (wb_reply b)) = length data"
  shows "\<exists>o2 b2 c2. update_step io e rd br img bus now (o1, b, c) = Some (o2, b2, c2) \<and> replied e img WBO_END o2 b2 c2 \<and>
    same_link b b2 \<and> wb_counter b2 = wb_counter b + 1 \<and> c_reboots c2 = c_reboots c \<and>
    boot_image (c_ota c2) = Some data"
proof -
  obtain ac: "length data = unat (im_size img)" "e_end e = End_ok" "e_boot_ok e"
      "sha256_spec data = fs_sha256 (manifest_of (im_manifest img))"
    using bridge_acceptsE [OF acc] by blast
  obtain ota where ota: "ota_end (e_end e) (e_boot_ok e) (c_ota c) = Some (ota, BWP_OK, None)" "boot_image ota = Some data"
    using end_got [OF g ac(4)] ac(2,3) by auto
  let ?b1 = "b\<lparr>req_state := WB_REQ_IDLE\<rparr>" and ?o0 = "o1\<lparr>o_off := wr_offset (wb_reply b), o_state := WBO_END\<rparr>"
  have sz: "wr_offset (wb_reply b) = o_size o1" using off ac(1) rep by (simp add: word_unat_eq_iff replied_def)
  define o2 where "o2 = send_simple (took rd b) BWP_OTA_END 30000 ?o0"
  have poll: "o2 = wbo_poll (took rd b) br img bus now o1"
    using poll_answered [OF replied_answers [OF rep], of rd br img bus now] rep sz by (simp add: o2_def replied_def)
  have s: "o_sent o2 = o_sent o1 @ [(BWP_OTA_END, tlvs_enc [], 30000)]" "o_state o2 = WBO_END" "o_size o2 = im_size img"
      "\<not> o_resend o2"
    using simple_sends [of "took rd b"] rep by (simp_all add: o2_def sends_def replied_def)
  have ty: "ota_type BWP_OTA_END" by (simp add: ota_type_def)
  have ts: "tlvs_ok []" "length (tlvs_enc []) \<le> 1466" "BWP_T_COUNTER \<notin> fst ` set []" "BWP_T_AUTH \<notin> fst ` set []" by simp_all
  have disp: "dispatch e (wire (wb_frame b0)) (request_msg b0 []) (wb_pod_mac b0) None (ctl_accepted b0 c) =
      do { c3 \<leftarrow> answer_with b0 e [(BWP_T_RESULT, [0])] ((ctl_accepted b0 c)\<lparr>c_ota := ota\<rparr>); Some (c3\<lparr>c_reboots := c_reboots c3 + 0\<rparr>) }"
    if "linked e b0 c []" "req_type b0 = BWP_OTA_END" for b0
    unfolding one_record by (rule disp_end [OF that(2) ota(1)])
  have b1: "req_state ?b1 = WB_REQ_IDLE" "wb_present ?b1 now" "wb_counter ?b1 \<noteq> 0xFFFFFFFF" "wb_counter ?b1 = wb_counter b"
    using here room same_link_present [OF replied_take(3) [OF rep]] by simp_all
  obtain b2 c2 where r: "update_step io e rd br img bus now (o1, b, c) = Some (o2, b2, c2)" "replied e img WBO_END o2 b2 c2"
      "same_link ?b1 b2" "wb_counter b2 = wb_counter ?b1 + 1" "c_ota c2 = ota" "c_reboots c2 = c_reboots c + 0"
    using step_sends [OF replied_tk [OF rep] poll s replied_take(2) [OF rep] b1(1,2) ty ts b1(3) disp result_only, where io = io] by blast
  have "same_link b b2" by (rule same_link_trans [OF replied_take(3) [OF rep] r(3)])
  then show ?thesis using r ota(2) b1(4) by (intro exI [of _ o2] exI [of _ b2] exI [of _ c2]) simp
qed

lemma step_reboot:
  assumes rep: "replied e img WBO_END o1 b c" and here: "wb_present b now" and room: "wb_counter b \<noteq> 0xFFFFFFFF"
  shows "\<exists>o2 b2 c2. update_step io e rd br img bus now (o1, b, c) = Some (o2, b2, c2) \<and> replied e img WBO_REBOOT o2 b2 c2 \<and>
    c_reboots c2 = c_reboots c + 1 \<and> boot_image (c_ota c2) = boot_image (c_ota c)"
proof -
  let ?b1 = "b\<lparr>req_state := WB_REQ_IDLE\<rparr>" and ?o0 = "o1\<lparr>o_state := WBO_REBOOT\<rparr>"
  define o2 where "o2 = send_simple (took rd b) BWP_REBOOT 1000 ?o0"
  have poll: "o2 = wbo_poll (took rd b) br img bus now o1"
    using poll_answered [OF replied_answers [OF rep], of rd br img bus now] rep by (simp add: o2_def replied_def)
  have s: "o_sent o2 = o_sent o1 @ [(BWP_REBOOT, tlvs_enc [], 1000)]" "o_state o2 = WBO_REBOOT" "o_size o2 = im_size img"
      "\<not> o_resend o2"
    using simple_sends [of "took rd b"] rep by (simp_all add: o2_def sends_def replied_def)
  have ty: "ota_type BWP_REBOOT" by (simp add: ota_type_def)
  have ts: "tlvs_ok []" "length (tlvs_enc []) \<le> 1466" "BWP_T_COUNTER \<notin> fst ` set []" "BWP_T_AUTH \<notin> fst ` set []" by simp_all
  have same: "(ctl_accepted b0 c)\<lparr>c_ota := c_ota c\<rparr> = ctl_accepted b0 c" for b0 by (simp add: ctl_accepted_def)
  have disp: "dispatch e (wire (wb_frame b0)) (request_msg b0 []) (wb_pod_mac b0) None (ctl_accepted b0 c) =
      do { c3 \<leftarrow> answer_with b0 e [(BWP_T_RESULT, [0])] ((ctl_accepted b0 c)\<lparr>c_ota := c_ota c\<rparr>); Some (c3\<lparr>c_reboots := c_reboots c3 + 1\<rparr>) }"
    if "linked e b0 c []" "req_type b0 = BWP_REBOOT" for b0
    unfolding same by (rule disp_reboot [OF that(2)])
  have b1: "req_state ?b1 = WB_REQ_IDLE" "wb_present ?b1 now" "wb_counter ?b1 \<noteq> 0xFFFFFFFF"
    using here room same_link_present [OF replied_take(3) [OF rep]] by simp_all
  obtain b2 c2 where r: "update_step io e rd br img bus now (o1, b, c) = Some (o2, b2, c2)" "replied e img WBO_REBOOT o2 b2 c2"
      "c_ota c2 = c_ota c" "c_reboots c2 = c_reboots c + 1"
    using step_sends [OF replied_tk [OF rep] poll s replied_take(2) [OF rep] b1(1,2) ty ts b1(3) disp result_only, where io = io] by blast
  then show ?thesis by (intro exI [of _ o2] exI [of _ b2] exI [of _ c2]) simp
qed

lemma step_wait:
  assumes rep: "replied e img WBO_REBOOT o1 b c"
  shows "\<exists>o2 b2. update_step io e rd br img bus now (o1, b, c) = Some (o2, b2, c) \<and> o_state o2 = WBO_WAIT_BACK \<and>
    o_deadline o2 = now + WBO_COME_BACK_MS"
proof -
  define o2 where "o2 = wbo_poll (took rd b) br img bus now o1"
  have p: "o_state o2 = WBO_WAIT_BACK" "o_deadline o2 = now + WBO_COME_BACK_MS" "o_sent o2 = o_sent o1"
    using rep by (simp_all add: o2_def wbo_poll_def replied_def) (simp add: set_status_def)
  have tk: "(if wbo_busy o1 \<and> \<not> o_resend o1 then ro_take b else ((WB_REQ_IDLE, no_reply), b)) =
    ((WB_REQ_DONE, wb_reply b), b\<lparr>req_state := WB_REQ_IDLE\<rparr>)" by (rule replied_tk [OF rep]) simp
  have "relay_step rd br img bus now (o1, b) = Some (o2, b\<lparr>req_state := WB_REQ_IDLE\<rparr>, False)"
    unfolding relay_step_def Let_def prod.case tk o2_def [symmetric] using p(3) by simp
  then show ?thesis using p(1,2) by (simp add: update_step_def)
qed

lemma counter_room: "unat (x :: u32) + 1 < 2 ^ 32 \<Longrightarrow> x \<noteq> 0xFFFFFFFF \<and> unat (x + 1) = unat x + 1"
  by (auto simp: unat_word_ariths)

lemma chunks_left:
  assumes "Suc k = (x + 1023) div 1024"
  shows "0 < x \<and> k = (x - min x 1024 + 1023) div (1024 :: nat)"
proof (cases "x \<le> 1024")
  case True
  then have "x \<noteq> 0" using assms by (cases x) auto
  moreover from this True have "(x + 1023) div 1024 = 1" by (intro div_nat_eqI) auto
  ultimately show ?thesis using assms True by simp
next
  case False
  then have "x + 1023 = (x - 1024 + 1023) + 1024" by simp
  then have "(x + 1023) div 1024 = (x - 1024 + 1023) div 1024 + 1" by (simp only: div_add_self2)
  then show ?thesis using assms False by simp
qed

lemma run_chunks:
  assumes acc: "bridge_accepts e img data" and rd: "slot_reads rd data"
  shows "replied e img WBO_DATA o1 b c \<Longrightarrow> got data mf n (c_ota c) \<Longrightarrow> unat (wr_offset (wb_reply b)) = n \<Longrightarrow>
    length ts = (length data - n + 1023) div 1024 \<Longrightarrow> \<forall>t \<in> set ts. wb_present b t \<Longrightarrow>
    unat (wb_counter b) + length ts < 2 ^ 32 \<Longrightarrow>
    \<exists>o2 b2 c2. update_run io e rd br img bus ts (o1, b, c) = Some (o2, b2, c2) \<and> replied e img WBO_DATA o2 b2 c2 \<and>
      got data mf (length data) (c_ota c2) \<and> unat (wr_offset (wb_reply b2)) = length data \<and> same_link b b2 \<and>
      unat (wb_counter b2) = unat (wb_counter b) + length ts \<and> c_reboots c2 = c_reboots c"
proof (induction ts arbitrary: n o1 b c)
  case Nil
  have "length data - n = 0"
  proof (rule ccontr)
    assume "length data - n \<noteq> 0"
    then have "(length data - n + 1023) div 1024 \<ge> 1" by (simp add: div_greater_zero_iff Suc_le_eq)
    then show False using Nil by simp
  qed
  then have "n = length data" using Nil by (simp add: got_def)
  then show ?case using Nil by (simp add: same_link_def)
next
  case (Cons t ts)
  have k: "0 < length data - n" "length ts = (length data - n - min (length data - n) 1024 + 1023) div 1024"
    using chunks_left [of "length ts" "length data - n"] Cons.prems(4) by simp_all
  then have n: "n < length data" by simp
  let ?m = "n + length (take 1024 (drop n data))"
  have m: "length data - n - min (length data - n) 1024 = length data - ?m" by simp
  have t: "wb_present b t" and room: "unat (wb_counter b) + 1 < 2 ^ 32" using Cons.prems by simp_all
  note cr = counter_room [OF room]
  have sz: "length data = unat (o_size o1)" "o_size o1 = im_size img"
    using bridge_accepts_len(1) [OF acc] Cons.prems(1) by (simp_all add: replied_def)
  have "\<not> wr_offset (wb_reply b) > o_size o1" "wr_offset (wb_reply b) \<noteq> o_size o1"
    using n Cons.prems(3) sz(1) by (auto simp: word_less_nat_alt)
  then have poll: "wbo_poll (took rd b) br img bus t o1 = send_chunk (took rd b) (o1\<lparr>o_off := wr_offset (wb_reply b)\<rparr>)"
    using poll_answered [OF replied_answers [OF Cons.prems(1)], of rd br img bus t] Cons.prems(1) by (simp add: replied_def)
  obtain o2 b2 c2 where s: "update_step io e rd br img bus t (o1, b, c) = Some (o2, b2, c2)" "replied e img WBO_DATA o2 b2 c2"
      "same_link b b2" "wb_counter b2 = wb_counter b + 1" "c_reboots c2 = c_reboots c"
      "unat (wr_offset (wb_reply b2)) = ?m" "got data mf ?m (c_ota c2)"
    using step_chunk [OF Cons.prems(1) _ acc rd t conjunct1 [OF cr] Cons.prems(2) n poll, of io] Cons.prems(1,3) by (auto simp: replied_def)
  have "\<forall>t \<in> set ts. wb_present b2 t" using Cons.prems(5) same_link_present [OF s(3)] by simp
  moreover have "unat (wb_counter b2) + length ts < 2 ^ 32" using cr s(4) Cons.prems(6) by simp
  ultimately obtain o3 b3 c3 where r: "update_run io e rd br img bus ts (o2, b2, c2) = Some (o3, b3, c3)"
      "replied e img WBO_DATA o3 b3 c3" "got data mf (length data) (c_ota c3)"
      "unat (wr_offset (wb_reply b3)) = length data" "same_link b2 b3"
      "unat (wb_counter b3) = unat (wb_counter b2) + length ts" "c_reboots c3 = c_reboots c2"
    using Cons.IH [OF s(2,7,6)] k(2) unfolding m by blast
  have "same_link b b3" by (rule same_link_trans [OF s(3) r(5)])
  then show ?case using s(1,4,5) r cr by (intro exI [of _ o3] exI [of _ b3] exI [of _ c3]) simp
qed

lemma run_first:
  assumes st: "may_start br img bus t1 o1" "\<not> o_resend o1" and acc: "bridge_accepts e img data" and rd: "slot_reads rd data"
    and b: "link_session e b c" "req_state b = WB_REQ_IDLE" "wb_present b t1" "wb_present b t2"
    and room: "unat (wb_counter b) + 2 < 2 ^ 32" and h: "length (c_buf (s_hash (c_ota c))) = 64"
  shows "\<exists>o2 b2 c2. update_run io e rd br img bus [t1, t2] (o1, b, c) = Some (o2, b2, c2) \<and> replied e img WBO_DATA o2 b2 c2 \<and>
    same_link b b2 \<and> unat (wb_counter b2) = unat (wb_counter b) + 2 \<and> c_reboots c2 = c_reboots c \<and>
    unat (wr_offset (wb_reply b2)) = length (take 1024 data) \<and>
    got data (manifest_of (im_manifest img)) (length (take 1024 data)) (c_ota c2)"
proof -
  have c0: "wb_counter b \<noteq> 0xFFFFFFFF" "unat (wb_counter b + 1) = unat (wb_counter b) + 1"
    using counter_room [of "wb_counter b"] room by simp_all
  obtain o2 b2 c2 where s1: "update_step io e rd br img bus t1 (o1, b, c) = Some (o2, b2, c2)" "replied e img WBO_BEGIN o2 b2 c2"
      "o_off o2 = 0" "same_link b b2" "wb_counter b2 = wb_counter b + 1" "got data (manifest_of (im_manifest img)) 0 (c_ota c2)"
      "c_reboots c2 = c_reboots c"
    using step_begin [OF st acc b(1-3) c0(1) h, where rd = rd and io = io] by blast
  have poll: "wbo_poll (took rd b2) br img bus t2 o2 = send_chunk (took rd b2) (o2\<lparr>o_state := WBO_DATA\<rparr>)"
    using poll_answered [OF replied_answers [OF s1(2)], of rd br img bus t2] s1(2) by (simp add: replied_def)
  have h2: "wb_present b2 t2" and r2: "unat (wb_counter b2) + 1 < 2 ^ 32"
    using b(4) same_link_present [OF s1(4)] room s1(5) c0(2) by simp_all
  note c1 = counter_room [OF r2]
  have d0: "0 < length data" using bridge_accepts_len(2) [OF acc] unfolding BU_IMG_DESC_END_def by linarith
  obtain o3 b3 c3 where s2: "update_step io e rd br img bus t2 (o2, b2, c2) = Some (o3, b3, c3)" "replied e img WBO_DATA o3 b3 c3"
      "same_link b2 b3" "wb_counter b3 = wb_counter b2 + 1" "c_reboots c3 = c_reboots c2"
      "unat (wr_offset (wb_reply b3)) = length (take 1024 data)"
      "got data (manifest_of (im_manifest img)) (length (take 1024 data)) (c_ota c3)"
    using step_chunk [OF s1(2) _ acc rd h2 conjunct1 [OF c1] s1(6) d0 poll, where io = io] s1(2,3)
    by (auto simp: replied_def)
  have "same_link b b3" by (rule same_link_trans [OF s1(4) s2(3)])
  then show ?thesis using s1(1,5,7) s2 c0 c1 by (intro exI [of _ o3] exI [of _ b3] exI [of _ c3]) simp
qed

lemma run_last:
  assumes rep: "replied e img WBO_DATA o1 b c" and acc: "bridge_accepts e img data"
    and g: "got data (manifest_of (im_manifest img)) (length data) (c_ota c)"
    and off: "unat (wr_offset (wb_reply b)) = length data"
    and here: "wb_present b t1" "wb_present b t2" and room: "unat (wb_counter b) + 2 < 2 ^ 32"
  shows "\<exists>o2 b2 c2. update_run io e rd br img bus [t1, t2, t3] (o1, b, c) = Some (o2, b2, c2) \<and>
    boot_image (c_ota c2) = Some data \<and> c_reboots c2 = c_reboots c + 1 \<and> o_state o2 = WBO_WAIT_BACK \<and>
    o_deadline o2 = t3 + WBO_COME_BACK_MS"
proof -
  have c0: "wb_counter b \<noteq> 0xFFFFFFFF" "unat (wb_counter b + 1) = unat (wb_counter b) + 1"
    using counter_room [of "wb_counter b"] room by simp_all
  obtain o2 b2 c2 where s1: "update_step io e rd br img bus t1 (o1, b, c) = Some (o2, b2, c2)" "replied e img WBO_END o2 b2 c2"
      "same_link b b2" "wb_counter b2 = wb_counter b + 1" "c_reboots c2 = c_reboots c" "boot_image (c_ota c2) = Some data"
    using step_end [OF rep acc here(1) c0(1) g off, where io = io and rd = rd and br = br and bus = bus] by blast
  have h2: "wb_present b2 t2" and r2: "unat (wb_counter b2) + 1 < 2 ^ 32"
    using here(2) same_link_present [OF s1(3)] room s1(4) c0(2) by simp_all
  obtain o3 b3 c3 where s2: "update_step io e rd br img bus t2 (o2, b2, c2) = Some (o3, b3, c3)" "replied e img WBO_REBOOT o3 b3 c3"
      "c_reboots c3 = c_reboots c2 + 1" "boot_image (c_ota c3) = boot_image (c_ota c2)"
    using step_reboot [OF s1(2) h2 conjunct1 [OF counter_room [OF r2]], where io = io and rd = rd and br = br and bus = bus] by blast
  obtain o4 b4 where s3: "update_step io e rd br img bus t3 (o3, b3, c3) = Some (o4, b4, c3)" "o_state o4 = WBO_WAIT_BACK"
      "o_deadline o4 = t3 + WBO_COME_BACK_MS"
    using step_wait [OF s2(2), where io = io and rd = rd and br = br and bus = bus] by blast
  then show ?thesis using s1 s2 by (intro exI [of _ o4] exI [of _ b4] exI [of _ c3]) simp
qed

lemma times_split:
  assumes "length ts = k + 5"
  shows "\<exists>t1 t2 cs t3 t4 t5. ts = [t1, t2] @ cs @ [t3, t4, t5] \<and> length cs = k"
proof -
  define ds es where "ds = take 2 ts" and "es = drop k (drop 2 ts)"
  have l: "length ds = 2" "length es = 3" "length (take k (drop 2 ts)) = k" using assms by (simp_all add: ds_def es_def)
  from l obtain t1 t2 where "ds = [t1, t2]" by (auto simp: numeral_2_eq_2 length_Suc_conv)
  moreover from l obtain t3 t4 t5 where "es = [t3, t4, t5]" by (auto simp: numeral_3_eq_3 length_Suc_conv)
  moreover have "ts = ds @ take k (drop 2 ts) @ es" unfolding ds_def es_def by (simp only: append_take_drop_id)
  ultimately show ?thesis using l(3) by metis
qed

text \<open>
  C7. A bridge update gets through whole. Over the whole path - the pod's slot, the relay's polls, the client, signed
  frames on the cable, the bridge's control task, its firmware transfer - an image that the bridge accepts (a manifest
  for it that a trusted key signed, its SHA-256, the bridge's project, a partition large enough, and flash that works)
  is, once the relay may start and while the bridge stays present, after one poll for the manifest, one per started
  kilobyte and three more, exactly what the bridge boots next: the bridge has restarted once and the relay waits for it
  with its three-minute deadline. (The client must know the bridge's counter, which must not run out meanwhile, and no
  update may have ended with \<open>resend\<close> set.)
\<close>
theorem update_reaches_bridge:
  assumes "may_start br img bus (hd ts) o1" and "\<not> o_resend o1" and "bridge_accepts e img data" and "slot_reads rd data"
    and "link_session e b c" and "req_state b = WB_REQ_IDLE" and "\<forall>t \<in> set ts. wb_present b t"
    and "unat (wb_counter b) + length ts < 2 ^ 32" and "length (c_buf (s_hash (c_ota c))) = 64"
    and "length ts = (length data + 1023) div 1024 + 4"
  shows "\<exists>o2 b2 c2. update_run io e rd br img bus ts (o1, b, c) = Some (o2, b2, c2) \<and>
    boot_image (c_ota c2) = Some data \<and> c_reboots c2 = c_reboots c + 1 \<and> o_state o2 = WBO_WAIT_BACK \<and>
    o_deadline o2 = last ts + WBO_COME_BACK_MS"
proof -
  have "(length data + 1023) div 1024 > 0"
    using bridge_accepts_len(2) [OF assms(3)] by (simp add: BU_IMG_DESC_END_def div_greater_zero_iff)
  then obtain k where k: "Suc k = (length data + 1023) div 1024" by (metis gr0_implies_Suc)
  have km: "k = (length data - length (take 1024 data) + 1023) div 1024" using chunks_left [OF k] by simp
  have lts: "length ts = k + 5" using assms(10) k by simp
  obtain t1 t2 cs t3 t4 t5 where ts: "ts = [t1, t2] @ cs @ [t3, t4, t5]" "length cs = k" using times_split [OF lts] by blast
  have here: "wb_present b t" if "t \<in> {t1, t2, t3, t4, t5} \<union> set cs" for t using assms(7) that unfolding ts by auto
  have rm: "unat (wb_counter b) + k + 5 < 2 ^ 32" using assms(8) lts by simp
  have st1: "may_start br img bus t1 o1" and r2: "unat (wb_counter b) + 2 < 2 ^ 32" using assms(1) rm by (simp_all add: ts)
  obtain o2 b2 c2 where s1: "update_run io e rd br img bus [t1, t2] (o1, b, c) = Some (o2, b2, c2)"
      "replied e img WBO_DATA o2 b2 c2" "same_link b b2" "unat (wb_counter b2) = unat (wb_counter b) + 2"
      "c_reboots c2 = c_reboots c" "unat (wr_offset (wb_reply b2)) = length (take 1024 data)"
      "got data (manifest_of (im_manifest img)) (length (take 1024 data)) (c_ota c2)"
    using run_first [OF st1 assms(2-6) _ _ r2 assms(9), where io = io] here by blast
  have "\<forall>t \<in> set cs. wb_present b2 t" using here same_link_present [OF s1(3)] by simp
  moreover have "unat (wb_counter b2) + length cs < 2 ^ 32" using s1(4) rm ts(2) by simp
  moreover have "length cs = (length data - length (take 1024 data) + 1023) div 1024" using ts(2) km by simp
  ultimately obtain o3 b3 c3 where s2: "update_run io e rd br img bus cs (o2, b2, c2) = Some (o3, b3, c3)"
      "replied e img WBO_DATA o3 b3 c3" "got data (manifest_of (im_manifest img)) (length data) (c_ota c3)"
      "unat (wr_offset (wb_reply b3)) = length data" "same_link b2 b3"
      "unat (wb_counter b3) = unat (wb_counter b2) + length cs" "c_reboots c3 = c_reboots c2"
    using run_chunks [OF assms(3,4) s1(2,7,6), where io = io and br = br and bus = bus] by blast
  have h: "wb_present b3 t3" "wb_present b3 t4"
    using here same_link_present [OF same_link_trans [OF s1(3) s2(5)]] by simp_all
  have r3: "unat (wb_counter b3) + 2 < 2 ^ 32" using s1(4) s2(6) ts(2) rm by simp
  obtain o4 b4 c4 where s3: "update_run io e rd br img bus [t3, t4, t5] (o3, b3, c3) = Some (o4, b4, c4)"
      "boot_image (c_ota c4) = Some data" "c_reboots c4 = c_reboots c3 + 1" "o_state o4 = WBO_WAIT_BACK"
      "o_deadline o4 = t5 + WBO_COME_BACK_MS"
    using run_last [OF s2(2) assms(3) s2(3,4) h r3, where io = io and rd = rd and br = br and bus = bus] by blast
  have "update_run io e rd br img bus ts (o1, b, c) = Some (o4, b4, c4)"
    unfolding ts(1) update_run_append s1(1) s2(1) s3(1) by (simp del: update_run.simps add: s2(1) s3(1))
  then show ?thesis using s1(5) s2(7) s3(2-5) by (simp add: ts(1))
qed

definition demo_update :: wbo_image_t where
  "demo_update = \<lparr>im_present = True, im_size = 112, im_version = 0x000300, im_manifest = demo_sig\<rparr>"

theorem update_reaches_bridge_witness:
  "\<exists>o2 b2 c2. update_run demo_io (demo_env\<lparr>e_keys := [replicate 8 0]\<rparr>)
      (\<lambda>off n. Some (take (unat n) (drop (unat off) demo_img))) demo_info demo_update True (replicate 5 10)
      (wbo_force wbo_init, demo_pod, demo_bridge) = Some (o2, b2, c2) \<and>
    boot_image (c_ota c2) = Some demo_img \<and> o_state o2 = WBO_WAIT_BACK"
proof -
  let ?e = "demo_env\<lparr>e_keys := [replicate 8 0]\<rparr>" and ?rd = "\<lambda>off n. Some (take (unat n) (drop (unat off) demo_img))"
  have st: "may_start demo_info demo_update True (hd (replicate 5 10)) (wbo_force wbo_init)" "\<not> o_resend (wbo_force wbo_init)"
    by (simp_all add: may_start_def demo_update_def demo_info_def no_info_def wbo_force_def wbo_init_def)
  have sig: "length demo_sig = 128" by (simp add: demo_sig_def length_BPSG)
  have check: "fwsig_check (e_sha512 ?e) (e_ed25519 ?e) (Some demo_sig) 128 (e_keys ?e) FWSIG_TARGET_BRIDGE 112 =
      (FWSIG_OK, Some (manifest_of demo_sig))"
    by (simp add: fwsig_check_def Let_def FWSIG_LEN_def demo_sig_parts manifest_of_def key_for_def
        FWSIG_TARGET_BRIDGE_def demo_env_def)
  have ident: "bu_image_ident (take 1024 demo_img) (length (take 1024 demo_img)) = Some (str_bytes (e_project ?e), [])"
    using demo_ident by (simp add: length_demo_img demo_env_def str_bytes_def)
  have acc: "bridge_accepts ?e demo_update demo_img"
    unfolding bridge_accepts_def
  proof (intro conjI)
    show "fwsig_check (e_sha512 ?e) (e_ed25519 ?e) (Some (im_manifest demo_update)) 128 (e_keys ?e) FWSIG_TARGET_BRIDGE
        (im_size demo_update) = (FWSIG_OK, Some (manifest_of (im_manifest demo_update)))"
      using check by (simp add: demo_update_def)
    show "sha256_spec demo_img = fs_sha256 (manifest_of (im_manifest demo_update))"
      by (simp add: demo_update_def manifest_of_def demo_sig_parts)
    show "\<exists>v. bu_image_ident (take 1024 demo_img) (length (take 1024 demo_img)) = Some (str_bytes (e_project ?e), v)"
      using ident by blast
  qed (simp_all add: demo_update_def length_demo_img sig BU_IMG_DESC_END_def demo_env_def)
  have rd: "slot_reads ?rd demo_img" by (simp add: slot_reads_def)
  have d: "wb_present demo_pod 10" "wb_have_key demo_pod" "wb_have_secret demo_pod" "wb_have_nonce demo_pod" "wb_seen demo_pod"
      "req_state demo_pod = WB_REQ_IDLE" "wb_mac demo_pod = demo_mac" "wb_nonce demo_pod = replicate 8 0"
      "wb_key demo_pod = replicate 32 0" "wb_counter demo_pod = 0"
    by (simp_all add: wb_present_def demo_pod_def wb_init_def wb_elapsed_def WB_HELLO_TIMEOUT_MS_def word_le_nat_alt)
  have ss: "link_session ?e demo_pod demo_bridge"
    using d demo_bridge_facts demo_sent_facts(1,2) by (simp add: link_session_def demo_env_def BWP_NONCE_LEN_def)
  have h: "length (c_buf (s_hash (c_ota demo_bridge))) = 64"
    by (simp add: demo_bridge_def control_start_def ota_boot_def zero_ctx_def Let_def)
  have n: "length (replicate 5 (10 :: u32)) = (length demo_img + 1023) div 1024 + 4" by (simp add: length_demo_img)
  have here: "\<forall>t \<in> set (replicate 5 10). wb_present demo_pod t" using d(1) by simp
  have room: "unat (wb_counter demo_pod) + length (replicate 5 (10 :: u32)) < 2 ^ 32" using d(10) by simp
  show ?thesis
    using update_reaches_bridge [OF st acc rd ss d(6) here room h n, of demo_io] by blast
qed

end
