(* ===== verification/Spec2Isabelle.thy ===== *)
theory Spec2Isabelle
  imports JsonSpec LeaseGate ConnTx PodPolicy CloudRx CloudReply Psram Recovery BootGuard L2fwd BridgeOta PodOta OtaCommit UpdateLink
begin

text \<open>
  A verification library for the BenchPod firmware: the pod (\<^verbatim>\<open>src/stm32h563/src\<close>, an STM32H563 with an
  iCE40 FPGA) and its Wi-Fi bridge (\<^verbatim>\<open>src/wifi-bridge\<close>, an ESP32). Both are C. Each theory models one
  part of the code and proves what makes that part correct; the theorems named by a number are the
  properties, the rest is what they rest on.

  \<^bold>\<open>The program.\<close> A pod takes JSON commands over USB, from the LAN and from the cloud (a WebSocket
  link). A command line is parsed, classed by what it may change, let through or refused, carried out,
  and answered through a bounded buffer. What must survive a power cut, the Wi-Fi credentials and the
  security policies, is kept in pairs of flash sectors. Firmware images come with signed manifests. A
  failed-boot counter, a recovery ladder and bookkeeping of the shared PSRAM bus keep the pod usable when
  the hardware misbehaves. The bridge sits between the pod's Ethernet port and a Wi-Fi network: it forwards
  the pod's frames, and the pod configures and updates it by signed Ethernet frames.

  \<^bold>\<open>Theories, from the bottom.\<close>
  \<^item> \<open>Prelude\<close>: machine words, C strings, \<^verbatim>\<open>snprintf\<close>, decimal digits, lemmas on words and rings.
  \<^item> \<open>Sinks\<close>: the locale \<open>byte_sink\<close> of a bounded buffer that takes a piece whole or not at all; it is
    interpreted on the JSON emitter, the transmit ring and the cloud accumulator.
  \<^item> \<open>Json\<close>, \<open>JsonSpec\<close> (\<^verbatim>\<open>bp_json.c\<close>): the scanner and the emitter on C strings; looking up a key refines an
    abstract object, what is emitted is read back, a reply is emitted whole or refused.
  \<^item> \<open>CmdTier\<close>, \<open>CmdGate\<close>, \<open>LeaseGate\<close> (\<^verbatim>\<open>cmd_table.h\<close>, \<^verbatim>\<open>cmd_tier.c\<close>, \<^verbatim>\<open>cmd_gate.c\<close>, \<^verbatim>\<open>lease_gate.c\<close>): which tier a
    command has, which gates it passes, and the cloud's lease on a wrapping clock.
  \<^item> \<open>ConnTx\<close> (\<^verbatim>\<open>conn_tx.c\<close>): the per-connection transmit ring, as a queue and with a concurrent producer and
    consumer as interleaved steps.
  \<^item> \<open>Flash\<close>, \<open>ConfigStore\<close>, \<open>StoreSpec\<close> (\<^verbatim>\<open>flash_layout.h\<close>, \<^verbatim>\<open>flash_compat.c\<close>, \<^verbatim>\<open>config_store.c\<close>): the flash shim
    as HAL operations that a power cut can stop anywhere, the A/B record store, and its refinement of an
    atomic register (locale \<open>record_store\<close>, interpreted on the store of the Wi-Fi config).
  \<^item> \<open>FwSign\<close>, \<open>PodPolicy\<close> (\<^verbatim>\<open>fw_sign.c\<close>, \<^verbatim>\<open>pod_policy.c\<close>): signed manifests, and the policies that only the
    console may loosen, kept in the record store.
  \<^item> \<open>B64url\<close>, \<open>WsFrame\<close>, \<open>CloudRx\<close>, \<open>CloudReply\<close> (\<^verbatim>\<open>b64url.c\<close>, \<^verbatim>\<open>ws_frame.c\<close>, \<^verbatim>\<open>cloud_rx.c\<close> and the receive path
    of \<^verbatim>\<open>cloud_client.c\<close>, \<^verbatim>\<open>cloud_reply_cap.c\<close>): base64url, WebSocket frames against RFC 6455, the segmented
    stream with backpressure, the connected state's poll with its timeouts and the drop of the link, and captured replies.
  \<^item> \<open>Psram\<close> (\<^verbatim>\<open>psram_alloc.c\<close>, \<^verbatim>\<open>psram_regions.c\<close>, \<^verbatim>\<open>bus_owner.c\<close>): the capture zones, whether the last
    capture is intact, and who holds the quad bus.
  \<^item> \<open>Recovery\<close> (\<^verbatim>\<open>recovery.c\<close>): the recovery ladder and its rate limits on a wrapping clock, boot by boot.
  \<^item> \<open>BootGuard\<close> (\<^verbatim>\<open>boot_guard.c\<close>, \<^verbatim>\<open>boot_policy.c\<close>): safe mode over any history of boots, against
    a counter of boots in a row that never reached healthy.
  \<^item> \<open>Sha256\<close> (\<^verbatim>\<open>hmac_sha256.c\<close> of the bridge): the streaming hash and HMAC against FIPS 180-4 and RFC 2104.
  \<^item> \<open>Bwp\<close>, \<open>BwpAuth\<close>, \<open>Pairing\<close>, \<open>BwpMsg\<close> (\<^verbatim>\<open>bwp.c\<close>, \<^verbatim>\<open>pairing.c\<close>, \<^verbatim>\<open>bwp_crypto.c\<close>): the bridge's control
    protocol: writer, reader, signatures, replay protection, messages and sealed credentials.
  \<^item> \<open>L2fwd\<close> (\<^verbatim>\<open>l2fwd.c\<close>): which frames the bridge forwards, against an isolation policy.
  \<^item> \<open>BridgeOta\<close> (\<^verbatim>\<open>fwsig.c\<close>, \<^verbatim>\<open>bridge_util.c\<close>, \<^verbatim>\<open>main/ota.c\<close>): the bridge's firmware transfer into the partition that
    is not running: an image that becomes bootable is complete and signed, unless a new transfer overwrites it.
  \<^item> \<open>BlobStore\<close> (\<^verbatim>\<open>blob_store.c\<close>, the commands of \<^verbatim>\<open>w25q.c\<close>): image slots in the pod's external flash, written all or
    nothing across power cuts.
  \<^item> \<open>PodOta\<close> (\<^verbatim>\<open>ota.c\<close> of the pod): update sessions, who may act on them, what is let through to a slot or to the
    firmware copy, and the watchdog on stalled sessions. The signature policy may change at any step.
  \<^item> \<open>OtaCommit\<close> (\<^verbatim>\<open>ota_commit.c\<close>): the copy of the verified image over the running firmware, with the raw reads and the
    flash as parameters: a refused firmware commit leaves the internal flash alone, one that resets has flashed the
    verified image, and one of more than 1 MB is refused.
  \<^item> \<open>WbClient\<close> (\<^verbatim>\<open>wifi_bridge.c\<close>): the pod's client of the bridge: one request at a time, resent and timed out on a
    wrapping clock; which answers it takes, and that the frame it sends in parts is the one the protocol's signer builds.
  \<^item> \<open>BridgeCtl\<close> (\<^verbatim>\<open>main/control.c\<close>, \<^verbatim>\<open>main/creds.c\<close>, \<^verbatim>\<open>eth_input\<close> of \<^verbatim>\<open>main/eth.c\<close>): the bridge's receive task, where the
    pod's MAC is learned, its control task, request by request, and its stored settings: only the holder of the
    pairing key is obeyed.
  \<^item> \<open>WbOta\<close> (\<^verbatim>\<open>wifi_bridge_ota.c\<close>): the pod's relay of the bridge's firmware, poll by poll: the requests come in order
    and carry the slot's bytes.
  \<^item> \<open>BridgeLink\<close>, \<open>UpdateLink\<close>: the ends composed over the wire. Wi-Fi credentials that the pod takes are stored by
    the bridge as given; an image in the pod's slot becomes the image the bridge boots (with the callbacks \<open>ro_start\<close>
    and \<open>ro_take\<close> of \<^verbatim>\<open>wifi_bridge_net.c\<close>).

  \<^bold>\<open>How the code is modelled.\<close> A struct is a record, an enum a datatype (or its value where the code
  compares or stores it as a number), an unsigned integer of width w a word of width w with its
  wrap-around, \<^verbatim>\<open>size_t\<close> a natural number, a byte buffer a list of bytes, and a pointer into a buffer an
  offset or the rest of the list. File-level state is passed explicitly. An operation that may fail
  returns an option or an error text as the C function does. A loop without a counter is a partial
  function whose \<open>None\<close> is running forever, or a function with a proof of termination; no fuel is used.
  Interleavings, power cuts, segmentations and histories are lists of events that the theorems quantify
  over. Code that is not in the repository is a parameter: SHA-512, Ed25519, BLAKE2b, the stream cipher
  and X25519 of Monocypher, the random generator, the answers of the ESP-IDF partition API, and the flash
  controller, of which the theory \<open>Flash\<close> says what is assumed.

  \<^bold>\<open>What the theorems show about the code beside its correctness.\<close> A planned reset after a healthy boot
  brings back the failed-boot count of an older crash (\<open>BootGuard.planned_reset_forgets_healthy\<close>); the refinement of the
  counter excludes exactly these histories. On the bridge, a transfer begun between a successful end and the reboot overwrites the
  partition that boots next, signed or not (\<open>BridgeOta.begin_overwrites_boot_image\<close>). The pod reads its signature policy
  when a session begins and not again when the image is installed or flashed
  (\<open>PodOta.install_ignores_policy\<close>, \<open>OtaCommit.unsigned_flashed_under_required\<close>). A firmware image between 1 MB and
  1920 KB is received and verified, and then refused by the commit (the second half of \<open>OtaCommit.commit_installs\<close>). A
  sample count above \<open>2 ^ 31\<close> wraps before the capacity check of the zone planner
  (\<open>Psram.psram_plan_sample_wrap\<close>). An update session that began at the wrap of the millisecond clock is abandoned at
  once (\<open>PodOta.watchdog_clock_zero\<close>). A bridge update whose chunk cannot be read while it is to be sent again leaves
  \<open>resend\<close> set, and the next one hangs (\<open>WbOta.relay_stale_resend_hangs\<close>). The second pass of the firmware commit
  ignores the result of its
  checked reads (\<open>OtaCommit.write_pass\<close> counts them in \<open>m_bad\<close>).

  \<^bold>\<open>Not modelled.\<close> The drivers and what is pure hardware access: the signal engine, the iCE40 and PSRAM
  drivers, USB, Ethernet, the display, the sensors' buses. The network servers, the TLS port and the DHCP
  glue, which are calls into lwIP and mbedTLS. The console, the dispatch and the handlers of single commands, which
  mostly format text and call drivers. The cloud client beyond its receive path and the drop of the link. What the ESP32's receive task does with a
  frame that is not for the control task. The bench self-test of
  \<^verbatim>\<open>ota_commit.c\<close>. Power profiles, ADC calibration and DAC
  limits, which are floating point. The bridge's console, Wi-Fi and board
  files, which are calls into ESP-IDF. Vendored code (Monocypher, lwIP, FreeRTOS, the HAL), generated files,
  the Verilog gateware, scripts and host tests.
\<close>

end
